(* ===== verification/Rejection_Codes.thy ===== *)
theory Rejection_Codes
  imports Main
begin

text \<open>
  Data that errors carry: JSON values, and the versioned rejection codes of
  \<open>scenario/rejection_codes.py\<close> with the record of one rejection. The operations on them are
  in \<open>Rejections\<close>.
\<close>

datatype json =
    JNull
  | JBool bool
  | JInt int
  | JStr string
  | JList "json list"
  | JObj "(string \<times> json) list"

datatype rejection_code =
    ISA_DISALLOWED_OPERATION
  | ISA_UNEXPECTED_OPERAND
  | ISA_RESERVED_IMM_BIT
  | FIELD_BAD_REGISTER
  | FIELD_REGISTER_CONFLICT
  | FIELD_BAD_IMMEDIATE
  | FIELD_BAD_SHAMT
  | FIELD_BAD_ALIGNMENT
  | FIELD_BAD_ADDRESS
  | FRAGMENT_INVALID_SEQUENCE
  | FRAGMENT_EXCEEDS_ADDRESS_SPACE
  | MMIO_BAD_WINDOW
  | MMIO_BAD_PERMISSION
  | MMIO_BAD_WIDTH
  | MMIO_NO_WINDOW
  | MMIO_OUT_OF_WINDOW
  | MMIO_READ_ONLY
  | MMIO_WRITE_ONLY
  | MMIO_WINDOW_DENIED
  | MMIO_NO_ALIGNED_ADDRESS
  | DECODE_MALFORMED_RECORD
  | DECODE_MALFORMED_ENTROPY
  | DECODE_MALFORMED_SEED
  | DECODE_UNBOUNDED_INPUT
  | DECODE_BAD_COVERAGE_HINT
  | OWNERSHIP_BOUND_INPUT
  | OWNERSHIP_FIXED_INPUT
  | OWNERSHIP_UNDECLARED_FIELD
  | OWNERSHIP_RANGE_EXCEEDS_FIELD
  | OWNERSHIP_AMBIGUOUS_PRODUCER
  | SLOT_OUT_OF_RESERVATION
  | SLOT_MATERIALIZED
  | SLOT_ALREADY_CONSUMED
  | SLOT_PROPOSAL_MISMATCH
  | BUDGET_EXHAUSTED
  | PATH_UNDECLARED
  | PATH_SOURCE_MISMATCH

text \<open>The detail is \<open>None\<close> or a mapping with its keys in order.\<close>

record rejection =
  code :: rejection_code
  pointer :: string
  detail :: "(string \<times> json) list option"
  schema_version :: string

end
