(* ===== verification/Prelude.thy ===== *)
theory Prelude
  imports Rejection_Codes "HOL-Library.AList" "HOL-Library.Word" "HOL-Library.List_Lexorder"
    "HOL-Library.Char_ord" "HOL-Library.Product_Lexorder"
begin

text \<open>
  The vocabulary every component shares: exceptions as values of a sum type, Python's
  insertion-ordered dictionaries as association lists, byte strings as lists of 8-bit words,
  half-open address windows, and the lemma collections the component proofs draw on.
  A Python argument carries its annotated type: a guard that only tests the run-time type of an
  argument (\<open>isinstance\<close>, \<open>type(x) is int\<close>) holds by typing, every other guard is
  a branch of the model. Python integers are \<open>int\<close>, so a negative value is a real input.
\<close>

unbundle bit_operations_syntax

named_theorems res_simps \<open>unfolding of the error plumbing\<close>
named_theorems dict_simps \<open>lookups and lengths of dictionaries after an update\<close>

section \<open>Exceptions as values\<close>

datatype exc =
    ValueError string
  | RuntimeError string
  | InstructionNotReady string
  | KeyError string
  | IndexError string
  | OperationError string
  | TypeError string
  | AssertionError string
  | ConstraintIrError string
  | OverflowError string
  | StopIteration string
  | RejectionError string rejection

type_synonym 'a res = "exc + 'a"

definition res_bind :: "'a res \<Rightarrow> ('a \<Rightarrow> 'b res) \<Rightarrow> 'b res" where
  "res_bind r f = (case r of Inl e \<Rightarrow> Inl e | Inr x \<Rightarrow> f x)"

definition check :: "bool \<Rightarrow> exc \<Rightarrow> unit res" where
  "check ok e = (if ok then Inr () else Inl e)"

definition is_ok :: "'a res \<Rightarrow> bool" where
  "is_ok r = (case r of Inl _ \<Rightarrow> False | Inr _ \<Rightarrow> True)"

fun check_all :: "('a \<Rightarrow> unit res) \<Rightarrow> 'a list \<Rightarrow> unit res" where
  "check_all f [] = Inr ()"
| "check_all f (x # xs) = res_bind (f x) (\<lambda>_. check_all f xs)"

fun map_res :: "('a \<Rightarrow> 'b res) \<Rightarrow> 'a list \<Rightarrow> 'b list res" where
  "map_res f [] = Inr []"
| "map_res f (x # xs) = res_bind (f x) (\<lambda>y. res_bind (map_res f xs) (\<lambda>ys. Inr (y # ys)))"

lemma map_res_cong [fundef_cong]:
  "xs = ys \<Longrightarrow> (\<And>x. x \<in> set ys \<Longrightarrow> f x = g x) \<Longrightarrow> map_res f xs = map_res g ys"
  by (induction ys arbitrary: xs) auto

fun fold_res :: "('s \<Rightarrow> 'a \<Rightarrow> 's res) \<Rightarrow> 's \<Rightarrow> 'a list \<Rightarrow> 's res" where
  "fold_res f s [] = Inr s"
| "fold_res f s (x # xs) = res_bind (f s x) (\<lambda>s'. fold_res f s' xs)"

section \<open>Dictionaries\<close>

text \<open>
  \<open>AList.update\<close> replaces an existing key in place and appends a new one at the end, which
  is the iteration order of a Python dictionary; \<open>map_of\<close> looks a key up.
\<close>

type_synonym ('k, 'v) dict = "('k \<times> 'v) list"

abbreviation dict_set :: "('k, 'v) dict \<Rightarrow> 'k \<Rightarrow> 'v \<Rightarrow> ('k, 'v) dict" where
  "dict_set d k v \<equiv> AList.update k v d"

abbreviation dict_del :: "('k, 'v) dict \<Rightarrow> 'k \<Rightarrow> ('k, 'v) dict" where
  "dict_del d k \<equiv> AList.delete k d"

definition dict_has :: "('k, 'v) dict \<Rightarrow> 'k \<Rightarrow> bool" where
  "dict_has d k = (map_of d k \<noteq> None)"

definition dict_get :: "('k, 'v) dict \<Rightarrow> 'k \<Rightarrow> 'v \<Rightarrow> 'v" where
  "dict_get d k v = (case map_of d k of None \<Rightarrow> v | Some w \<Rightarrow> w)"

abbreviation dict_wf :: "('k, 'v) dict \<Rightarrow> bool" where
  "dict_wf d \<equiv> distinct (map fst d)"

text \<open>Setting a list of keys one after the other, as a \<open>for\<close> loop of assignments does.\<close>

fun dict_set_all :: "('k, 'v) dict \<Rightarrow> ('k \<times> 'v) list \<Rightarrow> ('k, 'v) dict" where
  "dict_set_all d [] = d"
| "dict_set_all d (kv # kvs) = dict_set_all (dict_set d (fst kv) (snd kv)) kvs"

section \<open>Bytes\<close>

type_synonym u8 = "8 word"
type_synonym bytes = "8 word list"

fun from_bytes_little :: "bytes \<Rightarrow> int" where
  "from_bytes_little [] = 0"
| "from_bytes_little (b # bs) = uint b + 256 * from_bytes_little bs"

fun to_bytes_little :: "nat \<Rightarrow> int \<Rightarrow> bytes" where
  "to_bytes_little 0 v = []"
| "to_bytes_little (Suc n) v = word_of_int v # to_bytes_little n (v div 256)"

text \<open>The byte \<open>value >> (8 * lane) & 0xff\<close> of an integer.\<close>

definition byte_lane :: "int \<Rightarrow> int \<Rightarrow> u8" where
  "byte_lane value lane = word_of_int (drop_bit (nat (8 * lane)) value)"

definition bit_lane :: "int \<Rightarrow> int \<Rightarrow> bool" where
  "bit_lane enables lane = bit enables (nat lane)"

text \<open>The field \<open>(value >> lo) & (2 ** n - 1)\<close> of an integer.\<close>

definition bits :: "nat \<Rightarrow> nat \<Rightarrow> int \<Rightarrow> int" where
  "bits lo n value = take_bit n (drop_bit lo value)"

definition hex_digit :: "nat \<Rightarrow> char" where
  "hex_digit n = ''0123456789abcdef'' ! (n mod 16)"

fun bytes_hex :: "bytes \<Rightarrow> string" where
  "bytes_hex [] = []"
| "bytes_hex (b # bs) = hex_digit (unat b div 16) # hex_digit (unat b) # bytes_hex bs"

definition hex_value :: "char \<Rightarrow> nat option" where
  "hex_value c =
     (if CHR ''0'' \<le> c \<and> c \<le> CHR ''9'' then Some (of_char c - 48)
      else if CHR ''a'' \<le> c \<and> c \<le> CHR ''f'' then Some (of_char c - 87)
      else if CHR ''A'' \<le> c \<and> c \<le> CHR ''F'' then Some (of_char c - 55)
      else None)"

definition hex_space :: "char \<Rightarrow> bool" where
  "hex_space c = (of_char c \<in> {32, 9, 10, 11, 12, 13 :: nat})"

text \<open>\<open>bytes.fromhex\<close>: pairs of digits, white space allowed between the pairs.\<close>

fun bytes_fromhex :: "string \<Rightarrow> bytes option" where
  "bytes_fromhex [] = Some []"
| "bytes_fromhex (c # cs) =
     (if hex_space c then bytes_fromhex cs
      else case cs of [] \<Rightarrow> None
        | d # ds \<Rightarrow> (case (hex_value c, hex_value d) of
            (Some h, Some l) \<Rightarrow> map_option ((#) (of_nat (16 * h + l))) (bytes_fromhex ds)
          | _ \<Rightarrow> None))"

section \<open>Half-open windows\<close>

definition windows_overlap :: "int \<times> int \<Rightarrow> int \<times> int \<Rightarrow> bool" where
  "windows_overlap w v = (fst w < snd v \<and> fst v < snd w)"

section \<open>Lemmas on errors\<close>

text \<open>Keys of dictionaries are often tuples; quantifiers over them stay unsplit.\<close>

declare split_paired_All [simp del] split_paired_Ex [simp del]

lemma res_bind_simps [simp, res_simps]:
  "res_bind (Inl e) f = Inl e"
  "res_bind (Inr x) f = f x"
  by (simp_all add: res_bind_def)

lemma res_bind_eq_Inr [simp]:
  "res_bind r f = Inr y \<longleftrightarrow> (\<exists>x. r = Inr x \<and> f x = Inr y)"
  by (cases r) simp_all

lemma check_simps [simp, res_simps]:
  "check True e = Inr ()"
  "check False e = Inl e"
  "check ok e = Inr u \<longleftrightarrow> ok"
  "res_bind (check ok e) f = (if ok then f () else Inl e)"
  by (simp_all add: check_def)

lemma is_ok_simps [simp]:
  "is_ok (Inl e) = False"
  "is_ok (Inr x) = True"
  by (simp_all add: is_ok_def)

lemma is_ok_iff: "is_ok r \<longleftrightarrow> (\<exists>x. r = Inr x)"
  by (cases r) simp_all

lemma check_all_Inr [simp]: "check_all f xs = Inr u \<longleftrightarrow> (\<forall>x \<in> set xs. f x = Inr ())"
  by (induction xs) auto

lemma map_res_Inr_length: "map_res f xs = Inr ys \<Longrightarrow> length ys = length xs"
  by (induction xs arbitrary: ys) auto

lemma map_res_all_ok: "(\<exists>ys. map_res f xs = Inr ys) \<longleftrightarrow> (\<forall>x \<in> set xs. is_ok (f x))"
  by (induction xs) (auto simp: is_ok_iff)

lemma map_res_Inr_iff: "map_res f xs = Inr ys \<longleftrightarrow> list_all2 (\<lambda>x y. f x = Inr y) xs ys"
  by (induction xs arbitrary: ys) (auto simp: list_all2_Cons1)

lemma fold_res_append:
  "fold_res f s (xs @ ys) = res_bind (fold_res f s xs) (\<lambda>s'. fold_res f s' ys)"
proof (induction xs arbitrary: s)
  case (Cons x xs)
  then show ?case by (cases "f s x") simp_all
qed simp

lemma fold_res_invariant:
  assumes "fold_res f s xs = Inr t" and "P s"
    and "\<And>s x t. x \<in> set xs \<Longrightarrow> P s \<Longrightarrow> f s x = Inr t \<Longrightarrow> P t"
  shows "P t"
  using assms
proof (induction xs arbitrary: s)
  case (Cons x xs)
  then obtain s' where s': "f s x = Inr s'" "fold_res f s' xs = Inr t"
    by auto
  have "P s'"
    using Cons.prems(2,3) s'(1) by (meson list.set_intros(1))
  with s'(2) Cons.prems(3) show ?case
    by (intro Cons.IH [of s']) auto
qed simp

section \<open>Lemmas on dictionaries\<close>

lemma map_of_dict_set [dict_simps]:
  "map_of (dict_set d k v) k' = (if k' = k then Some v else map_of d k')"
  by (simp add: update_conv')

lemma map_of_dict_del [dict_simps]:
  "map_of (dict_del d k) k' = (if k' = k then None else map_of d k')"
  by (simp add: delete_conv')

lemma dict_has_set [dict_simps]: "dict_has (dict_set d k v) k' \<longleftrightarrow> k' = k \<or> dict_has d k'"
  by (simp add: dict_has_def dict_simps)

lemma dict_get_set [dict_simps]:
  "dict_get (dict_set d k v) k' w = (if k' = k then v else dict_get d k' w)"
  by (simp add: dict_get_def dict_simps)

lemma dict_has_keys: "dict_has d k \<longleftrightarrow> k \<in> fst ` set d"
  by (simp add: dict_has_def map_of_eq_None_iff)

lemma dict_wf_set [simp, intro]: "dict_wf d \<Longrightarrow> dict_wf (dict_set d k v)"
  by (rule distinct_update)

lemma dict_wf_del [simp, intro]: "dict_wf d \<Longrightarrow> dict_wf (dict_del d k)"
  by (rule distinct_delete)

lemma keys_dict_set: "fst ` set (dict_set d k v) = insert k (fst ` set d)"
  using dom_update [of k v d] by (simp add: dom_map_of_conv_image_fst)

lemma length_dict_set [dict_simps]:
  "length (dict_set d k v) = (if dict_has d k then length d else Suc (length d))"
  by (induction d) (auto simp: dict_has_def)

lemma dict_set_all_append: "dict_set_all d (xs @ ys) = dict_set_all (dict_set_all d xs) ys"
  by (induction xs arbitrary: d) simp_all

lemma dict_wf_set_all [simp, intro]: "dict_wf d \<Longrightarrow> dict_wf (dict_set_all d kvs)"
  by (induction kvs arbitrary: d) simp_all

lemma map_of_dict_set_all:
  "map_of (dict_set_all d kvs) k = (case map_of (rev kvs) k of None \<Rightarrow> map_of d k | Some v \<Rightarrow> Some v)"
proof (induction kvs arbitrary: d)
  case (Cons kv kvs)
  then show ?case
    by (cases kv) (simp add: dict_simps map_add_def split: option.splits)
qed simp

lemma map_of_rev_distinct: "distinct (map fst kvs) \<Longrightarrow> map_of (rev kvs) = map_of kvs"
  by (rule map_of_inject_set [THEN iffD2]) (simp_all add: rev_map [symmetric])

lemma map_of_dict_set_all_distinct:
  assumes "distinct (map fst kvs)"
  shows "map_of (dict_set_all d kvs) k =
    (case map_of kvs k of None \<Rightarrow> map_of d k | Some v \<Rightarrow> Some v)"
  by (simp add: map_of_dict_set_all map_of_rev_distinct [OF assms])

lemma dict_has_set_all: "dict_has (dict_set_all d kvs) k \<longleftrightarrow> k \<in> fst ` set kvs \<or> dict_has d k"
  by (induction kvs arbitrary: d) (auto simp: dict_simps)

lemma length_dict_set_all:
  assumes "distinct (map fst kvs)"
  shows "length (dict_set_all d kvs) = length d + length (filter (\<lambda>kv. \<not> dict_has d (fst kv)) kvs)"
  using assms
proof (induction kvs arbitrary: d)
  case (Cons kv kvs)
  have *: "filter (\<lambda>x. fst x \<noteq> fst kv \<and> \<not> dict_has d (fst x)) kvs = filter (\<lambda>x. \<not> dict_has d (fst x)) kvs"
    using Cons.prems by (intro filter_cong) (auto intro: rev_image_eqI)
  show ?case
    using Cons * by (simp add: dict_simps)
qed simp

lemma dict_set_new: "\<not> dict_has d k \<Longrightarrow> dict_set d k v = d @ [(k, v)]"
  by (induction d) (auto simp: dict_has_def split: if_splits)

lemma dict_set_all_new:
  "distinct (map fst kvs) \<Longrightarrow> (\<forall>kv \<in> set kvs. \<not> dict_has d (fst kv)) \<Longrightarrow> dict_set_all d kvs = d @ kvs"
proof (induction kvs arbitrary: d)
  case (Cons kv kvs)
  then have "dict_set d (fst kv) (snd kv) = d @ [kv]"
    by (simp add: dict_set_new)
  moreover have "dict_set_all (d @ [kv]) kvs = (d @ [kv]) @ kvs"
    using Cons.prems by (intro Cons.IH) (auto simp: dict_has_keys image_iff)
  ultimately show ?case by simp
qed simp

lemma dict_set_subset: "set (dict_set d k v) \<subseteq> insert (k, v) (set d)"
  by (induction d) auto

lemma dict_set_all_subset: "set (dict_set_all [] kvs) \<subseteq> set kvs"
proof -
  have "set (dict_set_all d kvs) \<subseteq> set d \<union> set kvs" for d
  proof (induction kvs arbitrary: d)
    case (Cons kv kvs)
    then show ?case using dict_set_subset [where d = d and k = "fst kv" and v = "snd kv"] by fastforce
  qed simp
  then show ?thesis by fastforce
qed

section \<open>Lemmas on bytes\<close>

lemma length_to_bytes_little [simp]: "length (to_bytes_little n v) = n"
  by (induction n arbitrary: v) simp_all

lemma uint_u8 [simp]: "uint (word_of_int v :: u8) = v mod 256"
  by (simp add: uint_word_of_int)

lemma from_to_bytes_little: "from_bytes_little (to_bytes_little n v) = v mod 256 ^ n"
proof (induction n arbitrary: v)
  case (Suc n)
  have "v mod 256 + 256 * (v div 256 mod 256 ^ n) = v mod (256 * 256 ^ n)"
    by (simp add: zmod_zmult2_eq)
  with Suc show ?case by simp
qed simp

lemma to_from_bytes_little: "to_bytes_little (length bs) (from_bytes_little bs) = bs"
proof (induction bs)
  case (Cons b bs)
  have b: "0 \<le> uint b" "uint b < 256"
    using uint_lt2p [of b] by simp_all
  have "(word_of_int (uint b + 256 * from_bytes_little bs) :: u8) = b"
    by (rule word_uint_eqI, subst uint_u8) (use b in simp)
  moreover have "(uint b + 256 * from_bytes_little bs) div 256 = from_bytes_little bs"
    using b by simp
  ultimately show ?case using Cons by simp
qed simp

lemma from_bytes_little_bounds: "0 \<le> from_bytes_little bs" "from_bytes_little bs < 256 ^ length bs"
proof -
  have "from_bytes_little bs = from_bytes_little bs mod 256 ^ length bs"
    using from_to_bytes_little [of "length bs" "from_bytes_little bs"]
    by (simp add: to_from_bytes_little)
  then show "0 \<le> from_bytes_little bs" "from_bytes_little bs < 256 ^ length bs"
    by (metis pos_mod_sign zero_less_numeral zero_less_power)
      (metis \<open>from_bytes_little bs = from_bytes_little bs mod 256 ^ length bs\<close>
        pos_mod_bound zero_less_numeral zero_less_power)
qed

lemma to_bytes_little_lane: "i < n \<Longrightarrow> to_bytes_little n v ! i = byte_lane v (int i)"
proof (induction n arbitrary: v i)
  case (Suc n)
  show ?case
  proof (cases i)
    case 0
    then show ?thesis by (simp add: byte_lane_def)
  next
    case (Suc j)
    have "nat (8 + 8 * int j) = 8 + nat (8 * int j)"
      by simp
    then have "byte_lane (v div 256) (int j) = byte_lane v (1 + int j)"
      by (simp add: byte_lane_def drop_bit_eq_div power_add zdiv_zmult2_eq ring_distribs)
    with Suc Suc.prems show ?thesis
      by (simp add: Suc.IH)
  qed
qed simp

lemma to_bytes_little_map: "to_bytes_little n v = map (\<lambda>i. byte_lane v (int i)) [0..<n]"
  by (rule nth_equalityI) (simp_all add: to_bytes_little_lane)

section \<open>Lemmas on bit fields\<close>

named_theorems bits_simps \<open>bit fields of composed integers\<close>

lemma bit_bits [bits_simps]: "bit (bits lo n v) i \<longleftrightarrow> i < n \<and> bit v (lo + i)"
  by (simp add: bits_def bit_take_bit_iff bit_drop_bit_eq)

lemma bits_bounds [simp]: "0 \<le> bits lo n v" "bits lo n v < 2 ^ n"
  by (simp_all add: bits_def)

lemma bits_and: "bits lo n (x AND y) = bits lo n x AND bits lo n y"
  by (simp add: bits_def)

lemma bits_or: "bits lo n (x OR y) = bits lo n x OR bits lo n y"
  by (simp add: bits_def)

lemma bits_arith: "bits lo n v = (v div 2 ^ lo) mod 2 ^ n"
  by (simp add: bits_def take_bit_eq_mod drop_bit_eq_div)

lemma bits_0 [simp]: "bits lo n 0 = 0"
  by (simp add: bits_def)

text \<open>Two disjoint masks are tested together or one after the other.\<close>

lemma and_or_split:
  fixes w :: int
  assumes "A AND B = 0" and "a AND A = a" and "b AND B = b"
  shows "w AND (A OR B) = a OR b \<longleftrightarrow> w AND A = a \<and> w AND B = b"
proof
  assume eq: "w AND (A OR B) = a OR b"
  have A: "a AND B = 0" "b AND A = 0"
    using assms by (metis and.assoc and.commute and_zero_eq)+
  have "w AND A = (w AND (A OR B)) AND A" "w AND B = (w AND (A OR B)) AND B"
    by (auto simp: bit_eq_iff bit_simps)
  then show "w AND A = a \<and> w AND B = b"
    unfolding eq using assms A by (simp add: bit.conj_disj_distrib2)
next
  assume "w AND A = a \<and> w AND B = b"
  then show "w AND (A OR B) = a OR b"
    by (simp add: bit.conj_disj_distrib)
qed

lemma and_field: "w AND push_bit lo (mask n) = push_bit lo (bits lo n w)"
  by (auto simp: bit_eq_iff bit_simps bits_simps)

lemma and_field_eq: "w AND push_bit lo (mask n) = push_bit lo v \<longleftrightarrow> bits lo n w = v"
  unfolding and_field by (auto simp: push_bit_eq_mult)

end
