(* ===== verification/Stdlib.thy ===== *)
theory Stdlib
  imports Prelude
begin

text \<open>
  What the sources use of Python's standard library: decimal printing, \<open>repr\<close> of a string,
  canonical \<open>json.dumps\<close> (compact separators, sorted keys, no ASCII escaping) and
  \<open>hashlib.sha256\<close>. A \<open>string\<close> is the UTF-8 byte sequence of a Python string, on
  which lexicographic order is Python's code point order.
\<close>

section \<open>Printing\<close>

fun nat_dec :: "nat \<Rightarrow> string" where
  "nat_dec n = (if n < 10 then [char_of (n + 48)] else nat_dec (n div 10) @ [char_of (n mod 10 + 48)])"

declare nat_dec.simps [simp del]

definition int_dec :: "int \<Rightarrow> string" where
  "int_dec i = (if i < 0 then ''-'' @ nat_dec (nat (- i)) else nat_dec (nat i))"

fun join :: "string \<Rightarrow> string list \<Rightarrow> string" where
  "join sep [] = []"
| "join sep [x] = x"
| "join sep (x # y # ys) = x @ sep @ join sep (y # ys)"

definition string_bytes :: "string \<Rightarrow> bytes" where
  "string_bytes s = map of_char s"

text \<open>\<open>repr\<close> of an ASCII string: single quotes unless the string holds a single quote and
  no double quote; backslash, the chosen quote and control characters are escaped.\<close>

definition repr_char :: "char \<Rightarrow> char \<Rightarrow> string" where
  "repr_char q c =
     (if c = q \<or> c = char_of (92::nat) then [char_of (92::nat), c]
      else if of_char c = (10::nat) then [char_of (92::nat), CHR ''n'']
      else if of_char c = (13::nat) then [char_of (92::nat), CHR ''r'']
      else if of_char c = (9::nat) then [char_of (92::nat), CHR ''t'']
      else if of_char c < (32::nat) \<or> of_char c = (127::nat)
      then [char_of (92::nat), CHR ''x'', hex_digit (of_char c div 16), hex_digit (of_char c)]
      else [c])"

definition py_repr :: "string \<Rightarrow> string" where
  "py_repr s =
     (let single = char_of (39::nat); double = char_of (34::nat);
          q = (if single \<in> set s \<and> double \<notin> set s then double else single)
      in q # concat (map (repr_char q) s) @ [q])"

section \<open>JSON documents\<close>

definition json_char :: "char \<Rightarrow> string" where
  "json_char c =
     (if c = char_of (34::nat) \<or> c = char_of (92::nat) then [char_of (92::nat), c]
      else if of_char c = (10::nat) then [char_of (92::nat), CHR ''n'']
      else if of_char c = (13::nat) then [char_of (92::nat), CHR ''r'']
      else if of_char c = (9::nat) then [char_of (92::nat), CHR ''t'']
      else if of_char c = (8::nat) then [char_of (92::nat), CHR ''b'']
      else if of_char c = (12::nat) then [char_of (92::nat), CHR ''f'']
      else if of_char c < (32::nat)
      then [char_of (92::nat), CHR ''u'', CHR ''0'', CHR ''0'',
            hex_digit (of_char c div 16), hex_digit (of_char c)]
      else [c])"

definition json_str :: "string \<Rightarrow> string" where
  "json_str s = char_of (34::nat) # concat (map json_char s) @ [char_of (34::nat)]"

fun json_dumps :: "json \<Rightarrow> string" where
  "json_dumps JNull = ''null''"
| "json_dumps (JBool b) = (if b then ''true'' else ''false'')"
| "json_dumps (JInt i) = int_dec i"
| "json_dumps (JStr s) = json_str s"
| "json_dumps (JList xs) = ''['' @ join '','' (map json_dumps xs) @ '']''"
| "json_dumps (JObj kvs) =
     ''{'' @ join '','' (map (\<lambda>kv. json_str (fst kv) @ '':'' @ json_dumps (snd kv)) (sort_key fst kvs)) @ ''}''"

text \<open>The same with Python's default \<open>ensure_ascii\<close>: a character outside the printable ASCII range
  becomes one UTF-16 escape, or two above the basic plane.\<close>

fun utf8_points :: "nat list \<Rightarrow> nat list" where
  "utf8_points (b # bs) =
     (if b < 0x80 then b # utf8_points bs
      else case bs of [] \<Rightarrow> [b]
        | c # cs \<Rightarrow>
          if b < 0xe0 then (b mod 32 * 64 + c mod 64) # utf8_points cs
          else (case cs of [] \<Rightarrow> [b]
            | d # ds \<Rightarrow>
              if b < 0xf0 then (b mod 16 * 4096 + c mod 64 * 64 + d mod 64) # utf8_points ds
              else (case ds of [] \<Rightarrow> [b]
                | e # es \<Rightarrow> (b mod 8 * 262144 + c mod 64 * 4096 + d mod 64 * 64 + e mod 64) # utf8_points es)))"
| "utf8_points [] = []"

definition json_unicode :: "nat \<Rightarrow> string" where
  "json_unicode n = [char_of (92::nat), CHR ''u'', hex_digit (n div 4096), hex_digit (n div 256), hex_digit (n div 16), hex_digit n]"

definition json_ascii_point :: "nat \<Rightarrow> string" where
  "json_ascii_point n =
     (if n < 127 then json_char (char_of n)
      else if n < 0x10000 then json_unicode n
      else json_unicode (0xd800 + (n - 0x10000) div 1024) @ json_unicode (0xdc00 + (n - 0x10000) mod 1024))"

definition json_ascii_str :: "string \<Rightarrow> string" where
  "json_ascii_str s =
     char_of (34::nat) # concat (map json_ascii_point (utf8_points (map of_char s))) @ [char_of (34::nat)]"

fun json_dumps_ascii :: "json \<Rightarrow> string" where
  "json_dumps_ascii JNull = ''null''"
| "json_dumps_ascii (JBool b) = (if b then ''true'' else ''false'')"
| "json_dumps_ascii (JInt i) = int_dec i"
| "json_dumps_ascii (JStr s) = json_ascii_str s"
| "json_dumps_ascii (JList xs) = ''['' @ join '','' (map json_dumps_ascii xs) @ '']''"
| "json_dumps_ascii (JObj kvs) =
     ''{'' @ join '','' (map (\<lambda>kv. json_ascii_str (fst kv) @ '':'' @ json_dumps_ascii (snd kv)) (sort_key fst kvs)) @ ''}''"

text \<open>The value that \<open>json.loads\<close> reads back from sorted output: the keys of every object in order.\<close>

fun json_sorted :: "json \<Rightarrow> json" where
  "json_sorted (JList xs) = JList (map json_sorted xs)"
| "json_sorted (JObj kvs) = JObj (sort_key fst (map (\<lambda>kv. (fst kv, json_sorted (snd kv))) kvs))"
| "json_sorted JNull = JNull"
| "json_sorted (JBool b) = JBool b"
| "json_sorted (JInt i) = JInt i"
| "json_sorted (JStr s) = JStr s"

text \<open>\<open>repr\<close> of a JSON value.\<close>

fun json_repr :: "json \<Rightarrow> string" where
  "json_repr JNull = ''None''"
| "json_repr (JBool b) = (if b then ''True'' else ''False'')"
| "json_repr (JInt i) = int_dec i"
| "json_repr (JStr s) = py_repr s"
| "json_repr (JList xs) = ''['' @ join '', '' (map json_repr xs) @ '']''"
| "json_repr (JObj kvs) = ''{'' @ join '', '' (map (\<lambda>kv. py_repr (fst kv) @ '': '' @ json_repr (snd kv)) kvs) @ ''}''"

section \<open>Case and white space\<close>

text \<open>Texts are ASCII, where \<open>str.upper\<close> and \<open>str.lower\<close> move a letter by 32.\<close>

definition char_upper :: "char \<Rightarrow> char" where
  "char_upper c = (if CHR ''a'' \<le> c \<and> c \<le> CHR ''z'' then char_of (of_char c - 32 :: nat) else c)"

definition char_lower :: "char \<Rightarrow> char" where
  "char_lower c = (if CHR ''A'' \<le> c \<and> c \<le> CHR ''Z'' then char_of (of_char c + 32 :: nat) else c)"

definition str_upper :: "string \<Rightarrow> string" where
  "str_upper s = map char_upper s"

definition str_lower :: "string \<Rightarrow> string" where
  "str_lower s = map char_lower s"

definition char_space :: "char \<Rightarrow> bool" where
  "char_space c = (of_char c \<in> {9, 10, 11, 12, 13, 28, 29, 30, 31, 32 :: nat})"

definition str_strip :: "string \<Rightarrow> string" where
  "str_strip s = rev (dropWhile char_space (rev (dropWhile char_space s)))"

section \<open>SHA-256\<close>

definition rotr32 :: "nat \<Rightarrow> 32 word \<Rightarrow> 32 word" where
  "rotr32 n x = word_rotr n x"

definition sha_k :: "32 word list" where
  "sha_k =
    [1116352408, 1899447441, 3049323471, 3921009573, 961987163, 1508970993, 2453635748, 2870763221,
     3624381080, 310598401, 607225278, 1426881987, 1925078388, 2162078206, 2614888103, 3248222580,
     3835390401, 4022224774, 264347078, 604807628, 770255983, 1249150122, 1555081692, 1996064986,
     2554220882, 2821834349, 2952996808, 3210313671, 3336571891, 3584528711, 113926993, 338241895,
     666307205, 773529912, 1294757372, 1396182291, 1695183700, 1986661051, 2177026350, 2456956037,
     2730485921, 2820302411, 3259730800, 3345764771, 3516065817, 3600352804, 4094571909, 275423344,
     430227734, 506948616, 659060556, 883997877, 958139571, 1322822218, 1537002063, 1747873779,
     1955562222, 2024104815, 2227730452, 2361852424, 2428436474, 2756734187, 3204031479, 3329325298]"

definition sha_h0 ::
    "32 word \<times> 32 word \<times> 32 word \<times> 32 word \<times> 32 word \<times> 32 word \<times> 32 word \<times> 32 word" where
  "sha_h0 =
    (1779033703, 3144134277, 1013904242, 2773480762, 1359893119, 2600822924, 528734635, 1541459225)"

text \<open>Padding: a one bit, zeros up to 56 modulo 64 bytes, and the bit length in eight bytes.\<close>

definition sha_pad :: "bytes \<Rightarrow> bytes" where
  "sha_pad m =
     (let l = length m; zeros = (119 - l mod 64) mod 64
      in m @ [0x80] @ replicate zeros 0 @ rev (to_bytes_little 8 (int (8 * l))))"

definition be_word :: "bytes \<Rightarrow> 32 word" where
  "be_word bs = word_of_int (from_bytes_little (rev bs))"

fun block_words :: "nat \<Rightarrow> bytes \<Rightarrow> 32 word list" where
  "block_words 0 bs = []"
| "block_words (Suc n) bs = be_word (take 4 bs) # block_words n (drop 4 bs)"

text \<open>The message schedule keeps the last sixteen words, newest last.\<close>

type_synonym sha_state =
  "32 word \<times> 32 word \<times> 32 word \<times> 32 word \<times> 32 word \<times> 32 word \<times> 32 word \<times> 32 word"

definition sha_round :: "32 word \<Rightarrow> 32 word \<Rightarrow> sha_state \<Rightarrow> sha_state" where
  "sha_round k w st = (case st of (a, b, c, d, e, f, g, h) \<Rightarrow>
     (let s1 = rotr32 6 e XOR rotr32 11 e XOR rotr32 25 e;
          ch = (e AND f) XOR (NOT e AND g);
          t1 = h + s1 + ch + k + w;
          s0 = rotr32 2 a XOR rotr32 13 a XOR rotr32 22 a;
          mj = (a AND b) XOR (a AND c) XOR (b AND c)
      in (t1 + s0 + mj, a, b, c, d + t1, e, f, g)))"

definition sha_next_word :: "32 word list \<Rightarrow> 32 word" where
  "sha_next_word w =
     (let x = w ! 1; y = w ! 14;
          g0 = rotr32 7 x XOR rotr32 18 x XOR drop_bit 3 x;
          g1 = rotr32 17 y XOR rotr32 19 y XOR drop_bit 10 y
      in hd w + g0 + w ! 9 + g1)"

fun sha_rounds :: "32 word list \<Rightarrow> 32 word list \<Rightarrow> sha_state \<Rightarrow> sha_state" where
  "sha_rounds [] w st = st"
| "sha_rounds (k # ks) w st = sha_rounds ks (tl w @ [sha_next_word w]) (sha_round k (hd w) st)"

definition sha_block :: "sha_state \<Rightarrow> bytes \<Rightarrow> sha_state" where
  "sha_block st blk =
     (case (st, sha_rounds sha_k (block_words 16 blk) st) of
        ((a, b, c, d, e, f, g, h), (a', b', c', d', e', f', g', h')) \<Rightarrow>
          (a + a', b + b', c + c', d + d', e + e', f + f', g + g', h + h'))"

fun sha_blocks :: "nat \<Rightarrow> sha_state \<Rightarrow> bytes \<Rightarrow> sha_state" where
  "sha_blocks 0 st m = st"
| "sha_blocks (Suc n) st m = sha_blocks n (sha_block st (take 64 m)) (drop 64 m)"

definition sha_words :: "sha_state \<Rightarrow> 32 word list" where
  "sha_words st = (case st of (a, b, c, d, e, f, g, h) \<Rightarrow> [a, b, c, d, e, f, g, h])"

definition sha256 :: "bytes \<Rightarrow> bytes" where
  "sha256 m =
     (let p = sha_pad m
      in concat (map (\<lambda>w. rev (to_bytes_little 4 (uint w))) (sha_words (sha_blocks (length p div 64) sha_h0 p))))"

definition sha256_hex :: "bytes \<Rightarrow> string" where
  "sha256_hex m = bytes_hex (sha256 m)"

section \<open>Lemmas\<close>

lemma length_bytes_hex [simp]: "length (bytes_hex bs) = 2 * length bs"
  by (induction bs) simp_all

lemma length_sha256 [simp]: "length (sha256 m) = 32"
proof -
  have "length (sha_words st) = 8" for st
    by (simp add: sha_words_def split: prod.splits)
  then show ?thesis
    by (simp add: sha256_def Let_def length_concat comp_def sum_list_triv)
qed

lemma length_sha256_hex [simp]: "length (sha256_hex m) = 64"
  by (simp add: sha256_hex_def)

text \<open>The hexadecimal form of a byte string reads back, and is lower case.\<close>

lemma hex_digit_table:
  "\<forall>k \<in> {0..<16}. hex_value (''0123456789abcdef'' ! k) = Some k \<and> \<not> hex_space (''0123456789abcdef'' ! k)"
  by code_simp

lemma hex_digit_value: "hex_value (hex_digit n) = Some (n mod 16)"
  using hex_digit_table unfolding hex_digit_def by (meson atLeastLessThan_iff le0 mod_less_divisor zero_less_numeral)

lemma hex_digit_not_space: "\<not> hex_space (hex_digit n)"
  using hex_digit_table unfolding hex_digit_def by (meson atLeastLessThan_iff le0 mod_less_divisor zero_less_numeral)

lemma fromhex_hex [simp]: "bytes_fromhex (bytes_hex bs) = Some bs"
proof (induction bs)
  case (Cons b bs)
  have "unat b < 256"
    using unsigned_less [of b] by simp
  then have "of_nat (16 * (unat b div 16 mod 16) + unat b mod 16) = b"
    by (simp add: mult_div_mod_eq)
  with Cons show ?case
    by (simp add: hex_digit_not_space hex_digit_value)
qed simp

end
