(* ===== verification/Interfaces.thy ===== *)
theory Interfaces
  imports Prelude
begin

text \<open>
  The contracts the components share, as locales: a machine whose steps keep an invariant and
  never undo what they made permanent, a simulation of an abstract machine, a table of disjoint address windows, and an encoding with
  a decoder. Each is interpreted on the model's own definitions in the theory that provides them.
\<close>

section \<open>Machines\<close>

text \<open>
  A component is driven by a sequence of calls; \<open>step\<close> is the state after one call, also
  when the call raises (Python keeps what a method wrote before it raised).
\<close>

locale machine =
  fixes step :: "'s \<Rightarrow> 'e \<Rightarrow> 's" and inv :: "'s \<Rightarrow> bool"
  assumes step_inv: "inv s \<Longrightarrow> inv (step s e)"
begin

lemma run_inv: "inv s \<Longrightarrow> inv (foldl step s es)"
  by (induction es arbitrary: s) (simp_all add: step_inv)

end

locale progressing_machine = machine +
  fixes le :: "'s \<Rightarrow> 's \<Rightarrow> bool"
  assumes le_refl: "le s s"
    and le_trans: "le s t \<Longrightarrow> le t u \<Longrightarrow> le s u"
    and step_le: "inv s \<Longrightarrow> le s (step s e)"
begin

lemma run_le: "inv s \<Longrightarrow> le s (foldl step s es)"
proof (induction es arbitrary: s)
  case Nil
  then show ?case by (simp add: le_refl)
next
  case (Cons e es)
  have "le (step s e) (foldl step (step s e) es)"
    by (rule Cons.IH) (simp add: step_inv Cons.prems)
  with step_le [OF Cons.prems] show ?case
    by (auto intro: le_trans)
qed

end

section \<open>Refinement\<close>

text \<open>
  An abstract machine describes what a component promises; the component simulates it when one
  call, on an input the contract admits, keeps the relation between abstract and concrete state.
\<close>

locale simulation =
  fixes astep :: "'a \<Rightarrow> 'e \<Rightarrow> 'a" and cstep :: "'s \<Rightarrow> 'e \<Rightarrow> 's" and admits :: "'e \<Rightarrow> bool" and rel :: "'a \<Rightarrow> 's \<Rightarrow> bool"
  assumes step_rel: "rel a s \<Longrightarrow> admits e \<Longrightarrow> rel (astep a e) (cstep s e)"
begin

lemma run_rel: "rel a s \<Longrightarrow> \<forall>e \<in> set es. admits e \<Longrightarrow> rel (foldl astep a es) (foldl cstep s es)"
  by (induction es arbitrary: a s) (simp_all add: step_rel)

end

section \<open>Window tables\<close>

definition in_window :: "('w \<Rightarrow> int) \<Rightarrow> ('w \<Rightarrow> int) \<Rightarrow> int \<Rightarrow> 'w \<Rightarrow> bool" where
  "in_window lo hi a w \<longleftrightarrow> lo w \<le> a \<and> a < hi w"

text \<open>A list of windows that was built by refusing each window that overlaps an earlier one.\<close>

fun disjoint_list :: "('w \<Rightarrow> int) \<Rightarrow> ('w \<Rightarrow> int) \<Rightarrow> 'w list \<Rightarrow> bool" where
  "disjoint_list lo hi [] = True"
| "disjoint_list lo hi (w # ws) =
     ((\<forall>v \<in> set ws. \<not> windows_overlap (lo w, hi w) (lo v, hi v)) \<and> disjoint_list lo hi ws)"

locale window_table =
  fixes lo :: "'w \<Rightarrow> int" and hi :: "'w \<Rightarrow> int" and admitted :: "'w list \<Rightarrow> bool"
  assumes admitted_disjoint: "admitted ws \<Longrightarrow> disjoint_list lo hi ws"
begin

lemma find_in_window:
  assumes "disjoint_list lo hi ws" and "w \<in> set ws" and "in_window lo hi a w"
  shows "find (in_window lo hi a) ws = Some w"
  using assms
proof (induction ws)
  case (Cons v ws)
  show ?case
  proof (cases "w = v")
    case True
    with Cons.prems show ?thesis by simp
  next
    case False
    with Cons.prems have "w \<in> set ws" by simp
    with Cons.prems have "\<not> in_window lo hi a v"
      by (auto simp: in_window_def windows_overlap_def)
    with Cons \<open>w \<in> set ws\<close> show ?thesis by simp
  qed
qed simp

text \<open>The first window that holds an address is the only one: the owner of an address does not
  depend on the order in which windows were declared.\<close>

lemma owner_unique:
  assumes "admitted ws"
  shows "find (in_window lo hi a) ws = Some w \<longleftrightarrow> w \<in> set ws \<and> in_window lo hi a w"
proof
  assume "find (in_window lo hi a) ws = Some w"
  then show "w \<in> set ws \<and> in_window lo hi a w"
    by (auto simp: find_Some_iff)
next
  assume "w \<in> set ws \<and> in_window lo hi a w"
  then show "find (in_window lo hi a) ws = Some w"
    using find_in_window admitted_disjoint [OF assms] by blast
qed

lemma owner_reorder:
  assumes "admitted ws" and "admitted vs" and "set ws = set vs"
  shows "find (in_window lo hi a) ws = find (in_window lo hi a) vs"
proof (cases "find (in_window lo hi a) ws")
  case None
  with assms(3) have "find (in_window lo hi a) vs = None"
    by (simp add: find_None_iff)
  with None show ?thesis by simp
next
  case (Some w)
  then have "find (in_window lo hi a) vs = Some w"
    using owner_unique [OF assms(1)] owner_unique [OF assms(2)] assms(3) by simp
  with Some show ?thesis by simp
qed

end

section \<open>Encodings\<close>

locale encoding =
  fixes enc :: "'a \<Rightarrow> 'b" and dec :: "'b \<Rightarrow> 'a option" and valid :: "'a \<Rightarrow> bool"
  assumes dec_enc: "valid x \<Longrightarrow> dec (enc x) = Some x"
begin

lemma enc_inj: "valid x \<Longrightarrow> valid y \<Longrightarrow> enc x = enc y \<longleftrightarrow> x = y"
  using dec_enc by (metis option.inject)

lemma enc_inj_on: "inj_on enc {x. valid x}"
  by (rule inj_onI) (simp add: enc_inj)

end

section \<open>Lemmas on window lists\<close>

lemma windows_overlap_sym: "windows_overlap v w \<longleftrightarrow> windows_overlap w v"
  by (auto simp: windows_overlap_def)

lemma disjoint_list_snoc:
  "disjoint_list lo hi (ws @ [v]) \<longleftrightarrow>
   disjoint_list lo hi ws \<and> (\<forall>w \<in> set ws. \<not> windows_overlap (lo v, hi v) (lo w, hi w))"
  by (induction ws) (auto simp: windows_overlap_sym)

end
