(* ===== verification/Ledger.thy ===== *)
theory Ledger
  imports Stdlib Interfaces
begin

text \<open>
  Transaction identities and the in-process at-most-once ledger
  (\<open>src/src/myfuzz/scenario/ledger.py\<close>). An \<open>operation\<close> callback is a function on the
  world outside the ledger that returns a receipt or raises; the ledger decides whether it runs.
\<close>

section \<open>Model\<close>

record transaction_key =
  execution_id :: string
  testcase_id :: string
  source_component :: string
  source_epoch :: int
  channel_id :: string
  source_sequence :: int

definition make_transaction_key :: "string \<Rightarrow> string \<Rightarrow> string \<Rightarrow> int \<Rightarrow> string \<Rightarrow> int \<Rightarrow> transaction_key res" where
  "make_transaction_key execution testcase component epoch chan sequence =
     (if execution = [] \<or> testcase = [] \<or> component = [] \<or> chan = []
      then Inl (ValueError ''transaction identity fields must be nonempty'')
      else if epoch < 0 then Inl (ValueError ''source_epoch must be nonnegative'')
      else if sequence < 0 then Inl (ValueError ''source_sequence must be nonnegative'')
      else Inr \<lparr>execution_id = execution, testcase_id = testcase, source_component = component,
                source_epoch = epoch, channel_id = chan, source_sequence = sequence\<rparr>)"

datatype status = target_pending | target_inflight | uncertain_effect | complete | cancelled

fun status_str :: "status \<Rightarrow> string" where
  "status_str target_pending = ''target_pending''"
| "status_str target_inflight = ''target_inflight''"
| "status_str uncertain_effect = ''uncertain_effect''"
| "status_str complete = ''complete''"
| "status_str cancelled = ''cancelled''"

record 'r entry =
  payload_digest :: string
  status :: status
  receipt :: "'r option"

type_synonym channel = "string \<times> string \<times> string \<times> int \<times> string"

record 'r ledger =
  entries :: "(transaction_key, 'r entry) dict"
  next_channel_sequence :: "(channel, int) dict"
  next_target_sequence :: "(channel, int) dict"

definition new_ledger :: "'r ledger" where
  "new_ledger = \<lparr>entries = [], next_channel_sequence = [], next_target_sequence = []\<rparr>"

definition key_channel :: "transaction_key \<Rightarrow> channel" where
  "key_channel key =
     (execution_id key, testcase_id key, source_component key, source_epoch key, channel_id key)"

definition digest :: "json \<Rightarrow> string res" where
  "digest payload =
     (case payload of JObj _ \<Rightarrow> Inr (sha256_hex (string_bytes (json_dumps payload)))
      | _ \<Rightarrow> Inl (ValueError ''transaction payload is required''))"

definition pending_keys :: "'r ledger \<Rightarrow> transaction_key list" where
  "pending_keys l = map fst (filter (\<lambda>ke. status (snd ke) = target_pending) (entries l))"

definition uncertain_keys :: "'r ledger \<Rightarrow> transaction_key list" where
  "uncertain_keys l =
     map fst (filter (\<lambda>ke. status (snd ke) = target_inflight \<or> status (snd ke) = uncertain_effect) (entries l))"

definition unresolved_keys :: "'r ledger \<Rightarrow> transaction_key list" where
  "unresolved_keys l =
     map fst (filter (\<lambda>ke. \<not> (status (snd ke) = complete \<or> status (snd ke) = cancelled)) (entries l))"

definition next_channel :: "'r ledger \<Rightarrow> channel \<Rightarrow> int" where
  "next_channel l c = dict_get (next_channel_sequence l) c 1"

definition next_target :: "'r ledger \<Rightarrow> channel \<Rightarrow> int" where
  "next_target l c = dict_get (next_target_sequence l) c 1"

definition target_ready :: "'r ledger \<Rightarrow> transaction_key \<Rightarrow> bool" where
  "target_ready l key =
     (case map_of (entries l) key of None \<Rightarrow> False
      | Some e \<Rightarrow> status e = target_pending \<and> source_sequence key = next_target l (key_channel key))"

definition set_status :: "'r ledger \<Rightarrow> transaction_key \<Rightarrow> 'r entry \<Rightarrow> status \<Rightarrow> 'r ledger" where
  "set_status l key e st = l\<lparr>entries := dict_set (entries l) key (e\<lparr>status := st\<rparr>)\<rparr>"

definition accept :: "'r ledger \<Rightarrow> transaction_key \<Rightarrow> json \<Rightarrow> bool res \<times> 'r ledger" where
  "accept l key payload =
     (case digest payload of Inl e \<Rightarrow> (Inl e, l)
      | Inr d \<Rightarrow>
        (case map_of (entries l) key of
           Some previous \<Rightarrow>
             if payload_digest previous \<noteq> d
             then (Inl (ValueError ''identity_conflict: same key, different payload''), l)
             else if status previous = target_pending \<or> status previous = complete then (Inr False, l)
             else (Inl (RuntimeError (status_str (status previous) @ '': target result is not available'')), l)
         | None \<Rightarrow>
             (let c = key_channel key; expected = next_channel l c
              in if source_sequence key \<noteq> expected
                 then (Inl (ValueError (''out_of_order_transaction: source channel sequence ''
                         @ int_dec (source_sequence key) @ '' expected '' @ int_dec expected)), l)
                 else (Inr True,
                   l\<lparr>entries := dict_set (entries l) key
                        \<lparr>payload_digest = d, status = target_pending, receipt = None\<rparr>,
                     next_channel_sequence := dict_set (next_channel_sequence l) c (expected + 1)\<rparr>))))"

text \<open>The tail that \<open>complete_accepted\<close> and \<open>execute_once\<close> share: the entry is in
  flight, the operation runs, and either its receipt is frozen or the effect is uncertain.\<close>

definition run_target :: "'r ledger \<Rightarrow> transaction_key \<Rightarrow> 'r entry \<Rightarrow> int \<Rightarrow> ('w \<Rightarrow> 'r res \<times> 'w) \<Rightarrow> 'w
    \<Rightarrow> 'r option res \<times> 'r ledger \<times> 'w" where
  "run_target l key e expected operation w =
     (let l1 = set_status l key e target_inflight
      in case operation w of
           (Inl x, w') \<Rightarrow> (Inl x, set_status l1 key e uncertain_effect, w')
         | (Inr r, w') \<Rightarrow>
             (Inr (Some r),
              l1\<lparr>entries := dict_set (entries l1) key (e\<lparr>status := complete, receipt := Some r\<rparr>),
                 next_target_sequence := dict_set (next_target_sequence l1) (key_channel key) (expected + 1)\<rparr>,
              w'))"

definition complete_accepted :: "'r ledger \<Rightarrow> transaction_key \<Rightarrow> json \<Rightarrow> ('w \<Rightarrow> 'r res \<times> 'w) \<Rightarrow> 'w
    \<Rightarrow> 'r option res \<times> 'r ledger \<times> 'w" where
  "complete_accepted l key payload operation w =
     (case digest payload of Inl x \<Rightarrow> (Inl x, l, w)
      | Inr d \<Rightarrow>
        (case map_of (entries l) key of
           None \<Rightarrow> (Inl (ValueError ''transaction was not accepted''), l, w)
         | Some e \<Rightarrow>
             if payload_digest e \<noteq> d
             then (Inl (ValueError ''identity_conflict: same key, different payload''), l, w)
             else if status e = complete then (Inr (receipt e), l, w)
             else if status e \<noteq> target_pending
             then (Inl (RuntimeError (status_str (status e) @ '': target result is not available'')), l, w)
             else
               (let c = key_channel key; expected = next_target l c
                in if source_sequence key \<noteq> expected
                   then (Inl (ValueError (''out_of_order_target_delivery: source channel sequence ''
                           @ int_dec (source_sequence key) @ '' expected '' @ int_dec expected)), l, w)
                   else run_target l key e expected operation w)))"

definition cancel_accepted :: "'r ledger \<Rightarrow> transaction_key \<Rightarrow> json \<Rightarrow> unit res \<times> 'r ledger" where
  "cancel_accepted l key payload =
     (case digest payload of Inl x \<Rightarrow> (Inl x, l)
      | Inr d \<Rightarrow>
        (case map_of (entries l) key of
           None \<Rightarrow> (Inl (ValueError ''transaction identity does not match accepted request''), l)
         | Some e \<Rightarrow>
             if payload_digest e \<noteq> d
             then (Inl (ValueError ''transaction identity does not match accepted request''), l)
             else if status e \<noteq> target_pending
             then (Inl (RuntimeError ''only an undelivered target request can be cancelled''), l)
             else
               (let c = key_channel key; expected = next_target l c
                in if source_sequence key \<noteq> expected
                   then (Inl (ValueError ''out_of_order_target_delivery: cancellation order changed''), l)
                   else (Inr (),
                     (set_status l key e cancelled)
                       \<lparr>next_target_sequence := dict_set (next_target_sequence l) c (expected + 1)\<rparr>))))"

definition execute_once :: "'r ledger \<Rightarrow> transaction_key \<Rightarrow> json \<Rightarrow> ('w \<Rightarrow> 'r res \<times> 'w) \<Rightarrow> 'w
    \<Rightarrow> 'r option res \<times> 'r ledger \<times> 'w" where
  "execute_once l key payload operation w =
     (case digest payload of Inl x \<Rightarrow> (Inl x, l, w)
      | Inr d \<Rightarrow>
        (case map_of (entries l) key of
           Some previous \<Rightarrow>
             if payload_digest previous \<noteq> d
             then (Inl (ValueError ''identity_conflict: same key, different payload''), l, w)
             else if status previous \<noteq> complete
             then (Inl (RuntimeError ''uncertain_effect: target result is not known''), l, w)
             else (Inr (receipt previous), l, w)
         | None \<Rightarrow>
             (let c = key_channel key; expected_sequence = next_channel l c; expected_target = next_target l c
              in if source_sequence key \<noteq> expected_sequence
                 then (Inl (ValueError (''out_of_order_transaction: source channel sequence ''
                         @ int_dec (source_sequence key) @ '' expected '' @ int_dec expected_sequence)), l, w)
                 else if source_sequence key \<noteq> expected_target
                 then (Inl (ValueError (''out_of_order_target_delivery: source channel sequence ''
                         @ int_dec (source_sequence key) @ '' expected '' @ int_dec expected_target)), l, w)
                 else
                   (let e = \<lparr>payload_digest = d, status = target_pending, receipt = None\<rparr>;
                        l1 = l\<lparr>entries := dict_set (entries l) key e,
                               next_channel_sequence :=
                                 dict_set (next_channel_sequence l) c (expected_sequence + 1)\<rparr>
                    in run_target l1 key e expected_target operation w))))"

text \<open>\<open>str(key)\<close>: the representation the dataclass generates.\<close>

definition key_str :: "transaction_key \<Rightarrow> string" where
  "key_str key =
     ''TransactionKey(execution_id='' @ py_repr (execution_id key)
     @ '', testcase_id='' @ py_repr (testcase_id key)
     @ '', source_component='' @ py_repr (source_component key)
     @ '', source_epoch='' @ int_dec (source_epoch key)
     @ '', channel_id='' @ py_repr (channel_id key)
     @ '', source_sequence='' @ int_dec (source_sequence key) @ '')''"

definition key_document :: "transaction_key \<Rightarrow> json" where
  "key_document key =
     JObj [(''execution_id'', JStr (execution_id key)), (''testcase_id'', JStr (testcase_id key)),
           (''source_component'', JStr (source_component key)), (''source_epoch'', JInt (source_epoch key)),
           (''channel_id'', JStr (channel_id key)), (''source_sequence'', JInt (source_sequence key))]"

section \<open>The ledger invariant\<close>

text \<open>
  Between calls: every accepted key lies below the next source sequence of its channel, every
  sequence number below it belongs to an entry, the entries below the next target sequence are
  exactly the finished ones, no entry is in flight, only the head of a channel can be uncertain,
  and exactly the complete entries hold a receipt.
\<close>

definition finished :: "status \<Rightarrow> bool" where
  "finished st \<longleftrightarrow> st = complete \<or> st = cancelled"

definition entry_ok :: "'r ledger \<Rightarrow> transaction_key \<Rightarrow> 'r entry \<Rightarrow> bool" where
  "entry_ok l key e \<longleftrightarrow>
     (let c = key_channel key; s = source_sequence key
      in 1 \<le> s \<and> s < next_channel l c
       \<and> (s < next_target l c \<longleftrightarrow> finished (status e))
       \<and> status e \<noteq> target_inflight
       \<and> (next_target l c < s \<longrightarrow> status e = target_pending)
       \<and> (receipt e \<noteq> None \<longleftrightarrow> status e = complete))"

definition ledger_inv :: "'r ledger \<Rightarrow> bool" where
  "ledger_inv l \<longleftrightarrow>
     dict_wf (entries l)
   \<and> (\<forall>key e. map_of (entries l) key = Some e \<longrightarrow> entry_ok l key e)
   \<and> (\<forall>c. 1 \<le> next_target l c \<and> next_target l c \<le> next_channel l c)
   \<and> (\<forall>key. 1 \<le> source_sequence key \<and> source_sequence key < next_channel l (key_channel key)
        \<longrightarrow> map_of (entries l) key \<noteq> None)"

text \<open>One call of a ledger method. The operation of an executing call records its key in the
  log and then yields the outcome the call carries, a receipt or an exception.\<close>

datatype 'r ledger_call =
    Accept transaction_key json
  | Complete transaction_key json "'r res"
  | Cancel transaction_key json
  | Execute transaction_key json "'r res"

definition logged :: "transaction_key \<Rightarrow> 'r res \<Rightarrow> transaction_key list \<Rightarrow> 'r res \<times> transaction_key list" where
  "logged key outcome log = (outcome, log @ [key])"

fun ledger_step :: "'r ledger \<times> transaction_key list \<Rightarrow> 'r ledger_call \<Rightarrow> 'r ledger \<times> transaction_key list" where
  "ledger_step (l, log) (Accept key p) = (snd (accept l key p), log)"
| "ledger_step (l, log) (Complete key p r) = snd (complete_accepted l key p (logged key r) log)"
| "ledger_step (l, log) (Cancel key p) = (snd (cancel_accepted l key p), log)"
| "ledger_step (l, log) (Execute key p r) = snd (execute_once l key p (logged key r) log)"

text \<open>The executions on one channel come in strictly increasing source order.\<close>

definition channel_log :: "channel \<Rightarrow> transaction_key list \<Rightarrow> int list" where
  "channel_log c log = map source_sequence (filter (\<lambda>k. key_channel k = c) log)"

definition log_inv :: "'r ledger \<times> transaction_key list \<Rightarrow> bool" where
  "log_inv s \<longleftrightarrow>
     ledger_inv (fst s)
   \<and> (\<forall>c. sorted_wrt (<) (channel_log c (snd s)))
   \<and> (\<forall>key \<in> set (snd s). \<exists>e. map_of (entries (fst s)) key = Some e
        \<and> (status e = complete \<or> status e = uncertain_effect))"

text \<open>What a ledger never takes back: a complete entry keeps its receipt, a cancelled or
  uncertain entry keeps its status.\<close>

definition ledger_le :: "'r ledger \<times> transaction_key list \<Rightarrow> 'r ledger \<times> transaction_key list \<Rightarrow> bool" where
  "ledger_le s t \<longleftrightarrow>
     (\<forall>key e. map_of (entries (fst s)) key = Some e \<longrightarrow>
        (\<exists>e'. map_of (entries (fst t)) key = Some e' \<and> payload_digest e' = payload_digest e
            \<and> (status e \<noteq> target_pending \<longrightarrow> e' = e)))"

text \<open>The transitions the four methods are made of.\<close>

definition add_pending :: "'r ledger \<Rightarrow> transaction_key \<Rightarrow> string \<Rightarrow> 'r ledger" where
  "add_pending l key d =
     l\<lparr>entries := dict_set (entries l) key \<lparr>payload_digest = d, status = target_pending, receipt = None\<rparr>,
       next_channel_sequence := dict_set (next_channel_sequence l) (key_channel key)
         (next_channel l (key_channel key) + 1)\<rparr>"

definition head_pending :: "'r ledger \<Rightarrow> transaction_key \<Rightarrow> 'r entry \<Rightarrow> bool" where
  "head_pending l key e \<longleftrightarrow>
     map_of (entries l) key = Some e \<and> status e = target_pending
     \<and> source_sequence key = next_target l (key_channel key)"

definition settle :: "'r ledger \<Rightarrow> transaction_key \<Rightarrow> 'r entry \<Rightarrow> 'r ledger" where
  "settle l key e =
     l\<lparr>entries := dict_set (entries l) key e,
       next_target_sequence := dict_set (next_target_sequence l) (key_channel key)
         (next_target l (key_channel key) + 1)\<rparr>"

section \<open>Every call keeps the invariant\<close>

lemma transaction_key_eqI:
  assumes "key_channel k = key_channel k'" and "source_sequence k = source_sequence k'"
  shows "k = (k' :: transaction_key)"
  using assms by (auto simp: key_channel_def)

lemma next_simps [simp]:
  "next_channel (l\<lparr>entries := es\<rparr>) c = next_channel l c"
  "next_target (l\<lparr>entries := es\<rparr>) c = next_target l c"
  "next_target (l\<lparr>next_channel_sequence := d\<rparr>) c = next_target l c"
  "next_channel (l\<lparr>next_target_sequence := d'\<rparr>) c = next_channel l c"
  by (simp_all add: next_channel_def next_target_def)

lemma next_update [simp]:
  "next_channel (l\<lparr>next_channel_sequence := dict_set d c v\<rparr>) c' =
     (if c' = c then v else next_channel (l\<lparr>next_channel_sequence := d\<rparr>) c')"
  "next_target (l\<lparr>next_target_sequence := dict_set d c v\<rparr>) c' =
     (if c' = c then v else next_target (l\<lparr>next_target_sequence := d\<rparr>) c')"
  by (simp_all add: next_channel_def next_target_def dict_simps)

lemma next_same [simp]:
  "next_channel (l\<lparr>next_channel_sequence := next_channel_sequence l\<rparr>) c = next_channel l c"
  "next_target (l\<lparr>next_target_sequence := next_target_sequence l\<rparr>) c = next_target l c"
  by (simp_all add: next_channel_def next_target_def)

lemma add_pending_inv:
  assumes "ledger_inv l" and "map_of (entries l) key = None"
    and "source_sequence key = next_channel l (key_channel key)"
  shows "ledger_inv (add_pending l key d)"
proof -
  let ?l = "add_pending l key d"
  have inv: "dict_wf (entries l)"
    "\<And>k e. map_of (entries l) k = Some e \<Longrightarrow> entry_ok l k e"
    "\<And>c. 1 \<le> next_target l c \<and> next_target l c \<le> next_channel l c"
    "\<And>k. 1 \<le> source_sequence k \<Longrightarrow> source_sequence k < next_channel l (key_channel k) \<Longrightarrow> map_of (entries l) k \<noteq> None"
    using assms(1) by (auto simp: ledger_inv_def)
  have nc: "next_channel ?l c = (if c = key_channel key then next_channel l c + 1 else next_channel l c)" for c
    by (simp add: add_pending_def)
  have nt: "next_target ?l c = next_target l c" for c
    by (simp add: add_pending_def)
  have look: "map_of (entries ?l) k =
      (if k = key then Some \<lparr>payload_digest = d, status = target_pending, receipt = None\<rparr> else map_of (entries l) k)" for k
    by (simp add: add_pending_def dict_simps)
  have ok: "entry_ok ?l k e" if "map_of (entries ?l) k = Some e" for k e
  proof (cases "k = key")
    case True
    with that look have "e = \<lparr>payload_digest = d, status = target_pending, receipt = None\<rparr>"
      by simp
    with True assms(3) inv(3) [of "key_channel key"] show ?thesis
      by (auto simp: entry_ok_def nc nt finished_def Let_def)
  next
    case False
    with that look have "entry_ok l k e" using inv(2) by simp
    then show ?thesis by (auto simp: entry_ok_def nc nt Let_def)
  qed
  have all: "map_of (entries ?l) k \<noteq> None"
    if "1 \<le> source_sequence k" "source_sequence k < next_channel ?l (key_channel k)" for k
  proof (cases "k = key")
    case False
    have "source_sequence k < next_channel l (key_channel k)"
    proof (rule ccontr)
      assume "\<not> source_sequence k < next_channel l (key_channel k)"
      with that(2) have "key_channel k = key_channel key" "source_sequence k = source_sequence key"
        using assms(3) by (auto simp: nc split: if_splits)
      with False show False by (metis transaction_key_eqI)
    qed
    with that(1) inv(4) look False show ?thesis by simp
  qed (simp add: look)
  show ?thesis
    unfolding ledger_inv_def using inv(1,3) ok all
    by (auto simp: nc nt) (simp_all add: add_pending_def, smt (verit) inv(3))
qed

lemma ledger_invD:
  assumes "ledger_inv l"
  shows "dict_wf (entries l)"
    "map_of (entries l) k = Some e \<Longrightarrow> entry_ok l k e"
    "1 \<le> next_target l c" "next_target l c \<le> next_channel l c"
    "1 \<le> source_sequence k \<Longrightarrow> source_sequence k < next_channel l (key_channel k) \<Longrightarrow>
       map_of (entries l) k \<noteq> None"
  using assms unfolding ledger_inv_def by blast+

lemma settle_inv:
  assumes "ledger_inv l" and "head_pending l key e" and "finished (status e')"
    and "receipt e' \<noteq> None \<longleftrightarrow> status e' = complete"
  shows "ledger_inv (settle l key e')"
proof -
  let ?l = "settle l key e'" and ?c = "key_channel key"
  note inv = ledger_invD [OF assms(1)]
  have head: "map_of (entries l) key = Some e" "source_sequence key = next_target l ?c"
    using assms(2) by (simp_all add: head_pending_def)
  have below: "next_target l ?c < next_channel l ?c"
    using inv(2) [OF head(1)] head(2) by (simp add: entry_ok_def Let_def)
  have nc: "next_channel ?l c = next_channel l c" for c
    by (simp add: settle_def next_channel_def)
  have nt: "next_target ?l c = (if c = ?c then next_target l c + 1 else next_target l c)" for c
    by (simp add: settle_def)
  have look: "map_of (entries ?l) k = (if k = key then Some e' else map_of (entries l) k)" for k
    by (simp add: settle_def dict_simps)
  have ok: "entry_ok ?l k x" if look_k: "map_of (entries ?l) k = Some x" for k x
  proof (cases "k = key")
    case True
    with look_k look have "x = e'" by simp
    with True head(2) below assms(3,4) inv(3) [of ?c] show ?thesis
      by (auto simp: entry_ok_def nc nt Let_def finished_def)
  next
    case False
    with look_k look have x: "entry_ok l k x" using inv(2) by simp
    have "source_sequence k \<noteq> source_sequence key" if "key_channel k = ?c"
      using False that transaction_key_eqI by blast
    with x head(2) show ?thesis
      by (auto simp: entry_ok_def nc nt Let_def)
  qed
  have "1 \<le> next_target ?l c \<and> next_target ?l c \<le> next_channel ?l c" for c
    using inv(3,4) [of c] below by (auto simp: nc nt)
  moreover have "map_of (entries ?l) k \<noteq> None"
    if "1 \<le> source_sequence k" "source_sequence k < next_channel ?l (key_channel k)" for k
    using that inv(5) by (auto simp: nc look)
  moreover have "dict_wf (entries ?l)"
    using inv(1) by (simp add: settle_def)
  ultimately show ?thesis
    using ok by (simp add: ledger_inv_def)
qed

lemma uncertain_inv:
  assumes "ledger_inv l" and "head_pending l key e"
  shows "ledger_inv (set_status l key e uncertain_effect)"
proof -
  let ?l = "set_status l key e uncertain_effect"
  note inv = ledger_invD [OF assms(1)]
  have head: "map_of (entries l) key = Some e" "source_sequence key = next_target l (key_channel key)"
    "status e = target_pending"
    using assms(2) by (simp_all add: head_pending_def)
  have n: "next_channel ?l c = next_channel l c" "next_target ?l c = next_target l c" for c
    by (simp_all add: set_status_def)
  have look: "map_of (entries ?l) k = (if k = key then Some (e\<lparr>status := uncertain_effect\<rparr>) else map_of (entries l) k)" for k
    by (simp add: set_status_def dict_simps)
  have "entry_ok ?l k x" if "map_of (entries ?l) k = Some x" for k x
  proof (cases "k = key")
    case True
    with that look have "x = e\<lparr>status := uncertain_effect\<rparr>" by simp
    with True inv(2) [OF head(1)] head(2,3) show ?thesis
      by (auto simp: entry_ok_def n Let_def finished_def)
  next
    case False
    with that look have "entry_ok l k x" using inv(2) by simp
    then show ?thesis by (simp add: entry_ok_def n Let_def)
  qed
  moreover have "map_of (entries ?l) k \<noteq> None"
    if "1 \<le> source_sequence k" "source_sequence k < next_channel ?l (key_channel k)" for k
    using that inv(5) by (auto simp: n look)
  moreover have "dict_wf (entries ?l)"
    using inv(1) by (simp add: set_status_def)
  ultimately show ?thesis
    using inv(3,4) by (simp add: ledger_inv_def n)
qed

text \<open>Setting the entry in flight first leaves no trace: the second assignment overwrites it.\<close>

lemma dict_set_twice [simp]: "dict_set (dict_set d k v) k w = dict_set d k w"
  by (induction d) auto

lemma run_target_eq:
  "run_target l key e (next_target l (key_channel key)) operation w =
     (case operation w of
        (Inl x, w') \<Rightarrow> (Inl x, set_status l key e uncertain_effect, w')
      | (Inr r, w') \<Rightarrow> (Inr (Some r), settle l key (e\<lparr>status := complete, receipt := Some r\<rparr>), w'))"
  by (simp add: run_target_def set_status_def settle_def Let_def split: prod.splits sum.splits)

lemma run_target_inv:
  assumes "ledger_inv l" and "head_pending l key e"
  shows "ledger_inv (fst (snd (run_target l key e (next_target l (key_channel key)) operation w)))"
proof -
  have "status e = target_pending" "map_of (entries l) key = Some e"
    using assms(2) by (simp_all add: head_pending_def)
  then have "receipt e = None"
    using ledger_invD(2) [OF assms(1), of key e] by (simp add: entry_ok_def Let_def)
  then show ?thesis
    unfolding run_target_eq using assms
    by (auto simp: finished_def intro: uncertain_inv settle_inv split: prod.splits sum.splits)
qed

section \<open>The methods as transitions\<close>

lemma accept_cases:
  "snd (accept l key p) = l \<or>
   (\<exists>d. map_of (entries l) key = None \<and> source_sequence key = next_channel l (key_channel key)
      \<and> snd (accept l key p) = add_pending l key d)"
  by (auto simp: accept_def add_pending_def Let_def split: sum.splits option.splits if_splits)

lemma complete_accepted_cases:
  "snd (complete_accepted l key p operation w) = (l, w) \<or>
   (\<exists>e. head_pending l key e \<and> complete_accepted l key p operation w =
      run_target l key e (next_target l (key_channel key)) operation w)"
  by (auto simp: complete_accepted_def head_pending_def Let_def split: sum.splits option.splits if_splits)

lemma cancel_accepted_cases:
  "snd (cancel_accepted l key p) = l \<or>
   (\<exists>e. head_pending l key e \<and> snd (cancel_accepted l key p) = settle l key (e\<lparr>status := cancelled\<rparr>))"
  by (auto simp: cancel_accepted_def head_pending_def settle_def set_status_def Let_def
      split: sum.splits option.splits if_splits)

lemma add_pending_head:
  assumes "source_sequence key = next_target l (key_channel key)"
  shows "head_pending (add_pending l key d) key \<lparr>payload_digest = d, status = target_pending, receipt = None\<rparr>"
  using assms by (simp add: head_pending_def add_pending_def dict_simps)

lemma next_target_add_pending [simp]: "next_target (add_pending l key d) c = next_target l c"
  by (simp add: add_pending_def)

lemma execute_once_cases:
  "snd (execute_once l key p operation w) = (l, w) \<or>
   (\<exists>d. map_of (entries l) key = None \<and> source_sequence key = next_channel l (key_channel key)
      \<and> source_sequence key = next_target l (key_channel key)
      \<and> execute_once l key p operation w =
          run_target (add_pending l key d) key \<lparr>payload_digest = d, status = target_pending, receipt = None\<rparr>
            (next_target (add_pending l key d) (key_channel key)) operation w)"
  by (auto simp: execute_once_def add_pending_def Let_def split: sum.splits option.splits if_splits)

lemma accept_inv: "ledger_inv l \<Longrightarrow> ledger_inv (snd (accept l key p))"
  using accept_cases [of l key p] by (auto simp: add_pending_inv)

lemma complete_accepted_inv:
  "ledger_inv l \<Longrightarrow> ledger_inv (fst (snd (complete_accepted l key p operation w)))"
  using complete_accepted_cases [of l key p operation w] by (auto simp: run_target_inv)

lemma cancel_accepted_inv:
  assumes "ledger_inv l"
  shows "ledger_inv (snd (cancel_accepted l key p))"
proof -
  have "ledger_inv (settle l key (e\<lparr>status := cancelled\<rparr>))" if "head_pending l key e" for e
  proof (rule settle_inv [OF assms that])
    have "receipt e = None"
      using that ledger_invD(2) [OF assms, of key e] by (simp add: head_pending_def entry_ok_def Let_def)
    then show "receipt (e\<lparr>status := cancelled\<rparr>) \<noteq> None \<longleftrightarrow> status (e\<lparr>status := cancelled\<rparr>) = complete"
      by simp
  qed (simp add: finished_def)
  then show ?thesis
    using cancel_accepted_cases [of l key p] assms by auto
qed

lemma execute_once_inv:
  assumes "ledger_inv l"
  shows "ledger_inv (fst (snd (execute_once l key p operation w)))"
  using execute_once_cases [of l key p operation w]
proof (elim disjE exE conjE)
  fix d
  assume "map_of (entries l) key = None" "source_sequence key = next_channel l (key_channel key)"
    and head: "source_sequence key = next_target l (key_channel key)"
    and run: "execute_once l key p operation w = run_target (add_pending l key d) key
      \<lparr>payload_digest = d, status = target_pending, receipt = None\<rparr>
      (next_target (add_pending l key d) (key_channel key)) operation w"
  then have "ledger_inv (add_pending l key d)"
    using assms by (simp add: add_pending_inv)
  then show ?thesis
    unfolding run using add_pending_head [OF head] by (rule run_target_inv)
qed (use assms in simp)

lemmas ledger_methods_inv = accept_inv complete_accepted_inv cancel_accepted_inv execute_once_inv

lemma new_ledger_inv: "ledger_inv new_ledger"
  by (simp add: ledger_inv_def new_ledger_def next_target_def next_channel_def dict_get_def)

section \<open>At most once, in source order\<close>

definition executed :: "status \<Rightarrow> bool" where
  "executed st \<longleftrightarrow> st = complete \<or> st = uncertain_effect"

lemma log_invD:
  assumes "log_inv (l, log)"
  shows "ledger_inv l" "sorted_wrt (<) (channel_log c log)"
    "key \<in> set log \<Longrightarrow> \<exists>e. map_of (entries l) key = Some e \<and> executed (status e)"
  using assms by (auto simp: log_inv_def executed_def)

lemma log_invI:
  assumes "ledger_inv l" "\<And>c. sorted_wrt (<) (channel_log c log)"
    "\<And>key. key \<in> set log \<Longrightarrow> \<exists>e. map_of (entries l) key = Some e \<and> executed (status e)"
  shows "log_inv (l, log)"
  using assms by (auto simp: log_inv_def executed_def)

text \<open>An executed entry of a channel lies strictly before the head that is about to run.\<close>

lemma executed_before_head:
  assumes "ledger_inv l" and "head_pending l key e"
    and "map_of (entries l) k = Some x" and "executed (status x)" and "key_channel k = key_channel key"
  shows "source_sequence k < source_sequence key"
proof -
  have x: "entry_ok l k x"
    using assms(1,3) by (rule ledger_invD)
  have head: "source_sequence key = next_target l (key_channel key)" "map_of (entries l) key = Some e"
    "status e = target_pending"
    using assms(2) by (simp_all add: head_pending_def)
  show ?thesis
  proof (rule ccontr)
    assume "\<not> ?thesis"
    with x head(1) assms(4,5) have "source_sequence k = source_sequence key"
      by (auto simp: entry_ok_def Let_def executed_def finished_def)
    with assms(5) have "k = key" by (rule transaction_key_eqI)
    with head assms(3,4) show False by (simp add: executed_def)
  qed
qed

lemma channel_log_snoc:
  "channel_log c (log @ [key]) = channel_log c log @ (if key_channel key = c then [source_sequence key] else [])"
  by (simp add: channel_log_def)

lemma run_target_log:
  assumes inv: "log_inv (l, log)" and head: "head_pending l key e"
  shows "log_inv (snd (run_target l key e (next_target l (key_channel key)) (logged key outcome) log))"
proof -
  let ?r = "run_target l key e (next_target l (key_channel key)) (logged key outcome) log"
  obtain l' where r: "snd ?r = (l', log @ [key])"
    by (cases outcome) (auto simp: run_target_eq logged_def)
  have key': "\<exists>x. map_of (entries l') key = Some x \<and> executed (status x)"
    and frame: "\<And>k. k \<noteq> key \<Longrightarrow> map_of (entries l') k = map_of (entries l) k"
    using r by (cases outcome; auto simp: run_target_eq logged_def settle_def set_status_def dict_simps executed_def)+
  have "ledger_inv l'"
    using run_target_inv [OF log_invD(1) [OF inv] head, of "logged key outcome" log] r by simp
  moreover have "sorted_wrt (<) (channel_log c (log @ [key]))" for c
  proof -
    have "s < source_sequence key" if "s \<in> set (channel_log (key_channel key) log)" for s
      using that executed_before_head [OF log_invD(1) [OF inv] head] log_invD(3) [OF inv]
      by (fastforce simp: channel_log_def)
    then show ?thesis
      using log_invD(2) [OF inv] by (auto simp: channel_log_snoc sorted_wrt_append)
  qed
  moreover have "\<exists>x. map_of (entries l') k = Some x \<and> executed (status x)" if "k \<in> set (log @ [key])" for k
    using that key' frame log_invD(3) [OF inv] by (cases "k = key") auto
  ultimately show ?thesis
    unfolding r by (rule log_invI)
qed

text \<open>Transitions that touch only an entry that never ran.\<close>

lemma frame_log:
  assumes "log_inv (l, log)" and "ledger_inv l'"
    and "\<And>k. k \<noteq> key \<Longrightarrow> map_of (entries l') k = map_of (entries l) k"
    and "\<And>e. map_of (entries l) key = Some e \<Longrightarrow> \<not> executed (status e)"
  shows "log_inv (l', log)"
proof (rule log_invI)
  fix k assume "k \<in> set log"
  then obtain e where "map_of (entries l) k = Some e" "executed (status e)"
    using log_invD(3) [OF assms(1)] by blast
  with assms(3,4) show "\<exists>e. map_of (entries l') k = Some e \<and> executed (status e)"
    by metis
qed (use assms(1,2) in \<open>auto dest: log_invD\<close>)

lemma add_pending_log:
  assumes "log_inv (l, log)" and "map_of (entries l) key = None"
    and "source_sequence key = next_channel l (key_channel key)"
  shows "log_inv (add_pending l key d, log)"
proof (rule frame_log [OF assms(1), where key = key])
  show "ledger_inv (add_pending l key d)"
    using log_invD(1) [OF assms(1)] assms(2,3) by (rule add_pending_inv)
qed (use assms(2) in \<open>simp_all add: add_pending_def dict_simps\<close>)

lemma ledger_step_log: "log_inv s \<Longrightarrow> log_inv (ledger_step s call)"
proof (cases s)
  case (Pair l log)
  assume "log_inv s"
  with Pair have inv: "log_inv (l, log)" by simp
  show ?thesis
  proof (cases call)
    case (Accept key p)
    with accept_cases [of l key p] inv Pair show ?thesis
      by (auto simp: add_pending_log)
  next
    case (Complete key p r)
    with complete_accepted_cases [of l key p "logged key r" log] inv Pair show ?thesis
      by (auto simp: run_target_log)
  next
    case (Cancel key p)
    have "log_inv (snd (cancel_accepted l key p), log)"
      using cancel_accepted_cases [of l key p]
    proof (elim disjE exE conjE)
      fix e assume head: "head_pending l key e"
        and eq: "snd (cancel_accepted l key p) = settle l key (e\<lparr>status := cancelled\<rparr>)"
      from inv show ?thesis
        using head cancel_accepted_inv [OF log_invD(1) [OF inv], of key p]
        by (elim frame_log [where key = key]) (auto simp: eq settle_def dict_simps head_pending_def executed_def)
    qed (use inv in simp)
    with Cancel Pair show ?thesis by simp
  next
    case (Execute key p r)
    have "log_inv (snd (execute_once l key p (logged key r) log))"
      using execute_once_cases [of l key p "logged key r" log]
    proof (elim disjE exE conjE)
      fix d
      assume fresh: "map_of (entries l) key = None" "source_sequence key = next_channel l (key_channel key)"
        and head: "source_sequence key = next_target l (key_channel key)"
        and run: "execute_once l key p (logged key r) log = run_target (add_pending l key d) key
          \<lparr>payload_digest = d, status = target_pending, receipt = None\<rparr>
          (next_target (add_pending l key d) (key_channel key)) (logged key r) log"
      show ?thesis
        unfolding run by (rule run_target_log [OF add_pending_log [OF inv fresh] add_pending_head [OF head]])
    qed (use inv in simp)
    with Execute Pair show ?thesis by simp
  qed
qed

lemma ledger_le_refl: "ledger_le s s"
  by (simp add: ledger_le_def)

lemma ledger_le_trans:
  assumes "ledger_le s t" and "ledger_le t u"
  shows "ledger_le s u"
  unfolding ledger_le_def
proof (intro allI impI)
  fix key e assume "map_of (entries (fst s)) key = Some e"
  with assms(1) obtain e' where e': "map_of (entries (fst t)) key = Some e'" "payload_digest e' = payload_digest e"
    "status e \<noteq> target_pending \<longrightarrow> e' = e"
    unfolding ledger_le_def by blast
  with assms(2) obtain e'' where "map_of (entries (fst u)) key = Some e''" "payload_digest e'' = payload_digest e'"
    "status e' \<noteq> target_pending \<longrightarrow> e'' = e'"
    unfolding ledger_le_def by blast
  with e' show "\<exists>x. map_of (entries (fst u)) key = Some x \<and> payload_digest x = payload_digest e
      \<and> (status e \<noteq> target_pending \<longrightarrow> x = e)"
    by auto
qed

lemma run_target_le:
  assumes "head_pending l key e"
  shows "ledger_le (l, log) (snd (run_target l key e (next_target l (key_channel key)) (logged key r) log))"
  using assms
  by (auto simp: ledger_le_def run_target_eq logged_def head_pending_def settle_def set_status_def dict_simps
      split: sum.splits)

lemma add_pending_le: "map_of (entries l) key = None \<Longrightarrow> ledger_le (l, log) (add_pending l key d, log)"
  by (auto simp: ledger_le_def add_pending_def dict_simps)

lemma ledger_step_le: "ledger_le s (ledger_step s call)"
proof (cases s)
  case (Pair l log)
  have same: "ledger_le (l, log) (l, log)" by (rule ledger_le_refl)
  show ?thesis
  proof (cases call)
    case (Accept key p)
    with accept_cases [of l key p] Pair same show ?thesis
      by (auto simp: add_pending_le)
  next
    case (Complete key p r)
    with complete_accepted_cases [of l key p "logged key r" log] Pair same show ?thesis
      by (auto simp: run_target_le)
  next
    case (Cancel key p)
    have "ledger_le (l, log) (settle l key (e\<lparr>status := cancelled\<rparr>), log)" if "head_pending l key e" for e
      using that by (auto simp: ledger_le_def settle_def head_pending_def dict_simps)
    with cancel_accepted_cases [of l key p] Cancel Pair same show ?thesis
      by auto
  next
    case (Execute key p r)
    have "ledger_le (l, log) (snd (execute_once l key p (logged key r) log))"
      using execute_once_cases [of l key p "logged key r" log]
    proof (elim disjE exE conjE)
      fix d
      assume fresh: "map_of (entries l) key = None"
        and head: "source_sequence key = next_target l (key_channel key)"
        and run: "execute_once l key p (logged key r) log = run_target (add_pending l key d) key
          \<lparr>payload_digest = d, status = target_pending, receipt = None\<rparr>
          (next_target (add_pending l key d) (key_channel key)) (logged key r) log"
      show ?thesis
        unfolding run
        by (rule ledger_le_trans [OF add_pending_le [OF fresh] run_target_le [OF add_pending_head [OF head]]])
    qed (use same in simp)
    with Execute Pair show ?thesis by simp
  qed
qed

interpretation ledger_machine: progressing_machine ledger_step log_inv ledger_le
  by unfold_locales
    (auto intro: ledger_step_log ledger_step_le ledger_le_refl elim: ledger_le_trans)

lemma new_ledger_log: "log_inv (new_ledger, [])"
  by (rule log_invI) (simp_all add: new_ledger_inv channel_log_def)

text \<open>No operation runs on a channel whose head is uncertain.\<close>

definition channel_blocked :: "'r ledger \<Rightarrow> channel \<Rightarrow> bool" where
  "channel_blocked l c \<longleftrightarrow>
     (\<exists>key e. map_of (entries l) key = Some e \<and> key_channel key = c \<and> status e = uncertain_effect)"

lemma blocked_no_head:
  assumes "ledger_inv l" and "channel_blocked l (key_channel key)"
  shows "\<not> head_pending l key e"
proof
  assume head: "head_pending l key e"
  from assms(2) obtain k x where k: "map_of (entries l) k = Some x" "key_channel k = key_channel key"
    "status x = uncertain_effect"
    by (auto simp: channel_blocked_def)
  have "source_sequence k < source_sequence key"
    using executed_before_head [OF assms(1) head k(1)] k(2,3) by (simp add: executed_def)
  with ledger_invD(2) [OF assms(1) k(1)] k head show False
    by (simp add: entry_ok_def Let_def finished_def head_pending_def)
qed

lemma blocked_not_fresh:
  assumes "ledger_inv l" and "channel_blocked l c"
  shows "next_target l c < next_channel l c"
proof -
  from assms(2) obtain k x where k: "map_of (entries l) k = Some x" "key_channel k = c"
    "status x = uncertain_effect"
    by (auto simp: channel_blocked_def)
  from ledger_invD(2) [OF assms(1) k(1)] k show ?thesis
    by (auto simp: entry_ok_def Let_def finished_def)
qed

lemma blocked_step:
  assumes inv: "log_inv (l, log)" and blocked: "channel_blocked l c"
  shows "channel_log c (snd (ledger_step (l, log) call)) = channel_log c log"
proof (cases call)
  case (Complete key p r)
  show ?thesis
    using complete_accepted_cases [of l key p "logged key r" log]
  proof (elim disjE exE conjE)
    fix e assume head: "head_pending l key e"
      and run: "complete_accepted l key p (logged key r) log =
        run_target l key e (next_target l (key_channel key)) (logged key r) log"
    have "key_channel key \<noteq> c"
      using blocked_no_head [OF log_invD(1) [OF inv]] head blocked by blast
    then show ?thesis
      using run Complete by (auto simp: run_target_eq logged_def channel_log_snoc split: sum.splits)
  qed (simp add: Complete)
next
  case (Execute key p r)
  show ?thesis
    using execute_once_cases [of l key p "logged key r" log]
  proof (elim disjE exE conjE)
    fix d
    assume "source_sequence key = next_channel l (key_channel key)"
      "source_sequence key = next_target l (key_channel key)"
      and run: "execute_once l key p (logged key r) log = run_target (add_pending l key d) key
          \<lparr>payload_digest = d, status = target_pending, receipt = None\<rparr>
          (next_target (add_pending l key d) (key_channel key)) (logged key r) log"
    then have "key_channel key \<noteq> c"
      using blocked_not_fresh [OF log_invD(1) [OF inv] blocked] by auto
    then show ?thesis
      using run Execute by (auto simp only: ledger_step.simps run_target_eq)
        (auto simp: logged_def channel_log_snoc split: sum.splits)
  qed (simp add: Execute)
qed simp_all

lemma blocked_persists:
  assumes "ledger_le (l, log) (l', log')" and "channel_blocked l c"
  shows "channel_blocked l' c"
  using assms unfolding ledger_le_def channel_blocked_def by (metis fst_conv status.distinct(3))

lemma sorted_channels_distinct:
  assumes "\<And>c. sorted_wrt (<) (channel_log c log)"
  shows "distinct log"
  using assms
proof (induction log rule: rev_induct)
  case (snoc key log)
  have sorted: "sorted_wrt (<) (channel_log c log)" for c
    using snoc.prems [of c] by (simp add: channel_log_snoc sorted_wrt_append split: if_splits)
  have "key \<notin> set log"
    using snoc.prems [of "key_channel key"] by (force simp: channel_log_def sorted_wrt_append)
  with snoc.IH [OF sorted] show ?case by simp
qed simp

section \<open>Properties\<close>

text \<open>In every state that a sequence of ledger calls can reach from an empty ledger, whatever
  the operations return or raise, the ledger invariant holds: the accepted sequence numbers of each
  channel are contiguous from 1, the finished entries are exactly those below the next target
  sequence, only the head of a channel can be uncertain, nothing stays in flight, and exactly the
  complete entries hold a receipt.\<close>

theorem ledger_reachable_inv:
  "ledger_inv (fst (foldl ledger_step (new_ledger, []) (calls :: 'r ledger_call list)))"
proof -
  have "log_inv (foldl ledger_step (new_ledger, []) calls)"
    by (rule ledger_machine.run_inv [OF new_ledger_log])
  then show ?thesis
    by (simp add: log_inv_def)
qed

text \<open>C1: At most once, in order: over any sequence of accept, complete, cancel and execute calls,
  with any mix of retries, conflicting payloads and failing operations, the log of operations that
  really ran names each transaction at most once, and on each source channel the executed sequence
  numbers strictly increase.\<close>

theorem ledger_at_most_once:
  "distinct (snd (foldl ledger_step (new_ledger, []) (calls :: 'r ledger_call list)))
   \<and> sorted_wrt (<) (channel_log c (snd (foldl ledger_step (new_ledger, []) calls)))"
proof -
  have inv: "log_inv (foldl ledger_step (new_ledger, []) calls)"
    by (rule ledger_machine.run_inv [OF new_ledger_log])
  then have "sorted_wrt (<) (channel_log c (snd (foldl ledger_step (new_ledger, []) calls)))" for c
    by (simp add: log_inv_def)
  then show ?thesis
    by (auto intro: sorted_channels_distinct)
qed

text \<open>C2: A receipt is frozen: once a transaction is complete, after any further ledger calls a
  retry with the same payload, by either execution method, returns the original receipt, runs
  nothing and changes nothing.\<close>

theorem ledger_replay_frozen:
  assumes "log_inv (l, log)" and "map_of (entries l) key = Some e" and "status e = complete"
    and "digest payload = Inr (payload_digest e)"
  shows "execute_once (fst (foldl ledger_step (l, log) calls)) key payload operation w
      = (Inr (receipt e), fst (foldl ledger_step (l, log) calls), w)
    \<and> complete_accepted (fst (foldl ledger_step (l, log) calls)) key payload operation w
      = (Inr (receipt e), fst (foldl ledger_step (l, log) calls), w)"
proof -
  have "ledger_le (l, log) (foldl ledger_step (l, log) calls)"
    by (rule ledger_machine.run_le [OF assms(1)])
  with assms(2,3) have "map_of (entries (fst (foldl ledger_step (l, log) calls))) key = Some e"
    unfolding ledger_le_def by fastforce
  with assms(3,4) show ?thesis
    by (simp_all add: execute_once_def complete_accepted_def)
qed

text \<open>C3: Fail closed: when the target of a transaction may have acted without a receipt, no
  operation of its channel ever runs again, whatever calls follow.\<close>

theorem ledger_uncertain_blocks:
  assumes "log_inv (l, log)" and "channel_blocked l c"
  shows "channel_log c (snd (foldl ledger_step (l, log) calls)) = channel_log c log"
  using assms
proof (induction calls arbitrary: l log)
  case (Cons call calls)
  obtain l' log' where step: "ledger_step (l, log) call = (l', log')"
    by (cases "ledger_step (l, log) call")
  have "log_inv (l', log')" "channel_blocked l' c"
    using ledger_step_log [OF Cons.prems(1), of call] ledger_step_le [of "(l, log)" call] Cons.prems(2)
    by (auto simp: step intro: blocked_persists)
  then have "channel_log c (snd (foldl ledger_step (l', log') calls)) = channel_log c log'"
    by (rule Cons.IH)
  with blocked_step [OF Cons.prems, of call] step show ?case by simp
qed simp

definition example_key :: transaction_key where
  "example_key = \<lparr>execution_id = ''run'', testcase_id = ''case'', source_component = ''cpu'',
     source_epoch = 0, channel_id = ''data'', source_sequence = 1\<rparr>"

lemma example_digest: "digest (JObj kvs) = Inr (sha256_hex (string_bytes (json_dumps (JObj kvs))))"
  by (simp add: digest_def)

theorem ledger_replay_frozen_witness:
  "execute_once (fst (foldl ledger_step (new_ledger, []) [Execute example_key (JObj []) (Inr (7::int)),
       Execute example_key (JObj []) (Inr 8)])) example_key (JObj []) (logged example_key (Inr 9)) []
   = (Inr (Some 7), fst (foldl ledger_step (new_ledger, []) [Execute example_key (JObj []) (Inr 7),
       Execute example_key (JObj []) (Inr 8)]), [])"
proof -
  let ?s = "ledger_step (new_ledger, []) (Execute example_key (JObj []) (Inr (7::int)))"
  let ?d = "sha256_hex (string_bytes (json_dumps (JObj [])))"
  have s: "?s = (fst ?s, [example_key])"
    "map_of (entries (fst ?s)) example_key = Some \<lparr>payload_digest = ?d, status = complete, receipt = Some 7\<rparr>"
    by (simp_all add: execute_once_def example_digest new_ledger_def Let_def next_channel_def next_target_def
        dict_get_def run_target_def set_status_def logged_def example_key_def del: json_dumps.simps)
  have "log_inv (fst ?s, [example_key])"
    using ledger_step_log [OF new_ledger_log, of "Execute example_key (JObj []) (Inr (7::int))"] s(1) by metis
  from ledger_replay_frozen [OF this s(2), of "JObj []" "[Execute example_key (JObj []) (Inr 8)]"
      "logged example_key (Inr 9)" "[]"] s(1)
  show ?thesis by (simp add: example_digest del: ledger_step.simps json_dumps.simps)
qed

theorem ledger_uncertain_blocks_witness:
  "channel_log (key_channel example_key) (snd (foldl ledger_step (new_ledger, [])
     [Execute example_key (JObj []) (Inl (OperationError ''bus'')),
      Execute example_key (JObj []) (Inr (8::int)),
      Execute (example_key\<lparr>source_sequence := 2\<rparr>) (JObj []) (Inr 9)])) = [1]"
proof -
  let ?c = "Execute example_key (JObj []) (Inl (OperationError ''bus'')) :: int ledger_call"
  let ?s = "ledger_step (new_ledger, []) ?c"
  have s: "?s = (fst ?s, [example_key])" "channel_blocked (fst ?s) (key_channel example_key)"
    by (simp_all add: execute_once_def example_digest new_ledger_def Let_def next_channel_def next_target_def
        dict_get_def run_target_def set_status_def logged_def example_key_def channel_blocked_def
        key_channel_def del: json_dumps.simps)
  have inv: "log_inv (fst ?s, [example_key])"
    using ledger_step_log [OF new_ledger_log, of ?c] s(1) by metis
  have "channel_log (key_channel example_key) [example_key] = [1]"
    by (simp add: channel_log_def example_key_def)
  then show ?thesis
    using ledger_uncertain_blocks [OF inv s(2)] s(1) by (metis foldl_Cons)
qed

section \<open>Executing through the ledger\<close>

lemma run_target_le_any:
  assumes "head_pending l key e"
  shows "ledger_le (l, a) (fst (snd (run_target l key e (next_target l (key_channel key)) act w)), b)"
  using assms
  by (auto simp: ledger_le_def run_target_eq head_pending_def settle_def set_status_def dict_simps
      split: sum.splits prod.splits)

lemma execute_once_le: "ledger_le (l, a) (fst (snd (execute_once l key p act w)), b)"
  using execute_once_cases [of l key p act w]
proof (elim disjE exE conjE)
  fix d
  assume fresh: "map_of (entries l) key = None"
    and head: "source_sequence key = next_target l (key_channel key)"
    and run: "execute_once l key p act w = run_target (add_pending l key d) key
      \<lparr>payload_digest = d, status = target_pending, receipt = None\<rparr>
      (next_target (add_pending l key d) (key_channel key)) act w"
  show ?thesis
    unfolding run
    by (rule ledger_le_trans [OF add_pending_le [OF fresh] run_target_le_any [OF add_pending_head [OF head]]])
qed (simp add: ledger_le_def)

lemma execute_onceE:
  assumes "execute_once l key p act w = (r, l', w')"
  obtains (idle) "l' = l" "w' = w"
      "\<forall>x. r = Inr x \<longrightarrow> (\<exists>e. map_of (entries l) key = Some e \<and> status e = complete \<and> receipt e = x)"
  | (failed) e where "map_of (entries l) key = None" "act w = (Inl e, w')" "r = Inl e"
  | (ran) x d where "map_of (entries l) key = None" "act w = (Inr x, w')" "r = Inr (Some x)" "digest p = Inr d"
      "map_of (entries l') key = Some \<lparr>payload_digest = d, status = complete, receipt = Some x\<rparr>"
proof (cases "map_of (entries l) key")
  case (Some e)
  with assms have "l' = l" "w' = w"
      "\<forall>x. r = Inr x \<longrightarrow> (\<exists>e. map_of (entries l) key = Some e \<and> status e = complete \<and> receipt e = x)"
    by (auto simp: execute_once_def split: sum.splits if_splits)
  then show thesis by (rule idle)
next
  case None
  show thesis
  proof (cases "digest p")
    case (Inl x)
    with assms have "l' = l" "w' = w" "r = Inl x" by (auto simp: execute_once_def)
    then show thesis using idle by simp
  next
    case (Inr d)
    obtain x w1 where op: "act w = (x, w1)" by (cases "act w")
    with assms None Inr show thesis
      using idle failed [OF None] ran [OF None _ _ Inr]
      by (cases x) (auto simp: execute_once_def run_target_def Let_def set_status_def dict_simps split: if_splits)
  qed
qed

lemma execute_once_replay:
  assumes "map_of (entries l) key = Some e" and "status e = complete" and "digest p = Inr (payload_digest e)"
  shows "execute_once l key p act w = (Inr (receipt e), l, w)"
  using assms by (simp add: execute_once_def)

lemma ledger_le_complete:
  "ledger_le (l, a) (l', b) \<Longrightarrow> map_of (entries l) key = Some e \<Longrightarrow> status e \<noteq> target_pending \<Longrightarrow> map_of (entries l') key = Some e"
  by (fastforce simp: ledger_le_def)

lemma accept_le: "ledger_le (l, a) (snd (accept l key p), b)"
  using accept_cases [of l key p] by (auto simp: ledger_le_def add_pending_def dict_simps)

lemma complete_accepted_le: "ledger_le (l, a) (fst (snd (complete_accepted l key p act w)), b)"
  using complete_accepted_cases [of l key p act w]
proof (elim disjE exE conjE)
  fix e
  assume "head_pending l key e" "complete_accepted l key p act w = run_target l key e (next_target l (key_channel key)) act w"
  then show ?thesis using run_target_le_any by simp
qed (simp add: ledger_le_def)

lemma cancel_accepted_le: "ledger_le (l, a) (snd (cancel_accepted l key p), b)"
  using cancel_accepted_cases [of l key p] by (auto simp: ledger_le_def settle_def head_pending_def dict_simps)

text \<open>An uncertain effect stays uncertain.\<close>

lemma uncertain_mono:
  assumes "ledger_le (l, a) (l', b)" and "ledger_inv l" and "uncertain_keys l' = []"
  shows "uncertain_keys l = []"
proof -
  have "\<not> (status e = target_inflight \<or> status e = uncertain_effect)" if "(k, e) \<in> set (entries l)" for k e
  proof
    assume st: "status e = target_inflight \<or> status e = uncertain_effect"
    have "map_of (entries l) k = Some e" using that assms(2) by (intro map_of_is_SomeI) (auto simp: ledger_inv_def)
    with ledger_le_complete [OF assms(1)] st have "map_of (entries l') k = Some e" by auto
    with st assms(3) show False using map_of_SomeD [of "entries l'" k e] by (force simp: uncertain_keys_def filter_empty_conv)
  qed
  then show ?thesis by (auto simp: uncertain_keys_def filter_empty_conv)
qed

end
