(* ===== verification/Router.thy ===== *)
theory Router
  imports Ledger
begin

text \<open>
  The MMIO router (\<open>scenario/router.py\<close>): disjoint device windows, the lanes of a CPU beat, the
  queue of accepted requests, their delivery through the ledger of their source, and cancellation at a
  source reset.

  A register target is real RTL outside this code: its operations are arguments, functions on a world
  \<open>'w\<close> that may raise; so is the completion callback of a request. A ledger object is named by its
  identity, and the ledgers are a dictionary. The branch for targets with ordinary APB access receipts
  (whose validation is part of the local harness) is not modelled: no target enables it, so no
  confirmation is recorded.
\<close>

section \<open>Targets, windows, rows\<close>

record 'w target =
  routed_register_access_enabled :: bool
  routed_register_access :: "transaction_key \<Rightarrow> json \<Rightarrow> 'w \<Rightarrow> (int \<times> (string \<times> json) list) res \<times> 'w"
  routed_delivery_failed :: "(transaction_key \<Rightarrow> json option \<Rightarrow> 'w \<Rightarrow> unit res \<times> 'w) option"
  write_register :: "int \<Rightarrow> int \<Rightarrow> int \<Rightarrow> 'w \<Rightarrow> unit res \<times> 'w"
  read_register :: "int \<Rightarrow> 'w \<Rightarrow> int res \<times> 'w"

record 'w device_window =
  device_id :: string
  dev_base :: int
  dev_size :: int
  dev_target :: "'w target"

definition make_device_window :: "string \<Rightarrow> int \<Rightarrow> int \<Rightarrow> 'w target \<Rightarrow> 'w device_window res" where
  "make_device_window did b sz tgt =
     (if did = [] \<or> b < 0 \<or> b mod 0x1000 \<noteq> 0 \<or> sz < 4 \<or> sz mod 4 \<noteq> 0 \<or> b + sz > push_bit 64 1
      then Inl (ValueError ''device window is invalid'')
      else Inr \<lparr>device_id = did, dev_base = b, dev_size = sz, dev_target = tgt\<rparr>)"

record mmio_payload =
  pay_device :: string
  pay_address :: int
  pay_write :: bool
  pay_wdata :: int
  pay_be :: int
  pay_beat_bytes :: int

definition payload_json :: "mmio_payload \<Rightarrow> json" where
  "payload_json p = JObj [(''device_id'', JStr (pay_device p)), (''address'', JInt (pay_address p)),
     (''write'', JBool (pay_write p)), (''wdata'', JInt (pay_wdata p)), (''be'', JInt (pay_be p)),
     (''beat_bytes'', JInt (pay_beat_bytes p))]"

record acceptance =
  acp_transaction :: transaction_key
  acp_device :: string
  acp_sequence :: int
  acceptance_order :: int
  acp_address :: int
  acp_offset :: int
  acp_beat_bytes :: int
  acp_write :: bool
  acp_byte_enable :: int
  acp_write_value :: "int option"

record delivery =
  dlv_access :: "(string \<times> json) list"
  dlv_transaction :: transaction_key
  dlv_device :: string
  dlv_sequence :: int
  delivery_order :: int
  target_delivery_order :: int
  dlv_address :: int
  dlv_beat_bytes :: int
  dlv_offset :: int
  dlv_write :: bool
  dlv_byte_enable :: int
  dlv_write_value :: "int option"
  dlv_read_value :: "int option"

record 'w queued =
  q_ledger :: int
  q_key :: transaction_key
  q_payload :: mmio_payload
  q_window :: "'w device_window"
  q_lane_be :: int
  q_data32 :: int
  q_offset :: int
  q_write :: bool
  q_callback :: "int \<times> int \<Rightarrow> 'w \<Rightarrow> unit res \<times> 'w"

record 'w router =
  dev_windows :: "'w device_window list"
  acceptances :: "acceptance list"
  deliveries :: "delivery list"
  target_delivery_counts :: "(string, int) dict"
  delivery_sequence :: int
  queue :: "'w queued list"

type_synonym response = "int \<times> int"
type_synonym ledgers = "(int, response ledger) dict"
type_synonym 'w system = "'w router \<times> ledgers \<times> 'w"

definition check_window :: "'w device_window list \<Rightarrow> 'w device_window \<Rightarrow> 'w device_window list res" where
  "check_window ws w =
     (if \<exists>v \<in> set ws. dev_base w < dev_base v + dev_size v \<and> dev_base v < dev_base w + dev_size w
      then Inl (ValueError ''overlapping device windows'') else Inr (ws @ [w]))"

definition make_router :: "'w device_window list \<Rightarrow> 'w router res" where
  "make_router ws = res_bind (fold_res check_window [] ws) (\<lambda>_.
     Inr \<lparr>dev_windows = ws, acceptances = [], deliveries = [], target_delivery_counts = [],
          delivery_sequence = 0, queue = []\<rparr>)"

section \<open>Queue summaries\<close>

definition pending_targets :: "'w router \<Rightarrow> string list" where
  "pending_targets rt = sorted_list_of_set (set (map (\<lambda>q. device_id (q_window q)) (queue rt)))"

definition ledger_of :: "ledgers \<Rightarrow> int \<Rightarrow> response ledger" where
  "ledger_of ls ref = dict_get ls ref new_ledger"

fun first_ready :: "ledgers \<Rightarrow> (string, bool) dict \<Rightarrow> 'w queued list \<Rightarrow> (string, bool) dict" where
  "first_ready ls d [] = d"
| "first_ready ls d (q # qs) =
     (let t = device_id (q_window q) in
      first_ready ls (if dict_has d t then d else dict_set d t (target_ready (ledger_of ls (q_ledger q)) (q_key q))) qs)"

definition ready_targets :: "'w router \<Rightarrow> ledgers \<Rightarrow> string list" where
  "ready_targets rt ls = sort (map fst (filter snd (first_ready ls [] (queue rt))))"

definition pending_target_counts :: "'w router \<Rightarrow> (string, int) dict" where
  "pending_target_counts rt =
     fold (\<lambda>q counts. dict_set counts (device_id (q_window q)) (dict_get counts (device_id (q_window q)) 0 + 1)) (queue rt) []"

section \<open>Requests\<close>

abbreviation dev_lo :: "'w device_window \<Rightarrow> int" where "dev_lo w \<equiv> dev_base w"
abbreviation dev_hi :: "'w device_window \<Rightarrow> int" where "dev_hi w \<equiv> dev_base w + dev_size w"

definition window_of :: "'w router \<Rightarrow> int \<Rightarrow> 'w device_window option" where
  "window_of rt adr = find (in_window dev_lo dev_hi adr) (dev_windows rt)"

definition owns :: "'w router \<Rightarrow> int \<Rightarrow> bool" where
  "owns rt adr = (window_of rt adr \<noteq> None)"

record 'w prepared =
  p_window :: "'w device_window"
  p_lane_be :: int
  p_data32 :: int
  p_offset :: int
  p_high_lane :: bool
  p_payload :: mmio_payload

definition prepare :: "'w router \<Rightarrow> int \<Rightarrow> bool \<Rightarrow> int \<Rightarrow> int \<Rightarrow> int \<Rightarrow> 'w prepared res" where
  "prepare rt adr wr wdata be beat = (case window_of rt adr of
     None \<Rightarrow> Inl (ValueError ''MMIO address has no declared real target'')
   | Some w \<Rightarrow>
       if beat \<notin> {4, 8} \<or> adr mod 4 \<noteq> 0 \<or> adr + 4 > dev_base w + dev_size w
       then Inl (ValueError ''unsupported MMIO access shape'')
       else if be < 0 \<or> be \<ge> push_bit (nat beat) 1 then Inl (ValueError ''byte enables are invalid'')
       else (let high = (beat = 8 \<and> bit adr 2);
                 lane_be = (if high then drop_bit 4 be else be AND 15) in
         if wr \<and> (lane_be = 0 \<or> beat = 8 \<and> (if high then be AND 15 else drop_bit 4 be) \<noteq> 0)
         then Inl (ValueError ''MMIO byte lanes do not match address'')
         else Inr \<lparr>p_window = w, p_lane_be = lane_be,
            p_data32 = (if high then drop_bit 32 wdata else wdata) AND 0xffffffff,
            p_offset = adr - dev_base w, p_high_lane = high,
            p_payload = \<lparr>pay_device = device_id w, pay_address = adr, pay_write = wr, pay_wdata = wdata, pay_be = be,
              pay_beat_bytes = beat\<rparr>\<rparr>))"

definition delivery_context :: "'w device_window \<Rightarrow> transaction_key \<Rightarrow> mmio_payload \<Rightarrow> int \<Rightarrow> bool \<Rightarrow> int \<Rightarrow> int \<Rightarrow> json" where
  "delivery_context w key pay off wr data32 lane_be =
     JObj [(''source_transaction'', key_document key), (''device_id'', JStr (device_id w)),
       (''window_base'', JInt (dev_base w)), (''window_size'', JInt (dev_size w)), (''address'', JInt (pay_address pay)),
       (''offset'', JInt off), (''write'', JBool wr), (''value'', JInt data32), (''be'', JInt lane_be)]"

definition access :: "'w device_window \<Rightarrow> transaction_key \<Rightarrow> mmio_payload \<Rightarrow> int \<Rightarrow> bool \<Rightarrow> int \<Rightarrow> int \<Rightarrow> 'w
    \<Rightarrow> (int \<times> (string \<times> json) list) res \<times> 'w" where
  "access w key pay off wr data32 lane_be world =
     (if routed_register_access_enabled (dev_target w)
      then routed_register_access (dev_target w) key (delivery_context w key pay off wr data32 lane_be) world
      else if wr
      then (case write_register (dev_target w) off data32 lane_be world of
          (Inl e, world') \<Rightarrow> (Inl e, world') | (Inr _, world') \<Rightarrow> (Inr (0, []), world'))
      else (case read_register (dev_target w) off world of
          (Inl e, world') \<Rightarrow> (Inl e, world') | (Inr v, world') \<Rightarrow> (Inr (v, []), world')))"

definition enqueue :: "'w router \<Rightarrow> ledgers \<Rightarrow> int \<Rightarrow> transaction_key \<Rightarrow> int \<Rightarrow> bool \<Rightarrow> int \<Rightarrow> int \<Rightarrow> int
    \<Rightarrow> (response \<Rightarrow> 'w \<Rightarrow> unit res \<times> 'w) \<Rightarrow> bool res \<times> 'w router \<times> ledgers" where
  "enqueue rt ls ref key adr wr wdata be beat callback = (case prepare rt adr wr wdata be beat of
     Inl e \<Rightarrow> (Inl e, rt, ls)
   | Inr p \<Rightarrow>
       (case accept (ledger_of ls ref) key (payload_json (p_payload p)) of
          (Inl e, l') \<Rightarrow> (Inl e, rt, dict_set ls ref l')
        | (Inr fresh, l') \<Rightarrow>
            (Inr fresh,
             if fresh then rt\<lparr>queue := queue rt @ [\<lparr>q_ledger = ref, q_key = key, q_payload = p_payload p, q_window = p_window p,
                  q_lane_be = p_lane_be p, q_data32 = p_data32 p, q_offset = p_offset p, q_write = wr, q_callback = callback\<rparr>],
                acceptances := acceptances rt @ [\<lparr>acp_transaction = key, acp_device = device_id (p_window p),
                  acp_sequence = source_sequence key, acceptance_order = int (length (acceptances rt)) + 1, acp_address = adr,
                  acp_offset = p_offset p, acp_beat_bytes = beat, acp_write = wr, acp_byte_enable = p_lane_be p,
                  acp_write_value = (if wr then Some (p_data32 p) else None)\<rparr>]\<rparr>
             else rt,
             dict_set ls ref l')))"

section \<open>Delivery\<close>

definition shifted_response :: "bool \<Rightarrow> bool \<Rightarrow> int \<Rightarrow> response" where
  "shifted_response wr high readback = (if wr then (0, 0) else (push_bit (if high then 32 else 0) readback, 0))"

text \<open>The counters and the row of one delivery; \<open>drain_one\<close> and \<open>transact\<close> differ in when the row is
  appended.\<close>

definition delivery_row :: "'w router \<Rightarrow> 'w device_window \<Rightarrow> transaction_key \<Rightarrow> mmio_payload \<Rightarrow> int \<Rightarrow> bool \<Rightarrow> int \<Rightarrow> int
    \<Rightarrow> (string \<times> json) list \<Rightarrow> response \<Rightarrow> delivery" where
  "delivery_row rt w key pay off wr data32 lane_be acc resp =
     \<lparr>dlv_access = filter (\<lambda>kv. fst kv \<noteq> ''rdata'') acc, dlv_transaction = key, dlv_device = device_id w,
      dlv_sequence = source_sequence key, delivery_order = delivery_sequence rt + 1,
      target_delivery_order = dict_get (target_delivery_counts rt) (device_id w) 0 + 1,
      dlv_address = pay_address pay, dlv_beat_bytes = pay_beat_bytes pay, dlv_offset = off, dlv_write = wr,
      dlv_byte_enable = lane_be, dlv_write_value = (if wr then Some data32 else None),
      dlv_read_value = (if wr then None else Some (fst resp))\<rparr>"

definition count_delivery :: "'w router \<Rightarrow> string \<Rightarrow> 'w router" where
  "count_delivery rt did = rt\<lparr>target_delivery_counts := dict_set (target_delivery_counts rt) did
       (dict_get (target_delivery_counts rt) did 0 + 1),
     delivery_sequence := delivery_sequence rt + 1\<rparr>"

definition deliver :: "'w queued \<Rightarrow> 'w router \<times> 'w \<times> delivery option \<Rightarrow> response res \<times> ('w router \<times> 'w \<times> delivery option)" where
  "deliver q st = (case st of (rt, world, pend) \<Rightarrow>
     case access (q_window q) (q_key q) (q_payload q) (q_offset q) (q_write q) (q_data32 q) (q_lane_be q) world of
       (Inl e, world') \<Rightarrow> (Inl e, rt, world', pend)
     | (Inr (readback, acc), world') \<Rightarrow>
         (let resp = shifted_response (q_write q) (pay_beat_bytes (q_payload q) = 8 \<and> bit (pay_address (q_payload q)) 2) readback;
              row = delivery_row rt (q_window q) (q_key q) (q_payload q) (q_offset q) (q_write q) (q_data32 q) (q_lane_be q) acc resp;
              rt1 = count_delivery rt (device_id (q_window q))
          in (Inr resp,
              (if routed_register_access_enabled (dev_target (q_window q)) then rt1
               else rt1\<lparr>deliveries := deliveries rt1 @ [row]\<rparr>), world', Some row)))"

definition remove_at :: "nat \<Rightarrow> 'a list \<Rightarrow> 'a list" where
  "remove_at i xs = take i xs @ drop (Suc i) xs"

definition first_index :: "('a \<Rightarrow> bool) \<Rightarrow> 'a list \<Rightarrow> nat option" where
  "first_index P xs = (let i = length (takeWhile (\<lambda>x. \<not> P x) xs) in if i < length xs then Some i else None)"

text \<open>The source was not told: a routed target hears of it before the callback's error is raised.\<close>

definition delivery_failed :: "'w queued \<Rightarrow> delivery option \<Rightarrow> exc \<Rightarrow> 'w \<Rightarrow> exc \<times> 'w" where
  "delivery_failed q pend e world =
     (if routed_register_access_enabled (dev_target (q_window q))
      then (case routed_delivery_failed (dev_target (q_window q)) of
          None \<Rightarrow> (e, world)
        | Some terminal \<Rightarrow>
            (case terminal (q_key q) (case pend of None \<Rightarrow> None | Some row \<Rightarrow> map_of (dlv_access row) ''target_access_id'') world of
               (Inl e', world') \<Rightarrow> (e', world') | (Inr _, world') \<Rightarrow> (e, world')))
      else (e, world))"

definition drain_one :: "'w system \<Rightarrow> string \<Rightarrow> bool res \<times> 'w system" where
  "drain_one sys did = (case sys of (rt, ls, world) \<Rightarrow>
     case first_index (\<lambda>q. device_id (q_window q) = did) (queue rt) of
       None \<Rightarrow> (Inr False, sys)
     | Some i \<Rightarrow>
       (let q = queue rt ! i; l = ledger_of ls (q_ledger q) in
        if \<not> target_ready l (q_key q) then (Inr False, sys)
        else (case complete_accepted l (q_key q) (payload_json (q_payload q)) (deliver q) (rt, world, None) of
            (Inl e, l', rt1, world1, _) \<Rightarrow>
              (Inl e, (if q_key q \<in> set (uncertain_keys l') then rt1\<lparr>queue := remove_at i (queue rt1)\<rparr> else rt1),
                 dict_set ls (q_ledger q) l', world1)
          | (Inr resp, l', rt1, world1, pend) \<Rightarrow>
              (let rt2 = rt1\<lparr>queue := remove_at i (queue rt1)\<rparr>; ls' = dict_set ls (q_ledger q) l' in
               case q_callback q (case resp of None \<Rightarrow> (0, 0) | Some x \<Rightarrow> x) world1 of
                 (Inl e, world2) \<Rightarrow> (case delivery_failed q pend e world2 of (e', world3) \<Rightarrow> (Inl e', rt2, ls', world3))
               | (Inr _, world2) \<Rightarrow>
                   (Inr True,
                    (case pend of
                       Some row \<Rightarrow> if routed_register_access_enabled (dev_target (q_window q))
                                   then rt2\<lparr>deliveries := deliveries rt2 @ [row]\<rparr> else rt2
                     | None \<Rightarrow> rt2), ls', world2)))))"

text \<open>Cancellation walks the queue; the new queue is stored only after every cancellation succeeded.\<close>

fun cancel_items :: "int \<Rightarrow> response ledger \<Rightarrow> 'w queued list \<Rightarrow> transaction_key list res \<times> response ledger" where
  "cancel_items ref l [] = (Inr [], l)"
| "cancel_items ref l (q # qs) =
     (if q_ledger q = ref
      then (case cancel_accepted l (q_key q) (payload_json (q_payload q)) of
          (Inl e, l') \<Rightarrow> (Inl e, l')
        | (Inr _, l') \<Rightarrow> (case cancel_items ref l' qs of
              (Inl e, l'') \<Rightarrow> (Inl e, l'') | (Inr ks, l'') \<Rightarrow> (Inr (q_key q # ks), l'')))
      else cancel_items ref l qs)"

definition cancel_for_ledger :: "'w router \<Rightarrow> ledgers \<Rightarrow> int \<Rightarrow> transaction_key list res \<times> 'w router \<times> ledgers" where
  "cancel_for_ledger rt ls ref = (case cancel_items ref (ledger_of ls ref) (queue rt) of
     (Inl e, l') \<Rightarrow> (Inl e, rt, dict_set ls ref l')
   | (Inr ks, l') \<Rightarrow> (Inr ks, rt\<lparr>queue := filter (\<lambda>q. q_ledger q \<noteq> ref) (queue rt)\<rparr>, dict_set ls ref l'))"

definition deliver_now :: "transaction_key \<Rightarrow> 'w prepared \<Rightarrow> bool \<Rightarrow> 'w router \<times> 'w \<Rightarrow> response res \<times> ('w router \<times> 'w)" where
  "deliver_now key p wr st = (case st of (rt, world) \<Rightarrow>
     case access (p_window p) key (p_payload p) (p_offset p) wr (p_data32 p) (p_lane_be p) world of
       (Inl e, world') \<Rightarrow> (Inl e, rt, world')
     | (Inr (readback, acc), world') \<Rightarrow>
         (let resp = shifted_response wr (p_high_lane p) readback;
              row = delivery_row rt (p_window p) key (p_payload p) (p_offset p) wr (p_data32 p) (p_lane_be p) acc resp;
              rt1 = count_delivery rt (device_id (p_window p))
          in (Inr resp, rt1\<lparr>deliveries := deliveries rt1 @ [row]\<rparr>, world')))"

definition transact :: "'w system \<Rightarrow> int \<Rightarrow> transaction_key \<Rightarrow> int \<Rightarrow> bool \<Rightarrow> int \<Rightarrow> int \<Rightarrow> int
    \<Rightarrow> response option res \<times> 'w system" where
  "transact sys ref key adr wr wdata be beat = (case sys of (rt, ls, world) \<Rightarrow>
     case prepare rt adr wr wdata be beat of
       Inl e \<Rightarrow> (Inl e, sys)
     | Inr p \<Rightarrow>
         (case execute_once (ledger_of ls ref) key (payload_json (p_payload p)) (deliver_now key p wr) (rt, world) of
            (r, l', rt', world') \<Rightarrow> (r, rt', dict_set ls ref l', world')))"

section \<open>Windows and lanes\<close>

text \<open>The windows of a router that was built form a table with unique owners.\<close>

definition router_windows :: "'w device_window list \<Rightarrow> bool" where
  "router_windows ws \<longleftrightarrow> is_ok (make_router ws)"

lemma check_windows_disjoint:
  assumes "fold_res check_window vs ws = Inr us" and "disjoint_list dev_lo dev_hi vs"
  shows "us = vs @ ws \<and> disjoint_list dev_lo dev_hi us"
  using assms
proof (induction ws arbitrary: vs)
  case (Cons w ws)
  then obtain vs' where vs': "check_window vs w = Inr vs'" "fold_res check_window vs' ws = Inr us" by auto
  then have "vs' = vs @ [w]" "disjoint_list dev_lo dev_hi vs'"
    using Cons.prems(2) by (auto simp: check_window_def disjoint_list_snoc windows_overlap_def split: if_splits)
  with Cons.IH [OF vs'(2)] show ?case by auto
qed simp

interpretation device_table: window_table dev_base "\<lambda>w. dev_base w + dev_size w" router_windows
proof (unfold_locales, goal_cases)
  case (1 ws)
  then obtain us where "fold_res check_window [] ws = Inr us"
    by (auto simp: router_windows_def make_router_def is_ok_iff)
  with check_windows_disjoint [OF this] show ?case by auto
qed

section \<open>The queue and the ledgers\<close>

definition queue_order :: "'w queued \<Rightarrow> 'w queued \<Rightarrow> bool" where
  "queue_order a b \<longleftrightarrow> (q_ledger a = q_ledger b \<longrightarrow> key_channel (q_key a) = key_channel (q_key b)
     \<longrightarrow> source_sequence (q_key a) < source_sequence (q_key b))"

definition pending_in :: "response ledger \<Rightarrow> transaction_key \<Rightarrow> response entry \<Rightarrow> bool" where
  "pending_in l key e \<longleftrightarrow> map_of (entries l) key = Some e \<and> status e = target_pending"

text \<open>A queued request is pending, or it was cancelled by a cancellation that then raised; that needs a ledger with an uncertain effect.\<close>

definition queued_ok :: "ledgers \<Rightarrow> 'w queued \<Rightarrow> bool" where
  "queued_ok ls q \<longleftrightarrow> (\<exists>e. map_of (entries (ledger_of ls (q_ledger q))) (q_key q) = Some e
     \<and> digest (payload_json (q_payload q)) = Inr (payload_digest e)
     \<and> (status e = target_pending \<or> status e = cancelled \<and> uncertain_keys (ledger_of ls (q_ledger q)) \<noteq> []))"

text \<open>The pending transactions of the ledgers are queued, each once, with those of one source channel in
  source order; of a ledger without uncertain effects nothing else is queued.\<close>

definition router_inv :: "'w router \<Rightarrow> ledgers \<Rightarrow> bool" where
  "router_inv rt ls \<longleftrightarrow> (\<forall>ref. ledger_inv (ledger_of ls ref)) \<and> sorted_wrt queue_order (queue rt)
     \<and> (\<forall>q \<in> set (queue rt). queued_ok ls q)
     \<and> (\<forall>ref key e. pending_in (ledger_of ls ref) key e \<longrightarrow> (\<exists>q \<in> set (queue rt). q_ledger q = ref \<and> q_key q = key))"

lemma router_invD:
  assumes "router_inv rt ls"
  shows "ledger_inv (ledger_of ls ref)" "sorted_wrt queue_order (queue rt)" "q \<in> set (queue rt) \<Longrightarrow> queued_ok ls q"
    "pending_in (ledger_of ls ref) key e \<Longrightarrow> \<exists>q \<in> set (queue rt). q_ledger q = ref \<and> q_key q = key"
  using assms unfolding router_inv_def by blast+

lemma ledger_of_set [simp]: "ledger_of (dict_set ls ref l) ref' = (if ref' = ref then l else ledger_of ls ref')"
  by (simp add: ledger_of_def dict_simps)

lemma queue_distinct: "sorted_wrt queue_order qs \<Longrightarrow> distinct (map (\<lambda>q. (q_ledger q, q_key q)) qs)"
  by (induction qs) (auto simp: queue_order_def)

lemma remove_at_mem:
  assumes "distinct (map f xs)" and "i < length xs"
  shows "x \<in> set (remove_at i xs) \<longleftrightarrow> x \<in> set xs \<and> f x \<noteq> f (xs ! i)"
proof -
  have split: "xs = take i xs @ xs ! i # drop (Suc i) xs" using assms(2) by (rule id_take_nth_drop)
  then have "distinct (map f (take i xs @ xs ! i # drop (Suc i) xs))" using assms(1) by simp
  then have "f (xs ! i) \<notin> f ` set (take i xs) \<union> f ` set (drop (Suc i) xs)" by auto
  moreover have "set xs = insert (xs ! i) (set (take i xs) \<union> set (drop (Suc i) xs))"
    by (subst split) auto
  ultimately show ?thesis by (auto simp: remove_at_def intro: rev_image_eqI)
qed

lemma sorted_wrt_remove_at: "sorted_wrt R xs \<Longrightarrow> sorted_wrt R (remove_at i xs)"
proof -
  assume s: "sorted_wrt R xs"
  have "sorted_wrt R (take i xs @ drop i xs)" using s by simp
  then show ?thesis
    unfolding remove_at_def sorted_wrt_append
    by (metis drop_Suc in_set_dropD set_drop_subset_set_drop le_eq_less_or_eq lessI s sorted_wrt_drop subsetD)
qed

lemma queued_pending:
  assumes "queued_ok ls q" "uncertain_keys (ledger_of ls (q_ledger q)) = []"
  shows "\<exists>e. pending_in (ledger_of ls (q_ledger q)) (q_key q) e \<and> digest (payload_json (q_payload q)) = Inr (payload_digest e)"
  using assms by (auto simp: queued_ok_def pending_in_def)

text \<open>A queued request stays so while its ledger moves forward, unless it is settled.\<close>

lemma queued_ok_update:
  assumes "queued_ok ls q" and "ledger_inv (ledger_of ls ref)" and "ledger_le (ledger_of ls ref, []) (l', [])"
    and "q_ledger q = ref \<Longrightarrow> pending_in (ledger_of ls ref) (q_key q) e
      \<Longrightarrow> \<exists>e'. map_of (entries l') (q_key q) = Some e' \<and> (status e' = target_pending \<or> status e' = cancelled \<and> uncertain_keys l' \<noteq> [])"
    and "map_of (entries (ledger_of ls (q_ledger q))) (q_key q) = Some e"
  shows "queued_ok (dict_set ls ref l') q"
proof (cases "q_ledger q = ref")
  case False
  then show ?thesis using assms(1) by (simp add: queued_ok_def)
next
  case True
  have e: "digest (payload_json (q_payload q)) = Inr (payload_digest e)"
      "status e = target_pending \<or> status e = cancelled \<and> uncertain_keys (ledger_of ls ref) \<noteq> []"
    using assms(1,5) True by (auto simp: queued_ok_def)
  obtain e' where e': "map_of (entries l') (q_key q) = Some e'" "payload_digest e' = payload_digest e" "status e \<noteq> target_pending \<longrightarrow> e' = e"
    using assms(3,5) True by (auto simp: ledger_le_def)
  have "uncertain_keys (ledger_of ls ref) \<noteq> [] \<Longrightarrow> uncertain_keys l' \<noteq> []" using uncertain_mono [OF assms(3,2)] by blast
  then have "status e' = target_pending \<or> status e' = cancelled \<and> uncertain_keys l' \<noteq> []"
    using e(2) e'(1,3) assms(4) [OF True] assms(5) True by (auto simp: pending_in_def)
  with e(1) e'(1,2) True show ?thesis by (simp add: queued_ok_def)
qed

text \<open>A call that only adds or settles entries of one ledger.\<close>

lemma router_inv_update:
  assumes "router_inv rt ls" and "ledger_inv l'" and "ledger_le (ledger_of ls ref, []) (l', [])" and "queue rt' = queue rt"
    and "\<And>key e. pending_in l' key e \<longleftrightarrow> pending_in (ledger_of ls ref) key e"
  shows "router_inv rt' (dict_set ls ref l')"
proof -
  note inv = router_invD [OF assms(1)]
  have pend: "pending_in (ledger_of (dict_set ls ref l') r) key e \<longleftrightarrow> pending_in (ledger_of ls r) key e" for r key e
    using assms(5) by simp
  have "queued_ok (dict_set ls ref l') q" if q: "q \<in> set (queue rt)" for q
  proof -
    obtain e where "map_of (entries (ledger_of ls (q_ledger q))) (q_key q) = Some e" using inv(3) [OF q] by (auto simp: queued_ok_def)
    from queued_ok_update [OF inv(3) [OF q] inv(1) assms(3) _ this] show ?thesis using assms(5) by (auto simp: pending_in_def)
  qed
  with inv(1,2,4) assms(2,4) pend show ?thesis
    unfolding router_inv_def by simp
qed


lemma head_of_channel:
  assumes "ledger_inv l" and "pending_in l key e" and "uncertain_keys l = []"
    and "\<And>key' e'. pending_in l key' e' \<Longrightarrow> key_channel key' = key_channel key \<Longrightarrow> source_sequence key \<le> source_sequence key'"
  shows "target_ready l key"
proof -
  note inv = ledger_invD [OF assms(1)]
  let ?t = "next_target l (key_channel key)"
  have e: "map_of (entries l) key = Some e" "status e = target_pending" using assms(2) by (simp_all add: pending_in_def)
  then have ok: "source_sequence key < next_channel l (key_channel key)" "\<not> source_sequence key < ?t"
    using inv(2) [OF e(1)] by (auto simp: entry_ok_def finished_def Let_def)
  define key' where "key' = key\<lparr>source_sequence := ?t\<rparr>"
  have k': "key_channel key' = key_channel key" "source_sequence key' = ?t" by (simp_all add: key'_def key_channel_def)
  with inv(3,5) ok obtain e' where e': "map_of (entries l) key' = Some e'"
    by (metis linorder_not_less not_None_eq order_le_less_trans)
  have "status e' \<noteq> uncertain_effect"
  proof
    assume "status e' = uncertain_effect"
    with map_of_SomeD [OF e'] have "key' \<in> set (uncertain_keys l)" by (force simp: uncertain_keys_def)
    with assms(3) show False by simp
  qed
  with inv(2) [OF e'] k' have "status e' = target_pending"
    by (cases "status e'") (auto simp: entry_ok_def finished_def Let_def)
  with e' assms(4) [of key' e'] k' ok(2) have "source_sequence key = ?t" by (simp add: pending_in_def)
  with e show ?thesis by (simp add: target_ready_def)
qed

lemma first_index_Some:
  assumes "first_index P xs = Some i"
  shows "i < length xs" "P (xs ! i)"
  using assms nth_length_takeWhile [of "\<lambda>x. \<not> P x" xs]
  by (auto simp: first_index_def Let_def split: if_splits)

lemma deliver_queue: "deliver q (rt, world, pend) = (r, rt', world', pend') \<Longrightarrow> queue rt' = queue rt \<and> dev_windows rt' = dev_windows rt"
  by (auto simp: deliver_def count_delivery_def Let_def split: prod.splits sum.splits if_splits)

text \<open>Completing the request at the head of its channel: afterwards it is settled or uncertain, the rest is as before.\<close>

lemma complete_ready:
  assumes "ledger_inv l" and "pending_in l key e" and "digest p = Inr (payload_digest e)" and "target_ready l key"
    and "complete_accepted l key p act w = (r, l', w')"
  shows "ledger_inv l'" "pending_in l' key' e' \<longleftrightarrow> pending_in l key' e' \<and> key' \<noteq> key"
    "(\<exists>x. act w = (Inr x, w') \<and> r = Inr (Some x)) \<or> (\<exists>err. act w = (Inl err, w') \<and> r = Inl err \<and> key \<in> set (uncertain_keys l'))"
proof -
  show "ledger_inv l'" using complete_accepted_inv [OF assms(1), of key p act w] assms(5) by simp
  have "map_of (entries l) key = Some e" "status e = target_pending" using assms(2) by (simp_all add: pending_in_def)
  then have run: "run_target l key e (next_target l (key_channel key)) act w = (r, l', w')"
    using assms(3-5) by (simp add: complete_accepted_def target_ready_def)
  obtain x w1 where op: "act w = (x, w1)" by fastforce
  show "pending_in l' key' e' \<longleftrightarrow> pending_in l key' e' \<and> key' \<noteq> key"
    using run op by (cases x) (auto simp: run_target_eq settle_def set_status_def pending_in_def dict_simps split: if_splits)
  show "(\<exists>x. act w = (Inr x, w') \<and> r = Inr (Some x)) \<or> (\<exists>err. act w = (Inl err, w') \<and> r = Inl err \<and> key \<in> set (uncertain_keys l'))"
  proof (cases x)
    case (Inl err)
    then have l': "l' = set_status l key e uncertain_effect" "w' = w1" "r = Inl err" using run op by (simp_all add: run_target_eq)
    have "map_of (entries l') key = Some (e\<lparr>status := uncertain_effect\<rparr>)" by (simp add: l' set_status_def dict_simps)
    from map_of_SomeD [OF this] have "key \<in> set (uncertain_keys l')" by (force simp: uncertain_keys_def)
    with l' op Inl show ?thesis by blast
  qed (use run op in \<open>simp add: run_target_eq\<close>)
qed

lemma router_inv_remove:
  assumes "router_inv rt ls" and "i < length (queue rt)" and "queue rt' = remove_at i (queue rt)"
    and "ledger_inv l'" and "ledger_le (ledger_of ls ref, []) (l', [])" and "ref = q_ledger (queue rt ! i)"
    and "\<And>key e. pending_in l' key e \<longleftrightarrow> pending_in (ledger_of ls ref) key e \<and> key \<noteq> q_key (queue rt ! i)"
  shows "router_inv rt' (dict_set ls ref l')"
proof -
  note inv = router_invD [OF assms(1)]
  have mem: "q \<in> set (queue rt') \<longleftrightarrow> q \<in> set (queue rt) \<and> (q_ledger q, q_key q) \<noteq> (ref, q_key (queue rt ! i))" for q
    unfolding assms(3,6) using remove_at_mem [OF queue_distinct [OF inv(2)] assms(2)] by simp
  have "queued_ok (dict_set ls ref l') q" if "q \<in> set (queue rt')" for q
  proof -
    have q: "queued_ok ls q" "(q_ledger q, q_key q) \<noteq> (ref, q_key (queue rt ! i))" using inv(3) that mem by auto
    then obtain e where e: "map_of (entries (ledger_of ls (q_ledger q))) (q_key q) = Some e" by (auto simp: queued_ok_def)
    show ?thesis
      by (rule queued_ok_update [OF q(1) inv(1) assms(5) _ e]) (use q(2) assms(7) in \<open>auto simp: pending_in_def\<close>)
  qed
  moreover have "\<exists>q \<in> set (queue rt'). q_ledger q = r \<and> q_key q = key"
    if p: "pending_in (ledger_of (dict_set ls ref l') r) key e" for r key e
  proof -
    have "pending_in (ledger_of ls r) key e" "(r, key) \<noteq> (ref, q_key (queue rt ! i))"
      using p assms(7) by (auto split: if_splits)
    with inv(4) [OF this(1)] mem show ?thesis by blast
  qed
  moreover have "sorted_wrt queue_order (queue rt')"
    unfolding assms(3) by (rule sorted_wrt_remove_at [OF inv(2)])
  ultimately show ?thesis
    unfolding router_inv_def using inv(1) assms(4) by simp
qed

lemma drain_inv:
  assumes "router_inv rt ls" and "drain_one (rt, ls, world) did = (r, rt', ls', world')"
  shows "router_inv rt' ls' \<and> dev_windows rt' = dev_windows rt"
proof (cases "first_index (\<lambda>q. device_id (q_window q) = did) (queue rt)")
  case None
  with assms show ?thesis by (simp add: drain_one_def)
next
  case (Some i)
  let ?q = "queue rt ! i" and ?l = "ledger_of ls (q_ledger (queue rt ! i))"
  show ?thesis
  proof (cases "target_ready ?l (q_key ?q)")
    case False
    with Some assms show ?thesis by (simp add: drain_one_def Let_def)
  next
    case True
    have i: "i < length (queue rt)" using first_index_Some [OF Some] by simp
    obtain e where e: "pending_in ?l (q_key ?q) e" "digest (payload_json (q_payload ?q)) = Inr (payload_digest e)"
      using router_invD(3) [OF assms(1) nth_mem [OF i]] True by (auto simp: queued_ok_def pending_in_def target_ready_def)
    obtain res l' rt1 world1 pend where c:
      "complete_accepted ?l (q_key ?q) (payload_json (q_payload ?q)) (deliver ?q) (rt, world, None) = (res, l', rt1, world1, pend)"
      by (metis prod.collapse)
    note dn = complete_ready [OF router_invD(1) [OF assms(1)] e True c]
    have q1: "queue rt1 = queue rt" "dev_windows rt1 = dev_windows rt"
      using dn(3) deliver_queue [of ?q rt world None _ rt1 world1 pend] by auto
    have s': "queue rt' = remove_at i (queue rt)" "dev_windows rt' = dev_windows rt" "ls' = dict_set ls (q_ledger ?q) l'"
      using assms(2) Some True c dn(3) q1
      by (auto simp: drain_one_def Let_def split: sum.splits prod.splits option.splits if_splits)
    show ?thesis
      using router_inv_remove [OF assms(1) i s'(1) dn(1) _ refl dn(2)] s' c
        complete_accepted_le [of ?l "[]" "q_key ?q" "payload_json (q_payload ?q)" "deliver ?q" "(rt, world, None)" "[]"] by simp
  qed
qed


lemma accept_true:
  assumes "accept l key p = (Inr True, l')"
  obtains d where "digest p = Inr d" "map_of (entries l) key = None" "source_sequence key = next_channel l (key_channel key)"
    "l' = add_pending l key d"
  using assms that by (auto simp: accept_def add_pending_def Let_def split: sum.splits option.splits if_splits)

lemma accept_other: "accept l key p = (r, l') \<Longrightarrow> r \<noteq> Inr True \<Longrightarrow> l' = l"
  by (auto simp: accept_def Let_def split: sum.splits option.splits if_splits)

lemma router_inv_append:
  assumes "router_inv rt ls" and "accept (ledger_of ls (q_ledger q)) (q_key q) (payload_json (q_payload q)) = (Inr True, l')"
    and "queue rt' = queue rt @ [q]"
  shows "router_inv rt' (dict_set ls (q_ledger q) l')"
proof -
  let ?l = "ledger_of ls (q_ledger q)"
  note inv = router_invD [OF assms(1)]
  obtain d where d: "digest (payload_json (q_payload q)) = Inr d" "map_of (entries ?l) (q_key q) = None"
      "source_sequence (q_key q) = next_channel ?l (key_channel (q_key q))" "l' = add_pending ?l (q_key q) d"
    using accept_true [OF assms(2)] by blast
  have look: "pending_in l' key e \<longleftrightarrow> (if key = q_key q then e = \<lparr>payload_digest = d, status = target_pending, receipt = None\<rparr>
      else pending_in ?l key e)" for key e
    using d(2) by (auto simp: pending_in_def d(4) add_pending_def dict_simps)
  have "queue_order q' q" if "q' \<in> set (queue rt)" for q'
    using inv(3) [OF that] ledger_invD(2) [OF inv(1) [of "q_ledger q'"], of "q_key q'"] d(3)
    by (auto simp: queue_order_def queued_ok_def entry_ok_def Let_def)
  then have "sorted_wrt queue_order (queue rt')"
    using inv(2) by (simp add: assms(3) sorted_wrt_append)
  moreover have "queued_ok (dict_set ls (q_ledger q) l') q'" if "q' \<in> set (queue rt')" for q'
  proof (cases "q' = q")
    case True
    moreover have "map_of (entries l') (q_key q) = Some \<lparr>payload_digest = d, status = target_pending, receipt = None\<rparr>"
      by (simp add: d(4) add_pending_def dict_simps)
    ultimately show ?thesis using d(1) by (simp add: queued_ok_def)
  next
    case False
    then have ok: "queued_ok ls q'" using that inv(3) assms(3) by simp
    then obtain e where e: "map_of (entries (ledger_of ls (q_ledger q'))) (q_key q') = Some e" by (auto simp: queued_ok_def)
    have ne: "\<not> (q_ledger q' = q_ledger q \<and> q_key q' = q_key q)" using e d(2) by auto
    have "ledger_le (?l, []) (l', [])" using accept_le [of ?l "[]" "q_key q" "payload_json (q_payload q)" "[]"] assms(2) by simp
    then show ?thesis
    proof (rule queued_ok_update [OF ok inv(1) _ _ e])
      assume "q_ledger q' = q_ledger q" "pending_in ?l (q_key q') e"
      with ne look [of "q_key q'" e] have "pending_in l' (q_key q') e" by simp
      then show "\<exists>e'. map_of (entries l') (q_key q') = Some e' \<and> (status e' = target_pending \<or> status e' = cancelled \<and> uncertain_keys l' \<noteq> [])"
        by (auto simp: pending_in_def)
    qed
  qed
  moreover have "\<exists>q' \<in> set (queue rt'). q_ledger q' = r \<and> q_key q' = key"
    if p: "pending_in (ledger_of (dict_set ls (q_ledger q) l') r) key e" for r key e
  proof (cases "r = q_ledger q \<and> key = q_key q")
    case False
    with p have "pending_in (ledger_of ls r) key e" by (auto simp: look split: if_splits)
    from inv(4) [OF this] show ?thesis by (auto simp: assms(3))
  qed (simp add: assms(3))
  ultimately show ?thesis
    unfolding router_inv_def using inv(1) add_pending_inv [OF inv(1) d(2,3)] d(4) by simp
qed

lemma enqueue_inv:
  assumes "router_inv rt ls" and "enqueue rt ls ref key adr wr wdata be beat cb = (r, rt', ls')"
  shows "router_inv rt' ls' \<and> dev_windows rt' = dev_windows rt"
proof (cases "prepare rt adr wr wdata be beat")
  case (Inl e)
  with assms show ?thesis by (simp add: enqueue_def)
next
  case (Inr p)
  let ?q = "\<lparr>q_ledger = ref, q_key = key, q_payload = p_payload p, q_window = p_window p,
    q_lane_be = p_lane_be p, q_data32 = p_data32 p, q_offset = p_offset p, q_write = wr, q_callback = cb\<rparr>"
  obtain x l' where a: "accept (ledger_of ls ref) key (payload_json (p_payload p)) = (x, l')" by fastforce
  show ?thesis
  proof (cases "x = Inr True")
    case True
    have rt': "queue rt' = queue rt @ [?q]" "dev_windows rt' = dev_windows rt" "ls' = dict_set ls ref l'"
      using assms(2) Inr a True by (auto simp: enqueue_def)
    show ?thesis using router_inv_append [OF assms(1), of ?q l' rt'] a True rt' by simp
  next
    case False
    then have "l' = ledger_of ls ref" by (rule accept_other [OF a])
    moreover have "rt' = rt" "ls' = dict_set ls ref l'"
      using assms(2) Inr a False by (auto simp: enqueue_def split: sum.splits if_splits)
    ultimately show ?thesis
      using router_inv_update [OF assms(1) router_invD(1) [OF assms(1)], where ref = ref and rt' = rt] by (simp add: ledger_le_refl)
  qed
qed

lemma execute_pending:
  assumes "ledger_inv l" and "execute_once l key p act w = (r, l', w')"
  shows "ledger_inv l'" "pending_in l' key' e \<longleftrightarrow> pending_in l key' e"
proof -
  show "ledger_inv l'" using execute_once_inv [OF assms(1), of key p act w] assms(2) by simp
  show "pending_in l' key' e \<longleftrightarrow> pending_in l key' e"
    using execute_once_cases [of l key p act w]
  proof (elim disjE exE conjE)
    fix d
    assume fresh: "map_of (entries l) key = None"
      and run: "execute_once l key p act w = run_target (add_pending l key d) key
        \<lparr>payload_digest = d, status = target_pending, receipt = None\<rparr>
        (next_target (add_pending l key d) (key_channel key)) act w"
    obtain x w1 where op: "act w = (x, w1)" by fastforce
    show ?thesis
      using assms(2) fresh unfolding run run_target_eq op
      by (cases x) (auto simp: settle_def set_status_def add_pending_def pending_in_def dict_simps split: if_splits)
  qed (use assms(2) in simp)
qed

lemma deliver_now_queue:
  "deliver_now key p wr (rt, world) = (r, rt', world') \<Longrightarrow> queue rt' = queue rt \<and> dev_windows rt' = dev_windows rt"
  by (auto simp: deliver_now_def count_delivery_def Let_def split: prod.splits sum.splits)

lemma transact_inv:
  assumes "router_inv rt ls" and "transact (rt, ls, world) ref key adr wr wdata be beat = (r, rt', ls', world')"
  shows "router_inv rt' ls' \<and> dev_windows rt' = dev_windows rt"
proof (cases "prepare rt adr wr wdata be beat")
  case (Inl e)
  with assms show ?thesis by (simp add: transact_def)
next
  case (Inr p)
  then obtain l' where ex: "execute_once (ledger_of ls ref) key (payload_json (p_payload p)) (deliver_now key p wr) (rt, world)
      = (r, l', rt', world')" and ls': "ls' = dict_set ls ref l'"
    using assms(2) by (auto simp: transact_def split: prod.splits)
  have "queue rt' = queue rt \<and> dev_windows rt' = dev_windows rt"
    using ex by (cases rule: execute_onceE) (auto dest: deliver_now_queue)
  moreover note execute_pending [OF router_invD(1) [OF assms(1)] ex]
  moreover have "ledger_le (ledger_of ls ref, []) (l', [])"
    using execute_once_le [of "ledger_of ls ref" "[]" key "payload_json (p_payload p)" "deliver_now key p wr" "(rt, world)" "[]"] by (simp add: ex)
  ultimately show ?thesis
    unfolding ls' using router_inv_update [OF assms(1)] by blast
qed

lemma cancel_ready:
  assumes "ledger_inv l" and "pending_in l key e" and "digest p = Inr (payload_digest e)" and "target_ready l key"
  obtains l' where "cancel_accepted l key p = (Inr (), l')" "ledger_inv l'"
    "\<And>key' e'. pending_in l' key' e' \<longleftrightarrow> pending_in l key' e' \<and> key' \<noteq> key"
    "uncertain_keys l = [] \<Longrightarrow> uncertain_keys l' = []"
proof -
  have e: "map_of (entries l) key = Some e" "status e = target_pending" using assms(2) by (simp_all add: pending_in_def)
  define l' where "l' = (set_status l key e cancelled)
    \<lparr>next_target_sequence := dict_set (next_target_sequence l) (key_channel key) (next_target l (key_channel key) + 1)\<rparr>"
  have c: "cancel_accepted l key p = (Inr (), l')"
    using e assms(3,4) by (simp add: cancel_accepted_def target_ready_def l'_def Let_def)
  have "set (entries l') \<subseteq> insert (key, e\<lparr>status := cancelled\<rparr>) (set (entries l))"
    using dict_set_subset [where d = "entries l" and k = key] by (simp add: l'_def set_status_def)
  then have "uncertain_keys l = [] \<Longrightarrow> uncertain_keys l' = []"
    by (auto simp: uncertain_keys_def filter_empty_conv)
  moreover have "pending_in l' key' e' \<longleftrightarrow> pending_in l key' e' \<and> key' \<noteq> key" for key' e'
    by (auto simp: l'_def set_status_def pending_in_def dict_simps)
  moreover have "ledger_inv l'" using cancel_accepted_inv [OF assms(1), of key p] c by simp
  ultimately show thesis by (intro that [OF c])
qed


text \<open>Cancelling the queued requests of one ledger in queue order: each is at the head of its channel when its turn
  comes, so with no uncertain effect none is refused.\<close>

lemma cancel_items_ok:
  assumes "ledger_inv l" and "uncertain_keys l = []" and "sorted_wrt queue_order qs"
    and "\<And>q. q \<in> set qs \<Longrightarrow> q_ledger q = ref \<Longrightarrow> \<exists>e. pending_in l (q_key q) e \<and> digest (payload_json (q_payload q)) = Inr (payload_digest e)"
    and "\<And>key e. pending_in l key e \<Longrightarrow> \<exists>q \<in> set qs. q_ledger q = ref \<and> q_key q = key"
  shows "\<exists>l'. cancel_items ref l qs = (Inr (map q_key (filter (\<lambda>q. q_ledger q = ref) qs)), l') \<and> ledger_inv l'
    \<and> (\<forall>key e. \<not> pending_in l' key e)"
  using assms
proof (induction qs arbitrary: l)
  case Nil
  then show ?case by auto
next
  case (Cons q qs)
  show ?case
  proof (cases "q_ledger q = ref")
    case False
    have "\<exists>l'. cancel_items ref l qs = (Inr (map q_key (filter (\<lambda>q. q_ledger q = ref) qs)), l') \<and> ledger_inv l'
      \<and> (\<forall>key e. \<not> pending_in l' key e)"
      by (rule Cons.IH) (use Cons.prems False in auto)
    with False show ?thesis by simp
  next
    case True
    obtain e where e: "pending_in l (q_key q) e" "digest (payload_json (q_payload q)) = Inr (payload_digest e)"
      using Cons.prems(4) [of q] True by auto
    have ord: "\<And>q'. q' \<in> set qs \<Longrightarrow> queue_order q q'" using Cons.prems(3) by simp
    have "target_ready l (q_key q)"
    proof (rule head_of_channel [OF Cons.prems(1) e(1) Cons.prems(2)])
      fix key' e' assume "pending_in l key' e'" and ch: "key_channel key' = key_channel (q_key q)"
      then obtain q' where "q' \<in> set (q # qs)" "q_ledger q' = ref" "q_key q' = key'" using Cons.prems(5) by blast
      with ord [of q'] ch True show "source_sequence (q_key q) \<le> source_sequence key'" by (auto simp: queue_order_def)
    qed
    then obtain l1 where l1: "cancel_accepted l (q_key q) (payload_json (q_payload q)) = (Inr (), l1)" "ledger_inv l1"
        "\<And>key' e'. pending_in l1 key' e' \<longleftrightarrow> pending_in l key' e' \<and> key' \<noteq> q_key q" "uncertain_keys l1 = []"
      using cancel_ready [OF Cons.prems(1) e] Cons.prems(2) by metis
    have "\<exists>l'. cancel_items ref l1 qs = (Inr (map q_key (filter (\<lambda>q. q_ledger q = ref) qs)), l') \<and> ledger_inv l'
      \<and> (\<forall>key e. \<not> pending_in l' key e)"
    proof (rule Cons.IH [OF l1(2,4)])
      show "sorted_wrt queue_order qs" using Cons.prems(3) by simp
      show "\<exists>e. pending_in l1 (q_key q') e \<and> digest (payload_json (q_payload q')) = Inr (payload_digest e)"
        if q': "q' \<in> set qs" "q_ledger q' = ref" for q'
      proof -
        have "q_key q' \<noteq> q_key q" using ord [OF q'(1)] q'(2) True by (auto simp: queue_order_def)
        with Cons.prems(4) [of q'] q' l1(3) show ?thesis by auto
      qed
      show "\<exists>q' \<in> set qs. q_ledger q' = ref \<and> q_key q' = key" if "pending_in l1 key e'" for key e'
        using that Cons.prems(5) [of key e'] l1(3) by auto
    qed
    then show ?thesis using True l1(1) by auto
  qed
qed

lemma cancel_empties:
  assumes "router_inv rt ls" and "cancel_items ref (ledger_of ls ref) (queue rt) = (Inr ks, l')" and "ledger_inv l'"
    and "\<forall>key e. \<not> pending_in l' key e" and "queue rt' = filter (\<lambda>q. q_ledger q \<noteq> ref) (queue rt)"
  shows "router_inv rt' (dict_set ls ref l')"
proof -
  note inv = router_invD [OF assms(1)]
  have "queued_ok (dict_set ls ref l') q" if "q \<in> set (queue rt')" for q
    using that inv(3) [of q] assms(5) by (auto simp: queued_ok_def)
  moreover have "\<exists>q \<in> set (queue rt'). q_ledger q = r \<and> q_key q = key"
    if "pending_in (ledger_of (dict_set ls ref l') r) key e" for r key e
    using that assms(4,5) inv(4) [of r key e] by (auto split: if_splits)
  ultimately show ?thesis
    unfolding router_inv_def using inv(1,2) assms(3,5) by (auto simp: sorted_wrt_filter)
qed

text \<open>A cancellation that returns has cancelled everything: each refusal stops it.\<close>

lemma cancel_items_all:
  assumes "cancel_items ref l qs = (Inr ks, l')" and "ledger_inv l"
  shows "ledger_inv l' \<and> (\<forall>key e. pending_in l' key e \<longrightarrow> pending_in l key e \<and> \<not> (\<exists>q \<in> set qs. q_ledger q = ref \<and> q_key q = key))"
  using assms
proof (induction qs arbitrary: l ks)
  case (Cons q qs)
  show ?case
  proof (cases "q_ledger q = ref")
    case False
    then show ?thesis using Cons by simp
  next
    case True
    then obtain l1 ks1 where c: "cancel_accepted l (q_key q) (payload_json (q_payload q)) = (Inr (), l1)"
        "cancel_items ref l1 qs = (Inr ks1, l')"
      using Cons.prems(1) by (auto split: sum.splits prod.splits)
    have "ledger_inv l1" using cancel_accepted_inv [OF Cons.prems(2), of "q_key q" "payload_json (q_payload q)"] c(1) by simp
    moreover have "pending_in l1 key e \<Longrightarrow> pending_in l key e \<and> key \<noteq> q_key q" for key e
      using c(1) by (auto simp: cancel_accepted_def Let_def set_status_def pending_in_def dict_simps
        split: sum.splits option.splits if_splits)
    ultimately show ?thesis using Cons.IH [OF c(2)] by auto
  qed
qed simp

lemma cancel_returns_inv:
  assumes "router_inv rt ls" and "cancel_for_ledger rt ls ref = (Inr ks, rt', ls')"
  shows "router_inv rt' ls' \<and> dev_windows rt' = dev_windows rt"
proof -
  obtain l' where c: "cancel_items ref (ledger_of ls ref) (queue rt) = (Inr ks, l')"
      and s: "rt' = rt\<lparr>queue := filter (\<lambda>q. q_ledger q \<noteq> ref) (queue rt)\<rparr>" "ls' = dict_set ls ref l'"
    using assms(2) by (auto simp: cancel_for_ledger_def split: sum.splits prod.splits)
  have "ledger_inv l'" "\<forall>key e. \<not> pending_in l' key e"
    using cancel_items_all [OF c router_invD(1) [OF assms(1)]] router_invD(4) [OF assms(1), of ref] by blast+
  from cancel_empties [OF assms(1) c this] show ?thesis by (simp add: s)
qed


text \<open>A cancellation that raises has cancelled some of the requests in the ledger, and the queue is as before.\<close>

lemma cancel_items_frame:
  assumes "cancel_items ref l qs = (r, l')" and "ledger_inv l"
  shows "ledger_inv l' \<and> ledger_le (l, []) (l', []) \<and> (\<forall>key e. pending_in l' key e \<longrightarrow> pending_in l key e)
    \<and> (\<forall>key e. pending_in l key e \<longrightarrow> (\<exists>e'. map_of (entries l') key = Some e' \<and> (status e' = target_pending \<or> status e' = cancelled)))"
  using assms
proof (induction qs arbitrary: l r)
  case (Cons q qs)
  show ?case
  proof (cases "q_ledger q = ref")
    case False
    then show ?thesis using Cons by simp
  next
    case True
    obtain x l1 where c: "cancel_accepted l (q_key q) (payload_json (q_payload q)) = (x, l1)" by fastforce
    have one: "ledger_inv l1" "ledger_le (l, []) (l1, [])"
      using cancel_accepted_inv [OF Cons.prems(2), of "q_key q" "payload_json (q_payload q)"]
        cancel_accepted_le [of l "[]" "q_key q" "payload_json (q_payload q)" "[]"] by (simp_all add: c)
    have p: "\<forall>key e. pending_in l1 key e \<longrightarrow> pending_in l key e"
        "\<forall>key e. pending_in l key e \<longrightarrow> pending_in l1 key e \<or> map_of (entries l1) key = Some (e\<lparr>status := cancelled\<rparr>)"
      using c by (auto simp: cancel_accepted_def Let_def set_status_def pending_in_def dict_simps split: sum.splits option.splits if_splits)
    show ?thesis
    proof (cases x)
      case (Inl e)
      then have "l' = l1" using Cons.prems(1) True c by simp
      moreover have "\<exists>e'. map_of (entries l1) key = Some e' \<and> (status e' = target_pending \<or> status e' = cancelled)" if "pending_in l key e" for key e
        using p(2) [rule_format, OF that] by (auto simp: pending_in_def)
      ultimately show ?thesis using one p(1) by blast
    next
      case (Inr u)
      then obtain r1 where "cancel_items ref l1 qs = (r1, l')" using Cons.prems(1) True c by (auto split: sum.splits prod.splits)
      note ih = Cons.IH [OF this one(1)]
      have "\<exists>e'. map_of (entries l') key = Some e' \<and> (status e' = target_pending \<or> status e' = cancelled)" if "pending_in l key e" for key e
      proof (cases "pending_in l1 key e")
        case False
        then have "map_of (entries l1) key = Some (e\<lparr>status := cancelled\<rparr>)" using p(2) that by blast
        then show ?thesis using ih ledger_le_complete [of l1 "[]" l' "[]" key] by fastforce
      qed (use ih in blast)
      then show ?thesis using ih p(1) ledger_le_trans [OF one(2)] by blast
    qed
  qed
qed (auto simp: ledger_le_refl pending_in_def)

lemma cancel_raises_inv:
  assumes "router_inv rt ls" and "cancel_for_ledger rt ls ref = (Inl err, rt', ls')"
  shows "router_inv rt' ls' \<and> rt' = rt \<and> uncertain_keys (ledger_of ls' ref) \<noteq> []"
proof -
  note inv = router_invD [OF assms(1)]
  obtain l' where c: "cancel_items ref (ledger_of ls ref) (queue rt) = (Inl err, l')" and s: "rt' = rt" "ls' = dict_set ls ref l'"
    using assms(2) by (auto simp: cancel_for_ledger_def split: sum.splits prod.splits)
  note fr = cancel_items_frame [OF c inv(1)]
  have "uncertain_keys (ledger_of ls ref) \<noteq> []"
  proof
    assume none: "uncertain_keys (ledger_of ls ref) = []"
    have "\<exists>e. pending_in (ledger_of ls ref) (q_key q) e \<and> digest (payload_json (q_payload q)) = Inr (payload_digest e)"
      if "q \<in> set (queue rt)" "q_ledger q = ref" for q using queued_pending [OF inv(3) [OF that(1)]] none that(2) by simp
    from cancel_items_ok [OF inv(1) none inv(2), of ref] this inv(4) c show False by force
  qed
  then have unc: "uncertain_keys l' \<noteq> []" using fr uncertain_mono inv(1) by blast
  have "queued_ok (dict_set ls ref l') q" if q: "q \<in> set (queue rt)" for q
  proof -
    obtain e where e: "map_of (entries (ledger_of ls (q_ledger q))) (q_key q) = Some e" using inv(3) [OF q] by (auto simp: queued_ok_def)
    show ?thesis by (rule queued_ok_update [OF inv(3) [OF q] inv(1) _ _ e]) (use fr unc in blast)+
  qed
  moreover have "\<exists>q \<in> set (queue rt). q_ledger q = r \<and> q_key q = key" if "pending_in (ledger_of (dict_set ls ref l') r) key e" for r key e
    using that inv(4) [of r key e] fr by (auto split: if_splits)
  ultimately show ?thesis
    using inv(1,2) fr unc by (simp add: router_inv_def s)
qed

lemma cancel_inv:
  assumes "router_inv rt ls" and "cancel_for_ledger rt ls ref = (r, rt', ls')"
  shows "router_inv rt' ls' \<and> dev_windows rt' = dev_windows rt"
  using assms cancel_returns_inv cancel_raises_inv by (cases r) blast+

section \<open>Runs\<close>

text \<open>What can happen to the router, its ledgers and the world: its own methods, whether they return or raise, other users of a ledger, and the world
  itself.\<close>

inductive router_step :: "'w system \<Rightarrow> 'w system \<Rightarrow> bool" where
  Enqueue: "enqueue rt ls ref key adr wr wdata be beat cb = (r, rt', ls') \<Longrightarrow> router_step (rt, ls, world) (rt', ls', world)"
| Drain: "drain_one (rt, ls, world) did = (r, rt', ls', world') \<Longrightarrow> router_step (rt, ls, world) (rt', ls', world')"
| Transact: "transact (rt, ls, world) ref key adr wr wdata be beat = (r, rt', ls', world')
    \<Longrightarrow> router_step (rt, ls, world) (rt', ls', world')"
| Cancel_all: "cancel_for_ledger rt ls ref = (r, rt', ls') \<Longrightarrow> router_step (rt, ls, world) (rt', ls', world)"
| Other_use: "execute_once (ledger_of ls ref) key p act (w :: 'w) = (r, l', w')
    \<Longrightarrow> router_step (rt, ls, world) (rt, dict_set ls ref l', world)"
| World: "router_step (rt, ls, world) (rt, ls, world')"

inductive_cases router_stepE: "router_step (rt, ls, world) t"

definition sys_inv :: "'w device_window list \<Rightarrow> 'w system \<Rightarrow> bool" where
  "sys_inv ws s \<longleftrightarrow> router_inv (fst s) (fst (snd s)) \<and> dev_windows (fst s) = ws"

lemma router_step_inv:
  assumes "router_step s t" and "sys_inv ws s"
  shows "sys_inv ws t"
  using assms
proof (cases rule: router_step.cases)
  case (Other_use ls ref key p act w r l' w' rt world)
  have inv: "router_inv rt ls" using assms(2) Other_use(1) by (simp add: sys_inv_def)
  have "ledger_le (ledger_of ls ref, []) (l', [])"
    using execute_once_le [of "ledger_of ls ref" "[]" key p act w "[]"] by (simp add: Other_use(3))
  from router_inv_update [OF inv execute_pending(1) [OF router_invD(1) [OF inv] Other_use(3)] this refl
      execute_pending(2) [OF router_invD(1) [OF inv] Other_use(3)]] assms(2) Other_use(1,2)
  show ?thesis by (simp add: sys_inv_def)
qed (auto simp: sys_inv_def dest: enqueue_inv drain_inv transact_inv cancel_inv)

lemma router_run_inv: "router_step\<^sup>*\<^sup>* s t \<Longrightarrow> sys_inv ws s \<Longrightarrow> sys_inv ws t"
  by (induction rule: rtranclp_induct) (auto intro: router_step_inv)

lemma make_router_inv: "make_router ws = Inr rt \<Longrightarrow> sys_inv ws (rt, [], world)"
  using new_ledger_inv
  by (auto simp: make_router_def sys_inv_def router_inv_def ledger_of_def dict_get_def pending_in_def) (simp add: new_ledger_def)

text \<open>C27: No request is lost or duplicated: in every state a router reaches, by its own methods whether they return or raise, other users executing transactions on the
  ledgers and any behaviour of targets and callbacks, every pending transaction of a ledger is queued, no request twice, each with the payload it was accepted with and those of one source channel in
  source order; what is queued is pending, except that in a ledger with an uncertain effect it can be a request that a cancellation withdrew before it raised, and such a request is not
  ready for its target. So for a ledger without uncertain effects the queue holds exactly its pending transactions.\<close>

theorem router_reachable:
  assumes "make_router ws = Inr rt0" and "router_step\<^sup>*\<^sup>* (rt0, [], world0) (rt, ls, world)"
  shows "router_inv rt ls \<and> distinct (map (\<lambda>q. (q_ledger q, q_key q)) (queue rt))
    \<and> (key \<in> set (pending_keys (ledger_of ls ref)) \<longrightarrow> (\<exists>q \<in> set (queue rt). q_ledger q = ref \<and> q_key q = key))
    \<and> (\<forall>q \<in> set (queue rt). q_key q \<in> set (pending_keys (ledger_of ls (q_ledger q)))
         \<or> (uncertain_keys (ledger_of ls (q_ledger q)) \<noteq> [] \<and> (\<exists>e. map_of (entries (ledger_of ls (q_ledger q))) (q_key q) = Some e \<and> status e = cancelled)
            \<and> \<not> target_ready (ledger_of ls (q_ledger q)) (q_key q)))
    \<and> (uncertain_keys (ledger_of ls ref) = [] \<longrightarrow>
         (\<exists>q \<in> set (queue rt). q_ledger q = ref \<and> q_key q = key) = (key \<in> set (pending_keys (ledger_of ls ref))))"
proof -
  have inv: "router_inv rt ls"
    using router_run_inv [OF assms(2) make_router_inv [OF assms(1)]] by (simp add: sys_inv_def)
  note iv = router_invD [OF inv]
  have keys: "k \<in> set (pending_keys l) \<longleftrightarrow> (\<exists>e. pending_in l k e)" if "ledger_inv l" for l k
  proof -
    have "dict_wf (entries l)" using that by (simp add: ledger_inv_def)
    then show ?thesis by (auto simp: pending_keys_def pending_in_def image_iff)
  qed
  have queued: "q_key q \<in> set (pending_keys (ledger_of ls (q_ledger q)))
         \<or> (uncertain_keys (ledger_of ls (q_ledger q)) \<noteq> [] \<and> (\<exists>e. map_of (entries (ledger_of ls (q_ledger q))) (q_key q) = Some e \<and> status e = cancelled)
            \<and> \<not> target_ready (ledger_of ls (q_ledger q)) (q_key q))" if "q \<in> set (queue rt)" for q
    using iv(3) [OF that] keys [OF iv(1)] by (auto simp: queued_ok_def pending_in_def target_ready_def)
  have pend: "key \<in> set (pending_keys (ledger_of ls ref)) \<longrightarrow> (\<exists>q \<in> set (queue rt). q_ledger q = ref \<and> q_key q = key)"
    using iv(4) keys [OF iv(1)] by blast
  moreover have "uncertain_keys (ledger_of ls ref) = [] \<longrightarrow>
         (\<exists>q \<in> set (queue rt). q_ledger q = ref \<and> q_key q = key) = (key \<in> set (pending_keys (ledger_of ls ref)))"
  proof (intro impI iffI)
    assume none: "uncertain_keys (ledger_of ls ref) = []" and "\<exists>q \<in> set (queue rt). q_ledger q = ref \<and> q_key q = key"
    then obtain q where "q \<in> set (queue rt)" "q_ledger q = ref" "q_key q = key" by blast
    with queued [of q] none show "key \<in> set (pending_keys (ledger_of ls ref))" by simp
  qed (use pend in blast)
  ultimately show ?thesis using inv queued queue_distinct [OF iv(2)] by blast
qed

text \<open>C28: The queue never deadlocks: while no effect of its source is uncertain, the oldest queued request can be executed
  at once; its device is among the ready targets, and draining that device takes exactly that request when target
  and callback succeed.\<close>

theorem router_progress:
  assumes "router_inv rt ls" and "queue rt = q # qs" and "uncertain_keys (ledger_of ls (q_ledger q)) = []"
  shows "target_ready (ledger_of ls (q_ledger q)) (q_key q) \<and> device_id (q_window q) \<in> set (ready_targets rt ls)
    \<and> (access (q_window q) (q_key q) (q_payload q) (q_offset q) (q_write q) (q_data32 q) (q_lane_be q) world = (Inr x, world1)
       \<longrightarrow> (\<forall>resp. q_callback q resp world1 = (Inr (), world2))
       \<longrightarrow> (\<exists>rt' ls'. drain_one (rt, ls, world) (device_id (q_window q)) = (Inr True, rt', ls', world2) \<and> queue rt' = qs))"
proof -
  note inv = router_invD [OF assms(1)]
  obtain e where e: "pending_in (ledger_of ls (q_ledger q)) (q_key q) e" "digest (payload_json (q_payload q)) = Inr (payload_digest e)"
    using queued_pending [OF inv(3) [of q]] assms(2,3) by auto
  have ready: "target_ready (ledger_of ls (q_ledger q)) (q_key q)"
  proof (rule head_of_channel [OF inv(1) e(1) assms(3)])
    fix key' e' assume "pending_in (ledger_of ls (q_ledger q)) key' e'" and ch: "key_channel key' = key_channel (q_key q)"
    then obtain q' where "q' \<in> set (queue rt)" "q_ledger q' = q_ledger q" "q_key q' = key'" using inv(4) by blast
    with inv(2) ch show "source_sequence (q_key q) \<le> source_sequence key'" by (auto simp: assms(2) queue_order_def)
  qed
  have keep: "map_of d t = Some b \<Longrightarrow> map_of (first_ready ls d xs) t = Some b" for d t b xs
  proof (induction xs arbitrary: d)
    case (Cons q xs)
    then have "map_of (dict_set d (device_id (q_window q)) v) t = Some b" if "\<not> dict_has d (device_id (q_window q))" for v
      using that by (auto simp: dict_simps dict_has_def)
    with Cons show ?case by (simp add: Let_def)
  qed simp
  have "map_of (first_ready ls [] (queue rt)) (device_id (q_window q)) = Some True"
    using ready by (auto simp: assms(2) Let_def dict_has_def intro!: keep)
  then have "device_id (q_window q) \<in> set (ready_targets rt ls)"
    by (force simp: ready_targets_def dest: map_of_SomeD)
  moreover have "\<exists>rt' ls'. drain_one (rt, ls, world) (device_id (q_window q)) = (Inr True, rt', ls', world2) \<and> queue rt' = qs"
    if acc: "access (q_window q) (q_key q) (q_payload q) (q_offset q) (q_write q) (q_data32 q) (q_lane_be q) world = (Inr x, world1)"
      and cb: "\<forall>resp. q_callback q resp world1 = (Inr (), world2)"
  proof -
    obtain resp rt1 row where d: "deliver q (rt, world, None) = (Inr resp, rt1, world1, Some row)" "queue rt1 = queue rt"
      using acc by (cases x) (auto simp: deliver_def count_delivery_def Let_def)
    obtain l' where c: "complete_accepted (ledger_of ls (q_ledger q)) (q_key q) (payload_json (q_payload q)) (deliver q) (rt, world, None)
        = (Inr (Some resp), l', rt1, world1, Some row)"
      using e ready d(1) by (auto simp: complete_accepted_def target_ready_def pending_in_def run_target_def Let_def)
    show ?thesis
      using ready c cb d(2)
      by (auto simp: drain_one_def first_index_def assms(2) Let_def remove_at_def)
  qed
  ultimately show ?thesis using ready by blast
qed


text \<open>A source reset clears its queue: while no effect of the ledger is uncertain, cancelling never fails, names the
  ledger's queued requests in queue order, removes exactly those, and leaves nothing pending in the ledger.\<close>

theorem cancel_complete:
  assumes "router_inv rt ls" and "uncertain_keys (ledger_of ls ref) = []"
  shows "\<exists>rt' ls'. cancel_for_ledger rt ls ref = (Inr (map q_key (filter (\<lambda>q. q_ledger q = ref) (queue rt))), rt', ls')
    \<and> queue rt' = filter (\<lambda>q. q_ledger q \<noteq> ref) (queue rt) \<and> router_inv rt' ls' \<and> pending_keys (ledger_of ls' ref) = []"
proof -
  note inv = router_invD [OF assms(1)]
  obtain l' where l': "cancel_items ref (ledger_of ls ref) (queue rt) = (Inr (map q_key (filter (\<lambda>q. q_ledger q = ref) (queue rt))), l')"
      "ledger_inv l'" "\<forall>key e. \<not> pending_in l' key e"
  proof -
    have "\<exists>e. pending_in (ledger_of ls ref) (q_key q) e \<and> digest (payload_json (q_payload q)) = Inr (payload_digest e)"
      if "q \<in> set (queue rt)" "q_ledger q = ref" for q using queued_pending [OF inv(3) [OF that(1)]] assms(2) that(2) by simp
    from cancel_items_ok [OF inv(1) assms(2) inv(2), of ref] this inv(4) show thesis using that by force
  qed
  have "pending_keys l' = []"
  proof (rule ccontr)
    assume "pending_keys l' \<noteq> []"
    then obtain k e where "(k, e) \<in> set (entries l')" "status e = target_pending"
      by (auto simp: pending_keys_def filter_empty_conv)
    moreover have "dict_wf (entries l')" using l'(2) by (simp add: ledger_inv_def)
    ultimately have "pending_in l' k e" by (simp add: pending_in_def)
    with l'(3) show False by blast
  qed
  then show ?thesis
    using l'(1) cancel_empties [OF assms(1) l'(1-3), of "rt\<lparr>queue := filter (\<lambda>q. q_ledger q \<noteq> ref) (queue rt)\<rparr>"]
    by (simp add: cancel_for_ledger_def)
qed

section \<open>Lanes\<close>

lemma byte_lane_eqI:
  assumes "\<And>n. n < 8 \<Longrightarrow> bit x (8 * i + n) = bit y (8 * j + n)"
  shows "byte_lane x (int i) = byte_lane y (int j)"
proof -
  have "nat (8 * int i) = 8 * i" "nat (8 * int j) = 8 * j" by simp_all
  then show ?thesis
    unfolding byte_lane_def using assms
    by (auto intro!: bit_eqI simp: bit_word_of_int_iff bit_drop_bit_eq)
qed

lemma mask32: "(0xffffffff :: int) = mask 32" "(15 :: int) = mask 4"
  by (simp_all add: mask_eq_exp_minus_1)

text \<open>C29: A beat reaches the register it names: a prepared request lies inside the only window that holds its address, at
  the offset from its base; its four byte enables and bytes are those of the half of the beat the address selects;
  a write enables no lane outside that half; and a read value comes back on the same lanes.\<close>

theorem prepare_lanes:
  assumes "make_router ws = Inr rt0" and "dev_windows rt = ws" and "prepare rt adr wr wdata be beat = Inr p"
    and "sh = (if beat = 8 \<and> adr mod 8 = 4 then 4 else 0)" and "i < 4"
  shows "(\<forall>w. w \<in> set ws \<and> in_window dev_lo dev_hi adr w \<longleftrightarrow> w = p_window p)
    \<and> p_offset p = adr - dev_base (p_window p) \<and> 0 \<le> p_offset p \<and> p_offset p + 4 \<le> dev_size (p_window p)
    \<and> bit (p_lane_be p) i = bit be (sh + i) \<and> byte_lane (p_data32 p) (int i) = byte_lane wdata (int (sh + i))
    \<and> (wr \<longrightarrow> bit be j \<longrightarrow> sh \<le> j \<and> j < sh + 4)
    \<and> byte_lane (fst (shifted_response False (p_high_lane p) v)) (int (sh + i)) = byte_lane v (int i)"
proof -
  obtain w where w: "window_of rt adr = Some w" using assms(3) by (auto simp: prepare_def split: option.splits)
  note def = assms(3) [unfolded prepare_def w option.case Let_def]
  have "router_windows ws" using assms(1) by (simp add: router_windows_def)
  note owner = device_table.owner_unique [OF this, of adr]
  have "find (in_window dev_lo dev_hi adr) ws = Some w" using w assms(2) by (simp add: window_of_def)
  with owner have own: "\<forall>v. v \<in> set ws \<and> in_window dev_lo dev_hi adr v \<longleftrightarrow> v = w" by (metis option.inject)
  have high: "bit adr 2 \<longleftrightarrow> adr mod 8 = 4" if "adr mod 4 = 0"
  proof -
    have "adr div 4 mod 2 = (adr mod 8) div 4" using zmod_zmult2_eq [of 2 adr 4] that by simp
    moreover have "adr mod 8 = 4 * (adr div 4 mod 2)" using zmod_zmult2_eq [of 2 adr 4] that by simp
    ultimately show ?thesis by (auto simp: bit_iff_odd odd_iff_mod_2_eq_one)
  qed
  have guards: "beat \<in> {4, 8}" "adr mod 4 = 0" "adr + 4 \<le> dev_base w + dev_size w" "0 \<le> be" "be < 2 ^ nat beat"
    using def by (auto simp: push_bit_eq_mult split: if_splits)
  let ?h = "beat = 8 \<and> bit adr 2"
  have sh: "sh = (if ?h then 4 else 0)" using assms(4) high [OF guards(2)] by simp
  have p: "p_window p = w" "p_offset p = adr - dev_base w" "p_high_lane p = ?h"
      "p_lane_be p = (if ?h then drop_bit 4 be else be AND 15)"
      "p_data32 p = (if ?h then drop_bit 32 wdata else wdata) AND 0xffffffff"
      "wr \<longrightarrow> beat = 8 \<longrightarrow> (if ?h then be AND 15 else drop_bit 4 be) = 0"
    using def by (auto split: if_splits)
  have be_bits: "j < nat beat" if "bit be j" for j
    using that guards(4,5) take_bit_int_eq_self [of be "nat beat"] by (metis bit_take_bit_iff)
  have "p_offset p = adr - dev_base (p_window p) \<and> 0 \<le> p_offset p \<and> p_offset p + 4 \<le> dev_size (p_window p)"
    using own guards(3) p(1,2) by (auto simp: in_window_def)
  moreover have "bit (p_lane_be p) i = bit be (sh + i)"
    using assms(5) by (simp add: p(4) sh mask32 bit_drop_bit_eq bit_and_iff bit_mask_iff)
  moreover have "byte_lane (p_data32 p) (int i) = byte_lane wdata (int (sh + i))"
    by (rule byte_lane_eqI) (use assms(5) in \<open>auto simp: p(5) sh mask32 bit_and_iff bit_mask_iff bit_drop_bit_eq ac_simps\<close>)
  moreover have "wr \<longrightarrow> bit be j \<longrightarrow> sh \<le> j \<and> j < sh + 4"
  proof (intro impI)
    assume wr and b: "bit be j"
    show "sh \<le> j \<and> j < sh + 4"
    proof (cases "beat = 8")
      case True
      with p(6) \<open>wr\<close> have z: "(if ?h then be AND 15 else drop_bit 4 be) = 0" by simp
      have "bit (be AND 15) j \<longleftrightarrow> j < 4" "4 \<le> j \<Longrightarrow> bit (drop_bit 4 be) (j - 4)"
        using b by (auto simp: mask32 bit_and_iff bit_mask_iff bit_drop_bit_eq)
      with z be_bits [OF b] True show ?thesis by (auto simp: sh split: if_splits)
    next
      case False
      with be_bits [OF b] guards(1) show ?thesis by (auto simp: sh)
    qed
  qed
  moreover have "byte_lane (fst (shifted_response False (p_high_lane p) v)) (int (sh + i)) = byte_lane v (int i)"
    by (rule byte_lane_eqI) (auto simp: shifted_response_def p(3) sh bit_push_bit_iff ac_simps)
  ultimately show ?thesis using own p(1) by blast
qed


section \<open>A concrete router\<close>

text \<open>One device with one register; the world is its value.\<close>

definition register_target :: "int target" where
  "register_target = \<lparr>routed_register_access_enabled = False,
     routed_register_access = (\<lambda>key ctx world. (Inl (OperationError ''unused''), world)), routed_delivery_failed = None,
     write_register = (\<lambda>off v be world. (Inr (), v)), read_register = (\<lambda>off world. (Inr world, world))\<rparr>"

definition uart_device :: "int device_window" where
  "uart_device = \<lparr>device_id = ''uart'', dev_base = 0x10000000, dev_size = 0x1000, dev_target = register_target\<rparr>"

definition uart_router :: "int router" where
  "uart_router = \<lparr>dev_windows = [uart_device], acceptances = [], deliveries = [], target_delivery_counts = [],
     delivery_sequence = 0, queue = []\<rparr>"

lemma uart_router_made: "make_router [uart_device] = Inr uart_router"
  by (simp add: make_router_def check_window_def uart_router_def)

lemma uart_router_simps [simp]: "queue uart_router = []" "acceptances uart_router = []" "dev_windows uart_router = [uart_device]"
  by (simp_all add: uart_router_def)

lemma uart_prepare: "\<exists>p. prepare uart_router 0x10000004 True 0x41 15 4 = Inr p \<and> p_window p = uart_device \<and> p_data32 p = 0x41"
  by (simp add: prepare_def window_of_def in_window_def uart_router_def uart_device_def Let_def)

lemma uart_enqueue:
  "\<exists>rt q ls. enqueue uart_router [] 0 example_key 0x10000004 True 0x41 15 4 (\<lambda>resp world. (Inr (), world)) = (Inr True, rt, ls)
     \<and> queue rt = [q] \<and> q_ledger q = 0 \<and> q_key q = example_key \<and> q_window q = uart_device \<and> q_write q \<and> q_data32 q = 0x41
     \<and> q_callback q = (\<lambda>resp world. (Inr (), world)) \<and> uncertain_keys (ledger_of ls 0) = []"
proof -
  obtain p where p: "prepare uart_router 0x10000004 True 0x41 15 4 = Inr p" "p_window p = uart_device" "p_data32 p = 0x41"
    using uart_prepare by blast
  obtain d where "digest (payload_json (p_payload p)) = Inr d" by (simp add: digest_def payload_json_def)
  then have "accept (new_ledger :: response ledger) example_key (payload_json (p_payload p)) = (Inr True, add_pending new_ledger example_key d)"
    by (simp add: accept_def add_pending_def new_ledger_def next_channel_def dict_get_def example_key_def Let_def)
  moreover have "uncertain_keys (add_pending (new_ledger :: response ledger) example_key d) = []"
    by (simp add: uncertain_keys_def add_pending_def new_ledger_def)
  ultimately show ?thesis
    using p by (simp add: enqueue_def ledger_of_def dict_get_def)
qed

theorem router_reachable_witness:
  "\<exists>rt ls. router_step\<^sup>*\<^sup>* (uart_router, [], 0) (rt, ls, 0 :: int) \<and> example_key \<in> set (pending_keys (ledger_of ls 0))"
proof -
  obtain rt q ls where e: "enqueue uart_router [] 0 example_key 0x10000004 True 0x41 15 4 (\<lambda>resp world. (Inr (), world)) = (Inr True, rt, ls)"
      "queue rt = [q]" "q_ledger q = 0" "q_key q = example_key" "uncertain_keys (ledger_of ls 0) = []"
    using uart_enqueue by blast
  have run: "router_step\<^sup>*\<^sup>* (uart_router, [], 0) (rt, ls, 0)"
    using router_step.Enqueue [OF e(1), of 0] by blast
  from router_reachable [OF uart_router_made this, of example_key 0] e run show ?thesis by auto
qed

lemma uart_inv:
  assumes "enqueue uart_router [] 0 example_key 0x10000004 True 0x41 15 4 cb = (r, rt, ls)"
  shows "router_inv rt ls"
  using enqueue_inv [OF _ assms] make_router_inv [OF uart_router_made, of "0 :: int"] by (simp add: sys_inv_def)

theorem router_progress_witness:
  "\<exists>rt ls rt' ls'. enqueue uart_router [] 0 example_key 0x10000004 True 0x41 15 4 (\<lambda>resp world. (Inr (), world)) = (Inr True, rt, ls)
     \<and> drain_one (rt, ls, 7) ''uart'' = (Inr True, rt', ls', 0x41) \<and> queue rt' = []"
proof -
  obtain rt q ls where e: "enqueue uart_router [] 0 example_key 0x10000004 True 0x41 15 4 (\<lambda>resp world. (Inr (), world)) = (Inr True, rt, ls)"
      "queue rt = [q]" "q_ledger q = 0" "q_window q = uart_device" "q_write q" "q_callback q = (\<lambda>resp world. (Inr (), world))"
      "uncertain_keys (ledger_of ls 0) = []" and d: "q_data32 q = 0x41"
    using uart_enqueue by blast
  have acc: "access (q_window q) (q_key q) (q_payload q) (q_offset q) (q_write q) (q_data32 q) (q_lane_be q) 7 = (Inr (0, []), 0x41)"
    using e(4,5) d by (simp add: access_def uart_device_def register_target_def)
  have "\<exists>rt' ls'. drain_one (rt, ls, 7) (device_id (q_window q)) = (Inr True, rt', ls', 0x41) \<and> queue rt' = []"
    using router_progress [OF uart_inv [OF e(1)] e(2), of 7 "(0, [])" "0x41" "0x41"] e(3,6,7) acc by simp
  with e(1,4) show ?thesis by (auto simp: uart_device_def)
qed

theorem cancel_complete_witness:
  "\<exists>rt ls rt' ls'. enqueue uart_router [] 0 example_key 0x10000004 True 0x41 15 4 (\<lambda>resp world. (Inr (), world)) = (Inr True, rt, ls)
     \<and> cancel_for_ledger rt ls 0 = (Inr [example_key], rt', ls') \<and> queue rt' = []"
proof -
  obtain rt q ls where e: "enqueue uart_router [] 0 example_key 0x10000004 True 0x41 15 4 (\<lambda>resp world. (Inr (), world)) = (Inr True, rt, ls)"
      "queue rt = [q]" "q_ledger q = 0" "q_key q = example_key" "uncertain_keys (ledger_of ls 0) = []"
    using uart_enqueue by blast
  from cancel_complete [OF uart_inv [OF e(1)] e(5)] e show ?thesis by auto
qed

theorem prepare_lanes_witness:
  "\<exists>p. prepare uart_router 0x10000004 True (0x41 * 2 ^ 32) 0xf0 8 = Inr p \<and> byte_lane (p_data32 p) 0 = 0x41"
proof -
  obtain p where p: "prepare uart_router 0x10000004 True (0x41 * 2 ^ 32) 0xf0 8 = Inr p"
    by (simp add: prepare_def window_of_def in_window_def uart_router_def uart_device_def Let_def bit_iff_odd)
  have "byte_lane (p_data32 p) (int 0) = byte_lane (0x41 * 2 ^ 32) (int (4 + 0))"
    using prepare_lanes [OF uart_router_made _ p, of 4 0] by (simp add: uart_router_def)
  moreover have "byte_lane (0x41 * 2 ^ 32) (int (4 + 0)) = 0x41" by (simp add: byte_lane_def drop_bit_eq_div)
  ultimately show ?thesis using p by simp
qed

end
