(* ===== verification/Irq.thy ===== *)
theory Irq
  imports Stdlib Interfaces
begin

text \<open>
  Interrupt pulses (\<open>scenario/irq.py\<close>): rising edges of one observed RTL source become pulses of a fixed
  width in CPU ticks; an edge during a pulse is an overrun and changes nothing of the pulse; mask observations
  come from the harness. A source trigger is a document the code only copies; an event is a constructor with the
  fields of its dictionary (an absent trigger or step identity is \<open>None\<close>).
\<close>

section \<open>Model\<close>

datatype irq_event =
    Source_start (ev_source_tick: int) (ev_cpu_tick: int) int "json option"
  | Source_end int int int "json option"
  | Irq_overrun int int int "int option"
  | Pulse_start int (ev_start: int) (ev_end: int) "json option"
  | Cpu_irq_input int int "int option" int "json option"
  | Cpu_irq_taken int "int option" "int option" "json option"
  | Pulse_expired (fully_masked: bool) "int option" int
  | Pulse_cancelled_by_reset "int option" int

datatype irq_status = Irq_active | Unsupported_irq_overrun

record irq =
  require_observed_baseline :: bool
  width_ticks :: int
  irq_events :: "irq_event list"
  irq_status :: irq_status
  source_level :: "int option"
  source_count :: int
  source_event :: "int option"
  active_source_event :: "int option"
  source_trigger :: "json option"
  active_source_trigger :: "json option"
  pulse_start :: "int option"
  pulse_end :: "int option"
  last_cpu_tick :: int
  all_masked :: bool
  masked_tick_count :: int

definition make_irq :: "int \<Rightarrow> bool \<Rightarrow> irq res" where
  "make_irq wt baseline =
     (if \<not> (1 \<le> wt \<and> wt \<le> 4096) then Inl (ValueError ''IRQ pulse width must be in 1..4096 CPU ticks'')
      else Inr \<lparr>require_observed_baseline = baseline, width_ticks = wt, irq_events = [], irq_status = Irq_active,
        source_level = (if baseline then None else Some 0), source_count = 0, source_event = None,
        active_source_event = None, source_trigger = None, active_source_trigger = None, pulse_start = None,
        pulse_end = None, last_cpu_tick = 0, all_masked = True, masked_tick_count = 0\<rparr>)"

definition irq_log :: "irq \<Rightarrow> irq_event \<Rightarrow> irq" where
  "irq_log s e = s\<lparr>irq_events := irq_events s @ [e]\<rparr>"

definition falling_edge :: "irq \<Rightarrow> int \<Rightarrow> int \<Rightarrow> irq" where
  "falling_edge s source_tick cpu_tick = (case source_event s of
     None \<Rightarrow> s
   | Some sid \<Rightarrow> (irq_log s (Source_end source_tick cpu_tick sid (source_trigger s)))
       \<lparr>source_event := None, source_trigger := None\<rparr>)"

definition rising_edge :: "irq \<Rightarrow> int \<Rightarrow> int \<Rightarrow> json option \<Rightarrow> irq" where
  "rising_edge s source_tick cpu_tick trig =
     (let sid = source_count s + 1;
          s1 = irq_log (s\<lparr>source_count := sid, source_event := Some sid, source_trigger := trig\<rparr>)
                 (Source_start source_tick cpu_tick sid trig)
      in if (case pulse_end s1 of None \<Rightarrow> False | Some e \<Rightarrow> cpu_tick < e)
         then irq_log (s1\<lparr>irq_status := Unsupported_irq_overrun\<rparr>) (Irq_overrun source_tick cpu_tick sid (active_source_event s1))
         else if irq_status s1 \<noteq> Irq_active then s1
         else irq_log (s1\<lparr>active_source_event := Some sid, active_source_trigger := trig, pulse_start := Some (cpu_tick + 1),
                pulse_end := Some (cpu_tick + 1 + width_ticks s1), all_masked := True, masked_tick_count := 0\<rparr>)
              (Pulse_start sid (cpu_tick + 1) (cpu_tick + 1 + width_ticks s1) trig))"

definition observe_source :: "irq \<Rightarrow> int \<Rightarrow> int \<Rightarrow> int \<Rightarrow> json option \<Rightarrow> unit res \<times> irq" where
  "observe_source s level source_tick cpu_tick trig =
     (if level \<notin> {0, 1} then (Inl (ValueError ''IRQ source level must be one bit''), s)
      else if source_tick < 0 \<or> cpu_tick < last_cpu_tick s then (Inl (ValueError ''IRQ local tick moved backwards''), s)
      else case source_level s of
          None \<Rightarrow> (Inr (), s\<lparr>source_level := Some level\<rparr>)
        | Some old \<Rightarrow>
            if level = old then (Inr (), s)
            else (let s1 = s\<lparr>source_level := Some level\<rparr> in
              if level = 0 then (Inr (), falling_edge s1 source_tick cpu_tick)
              else (Inr (), rising_edge s1 source_tick cpu_tick trig)))"

definition input_at :: "irq \<Rightarrow> int \<Rightarrow> int res" where
  "input_at s cpu_tick =
     (if cpu_tick < last_cpu_tick s then Inl (ValueError ''CPU local tick moved backwards'')
      else Inr (case (pulse_start s, pulse_end s) of
          (Some b, Some e) \<Rightarrow> if b \<le> cpu_tick \<and> cpu_tick < e then 1 else 0
        | _ \<Rightarrow> 0))"

definition irq_pending :: "irq \<Rightarrow> bool" where
  "irq_pending s = (pulse_end s \<noteq> None)"

definition log_sample :: "irq \<Rightarrow> int \<Rightarrow> int \<Rightarrow> bool option \<Rightarrow> int option \<Rightarrow> irq" where
  "log_sample s cpu_tick v accepted step =
     (let s1 = (case step of Some n \<Rightarrow> if v \<noteq> 0 then irq_log s (Cpu_irq_input cpu_tick v (active_source_event s) n (active_source_trigger s)) else s
                | None \<Rightarrow> s)
      in if v \<noteq> 0 \<and> accepted = Some True
         then irq_log s1 (Cpu_irq_taken cpu_tick (active_source_event s1) step (active_source_trigger s1)) else s1)"

definition note_mask :: "irq \<Rightarrow> int \<Rightarrow> int \<Rightarrow> bool option \<Rightarrow> irq" where
  "note_mask s cpu_tick v masked =
     (let s1 = (if pulse_end s \<noteq> None \<and> cpu_tick \<noteq> last_cpu_tick s + 1 then s\<lparr>all_masked := False\<rparr> else s)
      in if v = 0 then s1
         else if masked = Some True then s1\<lparr>masked_tick_count := masked_tick_count s1 + 1\<rparr>
         else s1\<lparr>all_masked := False\<rparr>)"

definition expire_pulse :: "irq \<Rightarrow> int \<Rightarrow> irq" where
  "expire_pulse s cpu_tick = (case pulse_end s of None \<Rightarrow> s
     | Some e \<Rightarrow>
       if cpu_tick \<ge> e
       then (irq_log s (Pulse_expired (all_masked s \<and> masked_tick_count s = width_ticks s) (active_source_event s) e))
         \<lparr>active_source_event := None, active_source_trigger := None, pulse_start := None, pulse_end := None\<rparr>
       else s)"

definition sample_cpu :: "irq \<Rightarrow> int \<Rightarrow> bool option \<Rightarrow> bool option \<Rightarrow> int option \<Rightarrow> int res \<times> irq" where
  "sample_cpu s cpu_tick masked accepted step =
     (if cpu_tick \<le> last_cpu_tick s then (Inl (ValueError ''CPU local tick must advance''), s)
      else case input_at s cpu_tick of
          Inl e \<Rightarrow> (Inl e, s)
        | Inr v \<Rightarrow> (Inr v, (expire_pulse (note_mask (log_sample s cpu_tick v accepted step) cpu_tick v masked) cpu_tick)
                             \<lparr>last_cpu_tick := cpu_tick\<rparr>))"

definition irq_reset :: "irq \<Rightarrow> int \<Rightarrow> irq" where
  "irq_reset s cpu_tick =
     (let s1 = (if pulse_end s \<noteq> None then irq_log s (Pulse_cancelled_by_reset (active_source_event s) cpu_tick) else s)
      in s1\<lparr>source_level := (if require_observed_baseline s then None else Some 0), source_event := None,
           active_source_event := None, source_trigger := None, active_source_trigger := None, pulse_start := None,
           pulse_end := None, last_cpu_tick := cpu_tick, all_masked := True, masked_tick_count := 0,
           irq_status := Irq_active\<rparr>)"

definition opt_int :: "int option \<Rightarrow> json" where
  "opt_int x = (case x of None \<Rightarrow> JNull | Some i \<Rightarrow> JInt i)"

definition state_document :: "irq \<Rightarrow> json" where
  "state_document s = JObj [
     (''status'', JStr (case irq_status s of Irq_active \<Rightarrow> ''active'' | Unsupported_irq_overrun \<Rightarrow> ''unsupported_irq_overrun'')),
     (''source_level'', opt_int (source_level s)), (''source_event_id'', opt_int (source_event s)),
     (''active_source_event_id'', opt_int (active_source_event s)), (''pulse_start_cpu_tick'', opt_int (pulse_start s)),
     (''pulse_end_cpu_tick_exclusive'', opt_int (pulse_end s)), (''last_cpu_tick'', JInt (last_cpu_tick s))]"

section \<open>The pulse invariant\<close>

text \<open>Start and end are set together, the width is the declared one, the pulse is not over yet, and its source event is
  one of those counted.\<close>

definition irq_inv :: "irq \<Rightarrow> bool" where
  "irq_inv s \<longleftrightarrow> 1 \<le> width_ticks s \<and> width_ticks s \<le> 4096 \<and> 0 \<le> source_count s
     \<and> source_level s \<in> {None, Some 0, Some 1}
     \<and> (case pulse_end s of
          None \<Rightarrow> pulse_start s = None \<and> active_source_event s = None
        | Some e \<Rightarrow> pulse_start s = Some (e - width_ticks s) \<and> last_cpu_tick s < e
            \<and> (\<exists>i. active_source_event s = Some i \<and> 1 \<le> i \<and> i \<le> source_count s)
            \<and> 0 \<le> masked_tick_count s)"

datatype irq_call =
    Observe_source int int int "json option"
  | Sample_cpu int "bool option" "bool option" "int option"
  | Reset int

fun irq_step :: "irq \<Rightarrow> irq_call \<Rightarrow> irq" where
  "irq_step s (Observe_source level st ct trig) = snd (observe_source s level st ct trig)"
| "irq_step s (Sample_cpu ct masked accepted step) = snd (sample_cpu s ct masked accepted step)"
| "irq_step s (Reset ct) = irq_reset s ct"

text \<open>Event histories only grow, source events are never numbered twice, the width is fixed.\<close>

definition irq_le :: "irq \<Rightarrow> irq \<Rightarrow> bool" where
  "irq_le s t \<longleftrightarrow> (\<exists>es. irq_events t = irq_events s @ es) \<and> source_count s \<le> source_count t \<and> width_ticks t = width_ticks s"

lemmas irq_defs = observe_source_def falling_edge_def rising_edge_def sample_cpu_def input_at_def log_sample_def
  note_mask_def expire_pulse_def irq_reset_def irq_log_def Let_def

lemma irq_log_simps [simp]:
  "width_ticks (irq_log s e) = width_ticks s" "source_count (irq_log s e) = source_count s"
  "source_level (irq_log s e) = source_level s" "pulse_start (irq_log s e) = pulse_start s"
  "pulse_end (irq_log s e) = pulse_end s" "active_source_event (irq_log s e) = active_source_event s"
  "last_cpu_tick (irq_log s e) = last_cpu_tick s" "masked_tick_count (irq_log s e) = masked_tick_count s"
  "all_masked (irq_log s e) = all_masked s" "irq_status (irq_log s e) = irq_status s"
  "source_event (irq_log s e) = source_event s" "irq_events (irq_log s e) = irq_events s @ [e]"
  "active_source_trigger (irq_log s e) = active_source_trigger s" "source_trigger (irq_log s e) = source_trigger s"
  by (simp_all add: irq_log_def)

lemma falling_ok: "irq_inv s \<Longrightarrow> irq_inv (falling_edge s st ct) \<and> irq_le s (falling_edge s st ct)"
  by (cases "source_event s") (simp_all add: falling_edge_def irq_inv_def irq_le_def split: option.splits)

lemma rising_ok:
  assumes "irq_inv s" and "last_cpu_tick s \<le> ct"
  shows "irq_inv (rising_edge s st ct trig) \<and> irq_le s (rising_edge s st ct trig)"
proof (cases "pulse_end s")
  case None
  with assms show ?thesis by (simp add: rising_edge_def irq_inv_def irq_le_def Let_def)
next
  case (Some e)
  with assms show ?thesis by (auto simp: rising_edge_def irq_inv_def irq_le_def Let_def)
qed

lemma irq_le_refl: "irq_le s s"
  by (simp add: irq_le_def)

lemma irq_le_trans: "irq_le s t \<Longrightarrow> irq_le t u \<Longrightarrow> irq_le s u"
  by (auto simp: irq_le_def)

lemma observe_cases:
  assumes "observe_source s level st ct trig = (r, t)"
  defines "s1 \<equiv> s\<lparr>source_level := Some level\<rparr>"
  shows "t = s \<or> level \<in> {0, 1} \<and> last_cpu_tick s \<le> ct \<and> (t = s1 \<or> t = falling_edge s1 st ct \<or> t = rising_edge s1 st ct trig)"
  using assms(1) unfolding s1_def observe_source_def Let_def
  by (cases "level \<in> {0, 1}") (auto split: option.splits if_splits)

lemma observe_ok:
  assumes "irq_inv s" and "observe_source s level st ct trig = (r, t)"
  shows "irq_inv t \<and> irq_le s t"
proof -
  let ?s = "s\<lparr>source_level := Some level\<rparr>"
  have set: "irq_inv ?s" if "level \<in> {0, 1}"
    using assms(1) that by (auto simp: irq_inv_def split: option.splits)
  have le: "irq_le s ?s" by (simp add: irq_le_def)
  from observe_cases [OF assms(2)] show ?thesis
  proof (elim disjE conjE)
    assume "level \<in> {0, 1}" "last_cpu_tick s \<le> ct" "t = rising_edge ?s st ct trig"
    with rising_ok [OF set, of ct st trig] irq_le_trans [OF le] show ?thesis by simp
  next
    assume "level \<in> {0, 1}" "t = falling_edge ?s st ct"
    with falling_ok [OF set, of st ct] irq_le_trans [OF le] show ?thesis by simp
  qed (use assms(1) set le irq_le_refl in auto)
qed

lemma log_sample_frame:
  "\<exists>es. log_sample s ct v accepted step = s\<lparr>irq_events := irq_events s @ es\<rparr>"
  by (cases step) (simp_all add: log_sample_def Let_def irq_log_def,
    (intro conjI impI exI [where x = "[_]"] exI [where x = "[]"] exI [where x = "[_, _]"]; simp)+)


lemma note_mask_ok: "irq_inv s \<Longrightarrow> irq_inv (note_mask s ct v masked) \<and> irq_le s (note_mask s ct v masked)
    \<and> last_cpu_tick (note_mask s ct v masked) = last_cpu_tick s \<and> pulse_end (note_mask s ct v masked) = pulse_end s
    \<and> pulse_start (note_mask s ct v masked) = pulse_start s"
  by (auto simp: note_mask_def irq_inv_def irq_le_def Let_def split: option.splits)

lemma expire_ok:
  assumes "irq_inv s"
  shows "irq_inv ((expire_pulse s ct)\<lparr>last_cpu_tick := ct\<rparr>) \<and> irq_le s ((expire_pulse s ct)\<lparr>last_cpu_tick := ct\<rparr>)"
  using assms by (cases "pulse_end s") (auto simp: expire_pulse_def irq_inv_def irq_le_def)

lemma sample_ok:
  assumes "irq_inv s"
  shows "irq_inv (snd (sample_cpu s ct masked accepted step)) \<and> irq_le s (snd (sample_cpu s ct masked accepted step))"
proof (cases "ct \<le> last_cpu_tick s")
  case True
  with assms show ?thesis by (simp add: sample_cpu_def irq_le_refl)
next
  case False
  then obtain v where v: "input_at s ct = Inr v" by (simp add: input_at_def)
  obtain es where log: "log_sample s ct v accepted step = s\<lparr>irq_events := irq_events s @ es\<rparr>"
    using log_sample_frame by blast
  have s1: "irq_inv (s\<lparr>irq_events := irq_events s @ es\<rparr>)" "irq_le s (s\<lparr>irq_events := irq_events s @ es\<rparr>)"
    using assms by (simp_all add: irq_inv_def irq_le_def split: option.splits)
  note s2 = note_mask_ok [OF s1(1), of ct v masked]
  note s3 = expire_ok [OF conjunct1 [OF s2], of ct]
  show ?thesis
    using False v log s3 irq_le_trans [OF s1(2) irq_le_trans [OF conjunct1 [OF conjunct2 [OF s2]] conjunct2 [OF s3]]]
    by (simp add: sample_cpu_def)
qed

lemma irq_reset_ok: "irq_inv s \<Longrightarrow> irq_inv (irq_reset s ct) \<and> irq_le s (irq_reset s ct)"
  by (auto simp: irq_reset_def irq_inv_def irq_le_def Let_def)

lemma irq_step_ok: "irq_inv s \<Longrightarrow> irq_inv (irq_step s c) \<and> irq_le s (irq_step s c)"
  by (cases c) (simp_all add: observe_ok [OF _ prod.collapse [symmetric]] sample_ok irq_reset_ok)

interpretation irq_machine: progressing_machine irq_step irq_inv irq_le
  by unfold_locales (auto simp: irq_step_ok irq_le_refl intro: irq_le_trans)

lemma make_irq_inv: "make_irq wt baseline = Inr s \<Longrightarrow> irq_inv s"
  by (auto simp: make_irq_def irq_inv_def split: if_splits)

section \<open>Exact pulses\<close>

fun sample_all :: "irq \<Rightarrow> (int \<times> bool option \<times> bool option \<times> int option) list \<Rightarrow> int res list \<times> irq" where
  "sample_all s [] = ([], s)"
| "sample_all s ((ct, masked, accepted, step) # cs) =
     (case sample_cpu s ct masked accepted step of (v, s1) \<Rightarrow> (case sample_all s1 cs of (vs, s2) \<Rightarrow> (v # vs, s2)))"

lemma sample_frame:
  assumes "last_cpu_tick s < ct" and "sample_cpu s ct masked accepted step = (r, t)"
  shows "last_cpu_tick t = ct" "r = input_at s ct"
    "pulse_end t = (case pulse_end s of None \<Rightarrow> None | Some e \<Rightarrow> if ct \<ge> e then None else Some e)"
    "pulse_start t = (case pulse_end s of None \<Rightarrow> pulse_start s | Some e \<Rightarrow> if ct \<ge> e then None else pulse_start s)"
proof -
  obtain v where v: "input_at s ct = Inr v" using assms(1) by (simp add: input_at_def)
  obtain es where log: "log_sample s ct v accepted step = s\<lparr>irq_events := irq_events s @ es\<rparr>"
    using log_sample_frame by blast
  let ?s = "note_mask (s\<lparr>irq_events := irq_events s @ es\<rparr>) ct v masked"
  have s2: "pulse_end ?s = pulse_end s" "pulse_start ?s = pulse_start s"
    by (simp_all add: note_mask_def Let_def)
  have t: "r = Inr v" "t = (expire_pulse ?s ct)\<lparr>last_cpu_tick := ct\<rparr>"
    using assms v log by (simp_all add: sample_cpu_def)
  show "last_cpu_tick t = ct" "r = input_at s ct" using t v by simp_all
  show "pulse_end t = (case pulse_end s of None \<Rightarrow> None | Some e \<Rightarrow> if ct \<ge> e then None else Some e)"
    "pulse_start t = (case pulse_end s of None \<Rightarrow> pulse_start s | Some e \<Rightarrow> if ct \<ge> e then None else pulse_start s)"
    using s2 by (simp_all add: t(2) expire_pulse_def split: option.splits)
qed

lemma sample_all_values:
  assumes "sorted_wrt (<) (map fst cs)" and "\<forall>c \<in> set cs. last_cpu_tick s < fst c"
    and "pulse_end s = None \<or> (\<exists>b e. pulse_start s = Some b \<and> pulse_end s = Some e \<and> last_cpu_tick s < e)"
  shows "fst (sample_all s cs) = map (\<lambda>c. Inr (case (pulse_start s, pulse_end s) of
      (Some b, Some e) \<Rightarrow> if b \<le> fst c \<and> fst c < e then 1 else 0 | _ \<Rightarrow> 0)) cs"
  using assms
proof (induction cs arbitrary: s)
  case (Cons c cs)
  obtain ct masked accepted step where c: "c = (ct, masked, accepted, step)" by (cases c) auto
  obtain r t where sm: "sample_cpu s ct masked accepted step = (r, t)" by fastforce
  have ct: "last_cpu_tick s < ct" using Cons.prems(2) by (simp add: c)
  note f = sample_frame [OF ct sm]
  have later: "\<forall>x \<in> set cs. ct < fst x" using Cons.prems(1) by (auto simp: c)
  have "fst (sample_all t cs) = map (\<lambda>x. Inr (case (pulse_start t, pulse_end t) of
      (Some b, Some e) \<Rightarrow> if b \<le> fst x \<and> fst x < e then 1 else 0 | _ \<Rightarrow> 0)) cs"
    by (rule Cons.IH) (use Cons.prems later f in \<open>auto split: option.splits if_splits\<close>)
  also have "\<dots> = map (\<lambda>x. Inr (case (pulse_start s, pulse_end s) of
      (Some b, Some e) \<Rightarrow> if b \<le> fst x \<and> fst x < e then 1 else 0 | _ \<Rightarrow> 0)) cs"
    using later f(3,4) by (auto split: option.splits)
  finally show ?case
    using f(2) ct by (cases "sample_all t cs") (simp add: c sm input_at_def split: option.splits)
qed simp


text \<open>However the source, the CPU and resets interleave, a pulse in flight has exactly the declared width, has not
  ended yet, and belongs to a source edge that was counted; the event history only grows and no two edges share a
  number.\<close>

theorem irq_reachable:
  assumes "make_irq wt baseline = Inr s"
  shows "irq_inv (foldl irq_step s cs) \<and> irq_le (foldl irq_step s cs) (foldl irq_step s (cs @ ds))"
  using irq_machine.run_inv [OF make_irq_inv [OF assms]] irq_machine.run_le [OF irq_machine.run_inv [OF make_irq_inv [OF assms]]]
  by (simp add: foldl_append)

text \<open>C30: A rising edge at CPU tick \<open>t\<close> gives one exact pulse: whatever increasing ticks the CPU samples afterwards, it
  reads 1 exactly from \<open>t + 1\<close> for the declared number of ticks; if a pulse is still in flight, the edge changes
  nothing of it (no extension, no second pulse) and is reported as an overrun.\<close>

theorem irq_pulse_exact:
  assumes "irq_inv s" and "source_level s = Some 0" and "irq_status s = Irq_active" and "0 \<le> st" and "last_cpu_tick s \<le> t"
    and "sorted_wrt (<) (map fst cs)" and "\<forall>c \<in> set cs. t < fst c"
    and "overrun = (case pulse_end s of None \<Rightarrow> False | Some e \<Rightarrow> t < e)"
    and "b = (if overrun then the (pulse_start s) else t + 1)"
  shows "\<exists>s1. observe_source s 1 st t trig = (Inr (), s1)
    \<and> fst (sample_all s1 cs) = map (\<lambda>c. Inr (if b \<le> fst c \<and> fst c < b + width_ticks s then 1 else 0)) cs
    \<and> irq_status s1 = (if overrun then Unsupported_irq_overrun else Irq_active)"
proof -
  let ?s1 = "rising_edge (s\<lparr>source_level := Some 1\<rparr>) st t trig"
  have o1: "observe_source s 1 st t trig = (Inr (), ?s1)"
    using assms(2,4,5) by (simp add: observe_source_def)
  have win: "pulse_start ?s1 = Some b" "pulse_end ?s1 = Some (b + width_ticks s)" "last_cpu_tick ?s1 = last_cpu_tick s"
      "irq_status ?s1 = (if overrun then Unsupported_irq_overrun else Irq_active)"
    using assms(1,3,8,9) by (auto simp: rising_edge_def irq_inv_def Let_def split: option.splits)
  have "last_cpu_tick ?s1 < b + width_ticks s"
    using win(3) assms(1,5,8,9) by (auto simp: irq_inv_def split: option.splits if_splits)
  then have "fst (sample_all ?s1 cs) = map (\<lambda>c. Inr (if b \<le> fst c \<and> fst c < b + width_ticks s then 1 else 0)) cs"
    using sample_all_values [OF assms(6), of ?s1] win assms(5,7) by fastforce
  with o1 win(4) show ?thesis by blast
qed

definition fresh_irq :: irq where
  "fresh_irq = \<lparr>require_observed_baseline = False, width_ticks = 2, irq_events = [], irq_status = Irq_active,
     source_level = Some 0, source_count = 0, source_event = None, active_source_event = None, source_trigger = None,
     active_source_trigger = None, pulse_start = None, pulse_end = None, last_cpu_tick = 0, all_masked = True, masked_tick_count = 0\<rparr>"

lemma fresh_irq_made: "make_irq 2 False = Inr fresh_irq"
  by (simp add: make_irq_def fresh_irq_def)

theorem irq_reachable_witness:
  "irq_inv (foldl irq_step fresh_irq [Observe_source 1 0 3 None, Sample_cpu 4 None None None, Reset 0])"
  using irq_reachable [OF fresh_irq_made, of "[Observe_source 1 0 3 None, Sample_cpu 4 None None None, Reset 0]"] by blast

theorem irq_pulse_exact_witness:
  "\<exists>s1. observe_source fresh_irq 1 0 3 None = (Inr (), s1)
    \<and> fst (sample_all s1 [(4, None, None, None), (5, None, None, None), (6, None, None, None)]) = [Inr 1, Inr 1, Inr 0]"
proof -
  have p: "source_level fresh_irq = Some 0" "irq_status fresh_irq = Irq_active" "last_cpu_tick fresh_irq \<le> 3"
      "pulse_end fresh_irq = None" "width_ticks fresh_irq = 2"
    by (simp_all add: fresh_irq_def)
  let ?cs = "[(4, None, None, None), (5, None, None, None), (6, None, None, None)] :: (int \<times> bool option \<times> bool option \<times> int option) list"
  have "\<exists>s1. observe_source fresh_irq 1 0 3 None = (Inr (), s1)
      \<and> fst (sample_all s1 ?cs) = map (\<lambda>c. Inr (if 4 \<le> fst c \<and> fst c < 4 + width_ticks fresh_irq then 1 else 0)) ?cs
      \<and> irq_status s1 = (if False then Unsupported_irq_overrun else Irq_active)"
    by (rule irq_pulse_exact [OF make_irq_inv [OF fresh_irq_made] p(1,2)]) (simp_all add: p)
  moreover have "map (\<lambda>c. Inr (if 4 \<le> fst c \<and> fst c < 4 + width_ticks fresh_irq then 1 else 0)) ?cs = [Inr 1, Inr 1, Inr 0 :: int res]"
    using p(5) by simp
  ultimately show ?thesis by (elim exE conjE) (rule exI, rule conjI, assumption, simp only:)
qed

end
