(* ===== verification/Uart.thy ===== *)
theory Uart
  imports Stdlib Interfaces
begin

text \<open>
  The 8N1 serial peer (\<open>scenario/uart_peer.py\<close>): scheduled byte strings become the waveform on the receive
  pin, and the observed transmit pin is sampled in the middle of each bit. \<open>bisect\<close> on the strictly
  increasing list of start ticks is the length of the prefix that satisfies the comparison.
\<close>

section \<open>Model\<close>

record uart =
  uart_source :: bytes
  clocks_per_bit :: int
  source_start_tick :: "int option"
  source_starts :: "int list"
  source_segments :: "bytes list"
  last_line :: int
  start_tick :: "int option"
  next_sample :: nat
  uart_bits :: "int list"
  captured :: "int list"
  last_observed_tick :: int

definition uart_reset_case :: "uart \<Rightarrow> uart" where
  "uart_reset_case u = u\<lparr>source_start_tick := None, source_starts := [], source_segments := [], last_line := 1,
     start_tick := None, next_sample := 0, uart_bits := [], captured := [], last_observed_tick := - 1\<rparr>"

definition make_uart :: "bytes \<Rightarrow> int \<Rightarrow> uart res" where
  "make_uart src cpb =
     (if length src > 64 \<or> \<not> (16 \<le> cpb \<and> cpb \<le> 4096) then Inl (ValueError ''invalid UART serial source'')
      else Inr (uart_reset_case \<lparr>uart_source = src, clocks_per_bit = cpb, source_start_tick = None, source_starts = [],
        source_segments = [], last_line = 1, start_tick = None, next_sample = 0, uart_bits = [], captured = [],
        last_observed_tick = - 1\<rparr>))"

definition start_source :: "uart \<Rightarrow> int \<Rightarrow> uart res" where
  "start_source u tick =
     (if source_start_tick u \<noteq> None \<or> tick < 0 then Inl (ValueError ''UART source already scheduled'')
      else Inr (u\<lparr>source_start_tick := Some tick, source_starts := source_starts u @ [tick],
        source_segments := source_segments u @ [uart_source u]\<rparr>))"

definition segment_ticks :: "uart \<Rightarrow> bytes \<Rightarrow> int" where
  "segment_ticks u seg = 10 * clocks_per_bit u * int (length seg)"

definition source_end_tick :: "uart \<Rightarrow> int" where
  "source_end_tick u = (if source_starts u = [] then 0 else last (source_starts u) + segment_ticks u (last (source_segments u)))"

definition append_source :: "uart \<Rightarrow> bytes \<Rightarrow> int \<Rightarrow> uart res" where
  "append_source u src tick =
     (if source_start_tick u = None \<or> \<not> (1 \<le> length src \<and> length src \<le> 64) \<or> tick < source_end_tick u + clocks_per_bit u
      then Inl (ValueError ''invalid or overlapping UART source frame'')
      else Inr (u\<lparr>source_starts := source_starts u @ [tick], source_segments := source_segments u @ [src]\<rparr>))"

definition bisect_right :: "int list \<Rightarrow> int \<Rightarrow> nat" where
  "bisect_right xs t = length (takeWhile (\<lambda>x. x \<le> t) xs)"

definition bisect_left :: "int list \<Rightarrow> int \<Rightarrow> nat" where
  "bisect_left xs t = length (takeWhile (\<lambda>x. x < t) xs)"

definition source_active :: "uart \<Rightarrow> int \<Rightarrow> bool" where
  "source_active u tick = (let n = bisect_right (source_starts u) tick in
     0 < n \<and> tick < source_starts u ! (n - 1) + segment_ticks u (source_segments u ! (n - 1)))"

definition source_overlaps :: "uart \<Rightarrow> int \<Rightarrow> int \<Rightarrow> bool" where
  "source_overlaps u start end' =
     (if start \<ge> end' then False
      else (let n = bisect_left (source_starts u) end' in
        0 < n \<and> source_starts u ! (n - 1) + segment_ticks u (source_segments u ! (n - 1)) > start))"

definition frame_bit :: "int \<Rightarrow> nat \<Rightarrow> int" where
  "frame_bit byte n = (if n = 0 then 0 else if n = 9 then 1 else of_bool (bit byte (n - 1)))"

definition drive_rx :: "uart \<Rightarrow> int \<Rightarrow> int" where
  "drive_rx u tick = (let n = bisect_right (source_starts u) tick in
     if n = 0 then 1
     else (let slot = (tick - source_starts u ! (n - 1)) div clocks_per_bit u; src = source_segments u ! (n - 1) in
       if slot \<ge> 10 * int (length src) then 1
       else frame_bit (uint (src ! nat (slot div 10))) (nat (slot mod 10))))"

text \<open>The sampling loop: it appends the current level once for every sample point that has passed.\<close>

function sample_line :: "int \<Rightarrow> int \<Rightarrow> int \<Rightarrow> int \<Rightarrow> nat \<Rightarrow> int list \<Rightarrow> nat \<times> int list" where
  "sample_line cpb st tick line n bs =
     (if n < 10 \<and> \<not> tick < st + cpb div 2 + int n * cpb then sample_line cpb st tick line (Suc n) (bs @ [line]) else (n, bs))"
  by pat_completeness auto
termination by (relation "measure (\<lambda>(cpb, st, tick, line, n, bs). 10 - n)") auto

declare sample_line.simps [simp del]

fun bits_value :: "int list \<Rightarrow> int" where
  "bits_value [] = 0"
| "bits_value (b # bs) = b + 2 * bits_value bs"

definition observe_tx :: "uart \<Rightarrow> int \<Rightarrow> int \<Rightarrow> unit res \<times> uart" where
  "observe_tx u tick line =
     (if tick \<le> last_observed_tick u \<or> line \<notin> {0, 1} then (Inl (ValueError ''invalid UART TX observation''), u)
      else (let u1 = u\<lparr>last_observed_tick := tick\<rparr>;
                u2 = (if start_tick u1 = None \<and> last_line u1 = 1 \<and> line = 0
                      then u1\<lparr>start_tick := Some tick, next_sample := 0, uart_bits := []\<rparr> else u1) in
        case start_tick u2 of
          None \<Rightarrow> (Inr (), u2\<lparr>last_line := line\<rparr>)
        | Some st \<Rightarrow>
            (case sample_line (clocks_per_bit u2) st tick line (next_sample u2) (uart_bits u2) of (n, bs) \<Rightarrow>
              (let u3 = u2\<lparr>next_sample := n, uart_bits := bs\<rparr> in
               if n = 10
               then (if bs ! 0 \<noteq> 0 \<or> bs ! 9 \<noteq> 1 then (Inl (ValueError ''invalid observed UART 8N1 frame''), u3)
                     else (Inr (), u3\<lparr>captured := captured u3 @ [bits_value (take 8 (drop 1 bs))], start_tick := None, last_line := line\<rparr>))
               else (Inr (), u3\<lparr>last_line := line\<rparr>)))))"

section \<open>The receiver on a driven line\<close>

text \<open>Observing a line at every tick from \<open>t\<close> on, \<open>n\<close> times.\<close>

fun observe_line :: "(int \<Rightarrow> int) \<Rightarrow> int \<Rightarrow> nat \<Rightarrow> uart \<Rightarrow> unit res \<times> uart" where
  "observe_line line t 0 u = (Inr (), u)"
| "observe_line line t (Suc n) u = (case observe_tx u t (line t) of
     (Inl e, u') \<Rightarrow> (Inl e, u') | (Inr _, u') \<Rightarrow> observe_line line (t + 1) n u')"

lemma observe_line_add:
  "observe_line line t (m + n) u = (case observe_line line t m u of
     (Inl e, u') \<Rightarrow> (Inl e, u') | (Inr _, u') \<Rightarrow> observe_line line (t + int m) n u')"
  by (induction m arbitrary: t u) (auto simp: ac_simps split: prod.splits sum.splits)

lemma frame_bit_range: "frame_bit b n \<in> {0, 1}"
  by (simp add: frame_bit_def)

lemma bits_value_of_bits: "bits_value (map (\<lambda>i. of_bool (bit x i)) [a..<a + n]) = take_bit n (drop_bit a x)"
proof (induction n arbitrary: a)
  case (Suc n)
  have "[a..<a + Suc n] = a # [Suc a..<Suc a + n]" by (simp add: upt_conv_Cons)
  moreover have "take_bit (Suc n) (drop_bit a x) = of_bool (bit x a) + 2 * take_bit n (drop_bit (Suc a) x)"
    by (simp add: take_bit_Suc drop_bit_Suc bit_iff_odd_drop_bit mod_2_eq_odd drop_bit_half ac_simps)
  ultimately show ?case using Suc [of "Suc a"] by simp
qed simp

lemma frame_value:
  assumes "0 \<le> byte" and "byte < 256"
  shows "bits_value (take 8 (drop 1 (map (frame_bit byte) [0..<10]))) = byte"
proof -
  have "take 8 (drop 1 (map (frame_bit byte) [0..<10])) = map (\<lambda>i. of_bool (bit byte i)) [0..<0 + 8]"
    by (simp add: upt_rec frame_bit_def)
  then show ?thesis
    using bits_value_of_bits [of byte 0 8] assms by (simp add: take_bit_int_eq_self)
qed

definition rx_inv :: "int \<Rightarrow> int \<Rightarrow> int list \<Rightarrow> int \<Rightarrow> int \<Rightarrow> uart \<Rightarrow> bool" where
  "rx_inv c s cap byte d u \<longleftrightarrow> clocks_per_bit u = c \<and> last_observed_tick u = s + d \<and> last_line u = frame_bit byte (nat (d div c))
     \<and> (start_tick u = Some s \<and> next_sample u < 10 \<and> uart_bits u = map (frame_bit byte) [0..<next_sample u] \<and> captured u = cap
          \<and> d < c div 2 + int (next_sample u) * c \<and> (0 < next_sample u \<longrightarrow> c div 2 + (int (next_sample u) - 1) * c \<le> d)
        \<or> start_tick u = None \<and> captured u = cap @ [byte] \<and> c div 2 + 9 * c \<le> d)"

definition rx_idle :: "int \<Rightarrow> int \<Rightarrow> int list \<Rightarrow> uart \<Rightarrow> bool" where
  "rx_idle c t cap u \<longleftrightarrow> clocks_per_bit u = c \<and> last_observed_tick u = t - 1 \<and> last_line u = 1 \<and> start_tick u = None \<and> captured u = cap"

lemma sample_none: "tick < st + cpb div 2 + int n * cpb \<Longrightarrow> sample_line cpb st tick line n bs = (n, bs)"
  by (simp add: sample_line.simps)

lemma sample_one:
  assumes "tick = st + cpb div 2 + int n * cpb" and "0 < cpb" and "n < 10"
  shows "sample_line cpb st tick line n bs = (Suc n, bs @ [line])"
  using assms by (subst sample_line.simps) (simp add: sample_none algebra_simps)

lemma observe_running:
  assumes "start_tick u = Some st" and "last_observed_tick u < tick" and "line \<in> {0, 1}"
    and "sample_line (clocks_per_bit u) st tick line (next_sample u) (uart_bits u) = (n, bs)"
  shows "n \<noteq> 10 \<Longrightarrow> observe_tx u tick line = (Inr (), u\<lparr>last_observed_tick := tick, next_sample := n, uart_bits := bs, last_line := line\<rparr>)"
    "n = 10 \<Longrightarrow> bs ! 0 = 0 \<Longrightarrow> bs ! 9 = 1 \<Longrightarrow> observe_tx u tick line = (Inr (), u\<lparr>last_observed_tick := tick, next_sample := n,
       uart_bits := bs, captured := captured u @ [bits_value (take 8 (drop 1 bs))], start_tick := None, last_line := line\<rparr>)"
  using assms by (auto simp: observe_tx_def Let_def)

lemma rx_first:
  assumes "rx_idle c s cap u" and "16 \<le> c"
  shows "\<exists>u'. observe_tx u s (frame_bit byte 0) = (Inr (), u') \<and> rx_inv c s cap byte 0 u'"
  using assms by (auto simp: rx_idle_def observe_tx_def Let_def frame_bit_def sample_none rx_inv_def)

lemma frame_bits_check: "map (frame_bit byte) [0..<10] ! 0 = 0" "map (frame_bit byte) [0..<10] ! 9 = 1"
  by (simp_all add: frame_bit_def)

lemma rx_next:
  assumes inv: "rx_inv c s cap byte d u" and c: "16 \<le> c" and d: "0 \<le> d" "d + 1 < 10 * c" and byte: "0 \<le> byte" "byte < 256"
  shows "\<exists>u'. observe_tx u (s + (d + 1)) (frame_bit byte (nat ((d + 1) div c))) = (Inr (), u') \<and> rx_inv c s cap byte (d + 1) u'"
proof -
  let ?line = "frame_bit byte (nat ((d + 1) div c))"
  have line: "?line \<in> {0, 1}" by (rule frame_bit_range)
  have obs: "last_observed_tick u = s + d" "clocks_per_bit u = c" using inv by (simp_all add: rx_inv_def)
  consider (running) "start_tick u = Some s" "next_sample u < 10" "uart_bits u = map (frame_bit byte) [0..<next_sample u]" "captured u = cap"
      "d < c div 2 + int (next_sample u) * c" "0 < next_sample u \<longrightarrow> c div 2 + (int (next_sample u) - 1) * c \<le> d"
    | (closed) "start_tick u = None" "captured u = cap @ [byte]" "c div 2 + 9 * c \<le> d"
    using inv unfolding rx_inv_def by argo
  then show ?thesis
  proof cases
    case closed
    have "9 * c \<le> d" using closed(3) c by simp
    then have "d div c = 9" "(d + 1) div c = 9" using d c by (auto intro!: int_div_pos_eq [where r = "_ - 9 * c"])
    then have "last_line u = 1" "?line = 1" using inv by (simp_all add: rx_inv_def frame_bit_def)
    with closed obs show ?thesis by (auto simp: observe_tx_def Let_def rx_inv_def)
  next
    case running
    let ?n = "next_sample u"
    show ?thesis
    proof (cases "d + 1 < c div 2 + int ?n * c")
      case True
      then have "sample_line c s (s + (d + 1)) ?line ?n (uart_bits u) = (?n, uart_bits u)" by (intro sample_none) simp
      with observe_running(1) [OF running(1), of "s + (d + 1)" ?line ?n "uart_bits u"] running True obs line
      show ?thesis by (auto simp: rx_inv_def)
    next
      case False
      with running(5) have eq: "d + 1 = c div 2 + int ?n * c" by simp
      have "(d + 1) div c = int ?n" unfolding eq using c by (simp add: div_mult_self3 add.commute)
      then have bit_n: "?line = frame_bit byte ?n" by simp
      have sl: "sample_line c s (s + (d + 1)) ?line ?n (uart_bits u) = (Suc ?n, uart_bits u @ [?line])"
        by (rule sample_one) (use eq c running in auto)
      have sl': "sample_line (clocks_per_bit u) s (s + (d + 1)) ?line (next_sample u) (uart_bits u) = (Suc ?n, uart_bits u @ [?line])"
        using sl obs(2) by simp
      have bs: "uart_bits u @ [?line] = map (frame_bit byte) [0..<Suc ?n]" using running(3) bit_n by simp
      show ?thesis
      proof (cases "Suc ?n = 10")
        case True
        have "observe_tx u (s + (d + 1)) ?line = (Inr (), u\<lparr>last_observed_tick := s + (d + 1), next_sample := 10,
            uart_bits := map (frame_bit byte) [0..<10], captured := cap @ [byte], start_tick := None, last_line := ?line\<rparr>)"
          using observe_running(2) [OF running(1) _ line sl'] bs True obs running(4) frame_value [OF byte] frame_bits_check
          by simp
        moreover have "c div 2 + 9 * c \<le> d + 1" using eq True by simp
        ultimately show ?thesis using obs(2) by (simp add: rx_inv_def)
      next
        case False
        then have "observe_tx u (s + (d + 1)) ?line = (Inr (), u\<lparr>last_observed_tick := s + (d + 1), next_sample := Suc ?n,
            uart_bits := map (frame_bit byte) [0..<Suc ?n], last_line := ?line\<rparr>)"
          using observe_running(1) [OF running(1) _ line sl'] bs obs by simp
        moreover have "d + 1 < c div 2 + int (Suc ?n) * c" "c div 2 + (int (Suc ?n) - 1) * c \<le> d + 1" "Suc ?n < 10"
          using eq c running(2) False by (auto simp: algebra_simps)
        ultimately show ?thesis using obs(2) running(1,4) by (simp add: rx_inv_def del: upt_Suc of_nat_Suc)
      qed
    qed
  qed
qed


lemma observe_line_snoc:
  assumes "observe_line line t n u = (Inr (), u1)" and "observe_tx u1 (t + int n) (line (t + int n)) = (Inr (), u2)"
  shows "observe_line line t (Suc n) u = (Inr (), u2)"
  using observe_line_add [of line t n 1 u] assms by simp

lemma rx_frame_partial:
  assumes "rx_idle c s cap u" and "16 \<le> c" and "0 \<le> byte" "byte < 256"
    and "\<And>d. 0 \<le> d \<Longrightarrow> d < 10 * c \<Longrightarrow> line (s + d) = frame_bit byte (nat (d div c))"
  shows "int n < 10 * c \<Longrightarrow> \<exists>u'. observe_line line s (Suc n) u = (Inr (), u') \<and> rx_inv c s cap byte (int n) u'"
proof (induction n)
  case 0
  have "line s = frame_bit byte 0" using assms(5) [of 0] assms(2) by simp
  with rx_first [OF assms(1,2), of byte] show ?case by auto
next
  case (Suc n)
  then obtain u1 where u1: "observe_line line s (Suc n) u = (Inr (), u1)" "rx_inv c s cap byte (int n) u1" by auto
  have "line (s + (int n + 1)) = frame_bit byte (nat ((int n + 1) div c))" using assms(5) [of "int n + 1"] Suc.prems by simp
  with rx_next [OF u1(2) assms(2) _ _ assms(3,4)] Suc.prems obtain u2 where
    "observe_tx u1 (s + int (Suc n)) (line (s + int (Suc n))) = (Inr (), u2)" "rx_inv c s cap byte (int (Suc n)) u2"
    by (auto simp: ac_simps)
  with observe_line_snoc [OF u1(1)] show ?case by blast
qed

lemma rx_frame:
  assumes "rx_idle c s cap u" and "16 \<le> c" and "0 \<le> byte" "byte < 256"
    and "\<And>d. 0 \<le> d \<Longrightarrow> d < 10 * c \<Longrightarrow> line (s + d) = frame_bit byte (nat (d div c))"
  shows "\<exists>u'. observe_line line s (nat (10 * c)) u = (Inr (), u') \<and> rx_idle c (s + 10 * c) (cap @ [byte]) u'"
proof -
  have n: "int (nat (10 * c - 1)) < 10 * c" "Suc (nat (10 * c - 1)) = nat (10 * c)" "int (nat (10 * c - 1)) = 10 * c - 1"
    using assms(2) by auto
  obtain u' where u': "observe_line line s (nat (10 * c)) u = (Inr (), u')" "rx_inv c s cap byte (10 * c - 1) u'"
    using rx_frame_partial [OF assms n(1)] n by auto
  have "10 * c - 1 \<ge> c div 2 + int k * c" if "k < 10" for k :: nat
  proof -
    have "int k * c \<le> 9 * c" using that assms(2) by (intro mult_right_mono) auto
    moreover have "c div 2 < c" using assms(2) by simp
    ultimately show ?thesis by linarith
  qed
  then have "\<not> 10 * c - 1 < c div 2 + int (next_sample u') * c" if "next_sample u' < 10" using that by force
  moreover have "(10 * c - 1) div c = 9" using assms(2) by (intro int_div_pos_eq [where r = "c - 1"]) auto
  ultimately show ?thesis using u' by (auto simp: rx_inv_def rx_idle_def frame_bit_def)
qed

lemma rx_bytes:
  assumes "16 \<le> c"
  shows "rx_idle c s cap u \<Longrightarrow>
    (\<And>k d. k < length (bs :: bytes) \<Longrightarrow> 0 \<le> d \<Longrightarrow> d < 10 * c \<Longrightarrow> line (s + 10 * c * int k + d) = frame_bit (uint (bs ! k)) (nat (d div c)))
    \<Longrightarrow> \<exists>u'. observe_line line s (nat (10 * c * int (length bs))) u = (Inr (), u')
        \<and> rx_idle c (s + 10 * c * int (length bs)) (cap @ map uint bs) u'"
proof (induction bs arbitrary: s cap u)
  case (Cons b bs)
  have "uint b < 256" using uint_lt2p [of b] by simp
  then obtain u1 where u1: "observe_line line s (nat (10 * c)) u = (Inr (), u1)" "rx_idle c (s + 10 * c) (cap @ [uint b]) u1"
    using rx_frame [OF Cons.prems(1) assms, of "uint b" line] Cons.prems(2) [of 0] by auto
  have "\<exists>u'. observe_line line (s + 10 * c) (nat (10 * c * int (length bs))) u1 = (Inr (), u')
        \<and> rx_idle c (s + 10 * c + 10 * c * int (length bs)) ((cap @ [uint b]) @ map uint bs) u'"
    by (rule Cons.IH [OF u1(2)]) (use Cons.prems(2) [of "Suc _"] in \<open>simp add: algebra_simps\<close>)
  then obtain u' where u': "observe_line line (s + 10 * c) (nat (10 * c * int (length bs))) u1 = (Inr (), u')"
      "rx_idle c (s + 10 * c + 10 * c * int (length bs)) ((cap @ [uint b]) @ map uint bs) u'" by blast
  have "nat (10 * c * int (length (b # bs))) = nat (10 * c) + nat (10 * c * int (length bs))"
    using assms by (simp add: nat_add_distrib algebra_simps)
  with u1 u' assms show ?case using observe_line_add [of line s "nat (10 * c)" "nat (10 * c * int (length bs))" u]
    by (auto simp: algebra_simps)
qed (simp add: rx_idle_def)

lemma rx_quiet:
  assumes "\<And>i. 0 \<le> i \<Longrightarrow> i < int n \<Longrightarrow> line (s + i) = 1"
  shows "rx_idle c s cap u \<Longrightarrow> \<exists>u'. observe_line line s n u = (Inr (), u') \<and> rx_idle c (s + int n) cap u'"
  using assms
proof (induction n arbitrary: s u)
  case (Suc n)
  have "line s = 1" using Suc.prems(2) [of 0] by simp
  then obtain u1 where u1: "observe_tx u s (line s) = (Inr (), u1)" "rx_idle c (s + 1) cap u1"
    using Suc.prems(1) by (auto simp: rx_idle_def observe_tx_def Let_def)
  have "\<exists>u'. observe_line line (s + 1) n u1 = (Inr (), u') \<and> rx_idle c (s + 1 + int n) cap u'"
    by (rule Suc.IH [OF u1(2)]) (use Suc.prems(2) [of "_ + 1"] in \<open>simp add: ac_simps\<close>)
  with u1 show ?case by (auto simp: ac_simps)
qed simp


section \<open>Schedules\<close>

text \<open>Segments are scheduled in order, with at least one idle bit between them.\<close>

definition uart_wf :: "uart \<Rightarrow> bool" where
  "uart_wf u \<longleftrightarrow> 16 \<le> clocks_per_bit u \<and> clocks_per_bit u \<le> 4096 \<and> length (source_segments u) = length (source_starts u)
     \<and> (source_start_tick u = None \<longleftrightarrow> source_starts u = []) \<and> (\<forall>x \<in> set (source_starts u). 0 \<le> x)
     \<and> (\<forall>i. Suc i < length (source_starts u) \<longrightarrow>
          source_starts u ! i + segment_ticks u (source_segments u ! i) + clocks_per_bit u \<le> source_starts u ! Suc i)"

lemma make_uart_wf: "make_uart src c = Inr u \<Longrightarrow> uart_wf u \<and> rx_idle c 0 [] u"
  by (auto simp: make_uart_def uart_reset_case_def uart_wf_def rx_idle_def split: if_splits)

lemma start_source_wf: "uart_wf u \<Longrightarrow> start_source u t = Inr u' \<Longrightarrow> uart_wf u'"
  by (auto simp: start_source_def uart_wf_def split: if_splits)

lemma append_source_wf:
  assumes "uart_wf u" and "append_source u src t = Inr u'"
  shows "uart_wf u'"
proof -
  let ?xs = "source_starts u" and ?ss = "source_segments u"
  have ne: "?xs \<noteq> []" "length ?ss = length ?xs" and t: "source_end_tick u + clocks_per_bit u \<le> t"
      and u': "u' = u\<lparr>source_starts := ?xs @ [t], source_segments := ?ss @ [src]\<rparr>"
    using assms by (auto simp: append_source_def uart_wf_def split: if_splits)
  have fin: "source_end_tick u = ?xs ! (length ?xs - 1) + segment_ticks u (?ss ! (length ?xs - 1))"
    using ne by (cases "?ss = []") (auto simp: source_end_tick_def last_conv_nth)
  have pos: "0 \<le> segment_ticks u s" for s using assms(1) by (simp add: segment_ticks_def uart_wf_def)
  have "(?xs @ [t]) ! i + segment_ticks u ((?ss @ [src]) ! i) + clocks_per_bit u \<le> (?xs @ [t]) ! Suc i"
    if i: "Suc i < length (?xs @ [t])" for i
  proof (cases "Suc i < length ?xs")
    case True
    with assms(1) ne show ?thesis by (auto simp: uart_wf_def nth_append)
  next
    case False
    with i have "i = length ?xs - 1" by simp
    with ne t fin show ?thesis by (simp add: nth_append)
  qed
  moreover have "0 \<le> t"
    using t fin pos assms(1) ne by (auto simp: uart_wf_def) (smt (verit, best) One_nat_def diff_less length_greater_0_conv nth_mem zero_less_Suc)
  ultimately show ?thesis
    using assms ne by (auto simp: uart_wf_def u' segment_ticks_def append_source_def split: if_splits)
qed

lemma starts_mono:
  assumes "uart_wf u" and "j \<le> i" and "i < length (source_starts u)"
  shows "source_starts u ! j \<le> source_starts u ! i"
  using assms(2,3)
proof (induction rule: dec_induct)
  case (step n)
  have "0 \<le> segment_ticks u (source_segments u ! n)" "0 \<le> clocks_per_bit u" using assms(1) by (auto simp: segment_ticks_def uart_wf_def)
  moreover have "source_starts u ! n + segment_ticks u (source_segments u ! n) + clocks_per_bit u \<le> source_starts u ! Suc n"
    using assms(1) step.prems by (simp add: uart_wf_def)
  ultimately show ?case using step by simp
qed simp

lemma bisect_segment:
  assumes "uart_wf u" and "n \<le> length (source_starts u)" and "0 < n \<Longrightarrow> source_starts u ! (n - 1) \<le> t"
    and "n < length (source_starts u) \<Longrightarrow> t < source_starts u ! n"
  shows "bisect_right (source_starts u) t = n"
proof -
  have "takeWhile (\<lambda>x. x \<le> t) (source_starts u) = take n (source_starts u)"
  proof (rule takeWhile_eq_take_P_nth)
    fix j assume j: "j < n" "j < length (source_starts u)"
    then have "source_starts u ! j \<le> source_starts u ! (n - 1)" using assms(2) by (intro starts_mono [OF assms(1)]) auto
    with assms(3) j(1) show "source_starts u ! j \<le> t" by simp
  qed (use assms(4) in simp)
  with assms(2) show ?thesis by (simp add: bisect_right_def)
qed

lemma drive_before:
  assumes "uart_wf u" and "source_starts u \<noteq> [] \<Longrightarrow> t < source_starts u ! 0"
  shows "drive_rx u t = 1"
  using bisect_segment [OF assms(1), of 0 t] assms(2) by (simp add: drive_rx_def)

lemma drive_in:
  assumes "uart_wf u" and "i < length (source_starts u)" and "Suc i < length (source_starts u) \<Longrightarrow> t < source_starts u ! Suc i"
    and "source_starts u ! i \<le> t"
  shows "drive_rx u t = (let slot = (t - source_starts u ! i) div clocks_per_bit u; src = source_segments u ! i in
     if slot \<ge> 10 * int (length src) then 1 else frame_bit (uint (src ! nat (slot div 10))) (nat (slot mod 10)))"
  using bisect_segment [OF assms(1), of "Suc i" t] assms(2-4) by (simp add: drive_rx_def)

lemma segment_before_next:
  assumes "uart_wf u" and "Suc i < length (source_starts u)" and "t < source_starts u ! i + segment_ticks u (source_segments u ! i)"
  shows "t < source_starts u ! Suc i"
  using assms unfolding uart_wf_def by fastforce

lemma drive_byte:
  assumes "uart_wf u" and "i < length (source_starts u)" and "k < length (source_segments u ! i)" and "0 \<le> d" and "d < 10 * clocks_per_bit u"
  shows "drive_rx u (source_starts u ! i + 10 * clocks_per_bit u * int k + d) = frame_bit (uint (source_segments u ! i ! k)) (nat (d div clocks_per_bit u))"
proof -
  let ?c = "clocks_per_bit u" and ?t = "source_starts u ! i + 10 * clocks_per_bit u * int k + d"
  have c: "0 < ?c" using assms(1) by (simp add: uart_wf_def)
  have "10 * ?c * (int k + 1) \<le> 10 * ?c * int (length (source_segments u ! i))"
    using assms(3) c by (intro mult_left_mono) auto
  then have before: "?t < source_starts u ! i + segment_ticks u (source_segments u ! i)"
    using assms(5) by (simp add: segment_ticks_def algebra_simps)
  have "(10 * ?c - 1) div ?c = 9" using c by (intro int_div_pos_eq [where r = "?c - 1"]) auto
  then have q: "0 \<le> d div ?c" "d div ?c < 10"
    using zdiv_mono1 [of d "10 * ?c - 1" ?c] assms(4,5) c by (simp_all add: pos_imp_zdiv_nonneg_iff)
  have slot: "(?t - source_starts u ! i) div ?c = 10 * int k + d div ?c"
  proof -
    have "?t - source_starts u ! i = ?c * (10 * int k) + d" by (simp add: ac_simps)
    then show ?thesis using c by (simp only: div_mult_self4 [of ?c "10 * int k" d] less_imp_neq [THEN not_sym] not_False_eq_True)
  qed
  have "drive_rx u ?t = (let slot = (?t - source_starts u ! i) div ?c; src = source_segments u ! i in
     if slot \<ge> 10 * int (length src) then 1 else frame_bit (uint (src ! nat (slot div 10))) (nat (slot mod 10)))"
    by (rule drive_in [OF assms(1,2)]) (use segment_before_next [OF assms(1) _ before] assms(4) c in auto)
  moreover have "(10 * int k + d div ?c) div 10 = int k" "(10 * int k + d div ?c) mod 10 = d div ?c"
    using q by auto
  moreover have "\<not> 10 * int k + d div ?c \<ge> 10 * int (length (source_segments u ! i))" using q assms(3) by linarith
  ultimately show ?thesis unfolding slot Let_def by simp
qed

lemma drive_after:
  assumes "uart_wf u" and "i < length (source_starts u)" and "Suc i < length (source_starts u) \<Longrightarrow> t < source_starts u ! Suc i"
    and "source_starts u ! i + segment_ticks u (source_segments u ! i) \<le> t"
  shows "drive_rx u t = 1"
proof -
  let ?c = "clocks_per_bit u" and ?n = "10 * int (length (source_segments u ! i))"
  have c: "0 < ?c" using assms(1) by (simp add: uart_wf_def)
  have "?n * ?c \<le> t - source_starts u ! i" using assms(4) by (simp add: segment_ticks_def algebra_simps)
  then have "?n \<le> (t - source_starts u ! i) div ?c" using zdiv_mono1 [OF _ c, of "?n * ?c"] c by simp
  moreover have "source_starts u ! i \<le> t" using assms(4) c by (simp add: segment_ticks_def) (smt (verit) mult_nonneg_nonneg of_nat_0_le_iff)
  ultimately show ?thesis using drive_in [OF assms(1-3)] by (simp add: Let_def)
qed

lemma observe_line_trans:
  assumes "0 \<le> s" and "observe_line line 0 (nat s) u = (Inr (), u1)" and "observe_line line s n u1 = (Inr (), u2)"
  shows "observe_line line 0 (nat (s + int n)) u = (Inr (), u2)"
  using observe_line_add [of line 0 "nat s" n u] assms by (simp add: nat_add_distrib)

lemma rx_segment:
  assumes wf: "uart_wf a" and i: "i < length (source_starts a)" and idle: "rx_idle (clocks_per_bit a) (source_starts a ! i) cap u"
    and T: "source_starts a ! i + segment_ticks a (source_segments a ! i) \<le> T" "Suc i < length (source_starts a) \<Longrightarrow> T \<le> source_starts a ! Suc i"
  shows "\<exists>u'. observe_line (drive_rx a) (source_starts a ! i) (nat (T - source_starts a ! i)) u = (Inr (), u')
    \<and> rx_idle (clocks_per_bit a) T (cap @ map uint (source_segments a ! i)) u'"
proof -
  let ?s = "source_starts a ! i" and ?w = "segment_ticks a (source_segments a ! i)"
  have c: "16 \<le> clocks_per_bit a" and w: "0 \<le> ?w" using wf by (simp_all add: uart_wf_def segment_ticks_def)
  obtain u1 where u1: "observe_line (drive_rx a) ?s (nat ?w) u = (Inr (), u1)"
      "rx_idle (clocks_per_bit a) (?s + ?w) (cap @ map uint (source_segments a ! i)) u1"
    using rx_bytes [OF c idle, of "source_segments a ! i" "drive_rx a"] drive_byte [OF wf i] unfolding segment_ticks_def by blast
  obtain u2 where "observe_line (drive_rx a) (?s + ?w) (nat (T - ?s - ?w)) u1 = (Inr (), u2)"
      "rx_idle (clocks_per_bit a) (?s + ?w + int (nat (T - ?s - ?w))) (cap @ map uint (source_segments a ! i)) u2"
    using rx_quiet [OF _ u1(2), of "nat (T - ?s - ?w)" "drive_rx a"] drive_after [OF wf i] T by force
  moreover have "nat (T - ?s) = nat ?w + nat (T - ?s - ?w)" "?s + ?w + int (nat (T - ?s - ?w)) = T" using T(1) w by auto
  ultimately show ?thesis using u1 w observe_line_add [of "drive_rx a" ?s "nat ?w" "nat (T - ?s - ?w)" u] by simp
qed

lemma rx_schedule:
  assumes wf: "uart_wf a" and idle: "rx_idle (clocks_per_bit a) 0 [] b" and "k \<le> length (source_starts a)" and "0 \<le> T"
    and "0 < k \<Longrightarrow> source_starts a ! (k - 1) + segment_ticks a (source_segments a ! (k - 1)) \<le> T"
    and "k < length (source_starts a) \<Longrightarrow> T \<le> source_starts a ! k"
  shows "\<exists>b'. observe_line (drive_rx a) 0 (nat T) b = (Inr (), b')
    \<and> rx_idle (clocks_per_bit a) T (concat (map (map uint) (take k (source_segments a)))) b'"
  using assms(3-)
proof (induction k arbitrary: T)
  case 0
  with rx_quiet [OF _ idle, of "nat T" "drive_rx a"] drive_before [OF wf] show ?case by force
next
  case (Suc k)
  let ?s = "source_starts a ! k"
  have s: "0 \<le> ?s" and len: "length (source_segments a) = length (source_starts a)" using wf Suc.prems(1) by (auto simp: uart_wf_def)
  have c: "0 \<le> clocks_per_bit a" and w: "0 \<le> segment_ticks a g" for g using wf by (simp_all add: uart_wf_def segment_ticks_def)
  have before: "source_starts a ! (k - 1) + segment_ticks a (source_segments a ! (k - 1)) \<le> ?s" if "0 < k"
  proof -
    obtain j where "k = Suc j" using \<open>0 < k\<close> gr0_implies_Suc by blast
    moreover from this have "source_starts a ! j + segment_ticks a (source_segments a ! j) + clocks_per_bit a \<le> source_starts a ! Suc j"
      using wf Suc.prems(1) unfolding uart_wf_def by simp
    ultimately show ?thesis using c by simp
  qed
  have "\<exists>b1. observe_line (drive_rx a) 0 (nat ?s) b = (Inr (), b1)
      \<and> rx_idle (clocks_per_bit a) ?s (concat (map (map uint) (take k (source_segments a)))) b1"
    by (rule Suc.IH) (use s before Suc.prems(1) in auto)
  then obtain b1 where b1: "observe_line (drive_rx a) 0 (nat ?s) b = (Inr (), b1)"
      "rx_idle (clocks_per_bit a) ?s (concat (map (map uint) (take k (source_segments a)))) b1" by blast
  obtain b2 where b2: "observe_line (drive_rx a) ?s (nat (T - ?s)) b1 = (Inr (), b2)"
      "rx_idle (clocks_per_bit a) T (concat (map (map uint) (take k (source_segments a))) @ map uint (source_segments a ! k)) b2"
    using rx_segment [OF wf _ b1(2), of T] Suc.prems by auto
  have "?s + int (nat (T - ?s)) = T" using Suc.prems(3) w [of "source_segments a ! k"] by simp
  with observe_line_trans [OF s b1(1) b2(1)] b2(2) show ?case
    using Suc.prems(1) len by (simp add: take_Suc_conv_app_nth)
qed

section \<open>Loopback\<close>

text \<open>Further segments are appended to a started source one after the other.\<close>

fun append_sources :: "uart \<Rightarrow> (bytes \<times> int) list \<Rightarrow> uart res" where
  "append_sources u [] = Inr u"
| "append_sources u ((src, t) # rest) = (case append_source u src t of Inl e \<Rightarrow> Inl e | Inr u' \<Rightarrow> append_sources u' rest)"

lemma append_sources_wf:
  "append_sources u rest = Inr u' \<Longrightarrow> uart_wf u \<Longrightarrow> uart_wf u' \<and> clocks_per_bit u' = clocks_per_bit u
     \<and> source_segments u' = source_segments u @ map fst rest"
proof (induction u rest rule: append_sources.induct)
  case (2 u src t rest)
  then obtain u1 where u1: "append_source u src t = Inr u1" "append_sources u1 rest = Inr u'" by (auto split: sum.splits)
  then have "clocks_per_bit u1 = clocks_per_bit u \<and> source_segments u1 = source_segments u @ [src]"
    by (auto simp: append_source_def split: if_splits)
  with 2(1) [OF u1] append_source_wf [OF 2(3) u1(1)] show ?case by simp
qed simp

lemma loopback:
  assumes "make_uart src c = Inr a0" and "start_source a0 t = Inr a1" and "append_sources a1 rest = Inr a"
    and "make_uart other c = Inr b" and "source_end_tick a \<le> N"
  shows "\<exists>b'. observe_line (drive_rx a) 0 (nat N) b = (Inr (), b') \<and> captured b' = map uint (src @ concat (map fst rest))"
proof -
  have a1: "uart_wf a1" "clocks_per_bit a1 = c" "source_segments a1 = [src]"
    using assms(1,2) start_source_wf [OF _ assms(2)] make_uart_wf [OF assms(1)]
    by (auto simp: make_uart_def start_source_def uart_reset_case_def split: if_splits)
  have a: "uart_wf a" "clocks_per_bit a = c" "source_segments a = src # map fst rest"
    using append_sources_wf [OF assms(3) a1(1)] a1 by auto
  let ?n = "length (source_starts a)"
  have len: "length (source_segments a) = ?n" "0 < ?n" "source_starts a \<noteq> []" "source_segments a \<noteq> []"
    using a(1,3) by (auto simp: uart_wf_def)
  have fin: "source_starts a ! (?n - 1) + segment_ticks a (source_segments a ! (?n - 1)) \<le> N"
    using assms(5) len by (simp add: source_end_tick_def last_conv_nth)
  have "0 \<le> source_starts a ! (?n - 1)" "0 \<le> segment_ticks a (source_segments a ! (?n - 1))"
    using a(1) len by (auto simp: uart_wf_def segment_ticks_def)
  with fin obtain b' where "observe_line (drive_rx a) 0 (nat N) b = (Inr (), b')"
      "rx_idle c N (concat (map (map uint) (source_segments a))) b'"
    using rx_schedule [OF a(1), of b ?n N] make_uart_wf [OF assms(4)] a(2) len by auto
  then show ?thesis using a(3) by (auto simp: rx_idle_def map_concat o_def)
qed

text \<open>C31: A serial peer receives exactly what another peer sends: when a peer schedules its source and any further
  accepted byte strings, a second peer with the same bit period that observes the driven line at every clock, from
  reset to any moment after the last scheduled bit, raises no framing error and has captured the bytes of all
  segments in order.\<close>

theorem uart_loopback:
  assumes "make_uart src c = Inr a0" and "start_source a0 t = Inr a1" and "append_sources a1 rest = Inr a"
    and "make_uart other c = Inr b" and "source_end_tick a \<le> N"
  shows "\<exists>b'. observe_line (drive_rx a) 0 (nat N) b = (Inr (), b') \<and> captured b' = map uint (src @ concat (map fst rest))"
  using loopback [OF assms] .

theorem uart_loopback_witness:
  "\<exists>a r r'. source_starts a = [7, 1000] \<and> make_uart [] 25 = Inr r \<and>
     observe_line (drive_rx a) 0 2000 r = (Inr (), r') \<and> captured r' = [0x48, 0x69, 0x0F]"
proof -
  obtain a0 where a0: "make_uart [0x48, 0x69] 25 = Inr a0" by (simp add: make_uart_def)
  then obtain a1 where a1: "start_source a0 7 = Inr a1" by (auto simp: make_uart_def start_source_def uart_reset_case_def)
  have facts: "source_starts a1 = [7]" "source_segments a1 = [[0x48, 0x69]]" "clocks_per_bit a1 = 25" "source_start_tick a1 = Some 7"
    using a0 a1 by (auto simp: make_uart_def start_source_def uart_reset_case_def)
  then obtain a where a: "append_sources a1 [([0x0F], 1000)] = Inr a" "source_end_tick a = 1250" "source_starts a = [7, 1000]"
    by (auto simp: append_source_def source_end_tick_def segment_ticks_def)
  obtain r where r: "make_uart [] 25 = Inr r" by (simp add: make_uart_def)
  have "source_end_tick a \<le> 2000" using a by simp
  from uart_loopback [OF a0 a1 a(1) r this] a(3) r show ?thesis by fastforce
qed

end
