(* ===== verification/Spi.thy ===== *)
theory Spi
  imports Stdlib Interfaces
begin

text \<open>
  \<open>SpiPeer\<close> (\<open>scenario/spi_peer.py\<close>): a mode-0 device that shifts a queued payload out and the host's bytes in,
  driven by observed pin levels only.
\<close>

section \<open>Model\<close>

record spi =
  spi_payload :: bytes
  spi_payload_index :: nat
  spi_last_sck :: int
  spi_last_csb :: int
  spi_miso :: int
  spi_rx_byte :: int
  spi_bit_index :: nat
  current_frame :: bytes
  completed_frames :: "bytes list"
  sample_count :: nat
  incomplete_frame_count :: nat

definition spi_reset_case :: "spi \<Rightarrow> bytes option \<Rightarrow> spi" where
  "spi_reset_case p payload =
     (let p1 = (case payload of None \<Rightarrow> p | Some bs \<Rightarrow> p\<lparr>spi_payload := bs\<rparr>) in
      p1\<lparr>spi_payload_index := 0, spi_last_sck := 0, spi_last_csb := 1, spi_miso := 0, spi_rx_byte := 0, spi_bit_index := 0,
        current_frame := [], completed_frames := [], sample_count := 0, incomplete_frame_count := 0\<rparr>)"

definition make_spi :: "bytes \<Rightarrow> int \<Rightarrow> int \<Rightarrow> spi res" where
  "make_spi payload cpol cpha =
     (if (cpol, cpha) \<noteq> (0, 0) then Inl (ValueError ''SpiPeer currently supports only CPOL=0, CPHA=0'')
      else Inr (spi_reset_case \<lparr>spi_payload = payload, spi_payload_index = 0, spi_last_sck = 0, spi_last_csb = 1, spi_miso = 0,
        spi_rx_byte = 0, spi_bit_index = 0, current_frame = [], completed_frames = [], sample_count = 0, incomplete_frame_count = 0\<rparr> None))"

definition spi_queue_payload :: "spi \<Rightarrow> bytes \<Rightarrow> spi" where
  "spi_queue_payload p payload = p\<lparr>spi_payload := spi_payload p @ payload\<rparr>"

definition spi_sd_i :: "spi \<Rightarrow> int" where
  "spi_sd_i p = push_bit 1 (spi_miso p)"

definition payload_bit :: "spi \<Rightarrow> int" where
  "payload_bit p =
     (if spi_payload_index p \<ge> length (spi_payload p) then 0
      else drop_bit (7 - spi_bit_index p) (uint (spi_payload p ! spi_payload_index p)) AND 1)"

text \<open>\<open>bytearray.append\<close> refuses values outside a byte.\<close>

definition bytearray_append :: "bytes \<Rightarrow> int \<Rightarrow> bytes res" where
  "bytearray_append bs v = (if 0 \<le> v \<and> v < 256 then Inr (bs @ [word_of_int v]) else Inl (ValueError ''byte must be in range(0, 256)''))"

text \<open>A selected rising edge samples one bit; the eighth completes a byte.\<close>

definition rising_sck :: "spi \<Rightarrow> int \<Rightarrow> unit res \<times> spi" where
  "rising_sck p mosi =
     (let p1 = p\<lparr>spi_rx_byte := push_bit 1 (spi_rx_byte p) OR mosi, spi_bit_index := spi_bit_index p + 1, sample_count := sample_count p + 1\<rparr> in
      if spi_bit_index p1 = 8
      then (case bytearray_append (current_frame p1) (spi_rx_byte p1) of
              Inl e \<Rightarrow> (Inl e, p1)
            | Inr frame \<Rightarrow> (Inr (), p1\<lparr>current_frame := frame, spi_payload_index := spi_payload_index p1 + 1, spi_rx_byte := 0, spi_bit_index := 0\<rparr>))
      else (Inr (), p1))"

definition select_spi :: "spi \<Rightarrow> spi" where
  "select_spi p = (let p1 = p\<lparr>spi_rx_byte := 0, spi_bit_index := 0, current_frame := []\<rparr> in p1\<lparr>spi_miso := payload_bit p1\<rparr>)"

definition deselect_spi :: "spi \<Rightarrow> spi" where
  "deselect_spi p =
     (let p1 = (if spi_bit_index p \<noteq> 0 then p\<lparr>incomplete_frame_count := incomplete_frame_count p + 1\<rparr> else p);
          p2 = (if current_frame p1 \<noteq> [] then p1\<lparr>completed_frames := completed_frames p1 @ [current_frame p1]\<rparr> else p1) in
      p2\<lparr>current_frame := [], spi_rx_byte := 0, spi_bit_index := 0, spi_miso := 0\<rparr>)"

definition spi_observe :: "spi \<Rightarrow> int \<Rightarrow> int \<Rightarrow> int \<Rightarrow> unit res \<times> spi" where
  "spi_observe p sck csb mosi =
     (if sck \<notin> {0, 1} \<or> csb \<notin> {0, 1} \<or> mosi \<notin> {0, 1} then (Inl (ValueError ''SPI pins must be binary''), p)
      else (let was_selected = (spi_last_csb p = 0); selected = (csb = 0);
                step = (if selected \<and> \<not> was_selected then (Inr (), select_spi p)
                        else if was_selected \<and> \<not> selected then (Inr (), deselect_spi p)
                        else if selected then
                          (if spi_last_sck p = 0 \<and> sck \<noteq> 0 then rising_sck p mosi
                           else if spi_last_sck p \<noteq> 0 \<and> sck = 0 then (Inr (), p\<lparr>spi_miso := payload_bit p\<rparr>)
                           else (Inr (), p))
                        else (Inr (), p)) in
        case step of
          (Inl e, p1) \<Rightarrow> (Inl e, p1)
        | (Inr _, p1) \<Rightarrow> (Inr (), p1\<lparr>spi_last_sck := sck, spi_last_csb := csb\<rparr>)))"

section \<open>What the device promises\<close>

text \<open>
  The abstract device sees selections: the bits the host presented at the rising clock edges while the
  device was selected. Bytes are complete groups of eight, most significant bit first.
\<close>

record spi_bus =
  closed_selections :: "int list list"
  open_selection :: "int list option"
  bus_sck :: int

definition bus_step :: "spi_bus \<Rightarrow> int \<times> int \<times> int \<Rightarrow> spi_bus" where
  "bus_step b = (\<lambda>(sck, csb, mosi).
     (case open_selection b of
        None \<Rightarrow> b\<lparr>open_selection := if csb = 0 then Some [] else None, bus_sck := sck\<rparr>
      | Some bs \<Rightarrow>
          if csb \<noteq> 0 then b\<lparr>closed_selections := closed_selections b @ [bs], open_selection := None, bus_sck := sck\<rparr>
          else b\<lparr>open_selection := Some (if bus_sck b = 0 \<and> sck = 1 then bs @ [mosi] else bs), bus_sck := sck\<rparr>))"

definition idle_bus :: spi_bus where
  "idle_bus = \<lparr>closed_selections = [], open_selection = None, bus_sck = 0\<rparr>"

definition msb_value :: "int list \<Rightarrow> int" where
  "msb_value bs = foldl (\<lambda>v b. 2 * v + b) 0 bs"

definition msb_bits :: "u8 \<Rightarrow> int list" where
  "msb_bits w = map (\<lambda>i. of_bool (bit w (7 - i))) [0..<8]"

function msb_bytes :: "int list \<Rightarrow> bytes" where
  "msb_bytes bs = (if length bs < 8 then [] else word_of_int (msb_value (take 8 bs)) # msb_bytes (drop 8 bs))"
  by pat_completeness auto
termination by (relation "measure length") auto

declare msb_bytes.simps [simp del]

lemma msb_value_snoc: "msb_value (bs @ [b]) = 2 * msb_value bs + b"
  by (simp add: msb_value_def)

lemma msb_value_bounds: "set bs \<subseteq> {0, 1} \<Longrightarrow> 0 \<le> msb_value bs \<and> msb_value bs < 2 ^ length bs"
proof (induction bs rule: rev_induct)
  case (snoc b bs)
  then have "0 \<le> msb_value bs" "msb_value bs < 2 ^ length bs" "b = 0 \<or> b = 1" by auto
  then show ?case by (auto simp: msb_value_snoc)
qed (simp add: msb_value_def)

lemma shift_in: "m \<in> {0, 1} \<Longrightarrow> push_bit 1 v OR m = 2 * v + (m :: int)"
  by (auto simp: push_bit_eq_mult or_one_eq)

definition tail_bits :: "int list \<Rightarrow> int list" where
  "tail_bits bs = drop (8 * (length bs div 8)) bs"

lemma length_tail_bits: "length (tail_bits bs) = length bs mod 8"
  by (simp add: tail_bits_def minus_mult_div_eq_mod)

lemma set_tail_bits: "set (tail_bits bs) \<subseteq> set bs"
  by (simp add: tail_bits_def set_drop_subset)

lemma tail_bits_drop8: "8 \<le> length bs \<Longrightarrow> tail_bits (drop 8 bs) = tail_bits bs"
  by (simp add: tail_bits_def le_div_geq add.commute)

lemma tail_bits_snoc: "tail_bits (bs @ [b]) = (if length bs mod 8 = 7 then [] else tail_bits bs @ [b])"
proof -
  have "Suc (length bs) div 8 = (if length bs mod 8 = 7 then Suc (length bs div 8) else length bs div 8)" by (simp add: mod_Suc div_Suc)
  then show ?thesis by (auto simp: tail_bits_def)
qed

lemma length_msb_bytes: "length (msb_bytes bs) = length bs div 8"
  by (induction bs rule: msb_bytes.induct) (subst msb_bytes.simps, auto simp: le_div_geq)

lemma msb_bytes_snoc:
  "msb_bytes (bs @ [b]) = (if length bs mod 8 = 7 then msb_bytes bs @ [word_of_int (msb_value (tail_bits bs @ [b]))] else msb_bytes bs)"
proof (induction bs rule: msb_bytes.induct)
  case (1 bs)
  show ?case
  proof (cases "length bs < 8")
    case True
    then show ?thesis
      by (cases "length bs = 7") (auto simp: msb_bytes.simps [of "bs @ [b]"] msb_bytes.simps [of bs] msb_bytes.simps [of "[]"] tail_bits_def)
  next
    case False
    then have "msb_bytes (bs @ [b]) = word_of_int (msb_value (take 8 bs)) # msb_bytes (drop 8 bs @ [b])"
      by (subst msb_bytes.simps) simp
    moreover have "msb_bytes bs = word_of_int (msb_value (take 8 bs)) # msb_bytes (drop 8 bs)"
      using False by (subst msb_bytes.simps) simp
    moreover have "(length bs - 8) mod 8 = length bs mod 8" using False by (simp add: le_mod_geq)
    ultimately show ?thesis using 1 [OF False] False by (simp add: tail_bits_drop8)
  qed
qed

section \<open>The peer simulates the abstract device\<close>

type_synonym spi_pins = "int \<times> int \<times> int"

definition binary_pins :: "spi_pins \<Rightarrow> bool" where
  "binary_pins = (\<lambda>(sck, csb, mosi). sck \<in> {0, 1} \<and> csb \<in> {0, 1} \<and> mosi \<in> {0, 1})"

definition spi_step :: "spi \<Rightarrow> spi_pins \<Rightarrow> spi" where
  "spi_step p = (\<lambda>(sck, csb, mosi). snd (spi_observe p sck csb mosi))"

definition selected_bits :: "spi_bus \<Rightarrow> int list" where
  "selected_bits b = (case open_selection b of None \<Rightarrow> [] | Some bs \<Rightarrow> bs)"

definition payload_msb :: "bytes \<Rightarrow> nat \<Rightarrow> nat \<Rightarrow> int" where
  "payload_msb pl n i = (if n < length pl then msb_bits (pl ! n) ! i else 0)"

definition spi_rel :: "bytes \<Rightarrow> spi_bus \<Rightarrow> spi \<Rightarrow> bool" where
  "spi_rel pl b p \<longleftrightarrow>
     spi_payload p = pl \<and> spi_last_sck p = bus_sck b \<and> bus_sck b \<in> {0, 1}
   \<and> spi_last_csb p = (if open_selection b = None then 1 else 0)
   \<and> (\<forall>bs \<in> set (selected_bits b # closed_selections b). set bs \<subseteq> {0, 1})
   \<and> completed_frames p = filter (\<lambda>f. f \<noteq> []) (map msb_bytes (closed_selections b))
   \<and> current_frame p = msb_bytes (selected_bits b)
   \<and> spi_rx_byte p = msb_value (tail_bits (selected_bits b))
   \<and> spi_bit_index p = length (selected_bits b) mod 8
   \<and> spi_payload_index p = (\<Sum>bs \<leftarrow> closed_selections b @ [selected_bits b]. length bs div 8)
   \<and> sample_count p = (\<Sum>bs \<leftarrow> closed_selections b @ [selected_bits b]. length bs)
   \<and> incomplete_frame_count p = length (filter (\<lambda>bs. length bs mod 8 \<noteq> 0) (closed_selections b))
   \<and> (open_selection b = None \<longrightarrow> spi_miso p = 0)
   \<and> (open_selection b \<noteq> None \<longrightarrow> bus_sck b = 0 \<longrightarrow> spi_miso p = payload_bit p)"

lemma payload_bit_msb: "spi_bit_index p < 8 \<Longrightarrow> payload_bit p = payload_msb (spi_payload p) (spi_payload_index p) (spi_bit_index p)"
  by (simp add: payload_bit_def payload_msb_def msb_bits_def and_one_eq odd_iff_mod_2_eq_one [symmetric] bit_iff_odd_drop_bit [symmetric] mod_2_eq_odd bit_uint_iff less_imp_diff_less)

lemma msb_empty [simp]: "msb_bytes [] = []" "msb_value [] = 0" "tail_bits [] = []"
  by (simp_all add: msb_bytes.simps msb_value_def tail_bits_def)

lemma rising_sck_rel:
  assumes "spi_rel pl b p" and "open_selection b = Some bs" and "bus_sck b = 0" and "mosi \<in> {0, 1}"
  shows "fst (rising_sck p mosi) = Inr ()"
    "spi_rel pl (bus_step b (1, 0, mosi)) ((snd (rising_sck p mosi))\<lparr>spi_last_sck := 1, spi_last_csb := 0\<rparr>)"
proof -
  have sel: "selected_bits b = bs" using assms(2) by (simp add: selected_bits_def)
  have rx: "push_bit 1 (spi_rx_byte p) OR mosi = msb_value (tail_bits bs @ [mosi])"
    using assms(1) shift_in [OF assms(4)] by (simp add: spi_rel_def sel msb_value_snoc)
  have bin: "set bs \<subseteq> {0, 1}" using assms(1) sel by (simp add: spi_rel_def)
  have "set (tail_bits bs @ [mosi]) \<subseteq> {0, 1}" using bin set_tail_bits [of bs] assms(4) by auto
  then have bounds: "0 \<le> msb_value (tail_bits bs @ [mosi])" "msb_value (tail_bits bs @ [mosi]) < 2 ^ Suc (length bs mod 8)"
    using msb_value_bounds [of "tail_bits bs @ [mosi]"] by (simp_all add: length_tail_bits)
  have idx: "spi_bit_index p = length bs mod 8" using assms(1) sel by (simp add: spi_rel_def)
  have f: "spi_payload p = pl" "completed_frames p = filter (\<lambda>f. f \<noteq> []) (map msb_bytes (closed_selections b))"
      "current_frame p = msb_bytes bs" "spi_payload_index p = (\<Sum>bs \<leftarrow> closed_selections b. length bs div 8) + length bs div 8"
      "sample_count p = (\<Sum>bs \<leftarrow> closed_selections b. length bs) + length bs"
      "incomplete_frame_count p = length (filter (\<lambda>bs. length bs mod 8 \<noteq> 0) (closed_selections b))"
      "\<forall>bs \<in> set (closed_selections b). set bs \<subseteq> {0, 1}"
    using assms(1) by (simp_all add: spi_rel_def sel)
  have bus: "bus_step b (1, 0, mosi) = b\<lparr>open_selection := Some (bs @ [mosi]), bus_sck := 1\<rparr>"
    using assms(2,3) by (simp add: bus_step_def)
  show "fst (rising_sck p mosi) = Inr ()"
    unfolding rising_sck_def rx using bounds idx by (auto simp: Let_def bytearray_append_def)
  show "spi_rel pl (bus_step b (1, 0, mosi)) ((snd (rising_sck p mosi))\<lparr>spi_last_sck := 1, spi_last_csb := 0\<rparr>)"
  proof (cases "length bs mod 8 = 7")
    case True
    then have eq: "rising_sck p mosi = (Inr (), p\<lparr>spi_rx_byte := 0, spi_bit_index := 0, sample_count := sample_count p + 1,
        current_frame := current_frame p @ [word_of_int (msb_value (tail_bits bs @ [mosi]))], spi_payload_index := spi_payload_index p + 1\<rparr>)"
      unfolding rising_sck_def rx using bounds by (simp add: bytearray_append_def idx)
    from True have n: "Suc (length bs) mod 8 = 0" "Suc (length bs) div 8 = Suc (length bs div 8)" by (simp_all add: mod_Suc div_Suc)
    show ?thesis unfolding eq bus using assms(4) bin by (simp add: spi_rel_def selected_bits_def n f True msb_bytes_snoc tail_bits_snoc)
  next
    case False
    then have eq: "rising_sck p mosi = (Inr (), p\<lparr>spi_rx_byte := msb_value (tail_bits bs @ [mosi]), spi_bit_index := Suc (length bs mod 8),
        sample_count := sample_count p + 1\<rparr>)"
      unfolding rising_sck_def rx by (simp add: idx)
    from False have n: "Suc (length bs) mod 8 = Suc (length bs mod 8)" "Suc (length bs) div 8 = length bs div 8" by (simp_all add: mod_Suc div_Suc)
    show ?thesis unfolding eq bus using assms(4) bin by (simp add: spi_rel_def selected_bits_def n f False msb_bytes_snoc tail_bits_snoc)
  qed
qed

lemma spi_observe_cases:
  assumes "sck \<in> {0, 1}" "mosi \<in> {0, 1}"
  shows "spi_last_csb p = 1 \<Longrightarrow> spi_observe p sck 1 mosi = (Inr (), p\<lparr>spi_last_sck := sck, spi_last_csb := 1\<rparr>)"
    "spi_last_csb p = 1 \<Longrightarrow> spi_observe p sck 0 mosi = (Inr (), (select_spi p)\<lparr>spi_last_sck := sck, spi_last_csb := 0\<rparr>)"
    "spi_last_csb p = 0 \<Longrightarrow> spi_observe p sck 1 mosi = (Inr (), (deselect_spi p)\<lparr>spi_last_sck := sck, spi_last_csb := 1\<rparr>)"
    "spi_last_csb p = 0 \<Longrightarrow> spi_last_sck p = 0 \<Longrightarrow> rising_sck p mosi = (Inr (), p') \<Longrightarrow>
       spi_observe p 1 0 mosi = (Inr (), p'\<lparr>spi_last_sck := 1, spi_last_csb := 0\<rparr>)"
    "spi_last_csb p = 0 \<Longrightarrow> spi_last_sck p = 1 \<Longrightarrow> spi_observe p 0 0 mosi = (Inr (), p\<lparr>spi_miso := payload_bit p, spi_last_sck := 0, spi_last_csb := 0\<rparr>)"
    "spi_last_csb p = 0 \<Longrightarrow> spi_last_sck p = sck \<Longrightarrow> spi_observe p sck 0 mosi = (Inr (), p\<lparr>spi_last_sck := sck, spi_last_csb := 0\<rparr>)"
  using assms by (simp_all add: spi_observe_def Let_def)

lemma spi_rel_csb: "spi_rel pl b p \<Longrightarrow> spi_last_csb p = (if open_selection b = None then 1 else 0) \<and> spi_last_sck p = bus_sck b \<and> bus_sck b \<in> {0, 1}"
  by (simp add: spi_rel_def)

lemma select_rel: "spi_rel pl b p \<Longrightarrow> open_selection b = None \<Longrightarrow> sck \<in> {0, 1} \<Longrightarrow>
    spi_rel pl (bus_step b (sck, 0, mosi)) ((select_spi p)\<lparr>spi_last_sck := sck, spi_last_csb := 0\<rparr>)"
  by (simp add: spi_rel_def bus_step_def selected_bits_def select_spi_def payload_bit_def Let_def)

lemma deselect_rel: "spi_rel pl b p \<Longrightarrow> open_selection b = Some bs \<Longrightarrow> sck \<in> {0, 1} \<Longrightarrow>
    spi_rel pl (bus_step b (sck, 1, mosi)) ((deselect_spi p)\<lparr>spi_last_sck := sck, spi_last_csb := 1\<rparr>)"
  by (simp add: spi_rel_def bus_step_def selected_bits_def deselect_spi_def Let_def)

lemma quiet_rel: "spi_rel pl b p \<Longrightarrow> open_selection b = None \<Longrightarrow> sck \<in> {0, 1} \<Longrightarrow>
    spi_rel pl (bus_step b (sck, 1, mosi)) (p\<lparr>spi_last_sck := sck, spi_last_csb := 1\<rparr>)"
  by (simp add: spi_rel_def bus_step_def selected_bits_def)

lemma falling_rel: "spi_rel pl b p \<Longrightarrow> open_selection b = Some bs \<Longrightarrow> bus_sck b = 1 \<Longrightarrow>
    spi_rel pl (bus_step b (0, 0, mosi)) (p\<lparr>spi_miso := payload_bit p, spi_last_sck := 0, spi_last_csb := 0\<rparr>)"
  by (simp add: spi_rel_def bus_step_def selected_bits_def payload_bit_def)

lemma steady_rel: "spi_rel pl b p \<Longrightarrow> open_selection b = Some bs \<Longrightarrow> bus_sck b = sck \<Longrightarrow>
    spi_rel pl (bus_step b (sck, 0, mosi)) (p\<lparr>spi_last_sck := sck, spi_last_csb := 0\<rparr>)"
  by (simp add: spi_rel_def bus_step_def selected_bits_def payload_bit_def)

lemma spi_step_rel:
  assumes rel: "spi_rel pl b p" and pins: "sck \<in> {0, 1}" "csb \<in> {0, 1}" "mosi \<in> {0, 1}"
  shows "fst (spi_observe p sck csb mosi) = Inr () \<and> spi_rel pl (bus_step b (sck, csb, mosi)) (snd (spi_observe p sck csb mosi))"
proof (cases "open_selection b")
  case None
  with spi_rel_csb [OF rel] have "spi_last_csb p = 1" by simp
  with spi_observe_cases(1,2) [OF pins(1,3)] select_rel [OF rel None pins(1)] quiet_rel [OF rel None pins(1)] pins(2)
  show ?thesis by fastforce
next
  case (Some bs)
  with spi_rel_csb [OF rel] have last: "spi_last_csb p = 0" "spi_last_sck p = bus_sck b" "bus_sck b \<in> {0, 1}" by auto
  consider (leave) "csb = 1" | (rise) "csb = 0" "bus_sck b = 0" "sck = 1" | (fall) "csb = 0" "bus_sck b = 1" "sck = 0"
    | (stay) "csb = 0" "bus_sck b = sck" using pins last(3) by auto
  then show ?thesis
  proof cases
    case leave
    with spi_observe_cases(3) [OF pins(1,3) last(1)] deselect_rel [OF rel Some pins(1)] show ?thesis by simp
  next
    case rise
    obtain p' where p': "rising_sck p mosi = (Inr (), p')"
      using rising_sck_rel(1) [OF rel Some rise(2) pins(3)] by (metis prod.exhaust_sel)
    with spi_observe_cases(4) [OF pins(1,3) last(1) _ p'] rising_sck_rel(2) [OF rel Some rise(2) pins(3)] rise last
    show ?thesis by simp
  next
    case fall
    with spi_observe_cases(5) [OF pins(1,3) last(1)] falling_rel [OF rel Some] last show ?thesis by simp
  next
    case stay
    with spi_observe_cases(6) [OF pins(1,3) last(1)] steady_rel [OF rel Some] last show ?thesis by simp
  qed
qed

lemma make_spi_rel: "make_spi pl 0 0 = Inr p \<Longrightarrow> spi_rel pl idle_bus p"
  by (auto simp: make_spi_def spi_reset_case_def spi_rel_def idle_bus_def selected_bits_def)

interpretation spi_device: simulation bus_step spi_step binary_pins "spi_rel pl"
  by unfold_locales (use spi_step_rel in \<open>auto simp: binary_pins_def spi_step_def\<close>)


text \<open>C32: The SPI peer implements the abstract device on every sequence of binary pin levels, however long each level
  lasts: no observation is refused; its frames are the complete bytes of the bits presented at rising clock edges,
  grouped by selection, most significant bit first; incomplete selections are counted; and whenever the clock is
  low in a selection, the host reads the next bit of the first payload byte that no completed byte has consumed (an
  interrupted byte starts over), or 0 when the payload is exhausted.\<close>

theorem spi_refines:
  assumes "make_spi pl 0 0 = Inr p0" and "\<forall>x \<in> set ps. binary_pins x" and "p = foldl spi_step p0 ps" and "b = foldl bus_step idle_bus ps"
    and "sck \<in> {0, 1}" "csb \<in> {0, 1}" "mosi \<in> {0, 1}"
  shows "fst (spi_observe p sck csb mosi) = Inr ()
    \<and> completed_frames p = filter (\<lambda>f. f \<noteq> []) (map msb_bytes (closed_selections b))
    \<and> current_frame p = msb_bytes (selected_bits b)
    \<and> spi_payload_index p = (\<Sum>bs \<leftarrow> closed_selections b @ [selected_bits b]. length bs div 8)
    \<and> sample_count p = (\<Sum>bs \<leftarrow> closed_selections b @ [selected_bits b]. length bs)
    \<and> incomplete_frame_count p = length (filter (\<lambda>bs. length bs mod 8 \<noteq> 0) (closed_selections b))
    \<and> (open_selection b = None \<longrightarrow> spi_sd_i p = 0)
    \<and> (open_selection b \<noteq> None \<and> bus_sck b = 0 \<longrightarrow>
         spi_sd_i p = 2 * payload_msb pl (spi_payload_index p) (length (selected_bits b) mod 8))"
proof -
  have rel: "spi_rel pl b p" using spi_device.run_rel [OF make_spi_rel [OF assms(1)] assms(2)] assms(3,4) by simp
  have idx: "spi_bit_index p = length (selected_bits b) mod 8" "spi_payload p = pl" using rel by (simp_all add: spi_rel_def)
  then have "payload_bit p = payload_msb pl (spi_payload_index p) (length (selected_bits b) mod 8)"
    by (simp add: payload_bit_msb)
  with rel spi_step_rel [OF rel assms(5-7)] show ?thesis by (simp add: spi_rel_def spi_sd_i_def push_bit_eq_mult)
qed

definition spi_clock :: "u8 \<Rightarrow> spi_pins list" where
  "spi_clock w = concat (map (\<lambda>m. [(1, 0, m), (0, 0, m)]) (msb_bits w))"

theorem spi_refines_witness:
  "\<exists>p0 p. make_spi [0xC0] 0 0 = Inr p0 \<and> p = foldl spi_step p0 ([(0, 0, 0)] @ spi_clock 0x5A @ [(0, 1, 0), (0, 0, 0), (1, 0, 1), (0, 1, 0)])
    \<and> completed_frames p = [[0x5A]] \<and> spi_payload_index p = 1 \<and> incomplete_frame_count p = 1"
proof -
  obtain p0 where p0: "make_spi [0xC0] 0 0 = Inr p0" by (simp add: make_spi_def)
  let ?ps = "[(0, 0, 0)] @ spi_clock 0x5A @ [(0, 1, 0), (0, 0, 0), (1, 0, 1), (0, 1, 0)]"
  have clock: "msb_bits 0x5A = [0, 1, 0, 1, 1, 0, 1, 0]" by (simp add: msb_bits_def upt_rec)
  have pins: "\<forall>x \<in> set ?ps. binary_pins x" by (simp add: binary_pins_def spi_clock_def clock)
  have bus: "foldl bus_step idle_bus ?ps = \<lparr>closed_selections = [[0, 1, 0, 1, 1, 0, 1, 0], [1]], open_selection = None, bus_sck = 0\<rparr>"
    by (simp add: spi_clock_def clock bus_step_def idle_bus_def)
  have bytes: "msb_bytes [0, 1, 0, 1, 1, 0, 1, 0] = [0x5A]" "msb_bytes [1] = []"
    by (simp_all add: msb_bytes.simps msb_value_def)
  show ?thesis
    using spi_refines [OF p0 pins refl bus [symmetric], of 0 0 0] p0 by (simp add: selected_bits_def bytes)
qed

end
