(* ===== verification/Pulp_Spi.thy ===== *)
theory Pulp_Spi
  imports Spi
begin

text \<open>
  \<open>PulpSpiMode0Peer\<close> (\<open>scenario/pulp_spi_peer.py\<close>): the SPI peer behind the pins of the PULP controller. Every
  observation is checked before it reaches the peer, and the level changes of the event pins are recorded.
\<close>

section \<open>Model\<close>

record native_event =
  ev_bit :: nat
  ev_tick :: int
  ev_phase :: string
  ev_level :: int

record pulp =
  chip_select :: int
  pulp_peer :: spi
  last_position :: "int \<times> int"
  last_selected :: bool
  selected_has_edge :: bool
  pulp_last_sck :: int
  pulp_last_mode :: int
  event_levels :: int
  pulp_events :: "native_event list"

definition pulp_reset_case :: "pulp \<Rightarrow> bytes option \<Rightarrow> pulp" where
  "pulp_reset_case u payload = u\<lparr>pulp_peer := spi_reset_case (pulp_peer u) payload, last_position := (0, 1), last_selected := False,
     selected_has_edge := False, pulp_last_sck := 0, pulp_last_mode := 0, event_levels := 0, pulp_events := []\<rparr>"

definition make_pulp :: "bytes \<Rightarrow> int \<Rightarrow> pulp res" where
  "make_pulp payload cs =
     (if \<not> (0 \<le> cs \<and> cs < 4) then Inl (ValueError ''invalid PULP SPI chip select'')
      else res_bind (make_spi payload 0 0) (\<lambda>peer. Inr (pulp_reset_case \<lparr>chip_select = cs, pulp_peer = peer, last_position = (0, 1),
        last_selected = False, selected_has_edge = False, pulp_last_sck = 0, pulp_last_mode = 0, event_levels = 0, pulp_events = []\<rparr> None)))"

definition pulp_queue_payload :: "pulp \<Rightarrow> bytes \<Rightarrow> pulp" where
  "pulp_queue_payload u payload = u\<lparr>pulp_peer := spi_queue_payload (pulp_peer u) payload\<rparr>"

definition drive_inputs :: "pulp \<Rightarrow> (string, int) dict" where
  "drive_inputs u = [(''spi_sdi0'', 0), (''spi_sdi1'', if pulp_last_mode u = 0 then spi_miso (pulp_peer u) else 0),
     (''spi_sdi2'', 0), (''spi_sdi3'', 0)]"

type_synonym pulp_pins = "(string, int) dict"

definition pulp_required :: "string list" where
  "pulp_required = [''spi_clk'', ''spi_csn0'', ''spi_csn1'', ''spi_csn2'', ''spi_csn3'', ''spi_mode'', ''spi_sdo0'', ''events_o'']"

abbreviation pin :: "pulp_pins \<Rightarrow> string \<Rightarrow> int" where
  "pin pins name \<equiv> dict_get pins name 0"

definition phase_index :: "string \<Rightarrow> int option" where
  "phase_index phase = map_of [(''pre'', 0), (''post'', 1)] phase"

definition position_le :: "int \<times> int \<Rightarrow> int \<times> int \<Rightarrow> bool" where
  "position_le a b = (fst a < fst b \<or> fst a = fst b \<and> snd a \<le> snd b)"

definition check_pin :: "pulp_pins \<Rightarrow> string \<Rightarrow> unit res" where
  "check_pin pins name =
     (let maximum = (if name \<in> {''spi_mode'', ''events_o''} then 3 else 1) in
      check (0 \<le> pin pins name \<and> pin pins name \<le> maximum) (ValueError (''invalid PULP SPI pin observation: '' @ name)))"

definition csn_name :: "nat \<Rightarrow> string" where
  "csn_name i = [''spi_csn0'', ''spi_csn1'', ''spi_csn2'', ''spi_csn3''] ! i"

definition selected_cs :: "pulp_pins \<Rightarrow> int list" where
  "selected_cs pins = map int (filter (\<lambda>i. pin pins (csn_name i) = 0) [0..<4])"

text \<open>The guards of \<open>observe\<close>. \<open>order\<close> is the order in which Python iterates over the set of required names; it decides which
  of several invalid pins the message names.\<close>

definition sck_edge :: "pulp \<Rightarrow> pulp_pins \<Rightarrow> bool" where
  "sck_edge u pins = (selected_cs pins \<noteq> [] \<and> last_selected u \<and> pin pins ''spi_clk'' \<noteq> pulp_last_sck u)"

definition pulp_guard :: "string list \<Rightarrow> pulp \<Rightarrow> pulp_pins \<Rightarrow> int \<Rightarrow> string \<Rightarrow> int res" where
  "pulp_guard order u pins local_tick phase =
     (case phase_index phase of
        None \<Rightarrow> Inl (ValueError ''invalid PULP SPI receipt position'')
      | Some pi \<Rightarrow>
     if local_tick < 1 \<or> position_le (local_tick, pi) (last_position u) then Inl (ValueError ''invalid PULP SPI receipt position'')
     else if \<not> (\<forall>name \<in> set pulp_required. dict_has pins name) then Inl (ValueError ''missing PULP SPI pin observation'')
     else res_bind (check_all (check_pin pins) order) (\<lambda>_.
       let cs = selected_cs pins; selected = (cs \<noteq> []);
           setup_transient = (pin pins ''spi_mode'' = 2 \<and> pin pins ''spi_clk'' = 0 \<and> \<not> selected_has_edge u \<and> \<not> sck_edge u pins) in
       if selected \<and> cs \<noteq> [chip_select u] then Inl (ValueError ''unsupported PULP SPI chip selection'')
       else if selected \<and> pin pins ''spi_mode'' \<noteq> 0 \<and> \<not> setup_transient
       then Inl (ValueError ''PULP SPI peer supports selected single-line mode only'')
       else if selected \<and> \<not> last_selected u \<and> pin pins ''spi_clk'' \<noteq> 0
       then Inl (ValueError ''PULP SPI selection requires idle-low SCK setup'')
       else Inr pi))"

definition level_events :: "int \<Rightarrow> int \<Rightarrow> int \<Rightarrow> string \<Rightarrow> native_event list" where
  "level_events old levels local_tick phase =
     map (\<lambda>b. \<lparr>ev_bit = b, ev_tick = local_tick, ev_phase = phase, ev_level = drop_bit b levels AND 1\<rparr>)
       (filter (\<lambda>b. (levels XOR old) AND push_bit b 1 \<noteq> 0) [0..<2])"

definition pulp_observe :: "string list \<Rightarrow> pulp \<Rightarrow> pulp_pins \<Rightarrow> int \<Rightarrow> string \<Rightarrow> unit res \<times> pulp" where
  "pulp_observe order u pins local_tick phase =
     (case pulp_guard order u pins local_tick phase of
        Inl e \<Rightarrow> (Inl e, u)
      | Inr pi \<Rightarrow>
          (let selected = (selected_cs pins \<noteq> []); edge = sck_edge u pins in
           case spi_observe (pulp_peer u) (pin pins ''spi_clk'') (if selected then 0 else 1) (pin pins ''spi_sdo0'') of
             (Inl e, peer) \<Rightarrow> (Inl e, u\<lparr>pulp_peer := peer\<rparr>)
           | (Inr _, peer) \<Rightarrow>
               (let levels = pin pins ''events_o'' in
                (Inr (), u\<lparr>pulp_peer := peer, pulp_events := pulp_events u @ level_events (event_levels u) levels local_tick phase,
                   event_levels := levels, last_position := (local_tick, pi),
                   selected_has_edge := (if selected then selected_has_edge u \<or> edge else False),
                   pulp_last_sck := pin pins ''spi_clk'', pulp_last_mode := pin pins ''spi_mode'', last_selected := selected\<rparr>))))"

section \<open>Runs of the guarded peer\<close>

text \<open>A run with the list of observations it accepted.\<close>

record pulp_obs =
  ob_pins :: pulp_pins
  ob_tick :: int
  ob_phase :: string

definition pulp_step :: "string list \<Rightarrow> pulp_obs list \<times> pulp \<Rightarrow> pulp_obs \<Rightarrow> pulp_obs list \<times> pulp" where
  "pulp_step order = (\<lambda>(acc, u) ob. case pulp_observe order u (ob_pins ob) (ob_tick ob) (ob_phase ob) of
     (Inl _, u') \<Rightarrow> (acc, u') | (Inr _, u') \<Rightarrow> (acc @ [ob], u'))"

definition ob_spi :: "pulp_obs \<Rightarrow> spi_pins" where
  "ob_spi ob = (pin (ob_pins ob) ''spi_clk'', if selected_cs (ob_pins ob) \<noteq> [] then 0 else 1, pin (ob_pins ob) ''spi_sdo0'')"

definition ob_position :: "pulp_obs \<Rightarrow> int \<times> int" where
  "ob_position ob = (ob_tick ob, if ob_phase ob = ''pre'' then 0 else 1)"

definition position_less :: "int \<times> int \<Rightarrow> int \<times> int \<Rightarrow> bool" where
  "position_less a b \<longleftrightarrow> position_le a b \<and> a \<noteq> b"

definition level_bit :: "nat \<Rightarrow> int \<Rightarrow> int" where
  "level_bit b v = of_bool (bit v b)"

definition pulp_inv :: "bytes \<Rightarrow> spi \<Rightarrow> pulp_obs list \<times> pulp \<Rightarrow> bool" where
  "pulp_inv pl p0 = (\<lambda>(acc, u).
     make_spi pl 0 0 = Inr p0 \<and> pulp_peer u = foldl spi_step p0 (map ob_spi acc) \<and> (\<forall>x \<in> set (map ob_spi acc). binary_pins x)
   \<and> sorted_wrt position_less ((0, 1) # map ob_position acc) \<and> last_position u = last ((0, 1) # map ob_position acc)
   \<and> event_levels u = last (0 # map (\<lambda>ob. pin (ob_pins ob) ''events_o'') acc)
   \<and> (\<forall>b < 2. map ev_level (filter (\<lambda>e. ev_bit e = b) (pulp_events u))
        = tl (remdups_adj (0 # map (\<lambda>ob. level_bit b (pin (ob_pins ob) ''events_o'')) acc)))
   \<and> (\<forall>e \<in> set (pulp_events u). ev_bit e < 2 \<and> (\<exists>ob \<in> set acc. ev_tick e = ob_tick ob \<and> ev_phase e = ob_phase ob))
   \<and> (selected_has_edge u \<longrightarrow> pulp_last_mode u = 0))"

lemma changed_bit: "(x XOR y) AND push_bit b 1 \<noteq> (0 :: int) \<longleftrightarrow> bit x b \<noteq> bit y b"
  by (simp add: push_bit_of_1 and_exp_eq_0_iff_not_bit bit_xor_iff)

lemma level_of_bit: "drop_bit b v AND 1 = level_bit b v"
  by (simp add: level_bit_def and_one_eq bit_iff_odd_drop_bit mod_2_eq_odd)

lemma level_events_alt:
  "level_events old lv t ph = map (\<lambda>b. \<lparr>ev_bit = b, ev_tick = t, ev_phase = ph, ev_level = level_bit b lv\<rparr>)
     (filter (\<lambda>b. bit lv b \<noteq> bit old b) [0, Suc 0])"
proof -
  have "[0..<2] = [0, Suc 0]" by (simp add: upt_rec)
  then show ?thesis unfolding level_events_def changed_bit level_of_bit by simp
qed

lemma level_events_bit:
  "b < 2 \<Longrightarrow> map ev_level (filter (\<lambda>e. ev_bit e = b) (level_events old lv t ph)) = (if level_bit b old = level_bit b lv then [] else [level_bit b lv])"
  by (cases "b = 0"; cases "bit lv 0"; cases "bit old 0"; cases "bit lv 1"; cases "bit old 1")
    (simp_all add: level_events_alt level_bit_def less_2_cases_iff)

lemma level_events_position: "e \<in> set (level_events old lv t ph) \<Longrightarrow> ev_bit e < 2 \<and> ev_tick e = t \<and> ev_phase e = ph"
  by (auto simp: level_events_def)

lemma remdups_adj_snoc:
  "tl (remdups_adj (x # ys @ [y])) = tl (remdups_adj (x # ys)) @ (if last (x # ys) = y then [] else [y])"
proof (cases ys rule: rev_cases)
  case (snoc zs z)
  then have "remdups_adj (x # ys @ [y]) = remdups_adj (x # ys) @ (if z = y then [] else [y])"
    using remdups_adj_append_two [of "x # zs" z y] by simp
  moreover have "remdups_adj (x # ys) \<noteq> []" by (simp add: remdups_adj_Nil_iff)
  ultimately show ?thesis using snoc by (simp only: tl_append2) simp
qed simp

lemma sorted_positions_snoc:
  assumes "sorted_wrt position_less xs" and "xs \<noteq> []" and "position_less (last xs) x"
  shows "sorted_wrt position_less (xs @ [x])"
proof -
  have "position_less y x" if "y \<in> set xs" for y
  proof (cases "y = last xs")
    case False
    with that assms(1,2) have "position_less y (last xs)"
      by (metis append_butlast_last_id in_set_butlast_appendI insertE last_in_set list.set(2) rotate1.simps(2) set_rotate1 sorted_wrt_append list.set_intros(1))
    with assms(3) show ?thesis by (auto simp: position_less_def position_le_def prod_eq_iff)
  qed (use assms(3) in simp)
  with assms(1) show ?thesis by (simp add: sorted_wrt_append)
qed

lemma pulp_guardE:
  assumes "pulp_guard order u pins t ph = Inr pi" and "set order = set pulp_required"
  shows "binary_pins (ob_spi \<lparr>ob_pins = pins, ob_tick = t, ob_phase = ph\<rparr>)"
    "pi = snd (ob_position \<lparr>ob_pins = pins, ob_tick = t, ob_phase = ph\<rparr>)" "position_less (last_position u) (t, pi)"
    "selected_cs pins \<noteq> [] \<Longrightarrow> selected_has_edge u \<or> sck_edge u pins \<Longrightarrow> pin pins ''spi_mode'' = 0"
proof -
  have ok: "phase_index ph = Some pi" "\<not> position_le (t, pi) (last_position u)" "\<forall>n \<in> set order. check_pin pins n = Inr ()"
      and mode: "selected_cs pins \<noteq> [] \<Longrightarrow> selected_has_edge u \<or> sck_edge u pins \<Longrightarrow> pin pins ''spi_mode'' = 0"
    using assms(1) by (auto simp: pulp_guard_def Let_def split: option.splits if_splits)
  have "check_pin pins ''spi_clk'' = Inr ()" "check_pin pins ''spi_sdo0'' = Inr ()"
    using ok(3) assms(2) by (simp_all add: pulp_required_def)
  then show "binary_pins (ob_spi \<lparr>ob_pins = pins, ob_tick = t, ob_phase = ph\<rparr>)"
    by (auto simp: check_pin_def binary_pins_def ob_spi_def check_def split: if_splits)
  show "pi = snd (ob_position \<lparr>ob_pins = pins, ob_tick = t, ob_phase = ph\<rparr>)"
    using ok(1) by (auto simp: phase_index_def ob_position_def split: if_splits)
  show "position_less (last_position u) (t, pi)"
    using ok(2) by (auto simp: position_less_def position_le_def prod_eq_iff)
  show "pin pins ''spi_mode'' = 0" if "selected_cs pins \<noteq> []" "selected_has_edge u \<or> sck_edge u pins" using mode [OF that] .
qed

lemma pulp_observe_rejected: "pulp_guard order u pins t ph = Inl e \<Longrightarrow> pulp_observe order u pins t ph = (Inl e, u)"
  by (simp add: pulp_observe_def)

lemma pulp_observe_accepted:
  assumes inv: "pulp_inv pl p0 (acc, u)" and guard: "pulp_guard order u pins t ph = Inr pi" and order: "set order = set pulp_required"
    and ob: "ob = \<lparr>ob_pins = pins, ob_tick = t, ob_phase = ph\<rparr>"
  shows "pulp_observe order u pins t ph = (Inr (), u\<lparr>pulp_peer := spi_step (pulp_peer u) (ob_spi ob),
       pulp_events := pulp_events u @ level_events (event_levels u) (pin pins ''events_o'') t ph, event_levels := pin pins ''events_o'',
       last_position := ob_position ob, selected_has_edge := selected_cs pins \<noteq> [] \<and> (selected_has_edge u \<or> sck_edge u pins),
       pulp_last_sck := pin pins ''spi_clk'', pulp_last_mode := pin pins ''spi_mode'', last_selected := selected_cs pins \<noteq> []\<rparr>)"
proof -
  have made: "make_spi pl 0 0 = Inr p0" and bin: "\<forall>x \<in> set (map ob_spi acc). binary_pins x"
    and peer: "pulp_peer u = foldl spi_step p0 (map ob_spi acc)" using inv by (simp_all add: pulp_inv_def)
  have rel: "spi_rel pl (foldl bus_step idle_bus (map ob_spi acc)) (pulp_peer u)"
    unfolding peer by (rule spi_device.run_rel [OF make_spi_rel [OF made] bin])
  have "fst (spi_observe (pulp_peer u) (pin pins ''spi_clk'') (if selected_cs pins \<noteq> [] then 0 else 1) (pin pins ''spi_sdo0'')) = Inr ()"
    by (rule spi_step_rel [OF rel, THEN conjunct1]) (use pulp_guardE(1) [OF guard order] in \<open>auto simp: binary_pins_def ob_spi_def\<close>)
  moreover have "spi_step (pulp_peer u) (ob_spi ob)
      = snd (spi_observe (pulp_peer u) (pin pins ''spi_clk'') (if selected_cs pins \<noteq> [] then 0 else 1) (pin pins ''spi_sdo0''))"
    by (simp add: spi_step_def ob_spi_def ob)
  moreover have "ob_position ob = (t, pi)" using pulp_guardE(2) [OF guard order] ob by (simp add: ob_position_def)
  ultimately show ?thesis
    using guard by (auto simp: pulp_observe_def Let_def split: prod.splits)
qed

lemma pulp_inv_snoc:
  assumes inv: "pulp_inv pl p0 (acc, u)" and guard: "pulp_guard order u pins t ph = Inr pi" and order: "set order = set pulp_required"
    and ob: "ob = \<lparr>ob_pins = pins, ob_tick = t, ob_phase = ph\<rparr>" and u': "pulp_observe order u pins t ph = (Inr (), u')"
  shows "pulp_inv pl p0 (acc @ [ob], u')"
proof -
  have u'_eq: "u' = u\<lparr>pulp_peer := spi_step (pulp_peer u) (ob_spi ob),
       pulp_events := pulp_events u @ level_events (event_levels u) (pin pins ''events_o'') t ph, event_levels := pin pins ''events_o'',
       last_position := ob_position ob, selected_has_edge := selected_cs pins \<noteq> [] \<and> (selected_has_edge u \<or> sck_edge u pins),
       pulp_last_sck := pin pins ''spi_clk'', pulp_last_mode := pin pins ''spi_mode'', last_selected := selected_cs pins \<noteq> []\<rparr>"
    using pulp_observe_accepted [OF inv guard order ob] u' by simp
  have pos: "sorted_wrt position_less (((0, 1) # map ob_position acc) @ [ob_position ob])"
    by (rule sorted_positions_snoc)
      (use inv pulp_guardE(2,3) [OF guard order] in \<open>auto simp: pulp_inv_def ob ob_position_def\<close>)
  have lev: "level_bit b (event_levels u) = last (0 # map (\<lambda>ob. level_bit b (pin (ob_pins ob) ''events_o'')) acc)" for b
    using inv by (auto simp: pulp_inv_def last_map level_bit_def)
  have ev: "map ev_level (filter (\<lambda>e. ev_bit e = b) (pulp_events u'))
        = tl (remdups_adj (0 # map (\<lambda>ob. level_bit b (pin (ob_pins ob) ''events_o'')) (acc @ [ob])))" if "b < 2" for b
    using inv that lev [of b] by (simp add: u'_eq pulp_inv_def level_events_bit ob remdups_adj_snoc del: remdups_adj.simps)
  have evs: "ev_bit e < 2 \<and> (\<exists>ob \<in> set (acc @ [ob]). ev_tick e = ob_tick ob \<and> ev_phase e = ob_phase ob)" if "e \<in> set (pulp_events u')" for e
  proof -
    have "e \<in> set (pulp_events u) \<or> e \<in> set (level_events (event_levels u) (pin pins ''events_o'') t ph)" using that by (auto simp: u'_eq)
    moreover have "\<forall>e \<in> set (pulp_events u). ev_bit e < 2 \<and> (\<exists>ob \<in> set acc. ev_tick e = ob_tick ob \<and> ev_phase e = ob_phase ob)"
      using inv by (simp add: pulp_inv_def)
    ultimately show ?thesis using level_events_position by (fastforce simp: ob)
  qed
  show ?thesis
    using inv pos ev evs pulp_guardE(1,4) [OF guard order] by (simp add: pulp_inv_def u'_eq ob del: remdups_adj.simps)
qed

lemma pulp_step_inv:
  assumes "pulp_inv pl p0 s" and "set order = set pulp_required"
  shows "pulp_inv pl p0 (pulp_step order s ob)"
proof (cases s)
  case (Pair acc u)
  have eta: "ob = \<lparr>ob_pins = ob_pins ob, ob_tick = ob_tick ob, ob_phase = ob_phase ob\<rparr>" by simp
  show ?thesis
  proof (cases "pulp_guard order u (ob_pins ob) (ob_tick ob) (ob_phase ob)")
    case (Inl e)
    with assms Pair show ?thesis by (simp add: pulp_step_def pulp_observe_rejected)
  next
    case (Inr pi)
    obtain u' where u': "pulp_observe order u (ob_pins ob) (ob_tick ob) (ob_phase ob) = (Inr (), u')"
      using pulp_observe_accepted [OF _ Inr assms(2) eta] assms(1) Pair by blast
    with pulp_inv_snoc [OF _ Inr assms(2) eta u'] assms(1) Pair show ?thesis by (simp add: pulp_step_def)
  qed
qed

lemma make_pulp_inv:
  assumes "make_pulp pl cs = Inr u"
  shows "pulp_inv pl (pulp_peer u) ([], u)"
proof -
  obtain p where p: "make_spi pl 0 0 = Inr p" "pulp_peer u = spi_reset_case p None"
      "last_position u = (0, 1)" "event_levels u = 0" "pulp_events u = []" "\<not> selected_has_edge u"
    using assms by (auto simp: make_pulp_def pulp_reset_case_def split: if_splits)
  moreover have "spi_reset_case p None = p" using p(1) by (auto simp: make_spi_def spi_reset_case_def Let_def split: if_splits)
  ultimately show ?thesis by (simp add: pulp_inv_def)
qed

interpretation pulp_machine: machine "pulp_step order" "\<lambda>s. set order = set pulp_required \<and> pulp_inv pl p0 s"
  by unfold_locales (use pulp_step_inv in blast)

lemma pulp_rejected_unchanged:
  assumes "pulp_inv pl p0 (acc, u)" and "set order = set pulp_required" and "pulp_observe order u pins t ph = (Inl e, u')"
  shows "u' = u"
proof (cases "pulp_guard order u pins t ph")
  case (Inr pi)
  with pulp_observe_accepted [OF assms(1) Inr assms(2) refl] assms(3) show ?thesis by simp
qed (use assms(3) in \<open>simp add: pulp_observe_rejected\<close>)

text \<open>C33: On any sequence of observations the PULP peer acts on exactly those it accepts: a refused one changes nothing,
  accepted receipts have strictly increasing positions, the device state is that of the plain SPI peer driven by the
  accepted clock, selection and data levels, so its frames are the bytes the host shifted in; the recorded receipts of
  each event bit are its observed levels with repetitions removed; and once a selection is clocked its mode is 0.\<close>

theorem pulp_receipts:
  assumes "make_pulp pl cs = Inr u0" and "set order = set pulp_required" and "foldl (pulp_step order) ([], u0) obs = (acc, u)"
  shows "pulp_peer u = foldl spi_step (pulp_peer u0) (map ob_spi acc)
    \<and> completed_frames (pulp_peer u) = filter (\<lambda>f. f \<noteq> []) (map msb_bytes (closed_selections (foldl bus_step idle_bus (map ob_spi acc))))
    \<and> sorted_wrt position_less (map ob_position acc)
    \<and> (\<forall>b < 2. map ev_level (filter (\<lambda>e. ev_bit e = b) (pulp_events u))
         = tl (remdups_adj (0 # map (\<lambda>ob. level_bit b (pin (ob_pins ob) ''events_o'')) acc)))
    \<and> (selected_has_edge u \<longrightarrow> pulp_last_mode u = 0)
    \<and> (\<forall>pins t ph e u'. pulp_observe order u pins t ph = (Inl e, u') \<longrightarrow> u' = u)"
proof -
  have inv: "pulp_inv pl (pulp_peer u0) (acc, u)"
    using pulp_machine.run_inv [of order pl "pulp_peer u0" "([], u0)" obs] make_pulp_inv [OF assms(1)] assms(2,3) by simp
  have made: "make_spi pl 0 0 = Inr (pulp_peer u0)" and bin: "\<forall>x \<in> set (map ob_spi acc). binary_pins x"
    and peer: "pulp_peer u = foldl spi_step (pulp_peer u0) (map ob_spi acc)" using inv by (simp_all add: pulp_inv_def)
  have "spi_rel pl (foldl bus_step idle_bus (map ob_spi acc)) (pulp_peer u)"
    unfolding peer by (rule spi_device.run_rel [OF make_spi_rel [OF made] bin])
  then have "completed_frames (pulp_peer u) = filter (\<lambda>f. f \<noteq> []) (map msb_bytes (closed_selections (foldl bus_step idle_bus (map ob_spi acc))))"
    by (simp add: spi_rel_def)
  with inv peer pulp_rejected_unchanged [OF inv assms(2)] show ?thesis unfolding pulp_inv_def by simp
qed

definition pulp_example :: "int \<Rightarrow> int \<Rightarrow> int \<Rightarrow> int \<Rightarrow> pulp_obs" where
  "pulp_example t clk csn ev = \<lparr>ob_pins = [(''spi_clk'', clk), (''spi_csn0'', csn), (''spi_csn1'', 1), (''spi_csn2'', 1),
     (''spi_csn3'', 1), (''spi_mode'', 0), (''spi_sdo0'', 1), (''events_o'', ev)], ob_tick = t, ob_phase = ''post''\<rparr>"

theorem pulp_receipts_witness:
  "\<exists>u0 acc u. make_pulp [] 0 = Inr u0
     \<and> foldl (pulp_step pulp_required) ([], u0) [pulp_example 1 0 0 2, pulp_example 1 0 0 0, pulp_example 2 1 0 3] = (acc, u)
     \<and> acc = [pulp_example 1 0 0 2, pulp_example 2 1 0 3] \<and> map ev_level (filter (\<lambda>e. ev_bit e = 1) (pulp_events u)) = [1]"
proof -
  obtain u0 where u0: "make_pulp [] 0 = Inr u0" by (simp add: make_pulp_def make_spi_def)
  obtain acc u where run: "foldl (pulp_step pulp_required) ([], u0)
      [pulp_example 1 0 0 2, pulp_example 1 0 0 0, pulp_example 2 1 0 3] = (acc, u)" by fastforce
  have "fst (foldl (pulp_step pulp_required) ([], projr (make_pulp [] 0)) [pulp_example 1 0 0 2, pulp_example 1 0 0 0, pulp_example 2 1 0 3])
      = [pulp_example 1 0 0 2, pulp_example 2 1 0 3]" by code_simp
  then have acc: "acc = [pulp_example 1 0 0 2, pulp_example 2 1 0 3]" using u0 run by simp
  have "map ev_level (filter (\<lambda>e. ev_bit e = 1) (pulp_events u))
      = tl (remdups_adj (0 # map (\<lambda>ob. level_bit 1 (pin (ob_pins ob) ''events_o'')) acc))"
    using pulp_receipts [OF u0 refl run] by simp
  also have "\<dots> = [1]" unfolding acc by (simp add: pulp_example_def dict_get_def level_bit_def)
  finally have ev: "map ev_level (filter (\<lambda>e. ev_bit e = 1) (pulp_events u)) = [1]" .
  show ?thesis using u0 run acc ev by (intro exI conjI)
qed

end
