(* ===== verification/I2c.thy ===== *)
theory I2c
  imports Spi
begin

text \<open>
  \<open>I2cPeer\<close> (\<open>scenario/i2c_peer.py\<close>): a seven-bit I2C target on an open-drain bus, with clock stretching. An output
  enable of 1 pulls a line low; a line is high only when neither side pulls it.
\<close>

section \<open>Model\<close>

datatype i2c_state = Idle | Address | Write_byte | Target_ack_wait | Target_ack | Target_ack_done
  | Read_byte | Master_ack_wait | Master_ack | Master_ack_done

record i2c =
  i2c_address :: int
  stretch_cycles :: int
  i2c_payload :: bytes
  i2c_payload_index :: nat
  host_scl_low :: bool
  host_sda_low :: bool
  peer_scl_low :: bool
  peer_sda_low :: bool
  stretch_left :: int
  i2c_state :: i2c_state
  i2c_bit_index :: nat
  i2c_rx_byte :: int
  read_byte :: int
  ack_pending :: bool
  after_ack :: i2c_state
  master_acked :: bool
  current_write :: bytes
  completed_writes :: "bytes list"
  sampled_bytes :: "int list"
  start_count :: nat
  stop_count :: nat
  ack_count :: nat

definition i2c_reset_case :: "i2c \<Rightarrow> bytes option \<Rightarrow> i2c" where
  "i2c_reset_case p payload =
     (let p1 = (case payload of None \<Rightarrow> p | Some bs \<Rightarrow> p\<lparr>i2c_payload := bs\<rparr>) in
      p1\<lparr>i2c_payload_index := 0, host_scl_low := False, host_sda_low := False, peer_scl_low := False, peer_sda_low := False,
        stretch_left := 0, i2c_state := Idle, i2c_bit_index := 0, i2c_rx_byte := 0, read_byte := 0, ack_pending := False,
        after_ack := Idle, master_acked := False, current_write := [], completed_writes := [], sampled_bytes := [],
        start_count := 0, stop_count := 0, ack_count := 0\<rparr>)"

definition make_i2c :: "bytes \<Rightarrow> int \<Rightarrow> int \<Rightarrow> i2c res" where
  "make_i2c payload addr stretch =
     (if \<not> (0 \<le> addr \<and> addr \<le> 0x7f) then Inl (ValueError ''I2C target address must be seven bits'')
      else if stretch < 0 then Inl (ValueError ''stretch_cycles must be nonnegative'')
      else Inr (i2c_reset_case \<lparr>i2c_address = addr, stretch_cycles = stretch, i2c_payload = payload, i2c_payload_index = 0,
        host_scl_low = False, host_sda_low = False, peer_scl_low = False, peer_sda_low = False, stretch_left = 0, i2c_state = Idle,
        i2c_bit_index = 0, i2c_rx_byte = 0, read_byte = 0, ack_pending = False, after_ack = Idle, master_acked = False,
        current_write = [], completed_writes = [], sampled_bytes = [], start_count = 0, stop_count = 0, ack_count = 0\<rparr> None))"

definition i2c_queue_payload :: "i2c \<Rightarrow> bytes \<Rightarrow> i2c" where
  "i2c_queue_payload p payload = p\<lparr>i2c_payload := i2c_payload p @ payload\<rparr>"

definition scl_i :: "i2c \<Rightarrow> int" where
  "scl_i p = of_bool (\<not> (host_scl_low p \<or> peer_scl_low p))"

definition sda_i :: "i2c \<Rightarrow> int" where
  "sda_i p = of_bool (\<not> (host_sda_low p \<or> peer_sda_low p))"

definition close_write :: "i2c \<Rightarrow> i2c" where
  "close_write p =
     (if current_write p \<noteq> [] then p\<lparr>completed_writes := completed_writes p @ [current_write p], current_write := []\<rparr> else p)"

definition i2c_start :: "i2c \<Rightarrow> i2c" where
  "i2c_start p = (let p1 = close_write p in
     p1\<lparr>start_count := start_count p1 + 1, i2c_state := Address, i2c_bit_index := 0, i2c_rx_byte := 0, peer_sda_low := False\<rparr>)"

definition i2c_stop :: "i2c \<Rightarrow> i2c" where
  "i2c_stop p = (let p1 = close_write p in
     p1\<lparr>stop_count := stop_count p1 + 1, i2c_state := Idle, peer_sda_low := False, i2c_bit_index := 0\<rparr>)"

text \<open>The eighth bit of an address or written byte.\<close>

definition byte_received :: "i2c \<Rightarrow> unit res \<times> i2c" where
  "byte_received p =
     (let v = i2c_rx_byte p; p1 = p\<lparr>sampled_bytes := sampled_bytes p @ [v]\<rparr>;
          finish = (\<lambda>p. p\<lparr>i2c_state := Target_ack_wait, i2c_bit_index := 0, i2c_rx_byte := 0\<rparr>) in
      if i2c_state p = Address
      then (let matched = (drop_bit 1 v = i2c_address p); is_read = (v AND 1 \<noteq> 0);
                acked = (matched \<and> (\<not> is_read \<or> i2c_payload_index p < length (i2c_payload p))) in
        (Inr (), finish (p1\<lparr>ack_pending := acked, after_ack := if acked then (if is_read then Read_byte else Write_byte) else Idle\<rparr>)))
      else (case bytearray_append (current_write p1) v of
              Inl e \<Rightarrow> (Inl e, p1)
            | Inr w \<Rightarrow> (Inr (), finish (p1\<lparr>current_write := w, ack_pending := True, after_ack := Write_byte\<rparr>))))"

definition i2c_rising :: "i2c \<Rightarrow> unit res \<times> i2c" where
  "i2c_rising p =
     (if i2c_state p \<in> {Address, Write_byte}
      then (let p1 = p\<lparr>i2c_rx_byte := push_bit 1 (i2c_rx_byte p) OR sda_i p, i2c_bit_index := i2c_bit_index p + 1\<rparr> in
        if i2c_bit_index p1 = 8 then byte_received p1 else (Inr (), p1))
      else if i2c_state p = Target_ack
      then (Inr (), (if ack_pending p then p\<lparr>ack_count := ack_count p + 1\<rparr> else p)\<lparr>i2c_state := Target_ack_done\<rparr>)
      else if i2c_state p = Read_byte
      then (let p1 = p\<lparr>i2c_bit_index := i2c_bit_index p + 1\<rparr> in
        (Inr (), if i2c_bit_index p1 = 8
           then (if i2c_payload_index p1 < length (i2c_payload p1) then p1\<lparr>i2c_payload_index := i2c_payload_index p1 + 1\<rparr> else p1)
                  \<lparr>i2c_state := Master_ack_wait, i2c_bit_index := 0\<rparr>
           else p1))
      else if i2c_state p = Master_ack
      then (Inr (), p\<lparr>master_acked := (sda_i p = 0), i2c_state := Master_ack_done\<rparr>)
      else (Inr (), p))"

definition set_read_bit :: "i2c \<Rightarrow> i2c" where
  "set_read_bit p =
     (let p1 = p\<lparr>read_byte := if i2c_payload_index p < length (i2c_payload p) then uint (i2c_payload p ! i2c_payload_index p) else 0xff\<rparr> in
      p1\<lparr>peer_sda_low := (drop_bit (7 - i2c_bit_index p1) (read_byte p1) AND 1 = 0)\<rparr>)"

definition i2c_falling :: "i2c \<Rightarrow> i2c" where
  "i2c_falling p = (case i2c_state p of
     Target_ack_wait \<Rightarrow> p\<lparr>peer_sda_low := ack_pending p, i2c_state := Target_ack\<rparr>
   | Target_ack_done \<Rightarrow>
       (let p1 = p\<lparr>peer_sda_low := False, i2c_state := after_ack p\<rparr> in if i2c_state p1 = Read_byte then set_read_bit p1 else p1)
   | Read_byte \<Rightarrow> set_read_bit p
   | Master_ack_wait \<Rightarrow> p\<lparr>peer_sda_low := False, i2c_state := Master_ack\<rparr>
   | Master_ack_done \<Rightarrow>
       (let p1 = p\<lparr>i2c_state := if master_acked p then Read_byte else Idle\<rparr> in if i2c_state p1 = Read_byte then set_read_bit p1 else p1)
   | _ \<Rightarrow> p)"

definition drive_lines :: "i2c \<Rightarrow> int \<Rightarrow> int \<Rightarrow> i2c" where
  "drive_lines p scl_en sda_en =
     (let p1 = p\<lparr>host_scl_low := (scl_en \<noteq> 0), host_sda_low := (sda_en \<noteq> 0)\<rparr> in
      if host_scl_low p1 then p1\<lparr>peer_scl_low := False, stretch_left := 0\<rparr>
      else if host_scl_low p \<and> stretch_cycles p1 \<noteq> 0 \<and> i2c_state p1 \<noteq> Idle
      then p1\<lparr>peer_scl_low := True, stretch_left := stretch_cycles p1\<rparr>
      else if peer_scl_low p1
      then (let p2 = p1\<lparr>stretch_left := stretch_left p1 - 1\<rparr> in if stretch_left p2 = 0 then p2\<lparr>peer_scl_low := False\<rparr> else p2)
      else p1)"

definition i2c_observe :: "i2c \<Rightarrow> int \<Rightarrow> int \<Rightarrow> unit res \<times> i2c" where
  "i2c_observe p scl_en sda_en =
     (if scl_en \<notin> {0, 1} \<or> sda_en \<notin> {0, 1} then (Inl (ValueError ''I2C output enables must be binary''), p)
      else (let p1 = drive_lines p scl_en sda_en in
        if scl_i p = 1 \<and> scl_i p1 = 1 \<and> sda_i p \<noteq> sda_i p1
        then (Inr (), if sda_i p1 = 0 then i2c_start p1 else i2c_stop p1)
        else if scl_i p = 0 \<and> scl_i p1 = 1 then i2c_rising p1
        else if scl_i p = 1 \<and> scl_i p1 = 0 then (Inr (), i2c_falling p1)
        else (Inr (), p1)))"

section \<open>A host on the bus\<close>

text \<open>The host clocks one bit: it sets the data line while the clock is low, releases the clock for at least as long as the
  target may stretch it, reads the data line and pulls the clock low again.\<close>

fun i2c_observe_all :: "i2c \<Rightarrow> (int \<times> int) list \<Rightarrow> unit res \<times> i2c" where
  "i2c_observe_all p [] = (Inr (), p)"
| "i2c_observe_all p ((scl, sda) # xs) = (case i2c_observe p scl sda of (Inl e, p') \<Rightarrow> (Inl e, p') | (Inr _, p') \<Rightarrow> i2c_observe_all p' xs)"

definition raise_clock :: "i2c \<Rightarrow> nat \<Rightarrow> int \<Rightarrow> unit res \<times> i2c" where
  "raise_clock p hold d = i2c_observe_all p ((1, d) # replicate (Suc (nat (stretch_cycles p)) + hold) (0, d))"

definition host_bit :: "i2c \<Rightarrow> nat \<Rightarrow> int \<Rightarrow> int res \<times> i2c" where
  "host_bit p hold d = (case raise_clock p hold d of
     (Inl e, p') \<Rightarrow> (Inl e, p')
   | (Inr _, p1) \<Rightarrow> (case i2c_observe p1 1 d of (Inl e, p') \<Rightarrow> (Inl e, p') | (Inr _, p2) \<Rightarrow> (Inr (sda_i p1), p2)))"

fun host_bits :: "i2c \<Rightarrow> (nat \<times> int) list \<Rightarrow> int list res \<times> i2c" where
  "host_bits p [] = (Inr [], p)"
| "host_bits p ((hold, d) # xs) = (case host_bit p hold d of
     (Inl e, p') \<Rightarrow> (Inl e, p')
   | (Inr b, p1) \<Rightarrow> (case host_bits p1 xs of (Inl e, p') \<Rightarrow> (Inl e, p') | (Inr bs, p2) \<Rightarrow> (Inr (b # bs), p2)))"

definition bus_low :: "i2c \<Rightarrow> bool" where
  "bus_low p \<longleftrightarrow> host_scl_low p \<and> \<not> peer_scl_low p \<and> 0 \<le> stretch_cycles p"

definition hold_low :: "i2c \<Rightarrow> i2c" where
  "hold_low p = p\<lparr>host_scl_low := True, host_sda_low := False, peer_scl_low := False, stretch_left := 0\<rparr>"

definition release_scl :: "i2c \<Rightarrow> int \<Rightarrow> i2c" where
  "release_scl p d = p\<lparr>host_scl_low := False, host_sda_low := (d = 1), peer_scl_low := False, stretch_left := 0\<rparr>"

lemma i2c_observe_all_append:
  "i2c_observe_all p (xs @ ys) = (case i2c_observe_all p xs of (Inl e, p') \<Rightarrow> (Inl e, p') | (Inr _, p') \<Rightarrow> i2c_observe_all p' ys)"
  by (induction p xs rule: i2c_observe_all.induct) (auto split: prod.splits sum.splits)

lemma observe_low: "bus_low p \<Longrightarrow> d \<in> {0, 1} \<Longrightarrow>
    i2c_observe p 1 d = (Inr (), p\<lparr>host_scl_low := True, host_sda_low := (d = 1), peer_scl_low := False, stretch_left := 0\<rparr>)"
  by (auto simp: i2c_observe_def bus_low_def drive_lines_def Let_def scl_i_def)

lemma rising_lines:
  "i2c_rising p = (r, p') \<Longrightarrow> host_scl_low p' = host_scl_low p \<and> host_sda_low p' = host_sda_low p \<and> peer_scl_low p' = peer_scl_low p
     \<and> peer_sda_low p' = peer_sda_low p \<and> stretch_left p' = stretch_left p \<and> stretch_cycles p' = stretch_cycles p"
  by (auto simp: i2c_rising_def byte_received_def Let_def split: if_splits sum.splits)

lemma observe_hold:
  assumes "\<not> host_scl_low p" and "\<not> peer_scl_low p" and "host_sda_low p = (d = 1)" and "d \<in> {0, 1}"
  shows "i2c_observe_all p (replicate n (0, d)) = (Inr (), p)"
proof -
  have "drive_lines p 0 d = p" using assms by (auto simp: drive_lines_def Let_def intro!: i2c.equality)
  then have "i2c_observe p 0 d = (Inr (), p)" using assms by (auto simp: i2c_observe_def Let_def)
  then show ?thesis by (induction n) simp_all
qed

lemma observe_one: "i2c_observe_all p [(c, d)] = i2c_observe p c d"
  by (auto split: prod.splits sum.splits)

lemma observe_rise:
  "drive_lines p 0 d = q \<Longrightarrow> scl_i p = 0 \<Longrightarrow> scl_i q = 1 \<Longrightarrow> d \<in> {0, 1} \<Longrightarrow> i2c_observe_all p [(0, d)] = i2c_rising q"
  unfolding observe_one by (auto simp: i2c_observe_def)

lemma observe_stretch:
  assumes "d \<in> {0, 1}" and "host_sda_low p = (d = 1)" and "\<not> host_scl_low p"
  shows "i2c_observe_all (p\<lparr>peer_scl_low := True, stretch_left := 1 + int m\<rparr>) (replicate (Suc m) (0, d))
    = i2c_rising (p\<lparr>peer_scl_low := False, stretch_left := 0\<rparr>)"
proof (induction m)
  case 0
  have "drive_lines (p\<lparr>peer_scl_low := True, stretch_left := 1 + int 0\<rparr>) 0 d = p\<lparr>peer_scl_low := False, stretch_left := 0\<rparr>"
    using assms by (auto simp: drive_lines_def Let_def intro!: i2c.equality)
  from observe_rise [OF this] assms show ?case by (simp add: scl_i_def del: i2c_observe_all.simps)
next
  case (Suc m)
  have "i2c_observe (p\<lparr>peer_scl_low := True, stretch_left := 1 + int (Suc m)\<rparr>) 0 d
      = (Inr (), p\<lparr>peer_scl_low := True, stretch_left := 1 + int m\<rparr>)"
    using assms by (auto simp: i2c_observe_def drive_lines_def Let_def scl_i_def intro!: i2c.equality)
  with Suc show ?case by simp
qed

lemma observe_release:
  assumes "bus_low p" and "d \<in> {0, 1}" and "host_sda_low p = (d = 1)" and "stretch_left p = 0"
  shows "\<exists>n \<le> Suc (nat (stretch_cycles p)). i2c_observe_all p (replicate n (0, d)) = i2c_rising (release_scl p d)"
proof (cases "stretch_cycles p = 0 \<or> i2c_state p = Idle")
  case True
  with assms have "drive_lines p 0 d = release_scl p d"
    by (auto simp: drive_lines_def Let_def bus_low_def release_scl_def intro!: i2c.equality)
  from observe_rise [OF this] assms have "i2c_observe_all p (replicate 1 (0, d)) = i2c_rising (release_scl p d)"
    by (simp add: scl_i_def bus_low_def release_scl_def del: i2c_observe_all.simps)
  then show ?thesis by (intro exI [of _ 1]) simp
next
  case False
  let ?q = "p\<lparr>host_scl_low := False\<rparr>"
  obtain m where m: "stretch_cycles p = 1 + int m" using False assms(1) by (metis bus_low_def add.commute le_neq_trans pos_int_cases of_nat_Suc Suc_pred)
  have "i2c_observe p 0 d = (Inr (), ?q\<lparr>peer_scl_low := True, stretch_left := 1 + int m\<rparr>)"
    using False assms m by (auto simp: i2c_observe_def drive_lines_def Let_def scl_i_def bus_low_def intro!: i2c.equality)
  moreover have "?q\<lparr>peer_scl_low := False, stretch_left := 0\<rparr> = release_scl p d"
    using assms by (auto simp: release_scl_def bus_low_def intro!: i2c.equality)
  ultimately have "i2c_observe_all p (replicate (Suc (Suc m)) (0, d)) = i2c_rising (release_scl p d)"
    using observe_stretch [of d ?q m] assms by (simp add: bus_low_def)
  then show ?thesis using m by (intro exI [of _ "Suc (Suc m)"]) auto
qed

lemma raise_clock_eq:
  assumes "bus_low p" and "d \<in> {0, 1}" and "i2c_rising (release_scl p d) = (Inr (), r)"
  shows "raise_clock p hold d = (Inr (), r)"
proof -
  let ?p = "p\<lparr>host_scl_low := True, host_sda_low := (d = 1), peer_scl_low := False, stretch_left := 0\<rparr>"
  have rel: "release_scl ?p d = release_scl p d" by (simp add: release_scl_def)
  obtain n where n: "n \<le> Suc (nat (stretch_cycles p))" "i2c_observe_all ?p (replicate n (0, d)) = (Inr (), r)"
    using observe_release [of ?p d] assms rel by (auto simp: bus_low_def)
  have r: "\<not> host_scl_low r" "\<not> peer_scl_low r" "host_sda_low r = (d = 1)"
    using rising_lines [OF assms(3)] by (simp_all add: release_scl_def)
  have split: "replicate (Suc (nat (stretch_cycles p)) + hold) (0, d) = replicate n (0, d) @ replicate (Suc (nat (stretch_cycles p)) + hold - n) (0, d)"
    using n(1) by (simp flip: replicate_add)
  show ?thesis
    unfolding raise_clock_def split
    using observe_low [OF assms(1,2)] n(2) observe_hold [OF r(1,2,3) assms(2)] by (simp add: i2c_observe_all_append)
qed

section \<open>One clock pulse\<close>

definition pulse :: "i2c \<Rightarrow> int \<Rightarrow> int \<times> i2c" where
  "pulse p d = (let r = snd (i2c_rising (release_scl p d)) in (sda_i r, i2c_falling (hold_low r)))"

lemma rising_release: "i2c_rising (release_scl p d) = i2c_rising (release_scl (hold_low p) d)"
  by (simp add: release_scl_def hold_low_def)

lemma falling_lines: "host_scl_low (i2c_falling p) = host_scl_low p" "host_sda_low (i2c_falling p) = host_sda_low p"
    "peer_scl_low (i2c_falling p) = peer_scl_low p" "stretch_left (i2c_falling p) = stretch_left p" "stretch_cycles (i2c_falling p) = stretch_cycles p"
  by (simp_all add: i2c_falling_def set_read_bit_def Let_def split: i2c_state.split)

lemma falling_hold: "hold_low (i2c_falling p) = i2c_falling (hold_low p)"
  by (simp add: i2c_falling_def set_read_bit_def hold_low_def Let_def split: i2c_state.split)

lemma host_bit_pulse:
  assumes "bus_low p" and "d \<in> {0, 1}" and "fst (i2c_rising (release_scl p d)) = Inr ()"
  shows "\<exists>p'. host_bit p hold d = (Inr (fst (pulse (hold_low p) d)), p') \<and> bus_low p' \<and> hold_low p' = snd (pulse (hold_low p) d)"
proof -
  obtain r where r: "i2c_rising (release_scl p d) = (Inr (), r)" using assms(3) by (metis prod.collapse)
  note lines = rising_lines [OF r]
  let ?q = "r\<lparr>host_scl_low := True, host_sda_low := (d = 1), peer_scl_low := False, stretch_left := 0\<rparr>"
  have "i2c_observe r 1 d = (Inr (), i2c_falling ?q)"
    using lines assms(1,2) by (auto simp: i2c_observe_def drive_lines_def Let_def scl_i_def release_scl_def)
  then have "host_bit p hold d = (Inr (sda_i r), i2c_falling ?q)"
    using raise_clock_eq [OF assms(1,2) r] by (simp add: host_bit_def)
  moreover have "bus_low (i2c_falling ?q)" using lines assms(1) by (simp add: bus_low_def falling_lines release_scl_def)
  moreover have "hold_low ?q = hold_low r" by (simp add: hold_low_def)
  ultimately show ?thesis using r rising_release [of p d] by (simp add: pulse_def falling_hold)
qed

fun pulses :: "i2c \<Rightarrow> int list \<Rightarrow> int list \<times> i2c" where
  "pulses p [] = ([], p)"
| "pulses p (d # ds) = (fst (pulse p d) # fst (pulses (snd (pulse p d)) ds), snd (pulses (snd (pulse p d)) ds))"

fun pulses_ok :: "i2c \<Rightarrow> int list \<Rightarrow> bool" where
  "pulses_ok p [] = True"
| "pulses_ok p (d # ds) = (d \<in> {0, 1} \<and> fst (i2c_rising (release_scl p d)) = Inr () \<and> pulses_ok (snd (pulse p d)) ds)"

lemma host_bits_pulses:
  "bus_low p \<Longrightarrow> pulses_ok (hold_low p) (map snd xs) \<Longrightarrow>
    \<exists>p'. host_bits p xs = (Inr (fst (pulses (hold_low p) (map snd xs))), p') \<and> bus_low p' \<and> hold_low p' = snd (pulses (hold_low p) (map snd xs))"
proof (induction xs arbitrary: p)
  case (Cons x xs)
  obtain hold d where x: "x = (hold, d)" by force
  have ok: "d \<in> {0, 1}" "fst (i2c_rising (release_scl p d)) = Inr ()" "pulses_ok (snd (pulse (hold_low p) d)) (map snd xs)"
    using Cons.prems(2) rising_release [of p d] by (simp_all add: x)
  obtain p1 where p1: "host_bit p hold d = (Inr (fst (pulse (hold_low p) d)), p1)" "bus_low p1" "hold_low p1 = snd (pulse (hold_low p) d)"
    using host_bit_pulse [OF Cons.prems(1) ok(1,2)] by blast
  obtain p2 where "host_bits p1 xs = (Inr (fst (pulses (hold_low p1) (map snd xs))), p2)" "bus_low p2"
      "hold_low p2 = snd (pulses (hold_low p1) (map snd xs))"
    using Cons.IH [OF p1(2)] ok(3) p1(3) by auto
  with p1 show ?case by (simp add: x)
qed simp

lemma pulses_append: "pulses p (xs @ ys) = (fst (pulses p xs) @ fst (pulses (snd (pulses p xs)) ys), snd (pulses (snd (pulses p xs)) ys))"
  by (induction xs arbitrary: p) simp_all

lemma pulses_ok_append: "pulses_ok p (xs @ ys) \<longleftrightarrow> pulses_ok p xs \<and> pulses_ok (snd (pulses p xs)) ys"
  by (induction xs arbitrary: p) simp_all

text \<open>What one pulse does in each state of the target; \<open>low p\<close> says that the host holds the clock low.\<close>

definition low :: "i2c \<Rightarrow> bool" where
  "low p \<longleftrightarrow> host_scl_low p \<and> \<not> host_sda_low p \<and> \<not> peer_scl_low p \<and> stretch_left p = 0"

lemma low_hold: "low p \<longleftrightarrow> hold_low p = p"
proof
  assume "hold_low p = p"
  then have "low (hold_low p) \<Longrightarrow> low p" by simp
  then show "low p" by (simp add: hold_low_def low_def)
qed (auto simp: low_def hold_low_def intro!: i2c.equality)

lemma release_sda: "d \<in> {0, 1} \<Longrightarrow> \<not> peer_sda_low p \<Longrightarrow> sda_i (release_scl p d) = 1 - d"
  by (auto simp: sda_i_def release_scl_def)

lemma falling_shift: "i2c_state p \<in> {Address, Write_byte} \<Longrightarrow> i2c_falling p = p"
  by (auto simp: i2c_falling_def)

lemma pulse_shift:
  assumes "low p" and "i2c_state p \<in> {Address, Write_byte}" and "\<not> peer_sda_low p" and "i2c_bit_index p < 7" and "d \<in> {0, 1}"
  shows "fst (i2c_rising (release_scl p d)) = Inr ()"
    "pulse p d = (1 - d, p\<lparr>i2c_rx_byte := 2 * i2c_rx_byte p + (1 - d), i2c_bit_index := Suc (i2c_bit_index p)\<rparr>)"
proof -
  have sda: "sda_i (release_scl p d) = 1 - d" using assms by (intro release_sda)
  have "1 - d \<in> {0, 1}" using assms(5) by auto
  then have eq: "i2c_rising (release_scl p d) = (Inr (), (release_scl p d)\<lparr>i2c_rx_byte := 2 * i2c_rx_byte p + (1 - d), i2c_bit_index := Suc (i2c_bit_index p)\<rparr>)"
    unfolding i2c_rising_def sda using assms(2,4) shift_in [of "1 - d"] by (simp add: release_scl_def)
  show "fst (i2c_rising (release_scl p d)) = Inr ()" by (simp add: eq)
  show "pulse p d = (1 - d, p\<lparr>i2c_rx_byte := 2 * i2c_rx_byte p + (1 - d), i2c_bit_index := Suc (i2c_bit_index p)\<rparr>)"
    using assms sda falling_shift unfolding pulse_def eq
    by (simp add: low_def hold_low_def release_scl_def sda_i_def Let_def)
qed

definition address_acked :: "i2c \<Rightarrow> int \<Rightarrow> bool" where
  "address_acked p v \<longleftrightarrow> drop_bit 1 v = i2c_address p \<and> (v AND 1 = 0 \<or> i2c_payload_index p < length (i2c_payload p))"

lemma address_acked_update [simp]: "address_acked (p\<lparr>i2c_rx_byte := a, i2c_bit_index := i\<rparr>) v = address_acked p v"
  by (simp add: address_acked_def)

lemma pulse_address:
  assumes "low p" and "i2c_state p = Address" and "\<not> peer_sda_low p" and "i2c_bit_index p = 7" and "d \<in> {0, 1}"
    and "v = 2 * i2c_rx_byte p + (1 - d)"
  shows "fst (i2c_rising (release_scl p d)) = Inr ()"
    "pulse p d = (1 - d, p\<lparr>i2c_rx_byte := 0, i2c_bit_index := 0, sampled_bytes := sampled_bytes p @ [v], ack_pending := address_acked p v,
       after_ack := (if address_acked p v then (if v AND 1 \<noteq> 0 then Read_byte else Write_byte) else Idle),
       i2c_state := Target_ack, peer_sda_low := address_acked p v\<rparr>)"
proof -
  have sda: "sda_i (release_scl p d) = 1 - d" using assms by (intro release_sda)
  have "1 - d \<in> {0, 1}" using assms(5) by auto
  then have v: "push_bit 1 (i2c_rx_byte (release_scl p d)) OR (1 - d) = v" unfolding assms(6) by (subst shift_in) (simp_all add: release_scl_def)
  have eq: "i2c_rising (release_scl p d) = (Inr (), (release_scl p d)\<lparr>i2c_rx_byte := 0, i2c_bit_index := 0, sampled_bytes := sampled_bytes p @ [v],
       ack_pending := address_acked p v, after_ack := (if address_acked p v then (if v AND 1 \<noteq> 0 then Read_byte else Write_byte) else Idle),
       i2c_state := Target_ack_wait\<rparr>)"
    unfolding i2c_rising_def sda v using assms(2,4)
    by (auto simp: release_scl_def byte_received_def address_acked_def Let_def intro!: i2c.equality)
  show "fst (i2c_rising (release_scl p d)) = Inr ()" by (simp add: eq)
  show "pulse p d = (1 - d, p\<lparr>i2c_rx_byte := 0, i2c_bit_index := 0, sampled_bytes := sampled_bytes p @ [v], ack_pending := address_acked p v,
       after_ack := (if address_acked p v then (if v AND 1 \<noteq> 0 then Read_byte else Write_byte) else Idle),
       i2c_state := Target_ack, peer_sda_low := address_acked p v\<rparr>)"
    using assms(1-5) sda unfolding pulse_def eq
    by (auto simp: low_def hold_low_def release_scl_def i2c_falling_def sda_i_def Let_def intro!: i2c.equality)
qed

lemma pulse_data:
  assumes "low p" and "i2c_state p = Write_byte" and "\<not> peer_sda_low p" and "i2c_bit_index p = 7" and "d \<in> {0, 1}"
    and "v = 2 * i2c_rx_byte p + (1 - d)" and "0 \<le> v" "v < 256"
  shows "fst (i2c_rising (release_scl p d)) = Inr ()"
    "pulse p d = (1 - d, p\<lparr>i2c_rx_byte := 0, i2c_bit_index := 0, sampled_bytes := sampled_bytes p @ [v], ack_pending := True,
       after_ack := Write_byte, current_write := current_write p @ [word_of_int v], i2c_state := Target_ack, peer_sda_low := True\<rparr>)"
proof -
  have sda: "sda_i (release_scl p d) = 1 - d" using assms by (intro release_sda)
  have "1 - d \<in> {0, 1}" using assms(5) by auto
  then have v: "push_bit 1 (i2c_rx_byte (release_scl p d)) OR (1 - d) = v" unfolding assms(6) by (subst shift_in) (simp_all add: release_scl_def)
  have eq: "i2c_rising (release_scl p d) = (Inr (), (release_scl p d)\<lparr>i2c_rx_byte := 0, i2c_bit_index := 0, sampled_bytes := sampled_bytes p @ [v],
       ack_pending := True, after_ack := Write_byte, current_write := current_write p @ [word_of_int v], i2c_state := Target_ack_wait\<rparr>)"
    unfolding i2c_rising_def sda v using assms(2,4,7,8)
    by (auto simp: release_scl_def byte_received_def bytearray_append_def Let_def intro!: i2c.equality)
  show "fst (i2c_rising (release_scl p d)) = Inr ()" by (simp add: eq)
  show "pulse p d = (1 - d, p\<lparr>i2c_rx_byte := 0, i2c_bit_index := 0, sampled_bytes := sampled_bytes p @ [v], ack_pending := True,
       after_ack := Write_byte, current_write := current_write p @ [word_of_int v], i2c_state := Target_ack, peer_sda_low := True\<rparr>)"
    using assms(1-5) sda unfolding pulse_def eq
    by (auto simp: low_def hold_low_def release_scl_def i2c_falling_def sda_i_def Let_def intro!: i2c.equality)
qed

lemma pulse_ack:
  assumes "low p" and "i2c_state p = Target_ack" and "peer_sda_low p = ack_pending p" and "after_ack p = Read_byte \<Longrightarrow> ack_pending p"
  shows "fst (i2c_rising (release_scl p 0)) = Inr ()"
    "pulse p 0 = (of_bool (\<not> ack_pending p),
      (let q = p\<lparr>ack_count := ack_count p + of_bool (ack_pending p), i2c_state := after_ack p, peer_sda_low := False\<rparr> in
       if after_ack p = Read_byte then set_read_bit q else q))"
  using assms by (auto simp: pulse_def i2c_rising_def low_def hold_low_def release_scl_def i2c_falling_def sda_i_def set_read_bit_def Let_def intro!: i2c.equality)

lemma pulse_read:
  assumes "low p" and "i2c_state p = Read_byte" and "i2c_bit_index p < 7"
  shows "fst (i2c_rising (release_scl p 0)) = Inr ()"
    "pulse p 0 = (of_bool (\<not> peer_sda_low p), set_read_bit (p\<lparr>i2c_bit_index := Suc (i2c_bit_index p)\<rparr>))"
  using assms by (auto simp: pulse_def i2c_rising_def low_def hold_low_def release_scl_def i2c_falling_def sda_i_def set_read_bit_def Let_def intro!: i2c.equality)

lemma pulse_read_last:
  assumes "low p" and "i2c_state p = Read_byte" and "i2c_bit_index p = 7"
  shows "fst (i2c_rising (release_scl p 0)) = Inr ()"
    "pulse p 0 = (of_bool (\<not> peer_sda_low p), p\<lparr>i2c_bit_index := 0, i2c_state := Master_ack, peer_sda_low := False,
       i2c_payload_index := i2c_payload_index p + of_bool (i2c_payload_index p < length (i2c_payload p))\<rparr>)"
  using assms by (auto simp: pulse_def i2c_rising_def low_def hold_low_def release_scl_def i2c_falling_def sda_i_def Let_def intro!: i2c.equality)

lemma pulse_master_ack:
  assumes "low p" and "i2c_state p = Master_ack" and "\<not> peer_sda_low p" and "d \<in> {0, 1}"
  shows "fst (i2c_rising (release_scl p d)) = Inr ()"
    "pulse p d = (1 - d, (let q = p\<lparr>master_acked := (d = 1), i2c_state := if d = 1 then Read_byte else Idle\<rparr> in if d = 1 then set_read_bit q else q))"
  using assms by (auto simp: pulse_def i2c_rising_def low_def hold_low_def release_scl_def i2c_falling_def sda_i_def set_read_bit_def Let_def intro!: i2c.equality)

section \<open>Bytes on the bus\<close>

definition sda_bits :: "u8 \<Rightarrow> int list" where
  "sda_bits w = map (\<lambda>b. 1 - b) (msb_bits w)"

lemma msb_value_horner: "msb_value bs = horner_sum id 2 (rev bs)"
  by (induction bs rule: rev_induct) (simp_all add: msb_value_def)

lemma msb_value_bits: "msb_value (msb_bits w) = uint w"
proof -
  have "rev (msb_bits w) = map of_bool (map (bit (uint w)) [0..<8])"
    by (rule nth_equalityI) (auto simp: msb_bits_def rev_nth bit_uint_iff)
  then have "msb_value (msb_bits w) = horner_sum of_bool 2 (map (bit (uint w)) [0..<8])"
    by (simp add: msb_value_horner horner_sum_eq_sum_funpow comp_def)
  also have "\<dots> = uint w" by (simp only: horner_sum_bit_eq_take_bit) (simp add: take_bit_int_eq_self_iff uint_lt2p [of w, simplified])
  finally show ?thesis .
qed

lemma msb_bits_split: "\<exists>bs b. msb_bits w = bs @ [b] \<and> length bs = 7 \<and> set bs \<subseteq> {0, 1} \<and> b \<in> {0, 1} \<and> 2 * msb_value bs + b = uint w"
proof (intro exI conjI)
  let ?bs = "map (\<lambda>i. of_bool (bit w (7 - i))) [0..<7]"
  have "[0..<8] = [0..<7] @ [7]" by (simp add: upt_rec)
  then show eq: "msb_bits w = ?bs @ [of_bool (bit w 0)]" unfolding msb_bits_def by (simp only: map_append list.map diff_self_eq_0)
  show "set ?bs \<subseteq> {0, 1}" by auto
  show "2 * msb_value ?bs + of_bool (bit w 0) = uint w"
    using msb_value_bits [of w] unfolding eq msb_value_snoc .
qed simp_all

lemma pulses_shift:
  assumes "low p" and "i2c_state p \<in> {Address, Write_byte}" and "\<not> peer_sda_low p" and "i2c_bit_index p = 0" and "i2c_rx_byte p = 0"
  shows "length bs \<le> 7 \<Longrightarrow> set bs \<subseteq> {0, 1} \<Longrightarrow> pulses_ok p (map (\<lambda>b. 1 - b) bs)
    \<and> pulses p (map (\<lambda>b. 1 - b) bs) = (bs, p\<lparr>i2c_rx_byte := msb_value bs, i2c_bit_index := length bs\<rparr>)"
proof (induction bs rule: rev_induct)
  case Nil
  with assms(4,5) show ?case by (auto simp: intro!: i2c.equality)
next
  case (snoc b bs)
  let ?q = "p\<lparr>i2c_rx_byte := msb_value bs, i2c_bit_index := length bs\<rparr>"
  have IH: "pulses_ok p (map (\<lambda>b. 1 - b) bs)" "pulses p (map (\<lambda>b. 1 - b) bs) = (bs, ?q)" using snoc by auto
  have "low ?q" "1 - b \<in> {0, 1}" using assms(1) snoc.prems(2) by (auto simp: low_def)
  with pulse_shift [of ?q "1 - b"] assms(2,3) snoc.prems IH show ?case
    by (simp add: pulses_append pulses_ok_append msb_value_snoc)
qed

lemma address_byte:
  assumes "low p" and "i2c_state p = Address" and "\<not> peer_sda_low p" and "i2c_bit_index p = 0" and "i2c_rx_byte p = 0"
    and "acked = address_acked p (uint w)" and "next = (if acked then (if uint w AND 1 \<noteq> 0 then Read_byte else Write_byte) else Idle)"
    and "q = p\<lparr>sampled_bytes := sampled_bytes p @ [uint w], ack_pending := acked, after_ack := next, ack_count := ack_count p + of_bool acked, i2c_state := next\<rparr>"
  shows "pulses_ok p (sda_bits w @ [0]) \<and> pulses p (sda_bits w @ [0]) = (msb_bits w @ [of_bool (\<not> acked)], if next = Read_byte then set_read_bit q else q)"
proof -
  obtain bs b where bs: "msb_bits w = bs @ [b]" "length bs = 7" "set bs \<subseteq> {0, 1}" "b \<in> {0, 1}" "2 * msb_value bs + b = uint w"
    using msb_bits_split by blast
  let ?q = "p\<lparr>i2c_rx_byte := msb_value bs, i2c_bit_index := length bs\<rparr>"
  have shift: "pulses_ok p (map (\<lambda>b. 1 - b) bs)" "pulses p (map (\<lambda>b. 1 - b) bs) = (bs, ?q)"
    using pulses_shift [of p bs] assms bs by auto
  have q: "low ?q" "1 - b \<in> {0, 1}" "uint w = 2 * i2c_rx_byte ?q + (1 - (1 - b))" using assms(1) bs(4,5) by (auto simp: low_def)
  let ?r = "p\<lparr>sampled_bytes := sampled_bytes p @ [uint w], ack_pending := acked, after_ack := next, i2c_state := Target_ack, peer_sda_low := acked\<rparr>"
  have "pulse ?q (1 - b) = (b, ?r)"
    by (subst pulse_address(2) [OF q(1) _ _ _ q(2,3)]) (use assms(2-5) bs(2) in \<open>simp_all add: assms(7) flip: assms(6)\<close>)
  moreover have "fst (i2c_rising (release_scl ?q (1 - b))) = Inr ()" by (rule pulse_address(1) [OF q(1) _ _ _ q(2,3)]) (use assms(2,3) bs(2) in simp_all)
  moreover have r: "low ?r" "after_ack ?r = Read_byte \<Longrightarrow> ack_pending ?r" using assms(1,7) by (auto simp: low_def split: if_splits)
  moreover have "pulse ?r 0 = (of_bool (\<not> acked), if next = Read_byte then set_read_bit q else q)"
    using pulse_ack(2) [OF r(1) _ _ r(2)] assms(3) by (auto simp: assms(8) set_read_bit_def Let_def intro!: i2c.equality)
  moreover have "fst (i2c_rising (release_scl ?r 0)) = Inr ()" by (rule pulse_ack(1) [OF r(1) _ _ r(2)]) simp_all
  ultimately show ?thesis using shift bs(1) q(2) by (simp add: sda_bits_def pulses_append pulses_ok_append)
qed

lemma data_byte:
  assumes "low p" and "i2c_state p = Write_byte" and "\<not> peer_sda_low p" and "i2c_bit_index p = 0" and "i2c_rx_byte p = 0"
    and "q = p\<lparr>sampled_bytes := sampled_bytes p @ [uint w], ack_pending := True, after_ack := Write_byte, ack_count := ack_count p + 1,
       current_write := current_write p @ [w]\<rparr>"
  shows "pulses_ok p (sda_bits w @ [0]) \<and> pulses p (sda_bits w @ [0]) = (msb_bits w @ [0], q)"
proof -
  obtain bs b where bs: "msb_bits w = bs @ [b]" "length bs = 7" "set bs \<subseteq> {0, 1}" "b \<in> {0, 1}" "2 * msb_value bs + b = uint w"
    using msb_bits_split by blast
  let ?q = "p\<lparr>i2c_rx_byte := msb_value bs, i2c_bit_index := length bs\<rparr>"
  have shift: "pulses_ok p (map (\<lambda>b. 1 - b) bs)" "pulses p (map (\<lambda>b. 1 - b) bs) = (bs, ?q)"
    using pulses_shift [of p bs] assms bs by auto
  have q: "low ?q" "1 - b \<in> {0, 1}" "uint w = 2 * i2c_rx_byte ?q + (1 - (1 - b))" "0 \<le> uint w" "uint w < 256"
    using assms(1) bs(4,5) uint_lt2p [of w] by (auto simp: low_def)
  let ?r = "p\<lparr>sampled_bytes := sampled_bytes p @ [uint w], ack_pending := True, after_ack := Write_byte, current_write := current_write p @ [w],
    i2c_state := Target_ack, peer_sda_low := True\<rparr>"
  have "pulse ?q (1 - b) = (b, ?r)"
    using pulse_data(2) [OF q(1) _ _ _ q(2-5)] assms(2-5) bs(2) by (auto intro!: i2c.equality)
  moreover have "fst (i2c_rising (release_scl ?q (1 - b))) = Inr ()" by (rule pulse_data(1) [OF q(1) _ _ _ q(2-5)]) (use assms(2,3) bs(2) in simp_all)
  moreover have r: "low ?r" "after_ack ?r = Read_byte \<Longrightarrow> ack_pending ?r" using assms(1) by (auto simp: low_def)
  moreover have "pulse ?r 0 = (0, q)"
    using pulse_ack(2) [OF r(1) _ _ r(2)] assms(2,3) by (auto simp: assms(6) Let_def intro!: i2c.equality)
  moreover have "fst (i2c_rising (release_scl ?r 0)) = Inr ()" by (rule pulse_ack(1) [OF r(1) _ _ r(2)]) simp_all
  ultimately show ?thesis using shift bs(1) q(2) by (simp add: sda_bits_def pulses_append pulses_ok_append)
qed

lemma data_bytes:
  assumes "low p" and "i2c_state p = Write_byte" and "\<not> peer_sda_low p" and "i2c_bit_index p = 0" and "i2c_rx_byte p = 0"
    and "ack_pending p" and "after_ack p = Write_byte"
  shows "pulses_ok p (concat (map (\<lambda>w. sda_bits w @ [0]) ws))
    \<and> pulses p (concat (map (\<lambda>w. sda_bits w @ [0]) ws)) = (concat (map (\<lambda>w. msb_bits w @ [0]) ws),
       p\<lparr>sampled_bytes := sampled_bytes p @ map uint ws, ack_count := ack_count p + length ws, current_write := current_write p @ ws\<rparr>)"
  using assms
proof (induction ws arbitrary: p)
  case (Cons w ws)
  let ?q = "p\<lparr>sampled_bytes := sampled_bytes p @ [uint w], ack_count := ack_count p + 1, current_write := current_write p @ [w]\<rparr>"
  have "?q = p\<lparr>sampled_bytes := sampled_bytes p @ [uint w], ack_pending := True, after_ack := Write_byte, ack_count := ack_count p + 1,
       current_write := current_write p @ [w]\<rparr>" using Cons.prems(6,7) by (auto intro!: i2c.equality)
  from data_byte [OF Cons.prems(1-5) this] Cons.IH [of ?q] Cons.prems show ?case
    by (simp add: pulses_append pulses_ok_append low_def)
qed simp

definition read_value :: "i2c \<Rightarrow> u8" where
  "read_value p = (if i2c_payload_index p < length (i2c_payload p) then i2c_payload p ! i2c_payload_index p else 0xff)"

definition read_ready :: "i2c \<Rightarrow> bool" where
  "read_ready p \<longleftrightarrow> low p \<and> i2c_state p = Read_byte \<and> read_byte p = uint (read_value p) \<and> peer_sda_low p = (\<not> bit (read_value p) (7 - i2c_bit_index p))"

lemma set_read_bit_eq:
  "set_read_bit p = p\<lparr>read_byte := uint (read_value p), peer_sda_low := \<not> bit (read_value p) (7 - i2c_bit_index p)\<rparr>"
proof -
  have "drop_bit n (uint w) AND 1 = 0 \<longleftrightarrow> \<not> bit w n" if "n < 8" for n and w :: u8
    using that by (simp add: and_one_eq bit_iff_odd_drop_bit [symmetric] mod_2_eq_odd bit_uint_iff)
  from this [of "7 - i2c_bit_index p" "read_value p"] have bit: "drop_bit (7 - i2c_bit_index p) (uint (read_value p)) AND 1 = 0 \<longleftrightarrow> \<not> bit (read_value p) (7 - i2c_bit_index p)"
    by simp
  have rb: "(if i2c_payload_index p < length (i2c_payload p) then uint (i2c_payload p ! i2c_payload_index p) else 0xff) = uint (read_value p)"
    by (simp add: read_value_def)
  show ?thesis unfolding set_read_bit_def rb Let_def using bit by simp
qed

lemma pulses_read_partial:
  assumes "read_ready p" and "i2c_bit_index p = 0"
  shows "n \<le> 7 \<Longrightarrow> pulses_ok p (replicate n 0) \<and> read_ready (snd (pulses p (replicate n 0)))
    \<and> pulses p (replicate n 0) = (map (\<lambda>i. of_bool (bit (read_value p) (7 - i))) [0..<n],
         p\<lparr>i2c_bit_index := n, peer_sda_low := \<not> bit (read_value p) (7 - n)\<rparr>)"
proof (induction n)
  case 0
  with assms show ?case by (auto simp: read_ready_def intro!: i2c.equality)
next
  case (Suc n)
  let ?q = "p\<lparr>i2c_bit_index := n, peer_sda_low := \<not> bit (read_value p) (7 - n)\<rparr>"
  have IH: "pulses_ok p (replicate n 0)" "read_ready ?q" "pulses p (replicate n 0) = (map (\<lambda>i. of_bool (bit (read_value p) (7 - i))) [0..<n], ?q)"
    using Suc by auto
  have v: "read_value (?q\<lparr>i2c_bit_index := Suc n\<rparr>) = read_value p" by (simp add: read_value_def)
  have "pulse ?q 0 = (of_bool (bit (read_value p) (7 - n)), p\<lparr>i2c_bit_index := Suc n, peer_sda_low := \<not> bit (read_value p) (7 - Suc n)\<rparr>)"
    using pulse_read(2) [of ?q] IH(2) Suc.prems assms(1) unfolding set_read_bit_eq
    by (auto simp: read_ready_def read_value_def intro!: i2c.equality)
  moreover have "fst (i2c_rising (release_scl ?q 0)) = Inr ()" by (rule pulse_read(1)) (use IH(2) Suc.prems in \<open>auto simp: read_ready_def\<close>)
  moreover have "replicate (Suc n) (0 :: int) = replicate n 0 @ [0]" by (simp add: replicate_append_same)
  moreover have "read_ready (p\<lparr>i2c_bit_index := Suc n, peer_sda_low := \<not> bit (read_value p) (7 - Suc n)\<rparr>)"
    using assms(1) by (simp add: read_ready_def read_value_def low_def)
  ultimately show ?case using IH(1,3) by (simp add: pulses_append pulses_ok_append)
qed

definition advance :: "i2c \<Rightarrow> i2c" where
  "advance p = p\<lparr>i2c_payload_index := i2c_payload_index p + of_bool (i2c_payload_index p < length (i2c_payload p))\<rparr>"

lemma pulses_read_byte:
  assumes "read_ready p" and "i2c_bit_index p = 0" and "d \<in> {0, 1}"
    and "q = (advance p)\<lparr>peer_sda_low := False, master_acked := (d = 1), i2c_state := (if d = 1 then Read_byte else Idle)\<rparr>"
  shows "pulses_ok p (replicate 8 0 @ [d])"
    "pulses p (replicate 8 0 @ [d]) = (msb_bits (read_value p) @ [1 - d], if d = 1 then set_read_bit q else q)"
proof -
  let ?q = "p\<lparr>i2c_bit_index := 7, peer_sda_low := \<not> bit (read_value p) (7 - 7)\<rparr>"
  have seven: "pulses_ok p (replicate 7 0)" "read_ready ?q" "pulses p (replicate 7 0) = (map (\<lambda>i. of_bool (bit (read_value p) (7 - i))) [0..<7], ?q)"
    using pulses_read_partial [OF assms(1,2), of 7] by auto
  let ?r = "(advance p)\<lparr>i2c_state := Master_ack, peer_sda_low := False\<rparr>"
  have last: "pulse ?q 0 = (of_bool (bit (read_value p) 0), ?r)" "fst (i2c_rising (release_scl ?q 0)) = Inr ()"
    using pulse_read_last [of ?q] seven(2) assms(2) by (auto simp: read_ready_def advance_def intro!: i2c.equality)
  have r: "low ?r" using assms(1) by (simp add: read_ready_def low_def advance_def)
  have ack: "pulse ?r d = (1 - d, if d = 1 then set_read_bit q else q)" "fst (i2c_rising (release_scl ?r d)) = Inr ()"
    using pulse_master_ack [OF r _ _ assms(3)] by (auto simp: assms(4) Let_def)
  have upt: "[0..<8] = [0..<7] @ [7]" by (simp add: upt_rec)
  have bits: "msb_bits (read_value p) = map (\<lambda>i. of_bool (bit (read_value p) (7 - i))) [0..<7] @ [of_bool (bit (read_value p) 0)]"
    unfolding msb_bits_def upt by (simp only: map_append list.map diff_self_eq_0)
  have rep: "replicate 8 (0 :: int) @ [d] = replicate 7 0 @ [0, d]" by (simp add: numeral_eq_Suc)
  show "pulses_ok p (replicate 8 0 @ [d])" using seven last ack assms(3) unfolding rep by (simp add: pulses_ok_append)
  show "pulses p (replicate 8 0 @ [d]) = (msb_bits (read_value p) @ [1 - d], if d = 1 then set_read_bit q else q)"
    using seven last ack unfolding rep bits by (simp add: pulses_append)
qed

definition read_values :: "i2c \<Rightarrow> nat \<Rightarrow> bytes" where
  "read_values p n = map (\<lambda>j. if i2c_payload_index p + j < length (i2c_payload p) then i2c_payload p ! (i2c_payload_index p + j) else 0xff) [0..<n]"

lemma read_values_Suc: "read_values p (Suc n) = read_value p # read_values (advance p) n"
  unfolding read_values_def upt_conv_Cons [OF zero_less_Suc] map_Suc_upt [symmetric]
  by (simp add: read_value_def advance_def)

fun read_acks :: "bytes \<Rightarrow> int list" where
  "read_acks [] = []"
| "read_acks [w] = msb_bits w @ [1]"
| "read_acks (w # ws) = msb_bits w @ [0] @ read_acks ws"

definition read_slots :: "nat \<Rightarrow> int list" where
  "read_slots n = concat (replicate n (replicate 8 0 @ [1])) @ replicate 8 0 @ [0]"

lemma read_bytes:
  assumes "read_ready p" and "i2c_bit_index p = 0" and "i2c_payload_index p \<le> length (i2c_payload p)"
  shows "pulses_ok p (read_slots n) \<and> (\<exists>rb ma. pulses p (read_slots n) = (read_acks (read_values p (Suc n)),
    p\<lparr>i2c_payload_index := min (length (i2c_payload p)) (i2c_payload_index p + Suc n), read_byte := rb, master_acked := ma,
      i2c_state := Idle, peer_sda_low := False\<rparr>))"
  using assms
proof (induction n arbitrary: p)
  case 0
  have "(advance p)\<lparr>peer_sda_low := False, master_acked := False, i2c_state := Idle\<rparr> =
      p\<lparr>i2c_payload_index := min (length (i2c_payload p)) (i2c_payload_index p + Suc 0), read_byte := read_byte p, master_acked := False,
        i2c_state := Idle, peer_sda_low := False\<rparr>"
    using 0 by (auto simp: advance_def intro!: i2c.equality)
  moreover have "read_values p (Suc 0) = [read_value p]" by (simp add: read_values_def read_value_def)
  ultimately show ?case using pulses_read_byte [OF 0(1,2) _ refl, of 0]
    by (auto simp: read_slots_def simp del: i2c.update_convs intro!: exI [of _ "read_byte p"] exI [of _ False])
next
  case (Suc n)
  let ?q = "(advance p)\<lparr>peer_sda_low := False, master_acked := True, i2c_state := Read_byte\<rparr>"
  let ?r = "set_read_bit ?q"
  have first: "pulses_ok p (replicate 8 0 @ [1])" "pulses p (replicate 8 0 @ [1]) = (msb_bits (read_value p) @ [0], ?r)"
    using pulses_read_byte [OF Suc.prems(1,2) _ refl, of 1] by auto
  have r: "read_ready ?r" "i2c_bit_index ?r = 0" "i2c_payload_index ?r \<le> length (i2c_payload ?r)"
    using Suc.prems unfolding set_read_bit_eq by (auto simp: read_ready_def low_def advance_def read_value_def)
  have vals: "read_values ?r (Suc n) = read_values (advance p) (Suc n)" unfolding set_read_bit_eq by (simp add: read_values_def advance_def)
  obtain rb ma where rest: "pulses_ok ?r (read_slots n)" "pulses ?r (read_slots n) = (read_acks (read_values ?r (Suc n)),
      ?r\<lparr>i2c_payload_index := min (length (i2c_payload ?r)) (i2c_payload_index ?r + Suc n), read_byte := rb, master_acked := ma,
        i2c_state := Idle, peer_sda_low := False\<rparr>)"
    using Suc.IH [OF r] by blast
  have "?r\<lparr>i2c_payload_index := min (length (i2c_payload ?r)) (i2c_payload_index ?r + Suc n), read_byte := rb, master_acked := ma,
        i2c_state := Idle, peer_sda_low := False\<rparr>
    = p\<lparr>i2c_payload_index := min (length (i2c_payload p)) (i2c_payload_index p + Suc (Suc n)), read_byte := rb, master_acked := ma,
        i2c_state := Idle, peer_sda_low := False\<rparr>"
    using Suc.prems(3) unfolding set_read_bit_eq by (auto simp: advance_def intro!: i2c.equality)
  moreover have "read_slots (Suc n) = (replicate 8 0 @ [1]) @ read_slots n" by (simp add: read_slots_def)
  moreover have "read_acks (read_values p (Suc (Suc n))) = (msb_bits (read_value p) @ [0]) @ read_acks (read_values (advance p) (Suc n))"
    by (simp add: read_values_Suc)
  ultimately show ?case
    using first rest vals by (auto simp: pulses_append pulses_ok_append simp del: read_acks.simps)
qed

section \<open>Transactions\<close>

text \<open>A host transaction: a START condition, clocked bits, a STOP condition.\<close>

definition host_transaction :: "i2c \<Rightarrow> (nat \<times> int) list \<Rightarrow> nat \<Rightarrow> int list res \<times> i2c" where
  "host_transaction p xs hold = (case i2c_observe_all p [(0, 1), (1, 1)] of
     (Inl e, p') \<Rightarrow> (Inl e, p')
   | (Inr _, p1) \<Rightarrow> (case host_bits p1 xs of
       (Inl e, p') \<Rightarrow> (Inl e, p')
     | (Inr bs, p2) \<Rightarrow> (case raise_clock p2 hold 1 of
         (Inl e, p') \<Rightarrow> (Inl e, p')
       | (Inr _, p3) \<Rightarrow> (case i2c_observe p3 0 0 of (Inl e, p') \<Rightarrow> (Inl e, p') | (Inr _, p4) \<Rightarrow> (Inr bs, p4)))))"

text \<open>A free bus between transactions.\<close>

definition bus_free :: "i2c \<Rightarrow> bool" where
  "bus_free p \<longleftrightarrow> \<not> host_scl_low p \<and> \<not> host_sda_low p \<and> \<not> peer_scl_low p \<and> \<not> peer_sda_low p \<and> stretch_left p = 0
     \<and> 0 \<le> stretch_cycles p \<and> i2c_state p = Idle \<and> current_write p = [] \<and> i2c_payload_index p \<le> length (i2c_payload p)"

definition started :: "i2c \<Rightarrow> i2c" where
  "started p = p\<lparr>host_scl_low := True, start_count := start_count p + 1, i2c_state := Address, i2c_bit_index := 0, i2c_rx_byte := 0\<rparr>"

definition stopped :: "i2c \<Rightarrow> i2c" where
  "stopped p = (close_write p)\<lparr>host_scl_low := False, stop_count := stop_count p + 1, i2c_state := Idle, i2c_bit_index := 0\<rparr>"

lemma host_start:
  assumes "bus_free p"
  shows "\<exists>p1. i2c_observe_all p [(0, 1), (1, 1)] = (Inr (), p1) \<and> bus_low p1 \<and> hold_low p1 = started p \<and> low (started p)"
proof -
  let ?p = "p\<lparr>host_sda_low := True\<rparr>"
  have "drive_lines p 0 1 = ?p" using assms by (auto simp: bus_free_def drive_lines_def Let_def intro!: i2c.equality)
  then have "i2c_observe p 0 1 = (Inr (), i2c_start ?p)"
    using assms by (auto simp: bus_free_def i2c_observe_def Let_def scl_i_def sda_i_def)
  moreover have "i2c_observe (i2c_start ?p) 1 1 = (Inr (), (i2c_start ?p)\<lparr>host_scl_low := True\<rparr>)"
    using assms by (auto simp: bus_free_def i2c_observe_def i2c_start_def close_write_def drive_lines_def Let_def scl_i_def sda_i_def i2c_falling_def intro!: i2c.equality)
  ultimately show ?thesis using assms
    by (auto simp: bus_free_def bus_low_def hold_low_def started_def low_def i2c_start_def close_write_def Let_def intro!: i2c.equality)
qed

lemma host_stop:
  assumes "bus_low p" and "hold_low p = q" and "i2c_state q = Idle \<or> i2c_state q = Write_byte \<and> i2c_bit_index q = 0 \<and> i2c_rx_byte q = 0"
    and "\<not> peer_sda_low q"
  shows "\<exists>p3 p4. raise_clock p hold 1 = (Inr (), p3) \<and> i2c_observe p3 0 0 = (Inr (), p4) \<and> p4 = stopped q"
proof -
  let ?r = "(release_scl q 1)\<lparr>i2c_bit_index := if i2c_state q = Idle then i2c_bit_index q else 1\<rparr>"
  have "i2c_rising (release_scl q 1) = (Inr (), ?r)"
  proof (cases "i2c_state q = Idle")
    case True
    then show ?thesis by (simp add: i2c_rising_def release_scl_def)
  next
    case False
    with assms(3) have st: "i2c_state q = Write_byte" "i2c_bit_index q = 0" "i2c_rx_byte q = 0" by auto
    have "sda_i (release_scl q 1) = 0" by (simp add: sda_i_def release_scl_def)
    with st have "i2c_rising (release_scl q 1) = (Inr (), (release_scl q 1)\<lparr>i2c_rx_byte := 0, i2c_bit_index := 1\<rparr>)"
      by (simp add: i2c_rising_def release_scl_def)
    also have "(release_scl q 1)\<lparr>i2c_rx_byte := 0, i2c_bit_index := 1\<rparr> = ?r" using st by (simp add: release_scl_def)
    finally show ?thesis .
  qed
  then have "i2c_rising (release_scl p 1) = (Inr (), ?r)" using rising_release [of p 1] assms(2) by simp
  from raise_clock_eq [OF assms(1) _ this] have raised: "raise_clock p hold 1 = (Inr (), ?r)" by simp
  have "drive_lines ?r 0 0 = ?r\<lparr>host_sda_low := False\<rparr>" by (auto simp: drive_lines_def release_scl_def Let_def intro!: i2c.equality)
  then have "i2c_observe ?r 0 0 = (Inr (), i2c_stop (?r\<lparr>host_sda_low := False\<rparr>))"
    using assms(4) by (auto simp: i2c_observe_def scl_i_def sda_i_def release_scl_def)
  moreover have "i2c_stop (?r\<lparr>host_sda_low := False\<rparr>) = stopped q"
    using assms(2,4) by (auto simp: i2c_stop_def stopped_def close_write_def release_scl_def hold_low_def Let_def intro!: i2c.equality)
  ultimately show ?thesis using raised by blast
qed

lemma transaction_pulses:
  assumes "bus_free p" and "pulses_ok (started p) (map snd xs)" and "pulses (started p) (map snd xs) = (bs, q)"
    and "i2c_state q = Idle \<or> i2c_state q = Write_byte \<and> i2c_bit_index q = 0 \<and> i2c_rx_byte q = 0" and "\<not> peer_sda_low q"
  shows "host_transaction p xs hold = (Inr bs, stopped q)"
proof -
  obtain p1 where p1: "i2c_observe_all p [(0, 1), (1, 1)] = (Inr (), p1)" "bus_low p1" "hold_low p1 = started p"
    using host_start [OF assms(1)] by blast
  obtain p2 where p2: "host_bits p1 xs = (Inr bs, p2)" "bus_low p2" "hold_low p2 = q"
    using host_bits_pulses [OF p1(2), of xs] assms(2,3) p1(3) by auto
  obtain p3 where "raise_clock p2 hold 1 = (Inr (), p3)" "i2c_observe p3 0 0 = (Inr (), stopped q)"
    using host_stop [OF p2(2,3) assms(4,5)] by blast
  with p1 p2 show ?thesis by (simp add: host_transaction_def del: i2c_observe_all.simps)
qed

lemma pulses_idle:
  "low p \<Longrightarrow> i2c_state p = Idle \<Longrightarrow> \<not> peer_sda_low p \<Longrightarrow> set ds \<subseteq> {0, 1} \<Longrightarrow> pulses_ok p ds \<and> pulses p ds = (map (\<lambda>d. 1 - d) ds, p)"
proof (induction ds)
  case (Cons d ds)
  then have d: "d \<in> {0, 1}" by simp
  have rise: "i2c_rising (release_scl p d) = (Inr (), release_scl p d)" using Cons.prems(2) by (simp add: i2c_rising_def release_scl_def)
  have "hold_low (release_scl p d) = p" using Cons.prems(1) by (auto simp: hold_low_def release_scl_def low_def intro!: i2c.equality)
  then have "pulse p d = (1 - d, p)"
    using release_sda [OF d Cons.prems(3)] Cons.prems(2) by (simp add: pulse_def rise i2c_falling_def)
  with Cons rise show ?case by simp
qed simp

lemma started_facts: "bus_free p \<Longrightarrow> low (started p)" "i2c_state (started p) = Address" "bus_free p \<Longrightarrow> \<not> peer_sda_low (started p)"
    "i2c_bit_index (started p) = 0" "i2c_rx_byte (started p) = 0" "address_acked (started p) v = address_acked p v"
  by (simp_all add: started_def low_def bus_free_def address_acked_def)

lemma sda_bits_range: "set (sda_bits w) \<subseteq> {0, 1}" "map (\<lambda>d. 1 - d) (sda_bits w) = msb_bits w"
  by (auto simp: sda_bits_def msb_bits_def comp_def)

lemma write_pulses:
  assumes "bus_free p" and "uint a AND 1 = 0" and "ds = concat (map (\<lambda>w. sda_bits w @ [0]) (a # data))"
    and "acked = (drop_bit 1 (uint a) = i2c_address p)"
  shows "\<exists>q. pulses_ok (started p) ds \<and> pulses (started p) ds = (concat (map (\<lambda>w. msb_bits w @ [of_bool (\<not> acked)]) (a # data)), q)
    \<and> q = (started p)\<lparr>sampled_bytes := sampled_bytes p @ map uint (if acked then a # data else [a]), ack_pending := acked,
        after_ack := (if acked then Write_byte else Idle), ack_count := ack_count p + (if acked then Suc (length data) else 0),
        i2c_state := (if acked then Write_byte else Idle), current_write := (if acked then data else [])\<rparr>"
proof -
  let ?q = "(started p)\<lparr>sampled_bytes := sampled_bytes (started p) @ [uint a], ack_pending := acked, after_ack := if acked then Write_byte else Idle,
    ack_count := ack_count (started p) + of_bool acked, i2c_state := if acked then Write_byte else Idle\<rparr>"
  have next_state: "(if acked then Write_byte else Idle) = (if acked then if uint a AND 1 \<noteq> 0 then Read_byte else Write_byte else Idle)"
    using assms(2) by simp
  have "acked = address_acked (started p) (uint a)" using assms(2,4) by (simp add: started_def address_acked_def)
  from address_byte [OF started_facts(1) [OF assms(1)] started_facts(2) started_facts(3) [OF assms(1)] started_facts(4,5) this next_state refl]
  have addr: "pulses_ok (started p) (sda_bits a @ [0])" "pulses (started p) (sda_bits a @ [0]) = (msb_bits a @ [of_bool (\<not> acked)], ?q)"
    by (auto split: if_splits)
  have low: "low ?q" "\<not> peer_sda_low ?q" "i2c_bit_index ?q = 0" "i2c_rx_byte ?q = 0"
    using assms(1) by (simp_all add: started_def low_def bus_free_def)
  show ?thesis
  proof (cases acked)
    case True
    with data_bytes [OF low(1) _ low(2,3,4), of data] addr assms(1,3) show ?thesis
      by (auto simp: pulses_append pulses_ok_append started_def bus_free_def)
  next
    case False
    let ?rest = "concat (map (\<lambda>w. sda_bits w @ [0]) data)"
    have "map (\<lambda>d. 1 - d) ?rest = concat (map (\<lambda>w. msb_bits w @ [1]) data)" by (induction data) (simp_all add: sda_bits_range(2))
    moreover have "set ?rest \<subseteq> {0, 1}" using sda_bits_range(1) by auto
    ultimately have "pulses_ok ?q ?rest" "pulses ?q ?rest = (concat (map (\<lambda>w. msb_bits w @ [1]) data), ?q)"
      using pulses_idle [OF low(1) _ low(2)] False by auto
    with False addr assms(1,3) show ?thesis by (auto simp: pulses_append pulses_ok_append started_def bus_free_def intro!: i2c.equality)
  qed
qed

lemma read_pulses:
  assumes "bus_free p" and "uint a AND 1 \<noteq> 0" and "drop_bit 1 (uint a) = i2c_address p" and "i2c_payload_index p < length (i2c_payload p)"
  shows "\<exists>rb ma. pulses_ok (started p) (sda_bits a @ [0] @ read_slots n)
    \<and> pulses (started p) (sda_bits a @ [0] @ read_slots n) = (msb_bits a @ [0] @ read_acks (read_values p (Suc n)),
      (started p)\<lparr>sampled_bytes := sampled_bytes p @ [uint a], ack_pending := True, after_ack := Read_byte, ack_count := ack_count p + 1,
        i2c_payload_index := min (length (i2c_payload p)) (i2c_payload_index p + Suc n), read_byte := rb, master_acked := ma,
        i2c_state := Idle, peer_sda_low := False\<rparr>)"
proof -
  let ?q = "(started p)\<lparr>sampled_bytes := sampled_bytes (started p) @ [uint a], ack_pending := True, after_ack := Read_byte,
    ack_count := ack_count (started p) + of_bool True, i2c_state := Read_byte\<rparr>"
  let ?r = "set_read_bit ?q"
  have "True = address_acked (started p) (uint a)" using assms(2-4) by (simp add: started_def address_acked_def)
  from address_byte [OF started_facts(1) [OF assms(1)] started_facts(2) started_facts(3) [OF assms(1)] started_facts(4,5) this refl refl]
  have addr: "pulses_ok (started p) (sda_bits a @ [0])" "pulses (started p) (sda_bits a @ [0]) = (msb_bits a @ [0], ?r)"
    using assms(2) by auto
  have r: "read_ready ?r" "i2c_bit_index ?r = 0" "i2c_payload_index ?r \<le> length (i2c_payload ?r)"
    using assms(1,4) unfolding set_read_bit_eq by (auto simp: read_ready_def low_def started_def bus_free_def read_value_def)
  have vals: "read_values ?r (Suc n) = read_values p (Suc n)" unfolding set_read_bit_eq by (simp add: read_values_def started_def)
  obtain rb ma where rest: "pulses_ok ?r (read_slots n)" "pulses ?r (read_slots n) = (read_acks (read_values ?r (Suc n)),
      ?r\<lparr>i2c_payload_index := min (length (i2c_payload ?r)) (i2c_payload_index ?r + Suc n), read_byte := rb, master_acked := ma,
        i2c_state := Idle, peer_sda_low := False\<rparr>)"
    using read_bytes [OF r] by blast
  have "?r\<lparr>i2c_payload_index := min (length (i2c_payload ?r)) (i2c_payload_index ?r + Suc n), read_byte := rb, master_acked := ma,
        i2c_state := Idle, peer_sda_low := False\<rparr>
    = (started p)\<lparr>sampled_bytes := sampled_bytes p @ [uint a], ack_pending := True, after_ack := Read_byte, ack_count := ack_count p + 1,
        i2c_payload_index := min (length (i2c_payload p)) (i2c_payload_index p + Suc n), read_byte := rb, master_acked := ma,
        i2c_state := Idle, peer_sda_low := False\<rparr>"
    unfolding set_read_bit_eq by (auto simp: started_def intro!: i2c.equality)
  moreover have "sda_bits a @ [0] @ read_slots n = (sda_bits a @ [0]) @ read_slots n" by simp
  ultimately show ?thesis
    using addr rest vals pulses_append [of "started p" "sda_bits a @ [0]" "read_slots n"] pulses_ok_append [of "started p" "sda_bits a @ [0]" "read_slots n"]
    by (intro exI [of _ rb] exI [of _ ma]) (simp del: read_acks.simps)
qed

text \<open>C34: A host write over the bus works whatever the clock stretching and however long the host holds each bit: an
  addressed target acknowledges the address and every byte, records exactly the written bytes as one completed
  write, and leaves the bus free; any other target never touches the data line and records no write.\<close>

theorem i2c_write:
  assumes "bus_free p" and "uint a AND 1 = 0" and "map snd xs = concat (map (\<lambda>w. sda_bits w @ [0]) (a # data))"
    and "acked = (drop_bit 1 (uint a) = i2c_address p)"
  shows "\<exists>p'. host_transaction p xs hold = (Inr (concat (map (\<lambda>w. msb_bits w @ [of_bool (\<not> acked)]) (a # data))), p') \<and> bus_free p'
    \<and> completed_writes p' = completed_writes p @ (if acked \<and> data \<noteq> [] then [data] else [])
    \<and> sampled_bytes p' = sampled_bytes p @ map uint (if acked then a # data else [a])
    \<and> ack_count p' = ack_count p + (if acked then Suc (length data) else 0)
    \<and> start_count p' = start_count p + 1 \<and> stop_count p' = stop_count p + 1
    \<and> i2c_address p' = i2c_address p \<and> i2c_payload p' = i2c_payload p \<and> i2c_payload_index p' = i2c_payload_index p"
proof -
  obtain q where q: "pulses_ok (started p) (map snd xs)"
      "pulses (started p) (map snd xs) = (concat (map (\<lambda>w. msb_bits w @ [of_bool (\<not> acked)]) (a # data)), q)"
      "q = (started p)\<lparr>sampled_bytes := sampled_bytes p @ map uint (if acked then a # data else [a]), ack_pending := acked,
        after_ack := (if acked then Write_byte else Idle), ack_count := ack_count p + (if acked then Suc (length data) else 0),
        i2c_state := (if acked then Write_byte else Idle), current_write := (if acked then data else [])\<rparr>"
    using write_pulses [OF assms(1,2,3,4)] by blast
  have "host_transaction p xs hold = (Inr (concat (map (\<lambda>w. msb_bits w @ [of_bool (\<not> acked)]) (a # data))), stopped q)"
    by (rule transaction_pulses [OF assms(1) q(1,2)]) (use assms(1) in \<open>auto simp: q(3) started_def bus_free_def\<close>)
  moreover have "bus_free (stopped q)" using assms(1) by (simp add: q(3) bus_free_def stopped_def started_def close_write_def)
  ultimately show ?thesis using assms(1) by (auto simp: q(3) bus_free_def stopped_def started_def close_write_def)
qed

text \<open>C35: A host read over the bus returns the queued payload: an addressed target with payload left acknowledges the
  address, then presents the next payload bytes most significant bit first, one for every byte the host clocks (0xff
  once the queue is exhausted), stops when the host does not acknowledge, consumes exactly the bytes it sent and
  leaves the bus free.\<close>

theorem i2c_read:
  assumes "bus_free p" and "uint a AND 1 \<noteq> 0" and "drop_bit 1 (uint a) = i2c_address p" and "i2c_payload_index p < length (i2c_payload p)"
    and "map snd xs = sda_bits a @ [0] @ read_slots n"
  shows "\<exists>p'. host_transaction p xs hold = (Inr (msb_bits a @ [0] @ read_acks (read_values p (Suc n))), p') \<and> bus_free p'
    \<and> i2c_payload_index p' = min (length (i2c_payload p)) (i2c_payload_index p + Suc n) \<and> i2c_payload p' = i2c_payload p
    \<and> completed_writes p' = completed_writes p \<and> sampled_bytes p' = sampled_bytes p @ [uint a] \<and> ack_count p' = ack_count p + 1
    \<and> start_count p' = start_count p + 1 \<and> stop_count p' = stop_count p + 1 \<and> i2c_address p' = i2c_address p"
proof -
  obtain q rb ma where q: "pulses_ok (started p) (map snd xs)" "pulses (started p) (map snd xs) = (msb_bits a @ [0] @ read_acks (read_values p (Suc n)), q)"
      "q = (started p)\<lparr>sampled_bytes := sampled_bytes p @ [uint a], ack_pending := True, after_ack := Read_byte, ack_count := ack_count p + 1,
        i2c_payload_index := min (length (i2c_payload p)) (i2c_payload_index p + Suc n), read_byte := rb, master_acked := ma,
        i2c_state := Idle, peer_sda_low := False\<rparr>"
    using read_pulses [OF assms(1-4), of n] assms(5) by auto
  have "host_transaction p xs hold = (Inr (msb_bits a @ [0] @ read_acks (read_values p (Suc n))), stopped q)"
    by (rule transaction_pulses [OF assms(1) q(1,2)]) (simp_all add: q(3))
  moreover have "bus_free (stopped q)" using assms(1) by (simp add: q(3) bus_free_def stopped_def started_def close_write_def)
  ultimately show ?thesis using assms(1) by (auto simp: q(3) bus_free_def stopped_def started_def close_write_def)
qed

lemma make_i2c_free: "make_i2c pl a s = Inr p \<Longrightarrow> bus_free p"
  by (auto simp: make_i2c_def i2c_reset_case_def bus_free_def split: if_splits)

theorem i2c_write_witness:
  "\<exists>p p'. make_i2c [] 0x50 3 = Inr p
    \<and> host_transaction p (map (Pair 2) (concat (map (\<lambda>w. sda_bits w @ [0]) [0xA0, 0x12, 0x34]))) 0
        = (Inr (concat (map (\<lambda>w. msb_bits w @ [0]) [0xA0, 0x12, 0x34])), p') \<and> completed_writes p' = [[0x12, 0x34]] \<and> ack_count p' = 3"
proof -
  obtain p where p: "make_i2c [] 0x50 3 = Inr p" by (simp add: make_i2c_def)
  have facts: "i2c_address p = 0x50" "completed_writes p = []" "ack_count p = 0"
    using p by (auto simp: make_i2c_def i2c_reset_case_def)
  have bits: "map snd (map (Pair 2) ds) = ds" for ds :: "int list" by (simp add: comp_def)
  have addr: "True = (drop_bit 1 (uint (0xA0 :: u8)) = i2c_address p)" "uint (0xA0 :: u8) AND 1 = 0" by (simp_all add: facts)
  have "\<exists>p'. host_transaction p (map (Pair 2) (concat (map (\<lambda>w. sda_bits w @ [0]) [0xA0, 0x12, 0x34]))) 0
      = (Inr (concat (map (\<lambda>w. msb_bits w @ [0]) [0xA0, 0x12, 0x34])), p') \<and> completed_writes p' = [[0x12, 0x34]] \<and> ack_count p' = 3"
    using i2c_write [OF make_i2c_free [OF p] addr(2) bits addr(1), where hold = 0 and data = "[0x12, 0x34]"] facts by auto
  with p show ?thesis by blast
qed

theorem i2c_read_witness:
  "\<exists>p p'. make_i2c [0xBE] 0x50 3 = Inr p
    \<and> host_transaction p (map (Pair 2) (sda_bits 0xA1 @ [0] @ read_slots 1)) 0
        = (Inr (msb_bits 0xA1 @ [0] @ read_acks [0xBE, 0xFF]), p') \<and> i2c_payload_index p' = 1"
proof -
  obtain p where p: "make_i2c [0xBE] 0x50 3 = Inr p" by (simp add: make_i2c_def)
  have facts: "i2c_address p = 0x50" "i2c_payload p = [0xBE]" "i2c_payload_index p = 0"
    using p by (auto simp: make_i2c_def i2c_reset_case_def)
  have bits: "map snd (map (Pair 2) ds) = ds" for ds :: "int list" by (simp add: comp_def)
  have addr: "drop_bit 1 (uint (0xA1 :: u8)) = i2c_address p" "uint (0xA1 :: u8) AND 1 \<noteq> 0" "i2c_payload_index p < length (i2c_payload p)"
    by (simp_all add: facts)
  have "read_values p (Suc 1) = [0xBE, 0xFF]" by (simp add: read_values_def facts upt_rec)
  then have "\<exists>p'. host_transaction p (map (Pair 2) (sda_bits 0xA1 @ [0] @ read_slots 1)) 0
      = (Inr (msb_bits 0xA1 @ [0] @ read_acks [0xBE, 0xFF]), p') \<and> i2c_payload_index p' = 1"
    using i2c_read [OF make_i2c_free [OF p] addr(2,1,3) bits, where hold = 0 and n = 1] facts by auto
  with p show ?thesis by blast
qed

end
