(* ===== verification/Rejections.thy ===== *)
theory Rejections
  imports Stdlib Interfaces
begin

text \<open>
  Machine-readable refusals (\<open>scenario/rejection_codes.py\<close>): the stable codes and their
  descriptions, the catalog, the validated rejection record with its document form, and the
  classification of an error that carries no rejection of its own.
\<close>

section \<open>Codes\<close>

definition REJECTION_SCHEMA_VERSION :: string where
  "REJECTION_SCHEMA_VERSION = ''candidate_rejection.v1''"

definition REJECTION_CATALOG_SCHEMA_VERSION :: string where
  "REJECTION_CATALOG_SCHEMA_VERSION = ''candidate_rejection_catalog.v1''"

primrec code_value :: "rejection_code \<Rightarrow> string" where
  "code_value ISA_DISALLOWED_OPERATION = ''isa.disallowed_operation''"
| "code_value ISA_UNEXPECTED_OPERAND = ''isa.unexpected_operand''"
| "code_value ISA_RESERVED_IMM_BIT = ''isa.reserved_imm_bit''"
| "code_value FIELD_BAD_REGISTER = ''field.bad_register''"
| "code_value FIELD_REGISTER_CONFLICT = ''field.register_conflict''"
| "code_value FIELD_BAD_IMMEDIATE = ''field.bad_immediate''"
| "code_value FIELD_BAD_SHAMT = ''field.bad_shamt''"
| "code_value FIELD_BAD_ALIGNMENT = ''field.bad_alignment''"
| "code_value FIELD_BAD_ADDRESS = ''field.bad_address''"
| "code_value FRAGMENT_INVALID_SEQUENCE = ''fragment.invalid_sequence''"
| "code_value FRAGMENT_EXCEEDS_ADDRESS_SPACE = ''fragment.exceeds_address_space''"
| "code_value MMIO_BAD_WINDOW = ''mmio.bad_window''"
| "code_value MMIO_BAD_PERMISSION = ''mmio.bad_permission''"
| "code_value MMIO_BAD_WIDTH = ''mmio.bad_width''"
| "code_value MMIO_NO_WINDOW = ''mmio.no_window''"
| "code_value MMIO_OUT_OF_WINDOW = ''mmio.out_of_window''"
| "code_value MMIO_READ_ONLY = ''mmio.read_only''"
| "code_value MMIO_WRITE_ONLY = ''mmio.write_only''"
| "code_value MMIO_WINDOW_DENIED = ''mmio.window_denied''"
| "code_value MMIO_NO_ALIGNED_ADDRESS = ''mmio.no_aligned_address''"
| "code_value DECODE_MALFORMED_RECORD = ''decode.malformed_record''"
| "code_value DECODE_MALFORMED_ENTROPY = ''decode.malformed_entropy''"
| "code_value DECODE_MALFORMED_SEED = ''decode.malformed_seed''"
| "code_value DECODE_UNBOUNDED_INPUT = ''decode.unbounded_input''"
| "code_value DECODE_BAD_COVERAGE_HINT = ''decode.bad_coverage_hint''"
| "code_value OWNERSHIP_BOUND_INPUT = ''ownership.bound_input''"
| "code_value OWNERSHIP_FIXED_INPUT = ''ownership.fixed_input''"
| "code_value OWNERSHIP_UNDECLARED_FIELD = ''ownership.undeclared_field''"
| "code_value OWNERSHIP_RANGE_EXCEEDS_FIELD = ''ownership.range_exceeds_field''"
| "code_value OWNERSHIP_AMBIGUOUS_PRODUCER = ''ownership.ambiguous_producer''"
| "code_value SLOT_OUT_OF_RESERVATION = ''slot.out_of_reservation''"
| "code_value SLOT_MATERIALIZED = ''slot.materialized''"
| "code_value SLOT_ALREADY_CONSUMED = ''slot.already_consumed''"
| "code_value SLOT_PROPOSAL_MISMATCH = ''slot.proposal_mismatch''"
| "code_value BUDGET_EXHAUSTED = ''budget.exhausted''"
| "code_value PATH_UNDECLARED = ''path.undeclared''"
| "code_value PATH_SOURCE_MISMATCH = ''path.source_mismatch''"

definition all_codes :: "rejection_code list" where
  "all_codes = [ISA_DISALLOWED_OPERATION, ISA_UNEXPECTED_OPERAND, ISA_RESERVED_IMM_BIT,
     FIELD_BAD_REGISTER, FIELD_REGISTER_CONFLICT, FIELD_BAD_IMMEDIATE, FIELD_BAD_SHAMT,
     FIELD_BAD_ALIGNMENT, FIELD_BAD_ADDRESS, FRAGMENT_INVALID_SEQUENCE,
     FRAGMENT_EXCEEDS_ADDRESS_SPACE, MMIO_BAD_WINDOW, MMIO_BAD_PERMISSION, MMIO_BAD_WIDTH,
     MMIO_NO_WINDOW, MMIO_OUT_OF_WINDOW, MMIO_READ_ONLY, MMIO_WRITE_ONLY, MMIO_WINDOW_DENIED,
     MMIO_NO_ALIGNED_ADDRESS, DECODE_MALFORMED_RECORD, DECODE_MALFORMED_ENTROPY,
     DECODE_MALFORMED_SEED, DECODE_UNBOUNDED_INPUT, DECODE_BAD_COVERAGE_HINT,
     OWNERSHIP_BOUND_INPUT, OWNERSHIP_FIXED_INPUT, OWNERSHIP_UNDECLARED_FIELD,
     OWNERSHIP_RANGE_EXCEEDS_FIELD, OWNERSHIP_AMBIGUOUS_PRODUCER, SLOT_OUT_OF_RESERVATION,
     SLOT_MATERIALIZED, SLOT_ALREADY_CONSUMED, SLOT_PROPOSAL_MISMATCH, BUDGET_EXHAUSTED,
     PATH_UNDECLARED, PATH_SOURCE_MISMATCH]"

primrec description_of :: "rejection_code \<Rightarrow> string" where
  "description_of ISA_DISALLOWED_OPERATION =
    ''Operation is outside the admitted first-stage RV32I subset.''"
| "description_of ISA_UNEXPECTED_OPERAND =
    ''Instruction encodes an operand its operation does not use.''"
| "description_of ISA_RESERVED_IMM_BIT =
    ''Shift immediate sets bits that RV32I reserves in the OP-IMM format.''"
| "description_of FIELD_BAD_REGISTER =
    ''Register operand is not an RV32I register number 0..31.''"
| "description_of FIELD_REGISTER_CONFLICT =
    ''Base and data registers are equal or name x0.''"
| "description_of FIELD_BAD_IMMEDIATE =
    ''Immediate or stored value does not fit its declared field.''"
| "description_of FIELD_BAD_SHAMT =
    ''Shift amount is not an RV32I shamt value 0..31.''"
| "description_of FIELD_BAD_ALIGNMENT =
    ''Address or offset is not aligned to the access width.''"
| "description_of FIELD_BAD_ADDRESS =
    ''Address is not a 32-bit RV32 byte address.''"
| "description_of FRAGMENT_INVALID_SEQUENCE =
    ''Fragment is not a nonempty tuple of RV32I instructions.''"
| "description_of FRAGMENT_EXCEEDS_ADDRESS_SPACE =
    ''Fragment image runs past the end of the RV32 address space.''"
| "description_of MMIO_BAD_WINDOW =
    ''MMIO window does not describe a nonempty RV32 range.''"
| "description_of MMIO_BAD_PERMISSION =
    ''MMIO window permissions are not boolean or deny both directions.''"
| "description_of MMIO_BAD_WIDTH =
    ''Access width is not declared by the target window.''"
| "description_of MMIO_NO_WINDOW =
    ''No usable MMIO window was declared for this access.''"
| "description_of MMIO_OUT_OF_WINDOW =
    ''MMIO address lies outside every declared window.''"
| "description_of MMIO_READ_ONLY =
    ''Store targets a window that is not writable.''"
| "description_of MMIO_WRITE_ONLY =
    ''Load targets a window that is not readable.''"
| "description_of MMIO_WINDOW_DENIED =
    ''No declared window permits the requested operation.''"
| "description_of MMIO_NO_ALIGNED_ADDRESS =
    ''Permitted window has no aligned address for this width.''"
| "description_of DECODE_MALFORMED_RECORD =
    ''Candidate record or instruction bytes are not complete words.''"
| "description_of DECODE_MALFORMED_ENTROPY =
    ''Mutation entropy is missing or shorter than four bytes.''"
| "description_of DECODE_MALFORMED_SEED =
    ''Mutation seed is not a supported RV32I instruction.''"
| "description_of DECODE_UNBOUNDED_INPUT =
    ''Online input is empty or exceeds the declared byte bound.''"
| "description_of DECODE_BAD_COVERAGE_HINT =
    ''Coverage hints name unknown sources or nonpositive weights.''"
| "description_of OWNERSHIP_BOUND_INPUT =
    ''Mutation targets bits owned by a bound producer.''"
| "description_of OWNERSHIP_FIXED_INPUT =
    ''Mutation targets bits owned by a fixed producer.''"
| "description_of OWNERSHIP_UNDECLARED_FIELD =
    ''Mutation targets an input field absent from the ownership map.''"
| "description_of OWNERSHIP_RANGE_EXCEEDS_FIELD =
    ''Mutation span exceeds the declared input field width.''"
| "description_of OWNERSHIP_AMBIGUOUS_PRODUCER =
    ''Mutation spans more than one fuzzable producer.''"
| "description_of SLOT_OUT_OF_RESERVATION =
    ''Fragment does not fit its declared online instruction reservation.''"
| "description_of SLOT_MATERIALIZED =
    ''Instruction bytes were already determined by a real read or Store.''"
| "description_of SLOT_ALREADY_CONSUMED =
    ''Reserved instruction word was already filled by an admitted candidate.''"
| "description_of SLOT_PROPOSAL_MISMATCH =
    ''Commit was called with a case that is not the current proposal.''"
| "description_of BUDGET_EXHAUSTED =
    ''Online instruction reservation or initialized-byte budget is exhausted.''"
| "description_of PATH_UNDECLARED =
    ''Case path is not declared by this decoder.''"
| "description_of PATH_SOURCE_MISMATCH =
    ''Case source is not declared on the selected path.''"

definition rejection_code_catalog :: json where
  "rejection_code_catalog = JObj [
     (''schema_version'', JStr REJECTION_CATALOG_SCHEMA_VERSION),
     (''rejection_schema_version'', JStr REJECTION_SCHEMA_VERSION),
     (''codes'', JList (map (\<lambda>c. JObj [(''code'', JStr (code_value c)), (''description'', JStr (description_of c))])
        (sort_key code_value all_codes)))]"

definition rejection_code_catalog_sha256 :: string where
  "rejection_code_catalog_sha256 = sha256_hex (string_bytes (json_dumps rejection_code_catalog))"

section \<open>Values and pointers\<close>

text \<open>Values in a detail are JSON values here; bytes are passed as their hex text.\<close>

fun freeze_value :: "json \<Rightarrow> json res" where
  "freeze_value (JList xs) = res_bind (map_res freeze_value xs) (\<lambda>ys. Inr (JList ys))"
| "freeze_value (JObj kvs) = Inl (ValueError ''rejection detail must be JSON serializable'')"
| "freeze_value v = Inr v"

fun freeze_items :: "(string \<times> json) list \<Rightarrow> (string, json) dict \<Rightarrow> (string, json) dict res" where
  "freeze_items [] frozen = Inr frozen"
| "freeze_items (kv # kvs) frozen =
     (if fst kv = [] then Inl (ValueError ''rejection detail keys must be nonempty strings'')
      else res_bind (freeze_value (snd kv)) (\<lambda>v. freeze_items kvs (dict_set frozen (fst kv) v)))"

definition freeze_detail :: "(string \<times> json) list option \<Rightarrow> (string \<times> json) list option res" where
  "freeze_detail d = (case d of None \<Rightarrow> Inr None
     | Some kvs \<Rightarrow> res_bind (freeze_items kvs []) (\<lambda>frozen. Inr (Some (sort_key fst frozen))))"

definition ident_start :: "char \<Rightarrow> bool" where
  "ident_start c = ((CHR ''A'' \<le> c \<and> c \<le> CHR ''Z'') \<or> (CHR ''a'' \<le> c \<and> c \<le> CHR ''z'') \<or> c = CHR ''_'')"

definition digit :: "char \<Rightarrow> bool" where
  "digit c = (CHR ''0'' \<le> c \<and> c \<le> CHR ''9'')"

text \<open>The pattern of a pointer: identifiers with an optional decimal index, separated by dots.
  \<open>$\<close> also matches before a final line feed.\<close>

definition match_ident :: "string \<Rightarrow> string option" where
  "match_ident s = (case s of [] \<Rightarrow> None
     | c # cs \<Rightarrow> if ident_start c then Some (dropWhile (\<lambda>c. ident_start c \<or> digit c) cs) else None)"

definition match_index :: "string \<Rightarrow> string" where
  "match_index s = (case s of [] \<Rightarrow> s
     | c # cs \<Rightarrow> if c = CHR ''['' \<and> takeWhile digit cs \<noteq> [] then
         (case dropWhile digit cs of [] \<Rightarrow> s | d # ds \<Rightarrow> if d = CHR '']'' then ds else s)
       else s)"

fun match_path :: "nat \<Rightarrow> string \<Rightarrow> bool" where
  "match_path 0 s = False"
| "match_path (Suc n) s = (case match_ident s of None \<Rightarrow> False
     | Some s' \<Rightarrow> (case match_index s' of [] \<Rightarrow> True
         | c # cs \<Rightarrow> (if c = char_of (10::nat) \<and> cs = [] then True
                     else if c = CHR ''.'' then match_path n cs else False)))"

text \<open>Each round consumes at least one character, so the length of the text is enough fuel.\<close>

definition pointer_ok :: "string \<Rightarrow> bool" where
  "pointer_ok p = match_path (Suc (length p)) p"

section \<open>Rejections\<close>

definition coerce_code :: "string \<Rightarrow> rejection_code res" where
  "coerce_code s = (case find (\<lambda>c. code_value c = s) all_codes of
     None \<Rightarrow> Inl (ValueError (''unknown rejection code: '' @ py_repr s)) | Some c \<Rightarrow> Inr c)"

definition make_rejection :: "rejection_code \<Rightarrow> string \<Rightarrow> (string \<times> json) list option \<Rightarrow> string \<Rightarrow> rejection res" where
  "make_rejection c p d v =
     (if v \<noteq> REJECTION_SCHEMA_VERSION
      then Inl (ValueError (''unknown rejection schema version: '' @ py_repr v))
      else if \<not> pointer_ok p
      then Inl (ValueError (''rejection pointer must be a dotted field path: '' @ py_repr p))
      else res_bind (freeze_detail d) (\<lambda>d'. Inr \<lparr>code = c, pointer = p, detail = d', schema_version = v\<rparr>))"

definition rejection_document :: "rejection \<Rightarrow> json" where
  "rejection_document r = JObj [
     (''schema_version'', JStr (schema_version r)),
     (''code'', JStr (code_value (code r))),
     (''pointer'', JStr (pointer r)),
     (''detail'', case detail r of None \<Rightarrow> JNull | Some kvs \<Rightarrow> JObj kvs)]"

definition REJECTION_DOCUMENT_KEYS :: "string list" where
  "REJECTION_DOCUMENT_KEYS = [''schema_version'', ''code'', ''pointer'', ''detail'']"

text \<open>The values of a document may have any JSON type; the constructor refuses the wrong ones in
  the order of its checks: code, schema version, pointer, detail.\<close>

definition document_code :: "json \<Rightarrow> rejection_code res" where
  "document_code v = (case v of JStr s \<Rightarrow> coerce_code s
     | _ \<Rightarrow> Inl (ValueError (''unknown rejection code: '' @ json_repr v)))"

definition document_pointer :: "json \<Rightarrow> string res" where
  "document_pointer v = (case v of
     JStr p \<Rightarrow> if pointer_ok p then Inr p
       else Inl (ValueError (''rejection pointer must be a dotted field path: '' @ py_repr p))
   | _ \<Rightarrow> Inl (ValueError (''rejection pointer must be a dotted field path: '' @ json_repr v)))"

definition document_detail :: "json \<Rightarrow> (string \<times> json) list option res" where
  "document_detail v = (case v of JNull \<Rightarrow> Inr None | JObj kvs \<Rightarrow> Inr (Some kvs)
     | _ \<Rightarrow> Inl (ValueError ''rejection detail must be a mapping or None''))"

definition rejection_from_document :: "json \<Rightarrow> rejection res" where
  "rejection_from_document doc = (case doc of
     JObj kvs \<Rightarrow>
       (if set (map fst kvs) \<noteq> set REJECTION_DOCUMENT_KEYS
        then Inl (ValueError ''rejection document keys are fixed by the schema'')
        else res_bind (document_code (dict_get kvs ''code'' JNull)) (\<lambda>c.
          if dict_get kvs ''schema_version'' JNull \<noteq> JStr REJECTION_SCHEMA_VERSION
          then Inl (ValueError (''unknown rejection schema version: ''
                 @ json_repr (dict_get kvs ''schema_version'' JNull)))
          else res_bind (document_pointer (dict_get kvs ''pointer'' JNull)) (\<lambda>p.
            res_bind (document_detail (dict_get kvs ''detail'' JNull)) (\<lambda>d.
              make_rejection c p d REJECTION_SCHEMA_VERSION))))
   | _ \<Rightarrow> Inl (ValueError ''rejection document keys are fixed by the schema''))"

definition rejection_str :: "rejection \<Rightarrow> string" where
  "rejection_str r = code_value (code r) @ ''@'' @ pointer r"

text \<open>Raising: the result type is any, since the call never returns.\<close>

definition reject :: "rejection_code \<Rightarrow> string \<Rightarrow> string \<Rightarrow> (string \<times> json) list \<Rightarrow> 'a res" where
  "reject c message p d =
     (case make_rejection c p (if d = [] then None else Some d) REJECTION_SCHEMA_VERSION of
        Inl e \<Rightarrow> Inl e | Inr r \<Rightarrow> Inl (RejectionError message r))"

fun exc_message :: "exc \<Rightarrow> string" where
  "exc_message (ValueError m) = m"
| "exc_message (RuntimeError m) = m"
| "exc_message (InstructionNotReady m) = m"
| "exc_message (KeyError m) = m"
| "exc_message (IndexError m) = m"
| "exc_message (OperationError m) = m"
| "exc_message (TypeError m) = m"
| "exc_message (AssertionError m) = m"
| "exc_message (ConstraintIrError m) = m"
| "exc_message (OverflowError m) = m"
| "exc_message (StopIteration m) = m"
| "exc_message (RejectionError m r) = m"

definition LEGACY_MESSAGES :: "(string \<times> rejection_code \<times> string) list" where
  "LEGACY_MESSAGES =
     [(''instruction bytes are outside declared online slots'', SLOT_OUT_OF_RESERVATION, ''memory.address''),
      (''instruction slots contain determined bytes'', SLOT_MATERIALIZED, ''memory.address''),
      (''initialized byte budget exceeded'', BUDGET_EXHAUSTED, ''memory.max_initialized_bytes'')]"

definition OVERWRITE_MESSAGE :: string where
  "OVERWRITE_MESSAGE = ''instruction admission would overwrite determined bytes''"

definition CONSUMED_WRITER_KIND :: string where
  "CONSUMED_WRITER_KIND = ''INSTRUCTION_SOURCE''"

definition rejection_of :: "exc \<Rightarrow> string list \<Rightarrow> rejection option res" where
  "rejection_of e kinds = (case e of
     RejectionError m r \<Rightarrow> Inr (Some r)
   | _ \<Rightarrow>
     (if exc_message e = OVERWRITE_MESSAGE then
        (if kinds \<noteq> [] \<and> list_all (\<lambda>k. k = CONSUMED_WRITER_KIND) kinds
         then map_sum id Some (make_rejection SLOT_ALREADY_CONSUMED ''memory.address''
                (Some [(''occupant'', JStr CONSUMED_WRITER_KIND)]) REJECTION_SCHEMA_VERSION)
         else map_sum id Some (make_rejection SLOT_MATERIALIZED ''memory.address''
                (if kinds \<noteq> [] then Some [(''occupant'', JStr (join ''|'' (sort (remdups kinds))))] else None)
                REJECTION_SCHEMA_VERSION))
      else (case map_of LEGACY_MESSAGES (exc_message e) of None \<Rightarrow> Inr None
        | Some (c, p) \<Rightarrow> map_sum id Some (make_rejection c p None REJECTION_SCHEMA_VERSION))))"

section \<open>Lemmas\<close>

lemma coerce_code_value: "coerce_code (code_value c) = Inr c"
  by (cases c) (simp_all add: coerce_code_def all_codes_def)

lemma freeze_value_id: "freeze_value v = Inr w \<Longrightarrow> w = v"
proof (induction v arbitrary: w rule: freeze_value.induct)
  case (1 xs)
  then obtain ys where ys: "map_res freeze_value xs = Inr ys" "w = JList ys"
    by auto
  then have "list_all2 (\<lambda>x y. freeze_value x = Inr y) xs ys"
    by (simp add: map_res_Inr_iff)
  then have "list_all2 (=) ys xs"
    unfolding list_all2_conv_all_nth using "1.IH" by (metis nth_mem)
  with ys show ?case by (simp add: list_all2_eq)
qed auto

lemma freeze_items_id:
  assumes "freeze_items kvs frozen = Inr out"
  shows "out = dict_set_all frozen kvs" "\<forall>kv \<in> set kvs. fst kv \<noteq> [] \<and> freeze_value (snd kv) = Inr (snd kv)"
  using assms by (induction kvs arbitrary: frozen) (auto split: if_splits dest: freeze_value_id)

lemma freeze_items_done:
  "\<forall>kv \<in> set kvs. fst kv \<noteq> [] \<and> freeze_value (snd kv) = Inr (snd kv) \<Longrightarrow> freeze_items kvs frozen = Inr (dict_set_all frozen kvs)"
  by (induction kvs arbitrary: frozen) auto

text \<open>A detail as the constructor leaves it.\<close>

lemma freeze_detail_frozen:
  assumes "freeze_detail d = Inr f"
  shows "freeze_detail f = Inr f"
proof (cases d)
  case None
  with assms show ?thesis by (simp add: freeze_detail_def)
next
  case (Some kvs)
  with assms obtain out where out: "freeze_items kvs [] = Inr out" "f = Some (sort_key fst out)"
    by (auto simp: freeze_detail_def)
  note id = freeze_items_id [OF out(1)]
  have "set out \<subseteq> set kvs"
    unfolding id(1) by (rule dict_set_all_subset)
  with id(2) have ok: "\<forall>kv \<in> set (sort_key fst out). fst kv \<noteq> [] \<and> freeze_value (snd kv) = Inr (snd kv)"
    by auto
  have "distinct (map fst out)"
    unfolding id(1) by simp
  then have "distinct (map fst (sort_key fst out))"
    by (simp add: distinct_map)
  then have "freeze_items (sort_key fst out) [] = Inr (sort_key fst out)"
    by (simp add: freeze_items_done [OF ok] dict_set_all_new dict_has_def)
  then show ?thesis by (simp add: freeze_detail_def out sort_key_id_if_sorted)
qed

lemma make_rejection_stored:
  assumes "make_rejection c p d v = Inr r"
  shows "make_rejection (code r) (pointer r) (detail r) (schema_version r) = Inr r"
    and "schema_version r = REJECTION_SCHEMA_VERSION" and "pointer_ok (pointer r)"
  using assms by (auto simp: make_rejection_def freeze_detail_frozen split: if_splits)

definition rejection_valid :: "rejection \<Rightarrow> bool" where
  "rejection_valid r \<longleftrightarrow> make_rejection (code r) (pointer r) (detail r) (schema_version r) = Inr r"

definition decode_rejection :: "json \<Rightarrow> rejection option" where
  "decode_rejection doc = (case rejection_from_document doc of Inl _ \<Rightarrow> None | Inr r \<Rightarrow> Some r)"

lemma document_roundtrip:
  assumes "rejection_valid r"
  shows "rejection_from_document (rejection_document r) = Inr r"
proof -
  note s = make_rejection_stored [OF assms [unfolded rejection_valid_def]]
  have "document_detail (case detail r of None \<Rightarrow> JNull | Some kvs \<Rightarrow> JObj kvs) = Inr (detail r)"
    by (simp add: document_detail_def split: option.splits)
  with s show ?thesis
    by (auto simp: rejection_from_document_def rejection_document_def REJECTION_DOCUMENT_KEYS_def dict_get_def
        document_code_def document_pointer_def coerce_code_value)
qed

interpretation rejection_encoding: encoding rejection_document decode_rejection rejection_valid
  by unfold_locales (simp add: decode_rejection_def document_roundtrip)

section \<open>Properties\<close>

text \<open>C40: A refusal can be recomputed: reading back the document of a rejection that the constructor
  accepted gives that rejection, so two different rejections never share a document.\<close>

theorem rejection_document_roundtrip:
  assumes "make_rejection c p d v = Inr r" and "make_rejection c' p' d' v' = Inr r'"
  shows "rejection_from_document (rejection_document r) = Inr r
    \<and> (rejection_document r = rejection_document r' \<longleftrightarrow> r = r')"
proof -
  have "rejection_valid r" "rejection_valid r'"
    using assms make_rejection_stored(1) by (simp_all add: rejection_valid_def)
  then show ?thesis
    by (simp add: document_roundtrip rejection_encoding.enc_inj)
qed

theorem rejection_document_roundtrip_witness:
  "\<exists>r. make_rejection FIELD_BAD_SHAMT ''fragment[4].shamt'' (Some [(''shamt'', JInt 40), (''opcode'', JInt 19)]) REJECTION_SCHEMA_VERSION = Inr r
    \<and> rejection_from_document (rejection_document r) = Inr r"
proof -
  have "pointer_ok ''fragment[4].shamt''"
    by (simp add: pointer_ok_def match_ident_def match_index_def ident_start_def digit_def)
  then obtain r where r: "make_rejection FIELD_BAD_SHAMT ''fragment[4].shamt'' (Some [(''shamt'', JInt 40), (''opcode'', JInt 19)]) REJECTION_SCHEMA_VERSION = Inr r"
    by (simp add: make_rejection_def freeze_detail_def)
  with rejection_document_roundtrip [OF r r] show ?thesis by blast
qed


end
