(* ===== verification/Isa.thy ===== *)
theory Isa
  imports Stdlib
begin

text \<open>
  The legality of RISC-V instruction words (\<open>isa/constraints.py\<close>): the declared ISA facts
  of a CPU and the checks for the I, M and C encodings of RV32 and RV64.
\<close>

section \<open>Definitions\<close>

definition implemented_extensions :: "string list" where
  "implemented_extensions = [''I'', ''M'', ''C'']"

definition riscv_cpu_families :: "string list" where
  "riscv_cpu_families = [''riscv'', ''vexiiriscv'']"

text \<open>The fields of \<open>profile.cpu\<close> the code reads; a missing or non-text family is \<open>None\<close>.\<close>

record cpu_facts =
  family :: "string option"
  cpu_xlen :: int
  cpu_extensions :: "string list"

definition declared_riscv_cpu :: "cpu_facts \<Rightarrow> bool" where
  "declared_riscv_cpu cpu = (case family cpu of None \<Rightarrow> False
     | Some f \<Rightarrow> str_lower (str_strip f) \<in> set riscv_cpu_families)"

record isa_contract =
  xlen :: int
  extensions :: "string list"
  privilege_modes :: "string list"
  instruction_alignment :: int

definition make_isa_contract :: "int \<Rightarrow> string list \<Rightarrow> string list \<Rightarrow> int \<Rightarrow> isa_contract res" where
  "make_isa_contract xl exts modes alignment =
     (if xl \<noteq> 32 \<and> xl \<noteq> 64 then Inl (ValueError ''xlen must be 32 or 64'')
      else if exts = [] \<or> \<not> distinct exts
        then Inl (ValueError ''extensions must be a nonempty unique set'')
      else if list_ex (\<lambda>e. e = []) exts then Inl (ValueError ''extensions must be nonempty strings'')
      else if alignment \<noteq> 2 \<and> alignment \<noteq> 4
        then Inl (ValueError ''instruction_alignment must be 2 or 4'')
      else if modes = [] \<or> list_ex (\<lambda>m. m = []) modes
        then Inl (ValueError ''privilege_modes must be nonempty strings'')
      else Inr \<lparr>xlen = xl, extensions = exts, privilege_modes = modes,
                instruction_alignment = alignment\<rparr>)"

definition supports_legal_instruction_validation :: "isa_contract \<Rightarrow> bool" where
  "supports_legal_instruction_validation c =
     (''I'' \<in> set (extensions c)
      \<and> list_all (\<lambda>e. e \<in> set implemented_extensions) (extensions c))"

definition f1_isa_from_profile :: "cpu_facts \<Rightarrow> isa_contract res" where
  "f1_isa_from_profile cpu =
     (if \<not> declared_riscv_cpu cpu \<or> (cpu_xlen cpu \<noteq> 32 \<and> cpu_xlen cpu \<noteq> 64)
      then Inl (ValueError ''F1 requires a declared RV32 or RV64 CPU'')
      else (let exts = map str_upper (cpu_extensions cpu) in
        if ''I'' \<notin> set exts then Inl (ValueError ''F1 requires the I extension'')
        else (let selected = ''I'' # filter (\<lambda>e. e \<in> set exts) [''M'', ''C''] in
          make_isa_contract (cpu_xlen cpu) selected [''M'']
            (if ''C'' \<in> set exts then 2 else 4))))"

definition compressed_legal :: "isa_contract \<Rightarrow> int \<Rightarrow> bool" where
  "compressed_legal c value =
     (if ''C'' \<notin> set (extensions c) \<or> instruction_alignment c \<noteq> 2
         \<or> value > 0xFFFF \<or> bits 0 2 value = 3 then False
      else
       (let quadrant = bits 0 2 value;
            funct3 = bits 13 3 value;
            rd = bits 7 5 value;
            rs2 = bits 2 5 value;
            shift = bits 2 5 value OR push_bit 5 (bits 12 1 value)
        in
        if quadrant = 0 then
          (if funct3 = 0 then
             (let nzuimm = (value AND push_bit 7 0xF) OR (value AND push_bit 11 3)
                     OR (value AND push_bit 5 1) OR (value AND push_bit 6 1)
              in nzuimm \<noteq> 0)
           else if funct3 \<in> {2, 6} then True
           else funct3 \<in> {3, 7} \<and> xlen c = 64)
        else if quadrant = 1 then
          (let immediate = bits 2 5 value OR push_bit 5 (bits 12 1 value) in
           if funct3 = 0 then rd \<noteq> 0 \<or> immediate = 0
           else if funct3 = 1 then xlen c = 32 \<or> rd \<noteq> 0
           else if funct3 = 2 then rd \<noteq> 0
           else if funct3 = 3 then
             (if rd = 2 then
                ((value AND push_bit 12 1) OR (value AND push_bit 6 1) OR (value AND push_bit 5 1)
                 OR (value AND push_bit 3 3) OR (value AND push_bit 2 1)) \<noteq> 0
              else rd \<notin> {0, 2} \<and> immediate \<noteq> 0)
           else if funct3 \<in> {5, 6, 7} then True
           else if funct3 \<noteq> 4 then False
           else (let operation = bits 10 2 value in
             if operation \<noteq> 3 then
               (if operation \<in> {0, 1} then shift \<noteq> 0 \<and> (xlen c = 64 \<or> shift AND 0x20 = 0)
                else True)
             else (let operation' = bits 5 2 value in
               if bits 12 1 value \<noteq> 0 then xlen c = 64 \<and> operation' \<in> {0, 1}
               else operation' \<in> {0, 1, 2, 3})))
        else if quadrant = 2 then
          (if funct3 = 0 then rd \<noteq> 0 \<and> shift \<noteq> 0 \<and> (xlen c = 64 \<or> shift AND 0x20 = 0)
           else if funct3 = 2 then rd \<noteq> 0
           else if funct3 = 3 then xlen c = 64 \<and> rd \<noteq> 0
           else if funct3 = 4 then
             (if bits 12 1 value = 0 then rd \<noteq> 0
              else if rd = 0 then rs2 = 0
              else True)
           else if funct3 = 6 then True
           else funct3 = 7 \<and> xlen c = 64)
        else False))"

definition base_legal :: "isa_contract \<Rightarrow> int \<Rightarrow> bool" where
  "base_legal c value =
     (let opcode = bits 0 7 value;
          funct3 = bits 12 3 value;
          funct7 = bits 25 7 value;
          rd = bits 7 5 value;
          rs1 = bits 15 5 value
      in
      if opcode = 0x13 then
        (if funct3 \<in> {0, 2, 3, 4, 6, 7} then True
         else if funct3 = 1 then (if xlen c = 64 then drop_bit 26 value = 0 else funct7 = 0)
         else if funct3 = 5 then
           (if xlen c = 64 then drop_bit 26 value \<in> {0, 0x10} else funct7 \<in> {0, 0x20})
         else False)
      else if opcode = 0x1B then
        (if xlen c \<noteq> 64 then False
         else if funct3 = 0 then True
         else if funct3 = 1 then funct7 = 0
         else funct3 = 5 \<and> funct7 \<in> {0, 0x20})
      else if opcode = 0x3B then
        (if xlen c \<noteq> 64 then False
         else if funct7 = 0 then funct3 \<in> {0, 1, 5}
         else if funct7 = 0x20 then funct3 \<in> {0, 5}
         else funct7 = 1 \<and> funct3 \<in> {0, 4, 5, 6, 7} \<and> ''M'' \<in> set (extensions c))
      else if opcode = 0x33 then
        (if funct7 = 1 then ''M'' \<in> set (extensions c)
         else if funct7 = 0 then True
         else funct7 = 0x20 \<and> funct3 \<in> {0, 5})
      else if opcode = 0x03 then
        funct3 \<in> (if xlen c = 32 then {0, 1, 2, 4, 5} else {0, 1, 2, 3, 4, 5, 6})
      else if opcode = 0x23 then
        funct3 \<in> (if xlen c = 32 then {0, 1, 2} else {0, 1, 2, 3})
      else if opcode = 0x63 then funct3 \<in> {0, 1, 4, 5, 6, 7}
      else if opcode \<in> {0x17, 0x37, 0x6F} then True
      else if opcode = 0x67 then funct3 = 0
      else if opcode = 0x0F then funct3 = 0 \<and> rd = 0 \<and> rs1 = 0 \<and> bits 28 4 value = 0
      else if opcode = 0x73 then
        (if funct3 \<noteq> 0 \<or> rd \<noteq> 0 \<or> rs1 \<noteq> 0 then False
         else (let immediate = bits 20 12 value in
           if immediate \<in> {0, 1} then True
           else if immediate = 0x302 then ''M'' \<in> set (privilege_modes c)
           else if immediate = 0x102 then ''S'' \<in> set (privilege_modes c)
           else immediate = 0x105))
      else False)"

definition is_legal_word :: "isa_contract \<Rightarrow> int \<Rightarrow> bool \<Rightarrow> bool" where
  "is_legal_word c value compressed =
     (if value < 0 then False
      else if \<not> supports_legal_instruction_validation c then False
      else if compressed then compressed_legal c value
      else if value > 0xFFFFFFFF \<or> bits 0 2 value \<noteq> 3 then False
      else base_legal c value)"

definition constrain_word :: "isa_contract \<Rightarrow> int \<Rightarrow> bool \<Rightarrow> int res" where
  "constrain_word c value compressed =
     (if \<not> is_legal_word c value compressed then Inl (ValueError ''illegal RISC-V instruction word'')
      else Inr (value AND (if compressed then 0xFFFF else 0xFFFFFFFF)))"

section \<open>Lemmas\<close>

text \<open>A contract that a constructor call returned.\<close>

definition isa_contract_ok :: "isa_contract \<Rightarrow> bool" where
  "isa_contract_ok c \<longleftrightarrow>
     make_isa_contract (xlen c) (extensions c) (privilege_modes c) (instruction_alignment c) = Inr c"

lemma make_isa_contract_Inr:
  "make_isa_contract xl exts modes al = Inr c \<longleftrightarrow>
     (xl = 32 \<or> xl = 64) \<and> exts \<noteq> [] \<and> distinct exts \<and> [] \<notin> set exts \<and> (al = 2 \<or> al = 4)
     \<and> modes \<noteq> [] \<and> [] \<notin> set modes
     \<and> c = \<lparr>xlen = xl, extensions = exts, privilege_modes = modes, instruction_alignment = al\<rparr>"
  unfolding make_isa_contract_def list_ex_iff by (simp split: if_split) blast

lemma make_isa_contract_ok: "make_isa_contract xl exts modes al = Inr c \<Longrightarrow> isa_contract_ok c"
  unfolding isa_contract_ok_def make_isa_contract_Inr by simp

lemma isa_contract_xlen: "isa_contract_ok c \<Longrightarrow> xlen c = 32 \<or> xlen c = 64"
  unfolding isa_contract_ok_def make_isa_contract_Inr by simp
lemma compressed_legal_bounds: "compressed_legal c w \<Longrightarrow> w \<le> 0xFFFF \<and> bits 0 2 w \<noteq> 3"
  by (rule ccontr) (auto simp: compressed_legal_def)

lemma legal_word_bounds:
  assumes "is_legal_word c w compressed"
  shows "0 \<le> w" and "w < 2 ^ (if compressed then 16 else 32)"
    and "bits 0 2 w = 3 \<longleftrightarrow> \<not> compressed"
  using assms compressed_legal_bounds [of c w]
  by (simp_all add: is_legal_word_def split: if_splits)

lemma take_bit_small: "0 \<le> w \<Longrightarrow> w < 2 ^ n \<Longrightarrow> take_bit n (w :: int) = w"
  by (simp add: take_bit_int_eq_self)

lemma constrain_word_self:
  assumes "is_legal_word c w compressed"
  shows "constrain_word c w compressed = Inr w"
proof -
  have "w AND mask (if compressed then 16 else 32) = w"
    using legal_word_bounds(1,2) [OF assms] by (simp add: take_bit_small flip: take_bit_eq_mask)
  moreover have "mask 16 = (0xFFFF :: int)" "mask 32 = (0xFFFFFFFF :: int)"
    by (simp_all add: mask_eq_exp_minus_1)
  ultimately show ?thesis
    using assms by (auto simp: constrain_word_def)
qed

end
