(* ===== verification/Transducer.thy ===== *)
theory Transducer
  imports Isa
begin

text \<open>
  The instruction transducer (\<open>isa/transducer.py\<close>): instruction templates derived from an ISA
  contract, the balanced selection of a template (\<open>select_balanced\<close> of
  \<open>composition/constraint_ir.py\<close>) and the repair of raw payload bits into a legal word.
\<close>

section \<open>Templates\<close>

definition OPCODE_MASK :: int where "OPCODE_MASK = 0x7F"
definition FUNCT3_MASK :: int where "FUNCT3_MASK = push_bit 12 0x7"
definition FUNCT7_MASK :: int where "FUNCT7_MASK = push_bit 25 0x7F"
definition RD_MASK :: int where "RD_MASK = push_bit 7 0x1F"
definition RS1_MASK :: int where "RS1_MASK = push_bit 15 0x1F"
definition C_FORMAT_MASK :: int where "C_FORMAT_MASK = push_bit 13 0x7 OR 0x3"
definition C_RD_MASK :: int where "C_RD_MASK = push_bit 7 0x1F"
definition C_RS2_MASK :: int where "C_RS2_MASK = push_bit 2 0x1F"
definition C_IMMEDIATE_MASK :: int where "C_IMMEDIATE_MASK = push_bit 12 1 OR push_bit 2 0x1F"
definition C_ADDI4SPN_IMMEDIATE_MASK :: int where
  "C_ADDI4SPN_IMMEDIATE_MASK = push_bit 12 1 OR push_bit 11 0x3 OR push_bit 7 0xF OR push_bit 5 0x3"

record instruction_template =
  name :: string
  width :: int
  extension :: string
  fixed_mask :: int
  fixed_value :: int

definition word_mask :: "int \<Rightarrow> int" where
  "word_mask w = push_bit (nat w) 1 - 1"

definition make_template :: "string \<Rightarrow> int \<Rightarrow> string \<Rightarrow> int \<Rightarrow> int \<Rightarrow> instruction_template res" where
  "make_template n w ext fm fv =
     (let wm = (if w \<in> {16, 32} then word_mask w else 0) in
      if n = [] \<or> ext \<notin> {''I'', ''M'', ''C''} \<or> wm = 0 \<or> fm AND NOT wm \<noteq> 0 \<or> fv AND NOT fm \<noteq> 0
      then Inl (ValueError ''invalid instruction template'')
      else Inr \<lparr>name = n, width = w, extension = ext, fixed_mask = fm, fixed_value = fv\<rparr>)"

definition template_repair :: "instruction_template \<Rightarrow> int \<Rightarrow> int res" where
  "template_repair t raw =
     (if raw < 0 then Inl (ValueError ''raw instruction payload must be a nonnegative integer'')
      else Inr (((raw AND NOT (fixed_mask t)) OR fixed_value t) AND word_mask (width t)))"

record instruction_choice =
  operation :: string
  choice_width :: int
  choice_word :: int
  free_mask :: int
  legal :: bool

text \<open>\<open>None\<close> for a field the template leaves free; the last two arguments are the keyword
  arguments \<open>extra_mask\<close> and \<open>extra_value\<close>.\<close>

definition base_template ::
    "string \<Rightarrow> string \<Rightarrow> int \<Rightarrow> int option \<Rightarrow> int option \<Rightarrow> int \<Rightarrow> int \<Rightarrow> instruction_template res" where
  "base_template n ext opcode funct3 funct7 extra_mask extra_value =
     (let fm = OPCODE_MASK OR extra_mask; fv = opcode OR extra_value;
          fm = (case funct3 of None \<Rightarrow> fm | Some f \<Rightarrow> fm OR FUNCT3_MASK);
          fv = (case funct3 of None \<Rightarrow> fv | Some f \<Rightarrow> fv OR push_bit 12 f);
          fm = (case funct7 of None \<Rightarrow> fm | Some f \<Rightarrow> fm OR FUNCT7_MASK);
          fv = (case funct7 of None \<Rightarrow> fv | Some f \<Rightarrow> fv OR push_bit 25 f)
      in make_template n 32 ext fm fv)"

definition compressed_template :: "string \<Rightarrow> int \<Rightarrow> int \<Rightarrow> int \<Rightarrow> int \<Rightarrow> instruction_template res" where
  "compressed_template n quadrant funct3 extra_mask extra_value =
     make_template n 16 ''C'' (C_FORMAT_MASK OR extra_mask) (push_bit 13 funct3 OR quadrant OR extra_value)"

text \<open>A tuple display whose items are constructor calls: the first that raises stops it.\<close>

definition build :: "'a res list \<Rightarrow> 'a list res" where
  "build xs = map_res (\<lambda>x. x) xs"

definition i_templates :: "isa_contract \<Rightarrow> instruction_template list res" where
  "i_templates c =
     (let shift_mask = (if xlen c = 32 then FUNCT7_MASK else push_bit 26 0x3F);
          load_forms = [(''LB'', 0), (''LH'', 1), (''LW'', 2), (''LBU'', 4), (''LHU'', 5)]
            @ (if xlen c = 64 then [(''LD'', 3), (''LWU'', 6)] else []);
          store_forms = [(''SB'', 0), (''SH'', 1), (''SW'', 2)]
            @ (if xlen c = 64 then [(''SD'', 3)] else []);
          system_words = [(''ECALL'', 0x00000073), (''EBREAK'', 0x00100073), (''WFI'', 0x10500073)]
            @ (if ''M'' \<in> set (privilege_modes c) then [(''MRET'', 0x30200073)] else [])
            @ (if ''S'' \<in> set (privilege_modes c) then [(''SRET'', 0x10200073)] else [])
      in build (
        map (\<lambda>(n, f3). base_template n ''I'' 0x13 (Some f3) None 0 0)
          [(''ADDI'', 0), (''SLTI'', 2), (''SLTIU'', 3), (''XORI'', 4), (''ORI'', 6), (''ANDI'', 7)]
        @ [base_template ''SLLI'' ''I'' 0x13 (Some 1) None shift_mask 0,
           base_template ''SRLI'' ''I'' 0x13 (Some 5) None shift_mask 0,
           base_template ''SRAI'' ''I'' 0x13 (Some 5) None shift_mask (push_bit 25 0x20)]
        @ map (\<lambda>(n, f3, f7). base_template n ''I'' 0x33 (Some f3) (Some f7) 0 0)
          [(''ADD'', 0, 0), (''SLL'', 1, 0), (''SLT'', 2, 0), (''SLTU'', 3, 0), (''XOR'', 4, 0),
           (''SRL'', 5, 0), (''OR'', 6, 0), (''AND'', 7, 0), (''SUB'', 0, 0x20), (''SRA'', 5, 0x20)]
        @ map (\<lambda>(n, f3). base_template n ''I'' 0x03 (Some f3) None 0 0) load_forms
        @ map (\<lambda>(n, f3). base_template n ''I'' 0x23 (Some f3) None 0 0) store_forms
        @ map (\<lambda>(n, f3). base_template n ''I'' 0x63 (Some f3) None 0 0)
          [(''BEQ'', 0), (''BNE'', 1), (''BLT'', 4), (''BGE'', 5), (''BLTU'', 6), (''BGEU'', 7)]
        @ [base_template ''AUIPC'' ''I'' 0x17 None None 0 0,
           base_template ''LUI'' ''I'' 0x37 None None 0 0,
           base_template ''JAL'' ''I'' 0x6F None None 0 0,
           base_template ''JALR'' ''I'' 0x67 (Some 0) None 0 0,
           base_template ''FENCE'' ''I'' 0x0F (Some 0) None (push_bit 28 0xF OR RS1_MASK OR RD_MASK) 0]
        @ map (\<lambda>(n, w). make_template n 32 ''I'' 0xFFFFFFFF w) system_words
        @ (if xlen c = 64 then
             [base_template ''ADDIW'' ''I'' 0x1B (Some 0) None 0 0,
              base_template ''SLLIW'' ''I'' 0x1B (Some 1) (Some 0) 0 0,
              base_template ''SRLIW'' ''I'' 0x1B (Some 5) (Some 0) 0 0,
              base_template ''SRAIW'' ''I'' 0x1B (Some 5) (Some 0x20) 0 0]
             @ map (\<lambda>(n, f3, f7). base_template n ''I'' 0x3B (Some f3) (Some f7) 0 0)
               [(''ADDW'', 0, 0), (''SLLW'', 1, 0), (''SRLW'', 5, 0), (''SUBW'', 0, 0x20),
                (''SRAW'', 5, 0x20)]
           else [])))"

definition m_templates :: "isa_contract \<Rightarrow> instruction_template list res" where
  "m_templates c = build (
     map (\<lambda>(n, f3). base_template n ''M'' 0x33 (Some f3) (Some 1) 0 0)
       [(''MUL'', 0), (''MULH'', 1), (''MULHSU'', 2), (''MULHU'', 3), (''DIV'', 4), (''DIVU'', 5),
        (''REM'', 6), (''REMU'', 7)]
     @ (if xlen c = 64 then
          map (\<lambda>(n, f3). base_template n ''M'' 0x3B (Some f3) (Some 1) 0 0)
            [(''MULW'', 0), (''DIVW'', 4), (''DIVUW'', 5), (''REMW'', 6), (''REMUW'', 7)]
        else []))"

definition c_arith_mask :: int where
  "c_arith_mask = push_bit 12 1 OR push_bit 10 0x3 OR push_bit 5 0x3"

definition c_common_calls :: "instruction_template res list" where
  "c_common_calls = [
     compressed_template ''C.ADDI4SPN'' 0 0 0 0,
     compressed_template ''C.LW'' 0 2 0 0,
     compressed_template ''C.SW'' 0 6 0 0,
     compressed_template ''C.ADDI'' 1 0 0 0,
     compressed_template ''C.LI'' 1 2 0 0,
     compressed_template ''C.ADDI16SP'' 1 3 C_RD_MASK (push_bit 7 2),
     compressed_template ''C.LUI'' 1 3 0 0,
     compressed_template ''C.SRLI'' 1 4 (push_bit 10 0x3) 0,
     compressed_template ''C.SRAI'' 1 4 (push_bit 10 0x3) (push_bit 10 1),
     compressed_template ''C.ANDI'' 1 4 (push_bit 10 0x3) (push_bit 10 2),
     compressed_template ''C.SUB'' 1 4 c_arith_mask (push_bit 10 3),
     compressed_template ''C.XOR'' 1 4 c_arith_mask (push_bit 10 3 OR push_bit 5 1),
     compressed_template ''C.OR'' 1 4 c_arith_mask (push_bit 10 3 OR push_bit 5 2),
     compressed_template ''C.AND'' 1 4 c_arith_mask (push_bit 10 3 OR push_bit 5 3),
     compressed_template ''C.J'' 1 5 0 0,
     compressed_template ''C.BEQZ'' 1 6 0 0,
     compressed_template ''C.BNEZ'' 1 7 0 0,
     compressed_template ''C.SLLI'' 2 0 0 0,
     compressed_template ''C.LWSP'' 2 2 0 0,
     compressed_template ''C.JR'' 2 4 (push_bit 12 1 OR C_RS2_MASK) 0,
     compressed_template ''C.MV'' 2 4 (push_bit 12 1) 0,
     make_template ''C.EBREAK'' 16 ''C'' 0xFFFF 0x9002,
     compressed_template ''C.JALR'' 2 4 (push_bit 12 1 OR C_RS2_MASK) (push_bit 12 1),
     compressed_template ''C.ADD'' 2 4 (push_bit 12 1) (push_bit 12 1),
     compressed_template ''C.SWSP'' 2 6 0 0]"

definition reserve_shamt5 :: "instruction_template \<Rightarrow> instruction_template res" where
  "reserve_shamt5 t =
     (if name t \<in> {''C.SRLI'', ''C.SRAI'', ''C.SLLI''}
      then make_template (name t) 16 ''C'' (fixed_mask t OR push_bit 12 1) (fixed_value t)
      else Inr t)"

definition c_rv64_calls :: "instruction_template res list" where
  "c_rv64_calls = [
     compressed_template ''C.LD'' 0 3 0 0,
     compressed_template ''C.SD'' 0 7 0 0,
     compressed_template ''C.ADDIW'' 1 1 0 0,
     compressed_template ''C.SUBW'' 1 4 c_arith_mask (push_bit 12 1 OR push_bit 10 3),
     compressed_template ''C.ADDW'' 1 4 c_arith_mask (push_bit 12 1 OR push_bit 10 3 OR push_bit 5 1),
     compressed_template ''C.LDSP'' 2 3 0 0,
     compressed_template ''C.SDSP'' 2 7 0 0]"

definition c_templates :: "isa_contract \<Rightarrow> instruction_template list res" where
  "c_templates c =
     res_bind (build c_common_calls) (\<lambda>ts.
       if xlen c = 32 then
         res_bind (compressed_template ''C.JAL'' 1 1 0 0) (\<lambda>jal.
           map_res reserve_shamt5 (take 4 ts @ jal # drop 4 ts))
       else res_bind (build c_rv64_calls) (\<lambda>more. Inr (ts @ more)))"

section \<open>Selection and repair\<close>

definition select_balanced :: "int \<Rightarrow> int \<Rightarrow> 'a list \<Rightarrow> 'a res" where
  "select_balanced raw raw_width choices =
     (if raw_width \<le> 0 \<or> \<not> (0 \<le> raw \<and> raw < push_bit (nat raw_width) 1) \<or> choices = []
      then Inl (ConstraintIrError ''invalid selection'')
      else (let domain = push_bit (nat raw_width) 1; n = int (length choices) in
        Inr (choices ! nat (min (n - 1) (raw * n div domain)))))"

record transducer =
  contract :: isa_contract
  templates :: "instruction_template list"
  by_name :: "(string, instruction_template) dict"

definition selector_width :: int where
  "selector_width = 8"

definition make_transducer :: "isa_contract \<Rightarrow> transducer res" where
  "make_transducer c =
     (if \<not> supports_legal_instruction_validation c
      then Inl (ValueError ''instruction transducer requires an implemented ISA contract'')
      else res_bind (i_templates c) (\<lambda>its.
        res_bind (if ''M'' \<in> set (extensions c) then m_templates c else Inr []) (\<lambda>mts.
        res_bind (if ''C'' \<in> set (extensions c) \<and> instruction_alignment c = 2 then c_templates c else Inr [])
          (\<lambda>cts. let ts = its @ mts @ cts in
            Inr \<lparr>contract = c, templates = ts, by_name = dict_set_all [] (map (\<lambda>t. (name t, t)) ts)\<rparr>))))"

text \<open>The word being repaired and the bits the repair has set so far.\<close>

definition ensure_nonzero :: "int \<Rightarrow> int \<times> int \<Rightarrow> int \<times> int" where
  "ensure_nonzero m s = (case s of (word, repaired) \<Rightarrow>
     (if word AND m = 0 then (let b = m AND (- m) in (word OR b, repaired OR b)) else s))"

definition set_bit7 :: "int \<times> int \<Rightarrow> int \<times> int" where
  "set_bit7 s = (fst s OR push_bit 7 1, snd s OR push_bit 7 1)"

definition repair_fields :: "string \<Rightarrow> int \<times> int \<Rightarrow> int \<times> int" where
  "repair_fields n s =
     (if n = ''C.ADDI4SPN'' then ensure_nonzero C_ADDI4SPN_IMMEDIATE_MASK s
      else if n = ''C.ADDI'' then
        (if fst s AND C_RD_MASK = 0 \<and> fst s AND C_IMMEDIATE_MASK \<noteq> 0 then set_bit7 s else s)
      else if n \<in> {''C.LI'', ''C.ADDIW'', ''C.LWSP'', ''C.LDSP'', ''C.JR'', ''C.JALR''}
        then ensure_nonzero C_RD_MASK s
      else if n = ''C.ADDI16SP'' then ensure_nonzero C_IMMEDIATE_MASK s
      else if n = ''C.LUI'' then
        (let rd = fst s AND C_RD_MASK;
             s = (if rd \<in> {0, push_bit 7 2} then set_bit7 s else s)
         in ensure_nonzero C_IMMEDIATE_MASK s)
      else if n \<in> {''C.SRLI'', ''C.SRAI'', ''C.SLLI''} then
        (let s = (if n = ''C.SLLI'' then ensure_nonzero C_RD_MASK s else s)
         in ensure_nonzero C_IMMEDIATE_MASK s)
      else if n \<in> {''C.MV'', ''C.ADD''} then ensure_nonzero C_RS2_MASK (ensure_nonzero C_RD_MASK s)
      else s)"

definition repair_template :: "isa_contract \<Rightarrow> instruction_template \<Rightarrow> int \<Rightarrow> instruction_choice res" where
  "repair_template c t raw =
     res_bind (template_repair t raw) (\<lambda>word.
       let (word, repaired) = repair_fields (name t) (word, 0);
           free = word_mask (width t) AND NOT (fixed_mask t OR repaired)
       in if \<not> is_legal_word c word (width t = 16)
          then Inl (AssertionError (''instruction template produced an illegal word: '' @ name t))
          else Inr \<lparr>operation = name t, choice_width = width t, choice_word = word,
                    free_mask = free, legal = True\<rparr>)"

definition illegal_choice :: "isa_contract \<Rightarrow> int \<Rightarrow> int \<Rightarrow> instruction_choice res" where
  "illegal_choice c raw w =
     (if raw < 0 then Inl (ValueError ''raw instruction payload must be a nonnegative integer'')
      else if w = 16 then
        (let free = push_bit 2 0x7; word = raw AND free in
         Inr \<lparr>operation = ''ILLEGAL'', choice_width = 16, choice_word = word, free_mask = free,
              legal = is_legal_word c word True\<rparr>)
      else
        (let word = ((raw AND word_mask w) AND NOT OPCODE_MASK) OR 0x4B;
             free = word_mask w AND NOT OPCODE_MASK in
         Inr \<lparr>operation = ''ILLEGAL'', choice_width = 32, choice_word = word, free_mask = free,
              legal = is_legal_word c word False\<rparr>))"

definition repair :: "transducer \<Rightarrow> int \<Rightarrow> int \<Rightarrow> bool \<Rightarrow> int \<Rightarrow> instruction_choice res" where
  "repair tr raw_selector raw_payload illegal w =
     (if \<not> (0 \<le> raw_selector \<and> raw_selector < push_bit (nat selector_width) 1)
      then Inl (ValueError ''raw instruction selector must fit eight bits'')
      else if w \<notin> {16, 32} then Inl (ValueError ''instruction width must be 16 or 32'')
      else (let choices = filter (\<lambda>t. width t = w) (templates tr) in
        if choices = [] then Inl (ValueError ''no operations available for instruction width'')
        else res_bind (select_balanced raw_selector selector_width
            (map Some choices @ (if illegal then [None] else []))) (\<lambda>chosen.
          case chosen of None \<Rightarrow> illegal_choice (contract tr) raw_payload w
            | Some t \<Rightarrow> repair_template (contract tr) t raw_payload)))"

definition repair_payload :: "transducer \<Rightarrow> int \<Rightarrow> int \<Rightarrow> bool \<Rightarrow> instruction_choice res" where
  "repair_payload tr raw_payload w illegal =
     (if raw_payload < 0 then Inl (ValueError ''raw instruction payload must be a nonnegative integer'')
      else if w \<notin> {16, 32} then Inl (ValueError ''instruction width must be 16 or 32'')
      else (let selector = drop_bit (nat (max 0 (w - selector_width))) raw_payload
                AND (push_bit (nat selector_width) 1 - 1)
        in repair tr selector raw_payload illegal w))"

definition repair_for_operation :: "transducer \<Rightarrow> string \<Rightarrow> int \<Rightarrow> instruction_choice res" where
  "repair_for_operation tr op raw_payload =
     (case map_of (by_name tr) op of None \<Rightarrow> Inl (ValueError (''unavailable operation: '' @ op))
      | Some t \<Rightarrow> repair_template (contract tr) t raw_payload)"

section \<open>Templates match bit fields\<close>

text \<open>A word matches a template when it agrees with the fixed bits.\<close>

definition matches :: "instruction_template \<Rightarrow> int \<Rightarrow> bool" where
  "matches t w \<longleftrightarrow> w AND fixed_mask t = fixed_value t"

lemma word_mask_eq: "0 \<le> w \<Longrightarrow> word_mask w = mask (nat w)"
  by (simp add: word_mask_def mask_eq_exp_minus_1 push_bit_eq_mult)

lemma make_template_Inr:
  "make_template n w ext fm fv = Inr t \<longleftrightarrow>
     n \<noteq> [] \<and> ext \<in> {''I'', ''M'', ''C''} \<and> w \<in> {16, 32} \<and> fm AND NOT (word_mask w) = 0 \<and> fv AND NOT fm = 0
     \<and> t = \<lparr>name = n, width = w, extension = ext, fixed_mask = fm, fixed_value = fv\<rparr>"
  unfolding make_template_def Let_def
  by (simp add: word_mask_eq) blast

lemma subset_mask: "(x :: int) AND NOT y = 0 \<longleftrightarrow> x AND y = x"
  by (auto simp: bit_eq_iff bit_simps)

definition template_ok :: "instruction_template \<Rightarrow> bool" where
  "template_ok t \<longleftrightarrow> width t \<in> {16, 32} \<and> fixed_mask t AND mask (nat (width t)) = fixed_mask t
     \<and> fixed_value t AND fixed_mask t = fixed_value t"

lemma make_template_ok: "make_template n w ext fm fv = Inr t \<Longrightarrow> template_ok t"
  by (auto simp: make_template_Inr template_ok_def subset_mask word_mask_eq)

lemma template_repair_matches:
  assumes "template_ok t" and "template_repair t raw = Inr w"
  shows "matches t w" "0 \<le> w" "w < 2 ^ nat (width t)"
    "w AND NOT (fixed_mask t) = (raw AND NOT (fixed_mask t)) AND mask (nat (width t))"
proof -
  have w: "w = ((raw AND NOT (fixed_mask t)) OR fixed_value t) AND mask (nat (width t))" "0 \<le> width t"
    using assms by (auto simp: template_repair_def template_ok_def word_mask_eq split: if_splits)
  have m: "bit (fixed_mask t) i \<Longrightarrow> i < nat (width t)" "bit (fixed_value t) i \<Longrightarrow> bit (fixed_mask t) i" for i
    using assms(1) unfolding template_ok_def by (metis bit_and_iff bit_mask_iff)+
  show "matches t w" unfolding matches_def w(1)
    by (rule bit_eqI) (auto simp: bit_simps dest: m)
  have "w = take_bit (nat (width t)) w"
    unfolding w(1) by (simp add: take_bit_eq_mask and.assoc)
  then show "0 \<le> w" "w < 2 ^ nat (width t)"
    by (metis take_bit_nonnegative, metis take_bit_int_less_exp)
  show "w AND NOT (fixed_mask t) = (raw AND NOT (fixed_mask t)) AND mask (nat (width t))"
    unfolding w(1) by (rule bit_eqI) (auto simp: bit_simps dest: m)
qed

lemma template_repair_self:
  assumes "template_ok t" and "matches t w" and "0 \<le> w" and "w < 2 ^ nat (width t)"
  shows "template_repair t w = Inr w"
proof -
  have "w AND mask (nat (width t)) = w"
    using assms(3,4) by (simp add: take_bit_small flip: take_bit_eq_mask)
  moreover have "(w AND NOT (fixed_mask t)) OR fixed_value t = w"
    using assms(2) unfolding matches_def by (metis (no_types, lifting) and.commute bit.conj_cancel_right bit.conj_disj_distrib bit.disj_cancel_left bit.compl_zero bit.conj_one_right or.commute)
  ultimately show ?thesis
    using assms by (auto simp: template_repair_def template_ok_def word_mask_eq)
qed

lemma full_masks:
  "OPCODE_MASK = push_bit 0 (mask 7)" "FUNCT3_MASK = push_bit 12 (mask 3)" "FUNCT7_MASK = push_bit 25 (mask 7)"
  "RD_MASK = push_bit 7 (mask 5)" "RS1_MASK = push_bit 15 (mask 5)"
  "C_RD_MASK = push_bit 7 (mask 5)" "C_RS2_MASK = push_bit 2 (mask 5)"
  by (simp_all add: OPCODE_MASK_def FUNCT3_MASK_def FUNCT7_MASK_def RD_MASK_def RS1_MASK_def C_RD_MASK_def
     C_RS2_MASK_def mask_eq_exp_minus_1)


lemma field_in_mask: "0 \<le> v \<Longrightarrow> v < 2 ^ n \<Longrightarrow> push_bit lo v AND push_bit lo (mask n) = push_bit lo (v :: int)"
  by (simp add: take_bit_small flip: push_bit_and take_bit_eq_mask)

definition rmatch :: "instruction_template res \<Rightarrow> int \<Rightarrow> bool" where
  "rmatch r w = (case r of Inl _ \<Rightarrow> False | Inr t \<Rightarrow> matches t w)"

lemma rmatch_make:
  "rmatch (make_template n wd ext fm fv) w \<longleftrightarrow> is_ok (make_template n wd ext fm fv) \<and> w AND fm = fv"
  by (cases "make_template n wd ext fm fv") (auto simp: rmatch_def matches_def dest: make_template_Inr [THEN iffD1])

text \<open>Operands in the range of their field, extra bits outside the fields that are given.\<close>

definition base_args :: "int \<Rightarrow> int option \<Rightarrow> int option \<Rightarrow> int \<Rightarrow> int \<Rightarrow> bool" where
  "base_args opc f3 f7 em ev \<longleftrightarrow> 0 \<le> opc \<and> opc < 128 \<and> em AND OPCODE_MASK = 0 \<and> ev AND em = ev
     \<and> em AND mask 32 = em
     \<and> (case f3 of None \<Rightarrow> True | Some f \<Rightarrow> 0 \<le> f \<and> f < 8 \<and> em AND FUNCT3_MASK = 0)
     \<and> (case f7 of None \<Rightarrow> True | Some f \<Rightarrow> 0 \<le> f \<and> f < 128 \<and> em AND FUNCT7_MASK = 0)"

lemma disjoint_fields:
  "OPCODE_MASK AND FUNCT3_MASK = 0" "OPCODE_MASK AND FUNCT7_MASK = 0" "FUNCT3_MASK AND FUNCT7_MASK = 0"
  "OPCODE_MASK AND mask 32 = OPCODE_MASK" "FUNCT3_MASK AND mask 32 = FUNCT3_MASK" "FUNCT7_MASK AND mask 32 = FUNCT7_MASK"
  by (simp_all add: OPCODE_MASK_def FUNCT3_MASK_def FUNCT7_MASK_def mask_eq_exp_minus_1)

lemma or_in_mask:
  "a AND A = a \<Longrightarrow> b AND B = b \<Longrightarrow> (a OR b) AND (A OR B) = (a OR b :: int)"
  "a AND M = a \<Longrightarrow> b AND M = b \<Longrightarrow> (a OR b) AND M = (a OR b :: int)"
  "a AND C = 0 \<Longrightarrow> b AND C = 0 \<Longrightarrow> (a OR b) AND C = (0 :: int)"
proof -
  assume *: "a AND A = a" "b AND B = b"
  show "(a OR b) AND (A OR B) = (a OR b :: int)"
    by (rule bit_eqI) (use * in \<open>metis bit_and_iff bit_or_iff\<close>)
qed (simp_all add: bit.conj_disj_distrib2)

lemma base_template_args:
  assumes "base_args opc f3 f7 em ev" and "n \<noteq> []" and "ext \<in> {''I'', ''M'', ''C''}"
  shows "is_ok (base_template n ext opc f3 f7 em ev)"
    and "rmatch (base_template n ext opc f3 f7 em ev) w \<longleftrightarrow> bits 0 7 w = opc \<and> w AND em = ev
       \<and> (case f3 of None \<Rightarrow> True | Some f \<Rightarrow> bits 12 3 w = f) \<and> (case f7 of None \<Rightarrow> True | Some f \<Rightarrow> bits 25 7 w = f)"
proof -
  let ?m3 = "case f3 of None \<Rightarrow> 0 | Some f \<Rightarrow> FUNCT3_MASK" and ?v3 = "case f3 of None \<Rightarrow> 0 | Some f \<Rightarrow> push_bit 12 f"
  let ?m7 = "case f7 of None \<Rightarrow> 0 | Some f \<Rightarrow> FUNCT7_MASK" and ?v7 = "case f7 of None \<Rightarrow> 0 | Some f \<Rightarrow> push_bit 25 f"
  let ?fm = "((OPCODE_MASK OR em) OR ?m3) OR ?m7" and ?fv = "((opc OR ev) OR ?v3) OR ?v7"
  have eq: "base_template n ext opc f3 f7 em ev = make_template n 32 ext ?fm ?fv"
    by (auto simp: base_template_def Let_def split: option.splits)
  have v: "opc AND OPCODE_MASK = opc" "?v3 AND ?m3 = ?v3" "?v7 AND ?m7 = ?v7" "ev AND em = ev"
    using assms(1) field_in_mask [of opc 7 0] field_in_mask [of "the f3" 3 12] field_in_mask [of "the f7" 7 25]
    by (auto simp: base_args_def full_masks split: option.splits)
  have d: "OPCODE_MASK AND em = 0" "(OPCODE_MASK OR em) AND ?m3 = 0" "((OPCODE_MASK OR em) OR ?m3) AND ?m7 = 0"
    using assms(1) disjoint_fields
    by (auto simp: base_args_def bit.conj_disj_distrib bit.conj_disj_distrib2 and.commute split: option.splits)
  have m: "?fm AND mask 32 = ?fm"
    using assms(1) disjoint_fields by (auto simp: base_args_def bit.conj_disj_distrib2 split: option.splits)
  have "?fv AND ?fm = ?fv"
    by (intro or_in_mask v)
  with m assms(2,3) have "make_template n 32 ext ?fm ?fv = Inr \<lparr>name = n, width = 32, extension = ext, fixed_mask = ?fm, fixed_value = ?fv\<rparr>"
    unfolding make_template_Inr subset_mask by (simp add: word_mask_eq)
  then show ok: "is_ok (base_template n ext opc f3 f7 em ev)"
    unfolding eq by simp
  have "w AND ?fm = ?fv \<longleftrightarrow> ((w AND OPCODE_MASK = opc \<and> w AND em = ev) \<and> w AND ?m3 = ?v3) \<and> w AND ?m7 = ?v7"
    using and_or_split [OF d(3) or_in_mask(1) [OF or_in_mask(1) [OF v(1,4)] v(2)] v(3)]
      and_or_split [OF d(2) or_in_mask(1) [OF v(1,4)] v(2)] and_or_split [OF d(1) v(1,4)]
    by simp
  moreover have "w AND OPCODE_MASK = opc \<longleftrightarrow> bits 0 7 w = opc"
    using and_field_eq [of w 0 7 opc] by (simp add: full_masks)
  moreover have "w AND ?m3 = ?v3 \<longleftrightarrow> (case f3 of None \<Rightarrow> True | Some f \<Rightarrow> bits 12 3 w = f)"
    using and_field_eq [of w 12 3 "the f3"] by (auto simp: full_masks split: option.splits)
  moreover have "w AND ?m7 = ?v7 \<longleftrightarrow> (case f7 of None \<Rightarrow> True | Some f \<Rightarrow> bits 25 7 w = f)"
    using and_field_eq [of w 25 7 "the f7"] by (auto simp: full_masks split: option.splits)
  ultimately show "rmatch (base_template n ext opc f3 f7 em ev) w \<longleftrightarrow> bits 0 7 w = opc \<and> w AND em = ev
       \<and> (case f3 of None \<Rightarrow> True | Some f \<Rightarrow> bits 12 3 w = f) \<and> (case f7 of None \<Rightarrow> True | Some f \<Rightarrow> bits 25 7 w = f)"
    using ok unfolding eq rmatch_make by blast
qed


lemma build_Inr: "build xs = Inr ts \<longleftrightarrow> xs = map Inr ts"
  unfolding build_def map_res_Inr_iff by (auto simp: list_all2_conv_all_nth list_eq_iff_nth_eq)

lemma build_total: "(\<exists>ts. build xs = Inr ts) \<longleftrightarrow> list_all is_ok xs"
  unfolding build_Inr by (induction xs) (auto simp: is_ok_iff Cons_eq_map_conv)

lemma build_matches: "build xs = Inr ts \<Longrightarrow> (\<exists>t \<in> set ts. matches t w) \<longleftrightarrow> list_ex (\<lambda>r. rmatch r w) xs"
  by (auto simp: build_Inr list_ex_iff rmatch_def)

lemma base_args_plain [simp]:
  "base_args opc f3 f7 0 0 \<longleftrightarrow> 0 \<le> opc \<and> opc < 128 \<and> (case f3 of None \<Rightarrow> True | Some f \<Rightarrow> 0 \<le> f \<and> f < 8)
     \<and> (case f7 of None \<Rightarrow> True | Some f \<Rightarrow> 0 \<le> f \<and> f < 128)"
  by (auto simp: base_args_def split: option.splits)

lemma base_args_extra [simp]:
  "base_args 0x13 (Some 1) None FUNCT7_MASK 0" "base_args 0x13 (Some 5) None FUNCT7_MASK 0"
  "base_args 0x13 (Some 5) None FUNCT7_MASK (push_bit 25 0x20)"
  "base_args 0x13 (Some 1) None (push_bit 26 0x3F) 0" "base_args 0x13 (Some 5) None (push_bit 26 0x3F) 0"
  "base_args 0x13 (Some 5) None (push_bit 26 0x3F) (push_bit 25 0x20)"
  "base_args 0x0F (Some 0) None (push_bit 28 0xF OR RS1_MASK OR RD_MASK) 0"
  by (simp_all add: base_args_def OPCODE_MASK_def FUNCT3_MASK_def FUNCT7_MASK_def RS1_MASK_def RD_MASK_def mask_eq_exp_minus_1)

lemma fence_fields:
  "w AND (push_bit 28 0xF OR RS1_MASK OR RD_MASK) = 0 \<longleftrightarrow> bits 28 4 w = 0 \<and> bits 15 5 w = 0 \<and> bits 7 5 w = 0"
proof -
  have "push_bit 28 0xF = push_bit 28 (mask 4 :: int)"
    by (simp add: mask_eq_exp_minus_1)
  then show ?thesis
    using and_field_eq [of w 28 4 0] and_field_eq [of w 15 5 0] and_field_eq [of w 7 5 0]
    unfolding full_masks bit.conj_disj_distrib or_eq_0_iff by simp
qed

lemma shift_fields:
  "w AND FUNCT7_MASK = 0 \<longleftrightarrow> bits 25 7 w = 0"
  "w AND FUNCT7_MASK = push_bit 25 0x20 \<longleftrightarrow> bits 25 7 w = 0x20"
  "w AND push_bit 26 0x3F = 0 \<longleftrightarrow> bits 26 6 w = 0"
  "w AND push_bit 26 0x3F = push_bit 25 0x20 \<longleftrightarrow> bits 26 6 w = 0x10"
  using and_field_eq [of w 25 7 0] and_field_eq [of w 25 7 "0x20"] and_field_eq [of w 26 6 0] and_field_eq [of w 26 6 "0x10"]
  by (simp_all add: full_masks mask_eq_exp_minus_1)

lemma drop_bit_bits: "drop_bit lo w = bits lo n w + 2 ^ n * drop_bit (lo + n) (w :: int)"
  by (simp add: bits_arith drop_bit_eq_div power_add zdiv_zmult2_eq)

lemma drop_bit_small: "0 \<le> w \<Longrightarrow> w < 2 ^ n \<Longrightarrow> drop_bit n (w :: int) = 0"
  by (simp add: drop_bit_eq_div)

lemma system_word:
  assumes "0 \<le> imm" "imm < 2 ^ 12"
  shows "w AND 0xFFFFFFFF = 0x73 OR push_bit 20 imm \<longleftrightarrow>
    bits 0 7 w = 0x73 \<and> bits 7 5 w = 0 \<and> bits 12 3 w = 0 \<and> bits 15 5 w = 0 \<and> bits 20 12 w = imm"
proof -
  let ?A = "OPCODE_MASK" and ?B = "RD_MASK OR FUNCT3_MASK OR RS1_MASK" and ?C = "push_bit 20 (mask 12) :: int"
  have m: "0xFFFFFFFF = (?A OR ?B) OR ?C" "(?A OR ?B) AND ?C = 0" "?A AND ?B = 0" "0x73 AND ?A = 0x73" "0 AND ?B = 0"
    "0x73 AND (?A OR ?B) = 0x73"
    by (simp_all add: OPCODE_MASK_def RD_MASK_def FUNCT3_MASK_def RS1_MASK_def mask_eq_exp_minus_1)
  have "w AND 0xFFFFFFFF = 0x73 OR push_bit 20 imm \<longleftrightarrow> w AND (?A OR ?B) = 0x73 \<and> bits 20 12 w = imm"
    unfolding m(1) using and_or_split [OF m(2,6) field_in_mask [OF assms]] by (simp add: and_field_eq)
  moreover have "w AND (?A OR ?B) = 0x73 \<longleftrightarrow> w AND ?A = 0x73 \<and> w AND ?B = 0"
    using and_or_split [OF m(3-5)] by simp
  moreover have "w AND ?A = 0x73 \<longleftrightarrow> bits 0 7 w = 0x73"
    using and_field_eq [of w 0 7 "0x73"] by (simp add: full_masks)
  moreover have "w AND ?B = 0 \<longleftrightarrow> bits 7 5 w = 0 \<and> bits 12 3 w = 0 \<and> bits 15 5 w = 0"
    using and_field_eq [of w 7 5 0] and_field_eq [of w 12 3 0] and_field_eq [of w 15 5 0]
    by (simp add: full_masks bit.conj_disj_distrib or_eq_0_iff)
  ultimately show ?thesis by simp
qed

lemma system_words:
  "w AND 0xFFFFFFFF = 0x73 \<longleftrightarrow> bits 0 7 w = 0x73 \<and> bits 7 5 w = 0 \<and> bits 12 3 w = 0 \<and> bits 15 5 w = 0 \<and> bits 20 12 w = 0"
  "w AND 0xFFFFFFFF = 0x00100073 \<longleftrightarrow> bits 0 7 w = 0x73 \<and> bits 7 5 w = 0 \<and> bits 12 3 w = 0 \<and> bits 15 5 w = 0 \<and> bits 20 12 w = 1"
  "w AND 0xFFFFFFFF = 0x10500073 \<longleftrightarrow> bits 0 7 w = 0x73 \<and> bits 7 5 w = 0 \<and> bits 12 3 w = 0 \<and> bits 15 5 w = 0 \<and> bits 20 12 w = 0x105"
  "w AND 0xFFFFFFFF = 0x30200073 \<longleftrightarrow> bits 0 7 w = 0x73 \<and> bits 7 5 w = 0 \<and> bits 12 3 w = 0 \<and> bits 15 5 w = 0 \<and> bits 20 12 w = 0x302"
  "w AND 0xFFFFFFFF = 0x10200073 \<longleftrightarrow> bits 0 7 w = 0x73 \<and> bits 7 5 w = 0 \<and> bits 12 3 w = 0 \<and> bits 15 5 w = 0 \<and> bits 20 12 w = 0x102"
  using system_word [of 0 w] system_word [of 1 w] system_word [of "0x105" w] system_word [of "0x302" w] system_word [of "0x102" w]
  by simp_all

lemma system_template:
  "rmatch (make_template n 32 ''I'' 0xFFFFFFFF v) w \<longleftrightarrow> n \<noteq> [] \<and> v AND 0xFFFFFFFF = v \<and> w AND 0xFFFFFFFF = v"
  unfolding rmatch_make is_ok_iff make_template_Inr subset_mask
  by (simp add: word_mask_eq mask_eq_exp_minus_1)

lemma eight_cases: "0 \<le> (k::int) \<Longrightarrow> k < 8 \<Longrightarrow> k = 0 \<or> k = 1 \<or> k = 2 \<or> k = 3 \<or> k = 4 \<or> k = 5 \<or> k = 6 \<or> k = 7"
  by presburger

lemmas template_simps = base_template_args fence_fields shift_fields system_template system_words

lemma list_ex_if: "list_ex P (if b then xs else ys) = (if b then list_ex P xs else list_ex P ys)"
  by simp

definition base_opcodes :: "int set" where
  "base_opcodes = {0x13, 0x1B, 0x3B, 0x33, 0x03, 0x23, 0x63, 0x17, 0x37, 0x6F, 0x67, 0x0F, 0x73}"

lemma base_opcodes_low: "bits 0 7 w \<in> base_opcodes \<Longrightarrow> bits 0 2 w = 3"
proof -
  assume "bits 0 7 w \<in> base_opcodes"
  then have "bits 0 2 (bits 0 7 w) = 3"
    by (auto simp: base_opcodes_def bits_arith)
  moreover have "bits 0 2 (bits 0 7 w) = bits 0 2 w"
    by (auto simp: bit_eq_iff bits_simps)
  ultimately show ?thesis by simp
qed

lemma drop_bit_top: "0 \<le> w \<Longrightarrow> w < 2 ^ (lo + n) \<Longrightarrow> drop_bit lo w = bits lo n w"
  using drop_bit_bits [of lo w n] drop_bit_small [of w "lo + n"] by simp

lemma i_templates_matches:
  assumes "isa_contract_ok c" and "i_templates c = Inr ts" and "0 \<le> w" and "w < 2 ^ 32"
  shows "(\<exists>t \<in> set ts. matches t w) \<longleftrightarrow>
    base_legal c w \<and> \<not> (bits 0 7 w \<in> {0x33, 0x3B} \<and> bits 25 7 w = 1)"
proof -
  have top: "drop_bit 26 w = bits 26 6 w"
    using assms(3,4) by (intro drop_bit_top) simp_all
  have f3: "bits 12 3 w \<in> {0, 1, 2, 3, 4, 5, 6, 7}"
    using eight_cases [of "bits 12 3 w"] bits_bounds [of 12 3 w] by simp
  have "bits 0 7 w \<in> base_opcodes \<or> bits 0 7 w \<notin> base_opcodes"
    by simp
  with isa_contract_xlen [OF assms(1)] show ?thesis
    unfolding build_matches [OF assms(2) [unfolded i_templates_def Let_def]] base_legal_def Let_def top list_ex_if
      base_opcodes_def insert_iff empty_iff
    apply (elim disjE)
    using f3
    apply (simp_all add: template_simps del: push_bit_numeral push_bit_of_1)
    apply auto
    done
qed

lemma m_templates_matches:
  assumes "isa_contract_ok c" and "m_templates c = Inr ts"
  shows "(\<exists>t \<in> set ts. matches t w) \<longleftrightarrow> bits 25 7 w = 1 \<and> (bits 0 7 w = 0x33 \<or>
     bits 0 7 w = 0x3B \<and> xlen c = 64 \<and> bits 12 3 w \<in> {0, 4, 5, 6, 7})"
proof -
  have f3: "bits 12 3 w \<in> {0, 1, 2, 3, 4, 5, 6, 7}"
    using eight_cases [of "bits 12 3 w"] bits_bounds [of 12 3 w] by simp
  show ?thesis
    unfolding build_matches [OF assms(2) [unfolded m_templates_def]] list_ex_if
    using f3 by (simp add: template_simps) auto
qed

lemma templates_total:
  assumes "isa_contract_ok c"
  shows "\<exists>ts. i_templates c = Inr ts" "\<exists>ts. m_templates c = Inr ts"
proof -
  have sys: "is_ok (make_template n 32 ''I'' 0xFFFFFFFF v) \<longleftrightarrow> n \<noteq> [] \<and> v AND 0xFFFFFFFF = v" for n v
    unfolding is_ok_iff make_template_Inr subset_mask by (simp add: word_mask_eq mask_eq_exp_minus_1)
  show "\<exists>ts. i_templates c = Inr ts" "\<exists>ts. m_templates c = Inr ts"
    using isa_contract_xlen [OF assms]
    unfolding i_templates_def m_templates_def Let_def build_total
    by (auto simp: base_template_args sys simp del: push_bit_numeral push_bit_of_1)
qed


section \<open>Compressed templates match bit fields\<close>

definition c_args :: "int \<Rightarrow> int \<Rightarrow> int \<Rightarrow> int \<Rightarrow> bool" where
  "c_args q f3 em ev \<longleftrightarrow> 0 \<le> q \<and> q < 4 \<and> 0 \<le> f3 \<and> f3 < 8 \<and> em AND C_FORMAT_MASK = 0 \<and> ev AND em = ev
     \<and> em AND mask 16 = em"

lemma c_template_args:
  assumes "c_args q f3 em ev" and "n \<noteq> []"
  shows "is_ok (compressed_template n q f3 em ev)"
    and "rmatch (compressed_template n q f3 em ev) w \<longleftrightarrow> bits 0 2 w = q \<and> bits 13 3 w = f3 \<and> w AND em = ev"
proof -
  let ?F = "push_bit 13 (mask 3) :: int" and ?Q = "push_bit 0 (mask 2) :: int"
  have cf: "C_FORMAT_MASK = ?F OR ?Q" "?F AND ?Q = 0" "C_FORMAT_MASK AND mask 16 = C_FORMAT_MASK"
    by (simp_all add: C_FORMAT_MASK_def mask_eq_exp_minus_1)
  have v: "push_bit 13 f3 AND ?F = push_bit 13 f3" "q AND ?Q = q" "ev AND em = ev"
    using assms(1) field_in_mask [of f3 3 13] field_in_mask [of q 2 0] by (simp_all add: c_args_def)
  have d: "C_FORMAT_MASK AND em = 0" "em AND mask 16 = em"
    using assms(1) by (simp_all add: c_args_def and.commute)
  have "(C_FORMAT_MASK OR em) AND mask 16 = C_FORMAT_MASK OR em"
    using cf(3) d(2) by (rule or_in_mask(2))
  moreover have "((push_bit 13 f3 OR q) OR ev) AND (C_FORMAT_MASK OR em) = (push_bit 13 f3 OR q) OR ev"
    unfolding cf(1) by (intro or_in_mask v)
  ultimately show ok: "is_ok (compressed_template n q f3 em ev)"
    using assms(2) unfolding compressed_template_def is_ok_iff make_template_Inr subset_mask
    by (simp add: word_mask_eq or.assoc)
  have "w AND (C_FORMAT_MASK OR em) = (push_bit 13 f3 OR q) OR ev \<longleftrightarrow> (w AND ?F = push_bit 13 f3 \<and> w AND ?Q = q) \<and> w AND em = ev"
    using and_or_split [OF d(1) or_in_mask(1) [OF v(1,2), folded cf(1)] v(3)] and_or_split [OF cf(2) v(1,2), folded cf(1)]
    by simp
  moreover have "w AND ?Q = q \<longleftrightarrow> bits 0 2 w = q"
    using and_field_eq [of w 0 2 q] by simp
  ultimately show "rmatch (compressed_template n q f3 em ev) w \<longleftrightarrow> bits 0 2 w = q \<and> bits 13 3 w = f3 \<and> w AND em = ev"
    using ok unfolding compressed_template_def rmatch_make by (auto simp: and_field_eq or.assoc)
qed


lemma reserve_compressed:
  assumes "is_ok (compressed_template n q f3 em ev)"
  shows "res_bind (compressed_template n q f3 em ev) reserve_shamt5 =
    (if n \<in> {''C.SRLI'', ''C.SRAI'', ''C.SLLI''} then compressed_template n q f3 (em OR push_bit 12 1) ev
     else compressed_template n q f3 em ev)"
proof -
  obtain t where t: "compressed_template n q f3 em ev = Inr t"
    using assms by (auto simp: is_ok_iff)
  then have "name t = n" "fixed_mask t = C_FORMAT_MASK OR em" "fixed_value t = push_bit 13 f3 OR q OR ev"
    unfolding compressed_template_def by (auto dest: make_template_Inr [THEN iffD1])
  then show ?thesis
    unfolding t by (auto simp: reserve_shamt5_def compressed_template_def or.assoc t [unfolded compressed_template_def])
qed

text \<open>What the repair of a compressed operation establishes beyond the fixed bits.\<close>

definition c_extra :: "string \<Rightarrow> int \<Rightarrow> bool" where
  "c_extra n w =
     (if n = ''C.ADDI4SPN'' then w AND C_ADDI4SPN_IMMEDIATE_MASK \<noteq> 0
      else if n = ''C.ADDI'' then bits 7 5 w \<noteq> 0 \<or> (bits 2 5 w = 0 \<and> bits 12 1 w = 0)
      else if n \<in> {''C.LI'', ''C.ADDIW'', ''C.LWSP'', ''C.LDSP'', ''C.JR'', ''C.JALR''} then bits 7 5 w \<noteq> 0
      else if n = ''C.ADDI16SP'' then bits 2 5 w \<noteq> 0 \<or> bits 12 1 w \<noteq> 0
      else if n = ''C.LUI'' then bits 7 5 w \<notin> {0, 2} \<and> (bits 2 5 w \<noteq> 0 \<or> bits 12 1 w \<noteq> 0)
      else if n \<in> {''C.SRLI'', ''C.SRAI'', ''C.SLLI''} then
        (n = ''C.SLLI'' \<longrightarrow> bits 7 5 w \<noteq> 0) \<and> (bits 2 5 w \<noteq> 0 \<or> bits 12 1 w \<noteq> 0)
      else if n \<in> {''C.MV'', ''C.ADD''} then bits 7 5 w \<noteq> 0 \<and> bits 2 5 w \<noteq> 0
      else True)"

definition crmatch :: "instruction_template res \<Rightarrow> int \<Rightarrow> bool" where
  "crmatch r w = (case r of Inl _ \<Rightarrow> False | Inr t \<Rightarrow> matches t w \<and> c_extra (name t) w)"

lemma crmatch_make: "crmatch (make_template n wd ext fm fv) w \<longleftrightarrow> rmatch (make_template n wd ext fm fv) w \<and> c_extra n w"
  by (cases "make_template n wd ext fm fv") (auto simp: rmatch_def crmatch_def dest: make_template_Inr [THEN iffD1])

lemma crmatch_compressed:
  "c_args q f3 em ev \<Longrightarrow> n \<noteq> [] \<Longrightarrow> crmatch (compressed_template n q f3 em ev) w
     \<longleftrightarrow> bits 0 2 w = q \<and> bits 13 3 w = f3 \<and> w AND em = ev \<and> c_extra n w"
  using crmatch_make [of n 16 "''C''"] c_template_args(2) [of q f3 em ev n w] by (auto simp: compressed_template_def)

lemma build_crmatch:
  "build xs = Inr ts \<Longrightarrow> (\<exists>t \<in> set ts. matches t w \<and> c_extra (name t) w) \<longleftrightarrow> list_ex (\<lambda>r. crmatch r w) xs"
  by (auto simp: build_Inr list_ex_iff crmatch_def)

lemma c_masks:
  "w AND C_RD_MASK = 0 \<longleftrightarrow> bits 7 5 w = 0"
  "w AND C_RD_MASK = push_bit 7 2 \<longleftrightarrow> bits 7 5 w = 2"
  "w AND C_RS2_MASK = 0 \<longleftrightarrow> bits 2 5 w = 0"
  "w AND push_bit 12 1 = 0 \<longleftrightarrow> bits 12 1 w = 0"
  "w AND push_bit 12 1 = push_bit 12 1 \<longleftrightarrow> bits 12 1 w = 1"
  "w AND push_bit 10 3 = 0 \<longleftrightarrow> bits 10 2 w = 0"
  "w AND push_bit 10 3 = push_bit 10 1 \<longleftrightarrow> bits 10 2 w = 1"
  "w AND push_bit 10 3 = push_bit 10 2 \<longleftrightarrow> bits 10 2 w = 2"
  using and_field_eq [of w 7 5 0] and_field_eq [of w 7 5 2] and_field_eq [of w 2 5 0] and_field_eq [of w 12 1 0]
    and_field_eq [of w 12 1 1]  and_field_eq [of w 10 2 0]  and_field_eq [of w 10 2 1]  and_field_eq [of w 10 2 2]
  by (simp_all add: full_masks mask_eq_exp_minus_1)

lemma c_imm_mask: "w AND C_IMMEDIATE_MASK = 0 \<longleftrightarrow> bits 2 5 w = 0 \<and> bits 12 1 w = 0"
proof -
  have eq: "C_IMMEDIATE_MASK = push_bit 12 1 OR C_RS2_MASK"
    by (simp add: C_IMMEDIATE_MASK_def C_RS2_MASK_def)
  show ?thesis
    unfolding eq bit.conj_disj_distrib or_eq_0_iff c_masks by blast
qed

lemma c_two_masks:
  assumes "0 \<le> b" "b < 2" "0 \<le> v" "v < 32"
  shows "w AND (push_bit 12 1 OR C_RS2_MASK) = push_bit 12 b OR push_bit 2 v \<longleftrightarrow> bits 12 1 w = b \<and> bits 2 5 w = v"
proof -
  have m: "push_bit 12 1 = push_bit 12 (mask 1 :: int)" "push_bit 12 (mask 1) AND push_bit 2 (mask 5) = (0::int)"
    by (simp_all add: mask_eq_exp_minus_1)
  show ?thesis
    unfolding m(1) full_masks by (subst and_or_split [OF m(2)]; (rule field_in_mask; use assms in simp)?) (simp only: and_field_eq)
qed

lemma c_arith_fields:
  assumes "0 \<le> b" "b < 2" "0 \<le> p" "p < 4" "0 \<le> v" "v < 4"
  shows "w AND c_arith_mask = (push_bit 12 b OR push_bit 10 p) OR push_bit 5 v \<longleftrightarrow>
    bits 12 1 w = b \<and> bits 10 2 w = p \<and> bits 5 2 w = v"
proof -
  let ?A = "push_bit 12 (mask 1) :: int" and ?B = "push_bit 10 (mask 2) :: int" and ?C = "push_bit 5 (mask 2) :: int"
  have m: "c_arith_mask = (?A OR ?B) OR ?C" "?A AND ?B = 0" "(?A OR ?B) AND ?C = 0"
    by (simp_all add: c_arith_mask_def mask_eq_exp_minus_1)
  have v: "push_bit 12 b AND ?A = push_bit 12 b" "push_bit 10 p AND ?B = push_bit 10 p" "push_bit 5 v AND ?C = push_bit 5 v"
    by (rule field_in_mask; use assms in simp)+
  show ?thesis
    unfolding m(1)
    using and_or_split [OF m(3) or_in_mask(1) [OF v(1,2)] v(3)] and_or_split [OF m(2) v(1,2)]
    unfolding and_field_eq by blast
qed

lemma c_fields:
  "w AND (push_bit 12 1 OR C_RS2_MASK) = 0 \<longleftrightarrow> bits 12 1 w = 0 \<and> bits 2 5 w = 0"
  "w AND (push_bit 12 1 OR C_RS2_MASK) = push_bit 12 1 \<longleftrightarrow> bits 12 1 w = 1 \<and> bits 2 5 w = 0"
  "w AND c_arith_mask = push_bit 10 3 \<longleftrightarrow> bits 12 1 w = 0 \<and> bits 10 2 w = 3 \<and> bits 5 2 w = 0"
  "w AND c_arith_mask = push_bit 10 3 OR push_bit 5 1 \<longleftrightarrow> bits 12 1 w = 0 \<and> bits 10 2 w = 3 \<and> bits 5 2 w = 1"
  "w AND c_arith_mask = push_bit 10 3 OR push_bit 5 2 \<longleftrightarrow> bits 12 1 w = 0 \<and> bits 10 2 w = 3 \<and> bits 5 2 w = 2"
  "w AND c_arith_mask = push_bit 10 3 OR push_bit 5 3 \<longleftrightarrow> bits 12 1 w = 0 \<and> bits 10 2 w = 3 \<and> bits 5 2 w = 3"
  "w AND c_arith_mask = push_bit 12 1 OR push_bit 10 3 \<longleftrightarrow> bits 12 1 w = 1 \<and> bits 10 2 w = 3 \<and> bits 5 2 w = 0"
  "w AND c_arith_mask = push_bit 12 1 OR push_bit 10 3 OR push_bit 5 1 \<longleftrightarrow> bits 12 1 w = 1 \<and> bits 10 2 w = 3 \<and> bits 5 2 w = 1"
  using c_two_masks [of 0 0 w] c_two_masks [of 1 0 w] c_arith_fields [of 0 3 0 w] c_arith_fields [of 0 3 1 w]
    c_arith_fields [of 0 3 2 w] c_arith_fields [of 0 3 3 w] c_arith_fields [of 1 3 0 w] c_arith_fields [of 1 3 1 w]
  by simp_all

lemma c_shift_fields:
  assumes "0 \<le> p" "p < 4"
  shows "w AND (push_bit 10 3 OR push_bit 12 1) = push_bit 10 p \<longleftrightarrow> bits 10 2 w = p \<and> bits 12 1 w = 0"
proof -
  have m: "push_bit 10 3 = push_bit 10 (mask 2 :: int)" "push_bit 12 1 = push_bit 12 (mask 1 :: int)"
    "push_bit 10 (mask 2) AND push_bit 12 (mask 1) = (0::int)"
    by (simp_all add: mask_eq_exp_minus_1)
  have p: "push_bit 10 p AND push_bit 10 (mask 2) = push_bit 10 p" and z: "0 AND push_bit 12 (mask 1) = (0 :: int)"
    by (rule field_in_mask; use assms in simp) simp
  have "w AND push_bit 12 (mask 1) = 0 \<longleftrightarrow> bits 12 1 w = 0"
    using c_masks(4) [of w] by simp
  then show ?thesis
    using and_or_split [OF m(3) p z, of w] unfolding m and_field_eq by simp
qed

lemma c_shifts:
  "w AND (push_bit 10 3 OR push_bit 12 1) = 0 \<longleftrightarrow> bits 10 2 w = 0 \<and> bits 12 1 w = 0"
  "w AND (push_bit 10 3 OR push_bit 12 1) = push_bit 10 1 \<longleftrightarrow> bits 10 2 w = 1 \<and> bits 12 1 w = 0"
  using c_shift_fields [of 0 w] c_shift_fields [of 1 w] by simp_all

lemma c_ebreak:
  "crmatch (make_template ''C.EBREAK'' 16 ''C'' 0xFFFF 0x9002) w \<longleftrightarrow>
     bits 0 2 w = 2 \<and> bits 13 3 w = 4 \<and> bits 12 1 w = 1 \<and> bits 7 5 w = 0 \<and> bits 2 5 w = 0"
proof -
  let ?A = "push_bit 13 (mask 3) :: int" and ?B = "push_bit 12 (mask 1) :: int" and ?C = "push_bit 0 (mask 2) :: int"
  let ?D = "C_RD_MASK OR C_RS2_MASK"
  have m: "0xFFFF = ((?A OR ?B) OR ?C) OR ?D" "0x9002 = ((push_bit 13 4 OR push_bit 12 1) OR push_bit 0 2) OR (0::int)"
    by (simp_all add: C_RD_MASK_def C_RS2_MASK_def mask_eq_exp_minus_1)
  have d: "?A AND ?B = 0" "(?A OR ?B) AND ?C = 0" "((?A OR ?B) OR ?C) AND ?D = 0"
    by (simp_all add: C_RD_MASK_def C_RS2_MASK_def mask_eq_exp_minus_1)
  have v: "push_bit 13 4 AND ?A = push_bit 13 4" "push_bit 12 1 AND ?B = push_bit 12 1" "push_bit 0 2 AND ?C = push_bit 0 2"
    "0 AND ?D = 0"
    by (rule field_in_mask; simp)+ simp
  have ok: "is_ok (make_template ''C.EBREAK'' 16 ''C'' 0xFFFF 0x9002)"
    by (simp add: make_template_def Let_def word_mask_def)
  have "w AND 0xFFFF = 0x9002 \<longleftrightarrow> ((bits 13 3 w = 4 \<and> bits 12 1 w = 1) \<and> bits 0 2 w = 2) \<and> bits 7 5 w = 0 \<and> bits 2 5 w = 0"
    unfolding m and_or_split [OF d(3) or_in_mask(1) [OF or_in_mask(1) [OF v(1,2)] v(3)] v(4)]
      and_or_split [OF d(2) or_in_mask(1) [OF v(1,2)] v(3)] and_or_split [OF d(1) v(1,2)]
    unfolding and_field_eq bit.conj_disj_distrib or_eq_0_iff c_masks ..
  then show ?thesis
    using ok unfolding crmatch_make rmatch_make by (auto simp: c_extra_def)
qed


lemma build_append: "build (xs @ ys) = res_bind (build xs) (\<lambda>ts. res_bind (build ys) (\<lambda>us. Inr (ts @ us)))"
proof (induction xs)
  case Nil
  then show ?case by (cases "build ys") (simp_all add: build_def)
next
  case (Cons x xs)
  then show ?case
    by (cases x; cases "build xs"; cases "build ys") (simp_all add: build_def)
qed

lemma build_then:
  assumes "list_all is_ok xs" and "is_ok j"
  shows "res_bind (build xs) (\<lambda>ts. res_bind j (\<lambda>j. map_res f (take 4 ts @ j # drop 4 ts))) =
    build (map (\<lambda>r. res_bind r f) (take 4 xs @ j # drop 4 xs))"
proof -
  obtain ts where ts: "build xs = Inr ts" using assms(1) build_total by blast
  obtain t where t: "j = Inr t" using assms(2) by (auto simp: is_ok_iff)
  have "map_res f us = build (map f us)" for us
    unfolding build_def by (induction us) simp_all
  moreover have "xs = map Inr ts" using ts by (simp add: build_Inr)
  ultimately show ?thesis
    using ts by (simp add: t take_map drop_map comp_def)
qed

lemma c_args_all [simp]:
  "c_args q f3 0 0 \<longleftrightarrow> 0 \<le> q \<and> q < 4 \<and> 0 \<le> f3 \<and> f3 < 8"
  "c_args 1 3 C_RD_MASK (push_bit 7 2)"
  "c_args 1 4 (push_bit 10 3) 0" "c_args 1 4 (push_bit 10 3) (push_bit 10 1)" "c_args 1 4 (push_bit 10 3) (push_bit 10 2)"
  "c_args 1 4 (push_bit 10 3 OR push_bit 12 1) 0" "c_args 1 4 (push_bit 10 3 OR push_bit 12 1) (push_bit 10 1)"
  "c_args 1 4 c_arith_mask (push_bit 10 3)" "c_args 1 4 c_arith_mask (push_bit 10 3 OR push_bit 5 1)"
  "c_args 1 4 c_arith_mask (push_bit 10 3 OR push_bit 5 2)" "c_args 1 4 c_arith_mask (push_bit 10 3 OR push_bit 5 3)"
  "c_args 1 4 c_arith_mask (push_bit 12 1 OR push_bit 10 3)"
  "c_args 1 4 c_arith_mask (push_bit 12 1 OR push_bit 10 3 OR push_bit 5 1)"
  "c_args 2 4 (push_bit 12 1 OR C_RS2_MASK) 0" "c_args 2 4 (push_bit 12 1 OR C_RS2_MASK) (push_bit 12 1)"
  "c_args 2 4 (push_bit 12 1) 0" "c_args 2 4 (push_bit 12 1) (push_bit 12 1)" "c_args 2 0 (push_bit 12 1) 0"
  by (auto simp: c_args_def C_FORMAT_MASK_def C_RD_MASK_def C_RS2_MASK_def c_arith_mask_def mask_eq_exp_minus_1)

lemma ebreak_ok: "is_ok (make_template ''C.EBREAK'' 16 ''C'' 0xFFFF 0x9002)"
  "res_bind (make_template ''C.EBREAK'' 16 ''C'' 0xFFFF 0x9002) reserve_shamt5 = make_template ''C.EBREAK'' 16 ''C'' 0xFFFF 0x9002"
  by (simp_all add: make_template_def Let_def word_mask_def reserve_shamt5_def)

lemma c_legal_simps:
  "((w AND push_bit 7 0xF) OR (w AND push_bit 11 3) OR (w AND push_bit 5 1) OR (w AND push_bit 6 1)) = w AND C_ADDI4SPN_IMMEDIATE_MASK"
  "((w AND push_bit 12 1) OR (w AND push_bit 6 1) OR (w AND push_bit 5 1) OR (w AND push_bit 3 3) OR (w AND push_bit 2 1)) = w AND C_IMMEDIATE_MASK"
  "bits 2 5 w OR push_bit 5 (bits 12 1 w) = 0 \<longleftrightarrow> bits 2 5 w = 0 \<and> bits 12 1 w = 0"
  "(bits 2 5 w OR push_bit 5 (bits 12 1 w)) AND 0x20 = 0 \<longleftrightarrow> bits 12 1 w = 0"
proof -
  show "((w AND push_bit 7 0xF) OR (w AND push_bit 11 3) OR (w AND push_bit 5 1) OR (w AND push_bit 6 1)) = w AND C_ADDI4SPN_IMMEDIATE_MASK"
    "((w AND push_bit 12 1) OR (w AND push_bit 6 1) OR (w AND push_bit 5 1) OR (w AND push_bit 3 3) OR (w AND push_bit 2 1)) = w AND C_IMMEDIATE_MASK"
    unfolding bit.conj_disj_distrib [symmetric] by (simp_all add: C_ADDI4SPN_IMMEDIATE_MASK_def C_IMMEDIATE_MASK_def)
  show "bits 2 5 w OR push_bit 5 (bits 12 1 w) = 0 \<longleftrightarrow> bits 2 5 w = 0 \<and> bits 12 1 w = 0"
    by (simp add: or_eq_0_iff push_bit_eq_mult)
  have "bits 2 5 w AND push_bit 5 1 = 0"
    by (rule bit_eqI) (auto simp: bit_simps bits_simps simp del: push_bit_of_1)
  moreover have "push_bit 5 (bits 12 1 w) AND push_bit 5 1 = push_bit 5 (bits 12 1 w)"
    by (rule bit_eqI) (auto simp: bit_simps bits_simps simp del: push_bit_of_1)
  ultimately show "(bits 2 5 w OR push_bit 5 (bits 12 1 w)) AND 0x20 = 0 \<longleftrightarrow> bits 12 1 w = 0"
    by (simp add: bit.conj_disj_distrib2 push_bit_eq_mult)
qed

lemmas c_template_simps = c_template_args crmatch_compressed c_masks c_fields c_shifts c_ebreak ebreak_ok reserve_compressed

lemma two_cases: "bits lo (Suc 0) w = 1 \<longleftrightarrow> bits lo (Suc 0) w \<noteq> 0"
proof -
  have "bits lo (Suc 0) w \<ge> 0" "bits lo (Suc 0) w < 2"
    using bits_bounds(2) [of lo "Suc 0" w] by simp_all
  then show ?thesis by presburger
qed

lemma four_cases: "bits lo 2 w = 0 \<or> bits lo 2 w = 1 \<or> bits lo 2 w = 2 \<or> bits lo 2 w = 3"
proof -
  have "bits lo 2 w \<ge> 0" "bits lo 2 w < 4"
    using bits_bounds(2) [of lo 2 w] by simp_all
  then show ?thesis by presburger
qed

text \<open>The bits the repair of an operation may set; a template leaves them free.\<close>

definition repair_bits :: "string \<Rightarrow> int" where
  "repair_bits n =
     (if n = ''C.ADDI4SPN'' then 0x20
      else if n \<in> {''C.ADDI'', ''C.LI'', ''C.ADDIW'', ''C.LWSP'', ''C.LDSP'', ''C.JR'', ''C.JALR''} then 0x80
      else if n \<in> {''C.ADDI16SP'', ''C.SRLI'', ''C.SRAI''} then 0x4
      else if n \<in> {''C.LUI'', ''C.SLLI'', ''C.MV'', ''C.ADD''} then 0x84
      else 0)"

definition repairable :: "instruction_template \<Rightarrow> bool" where
  "repairable t \<longleftrightarrow> template_ok t \<and> fixed_mask t AND repair_bits (name t) = 0 \<and> width t = 16"

lemma repairable_compressed:
  assumes "em AND repair_bits n = 0" and "compressed_template n q f3 em ev = Inr t"
  shows "repairable t"
proof -
  have "C_FORMAT_MASK AND repair_bits n = 0"
    by (simp add: C_FORMAT_MASK_def repair_bits_def)
  moreover note t = assms(2) [unfolded compressed_template_def]
  ultimately show ?thesis
    using assms(1) make_template_ok [OF t] t [unfolded make_template_Inr]
    by (auto simp: repairable_def bit.conj_disj_distrib2)
qed

lemmas repair_masks = repair_bits_def C_RD_MASK_def C_RS2_MASK_def c_arith_mask_def

lemma repairable_ebreak: "make_template ''C.EBREAK'' 16 ''C'' 0xFFFF 0x9002 = Inr t \<Longrightarrow> repairable t"
  by (frule make_template_ok) (auto simp: make_template_Inr repairable_def repair_bits_def)

text \<open>The compressed templates as one list of constructor calls.\<close>

definition c_calls :: "isa_contract \<Rightarrow> instruction_template res list" where
  "c_calls c = (if xlen c = 32 then map (\<lambda>r. res_bind r reserve_shamt5)
       (take 4 c_common_calls @ compressed_template ''C.JAL'' 1 1 0 0 # drop 4 c_common_calls)
     else c_common_calls @ c_rv64_calls)"

lemma c_common_ok: "list_all is_ok c_common_calls" "list_all is_ok c_rv64_calls"
  by (simp_all add: c_common_calls_def c_rv64_calls_def c_template_simps del: push_bit_numeral push_bit_of_1)

lemma c_templates_build: "c_templates c = build (c_calls c)"
proof (cases "xlen c = 32")
  case True
  have "is_ok (compressed_template ''C.JAL'' 1 1 0 0)"
    by (simp add: c_template_simps)
  then show ?thesis
    using build_then [OF c_common_ok(1)] True by (simp add: c_templates_def c_calls_def)
next
  case False
  then show ?thesis
    by (simp add: c_templates_def c_calls_def build_append)
qed

lemma c_calls_ok: "list_all is_ok (c_calls c)"
  by (simp add: c_calls_def c_common_calls_def c_rv64_calls_def c_template_simps del: push_bit_numeral push_bit_of_1)

lemma c_calls_repairable: "list_all (\<lambda>r. \<forall>t. r = Inr t \<longrightarrow> repairable t) (c_calls c)"
  apply (simp add: c_calls_def c_common_calls_def c_rv64_calls_def c_template_simps del: push_bit_numeral push_bit_of_1)
  by (intro conjI allI impI; erule repairable_compressed [rotated] repairable_ebreak; simp add: repair_masks)

lemma c_calls_legal:
  assumes "xlen c = 32 \<or> xlen c = 64" and "''C'' \<in> set (extensions c)" and "instruction_alignment c = 2" and "w \<le> 0xFFFF"
  shows "list_ex (\<lambda>r. crmatch r w) (c_calls c) \<longleftrightarrow> compressed_legal c w"
  using assms four_cases [of 0 w] eight_cases [of "bits 13 3 w"] bits_bounds [of 13 3 w]
  unfolding compressed_legal_def Let_def c_legal_simps
  apply (elim disjE; simp add: c_calls_def c_common_calls_def c_rv64_calls_def c_template_simps c_imm_mask two_cases c_extra_def del: push_bit_numeral push_bit_of_1)
  using four_cases [of 10 w] four_cases [of 5 w]
  apply auto
  done

section \<open>Repair of the side conditions\<close>

lemma set_bits_fields:
  "bits 7 5 (w OR 0x80) = bits 7 5 w OR 1" "bits 2 5 (w OR 0x80) = bits 2 5 w" "bits 12 n (w OR 0x80) = bits 12 n w"
  "bits 7 5 (w OR 4) = bits 7 5 w" "bits 2 5 (w OR 4) = bits 2 5 w OR 1" "bits 12 n (w OR 4) = bits 12 n w"
  "bits 7 5 (w OR 0x84) = bits 7 5 w OR 1" "bits 2 5 (w OR 0x84) = bits 2 5 w OR 1" "bits 12 n (w OR 0x84) = bits 12 n w"
  by (simp_all add: bits_or) (simp_all add: bits_arith)

lemma lowest_bits:
  "C_ADDI4SPN_IMMEDIATE_MASK AND (- C_ADDI4SPN_IMMEDIATE_MASK) = 0x20"
  "C_RD_MASK AND (- C_RD_MASK) = 0x80" "C_RS2_MASK AND (- C_RS2_MASK) = 4" "C_IMMEDIATE_MASK AND (- C_IMMEDIATE_MASK) = 4"
  by (simp_all add: C_ADDI4SPN_IMMEDIATE_MASK_def C_RD_MASK_def C_RS2_MASK_def C_IMMEDIATE_MASK_def)

lemma spn_set: "(w OR 0x20) AND C_ADDI4SPN_IMMEDIATE_MASK \<noteq> 0"
proof -
  have "C_ADDI4SPN_IMMEDIATE_MASK AND 0x20 = 0x20"
    by (simp add: C_ADDI4SPN_IMMEDIATE_MASK_def)
  then have "((w OR 0x20) AND C_ADDI4SPN_IMMEDIATE_MASK) AND 0x20 = 0x20"
    by (simp add: and.assoc bit.conj_disj_distrib2) (simp add: bit_eq_iff bit_simps, blast)
  then show ?thesis by auto
qed

lemma or_one_ne: "x OR 1 \<noteq> (0 :: int)" "x OR 1 \<noteq> (2 :: int)"
  by (metis even_or_iff even_zero odd_one, metis dvd_refl even_or_iff odd_one)

definition special_names :: "string list" where
  "special_names = [''C.ADDI4SPN'', ''C.ADDI'', ''C.LI'', ''C.ADDIW'', ''C.LWSP'', ''C.LDSP'', ''C.JR'', ''C.JALR'',
     ''C.ADDI16SP'', ''C.LUI'', ''C.SRLI'', ''C.SRAI'', ''C.SLLI'', ''C.MV'', ''C.ADD'']"

lemma plain_repair:
  assumes "n \<notin> set special_names"
  shows "repair_fields n s = s" "c_extra n w" "repair_bits n = 0"
  using assms by (simp_all add: special_names_def repair_fields_def c_extra_def repair_bits_def)

lemma c_rd_two: "w AND C_RD_MASK = 256 \<longleftrightarrow> bits 7 5 w = 2"
  using c_masks(2) [of w] by simp

lemma repair_fields_spec:
  "\<exists>r. repair_fields n (w, 0) = (w OR r, r) \<and> r AND repair_bits n = r \<and> c_extra n (w OR r)"
proof (cases "n \<in> set special_names")
  case True
  then show ?thesis
    unfolding special_names_def list.set
    apply (elim insertE emptyE)
    apply (simp_all add: repair_fields_def ensure_nonzero_def set_bit7_def repair_bits_def c_extra_def Let_def lowest_bits
      c_masks c_rd_two c_imm_mask set_bits_fields or_one_ne spn_set or.assoc)
    done
next
  case False
  then show ?thesis by (simp add: plain_repair)
qed

lemma repair_fields_self:
  assumes "c_extra n w"
  shows "repair_fields n (w, r) = (w, r)"
proof (cases "n \<in> set special_names")
  case True
  with assms show ?thesis
    unfolding special_names_def list.set
    apply (elim insertE emptyE)
    apply (simp_all add: repair_fields_def ensure_nonzero_def set_bit7_def c_extra_def Let_def c_masks c_rd_two c_imm_mask)
    apply auto
    done
next
  case False
  then show ?thesis by (simp add: plain_repair)
qed

section \<open>The transducer as a whole\<close>

definition plain_base :: "instruction_template res \<Rightarrow> bool" where
  "plain_base r \<longleftrightarrow> (\<forall>t. r = Inr t \<longrightarrow> template_ok t \<and> width t = 32 \<and> name t \<notin> set special_names)"

lemma plain_base_make:
  "n \<notin> set special_names \<Longrightarrow> plain_base (make_template n 32 ext fm fv)"
  "n \<notin> set special_names \<Longrightarrow> plain_base (base_template n ext opc f3 f7 em ev)"
  unfolding base_template_def Let_def plain_base_def
  by (auto dest: make_template_ok make_template_Inr [THEN iffD1])

lemma i_templates_plain: "i_templates c = Inr ts \<Longrightarrow> t \<in> set ts \<Longrightarrow> template_ok t \<and> width t = 32 \<and> name t \<notin> set special_names"
proof -
  assume ts: "i_templates c = Inr ts" "t \<in> set ts"
  have "list_all plain_base (map Inr ts)"
    unfolding ts(1) [unfolded i_templates_def Let_def build_Inr, symmetric]
    by (simp add: plain_base_make special_names_def)
  with ts(2) show ?thesis
    by (auto simp: list_all_iff plain_base_def)
qed

lemma m_templates_plain: "m_templates c = Inr ts \<Longrightarrow> t \<in> set ts \<Longrightarrow> template_ok t \<and> width t = 32 \<and> name t \<notin> set special_names"
proof -
  assume ts: "m_templates c = Inr ts" "t \<in> set ts"
  have "list_all plain_base (map Inr ts)"
    unfolding ts(1) [unfolded m_templates_def build_Inr, symmetric]
    by (simp add: plain_base_make special_names_def)
  with ts(2) show ?thesis
    by (auto simp: list_all_iff plain_base_def)
qed

lemma c_templates_repairable:
  assumes "c_templates c = Inr ts" and "t \<in> set ts"
  shows "repairable t"
  using c_calls_repairable [of c] assms by (auto simp: c_templates_build build_Inr list_all_iff)

lemma base_legal_M: "base_legal c w \<Longrightarrow> bits 0 7 w \<in> {0x33, 0x3B} \<Longrightarrow> bits 25 7 w = 1 \<Longrightarrow> ''M'' \<in> set (extensions c)"
  by (auto simp: base_legal_def Let_def split: if_splits)


text \<open>What the constructor establishes: every template is well formed, and the legal words of a
  width are exactly those that match a template of it (and the side conditions of its name).\<close>

lemma make_transducer_templates:
  assumes "make_transducer c = Inr tr"
  obtains its mts cts where "i_templates c = Inr its"
    and "(if ''M'' \<in> set (extensions c) then m_templates c else Inr []) = Inr mts"
    and "(if ''C'' \<in> set (extensions c) \<and> instruction_alignment c = 2 then c_templates c else Inr []) = Inr cts"
    and "contract tr = c" and "templates tr = its @ mts @ cts"
    and "by_name tr = dict_set_all [] (map (\<lambda>t. (name t, t)) (templates tr))"
    and "supports_legal_instruction_validation c"
  using assms unfolding make_transducer_def by (auto simp: Let_def split: if_splits)

definition in_form :: "instruction_template \<Rightarrow> int \<Rightarrow> bool" where
  "in_form t w \<longleftrightarrow> matches t w \<and> c_extra (name t) w"

definition usable :: "instruction_template \<Rightarrow> bool" where
  "usable t \<longleftrightarrow> template_ok t \<and> fixed_mask t AND repair_bits (name t) = 0
     \<and> repair_bits (name t) AND mask (nat (width t)) = repair_bits (name t)"

lemma repair_bits_mask: "repair_bits n AND mask 16 = repair_bits n"
  by (simp add: repair_bits_def mask_eq_exp_minus_1)

lemma transducer_templates:
  assumes "isa_contract_ok c" and "make_transducer c = Inr tr" and "t \<in> set (templates tr)"
  shows "usable t"
proof -
  obtain its mts cts where *: "i_templates c = Inr its"
     "(if ''M'' \<in> set (extensions c) then m_templates c else Inr []) = Inr mts"
     "(if ''C'' \<in> set (extensions c) \<and> instruction_alignment c = 2 then c_templates c else Inr []) = Inr cts"
     "contract tr = c" "templates tr = its @ mts @ cts"
     "by_name tr = dict_set_all [] (map (\<lambda>t. (name t, t)) (templates tr))"
     "supports_legal_instruction_validation c"
    by (rule make_transducer_templates [OF assms(2)])
  consider "t \<in> set its" | "t \<in> set mts" | "t \<in> set cts"
    using assms(3) *(5) by auto
  then have "(template_ok t \<and> width t = 32 \<and> name t \<notin> set special_names) \<or> repairable t"
  proof cases
    case 1
    then show ?thesis using i_templates_plain [OF *(1)] by blast
  next
    case 2
    then show ?thesis using m_templates_plain [of c mts] *(2) by (auto split: if_splits)
  next
    case 3
    then show ?thesis using c_templates_repairable [of c cts] *(3) by (auto split: if_splits)
  qed
  then show ?thesis
    using repair_bits_mask by (auto simp: usable_def plain_repair repairable_def)
qed

lemma transducer_legal_32:
  assumes "isa_contract_ok c" and "make_transducer c = Inr tr" and "0 \<le> w" and "w < 2 ^ 32"
  shows "is_legal_word c w False \<longleftrightarrow> (\<exists>t \<in> set (templates tr). width t = 32 \<and> in_form t w)"
proof -
  obtain its mts cts where *: "i_templates c = Inr its"
     "(if ''M'' \<in> set (extensions c) then m_templates c else Inr []) = Inr mts"
     "(if ''C'' \<in> set (extensions c) \<and> instruction_alignment c = 2 then c_templates c else Inr []) = Inr cts"
     "contract tr = c" "templates tr = its @ mts @ cts"
     "by_name tr = dict_set_all [] (map (\<lambda>t. (name t, t)) (templates tr))"
     "supports_legal_instruction_validation c"
    by (rule make_transducer_templates [OF assms(2)])
  have i: "(\<exists>t \<in> set its. width t = 32 \<and> in_form t w) \<longleftrightarrow> (\<exists>t \<in> set its. matches t w)"
    using i_templates_plain [OF *(1)] plain_repair(2) unfolding in_form_def by blast
  have m: "(\<exists>t \<in> set mts. width t = 32 \<and> in_form t w) \<longleftrightarrow> (\<exists>t \<in> set mts. matches t w)"
    using m_templates_plain [of c mts] plain_repair(2) *(2) unfolding in_form_def by (auto split: if_splits)
  have cs: "\<not> (\<exists>t \<in> set cts. width t = 32 \<and> in_form t w)"
    using c_templates_repairable [of c cts] *(3) by (auto simp: repairable_def split: if_splits)
  have bl: "base_legal c w \<Longrightarrow> bits 0 2 w = 3"
    using base_opcodes_low [of w] unfolding base_opcodes_def base_legal_def Let_def by (auto split: if_splits)
  have "is_legal_word c w False \<longleftrightarrow> base_legal c w"
    using assms(3,4) *(7) bl by (auto simp: is_legal_word_def)
  also have "\<dots> \<longleftrightarrow> (\<exists>t \<in> set its. matches t w) \<or> (\<exists>t \<in> set mts. matches t w)"
  proof (cases "''M'' \<in> set (extensions c)")
    case True
    then show ?thesis
      using i_templates_matches [OF assms(1) *(1) assms(3,4)] m_templates_matches [OF assms(1), of mts w] *(2)
      by (auto simp: base_legal_def Let_def)
  next
    case False
    then show ?thesis
      using i_templates_matches [OF assms(1) *(1) assms(3,4)] *(2) base_legal_M [of c w] by auto
  qed
  finally show ?thesis
    unfolding *(5) using i m cs by auto
qed

lemma transducer_legal_16:
  assumes "isa_contract_ok c" and "make_transducer c = Inr tr" and "0 \<le> w" and "w < 2 ^ 16"
  shows "is_legal_word c w True \<longleftrightarrow> (\<exists>t \<in> set (templates tr). width t = 16 \<and> in_form t w)"
proof -
  obtain its mts cts where *: "i_templates c = Inr its"
     "(if ''M'' \<in> set (extensions c) then m_templates c else Inr []) = Inr mts"
     "(if ''C'' \<in> set (extensions c) \<and> instruction_alignment c = 2 then c_templates c else Inr []) = Inr cts"
     "contract tr = c" "templates tr = its @ mts @ cts"
     "by_name tr = dict_set_all [] (map (\<lambda>t. (name t, t)) (templates tr))"
     "supports_legal_instruction_validation c"
    by (rule make_transducer_templates [OF assms(2)])
  have none: "width t = 16 \<Longrightarrow> t \<notin> set its \<and> t \<notin> set mts" for t
    using i_templates_plain [OF *(1), of t] m_templates_plain [of c mts t] *(2) by (auto split: if_splits)
  have "is_legal_word c w True \<longleftrightarrow> compressed_legal c w"
    using assms(3) *(7) by (simp add: is_legal_word_def)
  also have "\<dots> \<longleftrightarrow> (\<exists>t \<in> set cts. matches t w \<and> c_extra (name t) w)"
  proof (cases "''C'' \<in> set (extensions c) \<and> instruction_alignment c = 2")
    case True
    then show ?thesis
      using build_crmatch [of "c_calls c" cts w] c_calls_legal [of c w] isa_contract_xlen [OF assms(1)] *(3) assms(4)
      by (simp add: c_templates_build)
  next
    case False
    then have "\<not> compressed_legal c w"
      by (subst compressed_legal_def, subst if_P) auto
    with False show ?thesis using *(3) by (auto split: if_splits)
  qed
  also have "\<dots> \<longleftrightarrow> (\<exists>t \<in> set cts. width t = 16 \<and> in_form t w)"
    using c_templates_repairable [of c cts] *(3) unfolding in_form_def repairable_def by (auto split: if_splits)
  finally show ?thesis
    unfolding *(5) using none by auto
qed


text \<open>The result of a repair: legal, of the width asked for, and equal to the raw payload on
  every bit reported as free.\<close>

definition repaired_from :: "int \<Rightarrow> int \<Rightarrow> instruction_choice \<Rightarrow> bool" where
  "repaired_from raw wd ch \<longleftrightarrow> choice_width ch = wd \<and> 0 \<le> choice_word ch \<and> choice_word ch < 2 ^ nat wd
     \<and> choice_word ch AND free_mask ch = raw AND free_mask ch"

lemma or_mask_bounds:
  assumes "(0 :: int) \<le> w" and "w < 2 ^ n" and "r AND mask n = r"
  shows "0 \<le> w OR r" and "w OR r < 2 ^ n"
proof -
  have "take_bit n (w OR r) = w OR r"
    using assms by (simp add: take_bit_small flip: take_bit_eq_mask)
  then show "0 \<le> w OR r" and "w OR r < 2 ^ n"
    by (metis take_bit_nonnegative, metis take_bit_int_less_exp)
qed

lemma repair_template_legal:
  assumes "isa_contract_ok c" and "make_transducer c = Inr tr" and "t \<in> set (templates tr)" and "0 \<le> raw"
  obtains ch where "repair_template c t raw = Inr ch" and "operation ch = name t" and "legal ch"
    and "is_legal_word c (choice_word ch) (width t = 16)" and "repaired_from raw (width t) ch"
proof -
  let ?n = "nat (width t)"
  note u = transducer_templates [OF assms(1-3), unfolded usable_def]
  then have wd: "width t = 16 \<or> width t = 32"
    by (auto simp: template_ok_def)
  obtain w where w: "template_repair t raw = Inr w"
    using assms(4) by (simp add: template_repair_def)
  note m = template_repair_matches [OF conjunct1 [OF u] w]
  obtain r where r: "repair_fields (name t) (w, 0) = (w OR r, r)" "r AND repair_bits (name t) = r" "c_extra (name t) (w OR r)"
    using repair_fields_spec by blast
  have r': "r AND fixed_mask t = 0" "r AND mask ?n = r"
    using u r(2) by (metis and.assoc and.commute and_zero_eq, metis and.assoc)
  then have "matches t (w OR r)"
    using m(1) by (simp add: matches_def bit.conj_disj_distrib2)
  with r(3) have form: "in_form t (w OR r)"
    by (simp add: in_form_def)
  note b = or_mask_bounds [OF m(2,3) r'(2)]
  have legal: "is_legal_word c (w OR r) (width t = 16)"
    using wd transducer_legal_16 [OF assms(1,2), of "w OR r"] transducer_legal_32 [OF assms(1,2), of "w OR r"]
      form assms(3) b by auto
  let ?free = "word_mask (width t) AND NOT (fixed_mask t OR r)"
  have wm: "word_mask (width t) = mask ?n"
    using wd by (auto simp: word_mask_eq)
  have "(w OR r) AND ?free = (w AND NOT (fixed_mask t)) AND mask ?n AND NOT r"
    unfolding wm by (auto simp: bit_eq_iff bit_simps)
  also have "\<dots> = raw AND ?free"
    unfolding m(4) wm by (auto simp: bit_eq_iff bit_simps)
  finally have free: "(w OR r) AND ?free = raw AND ?free" .
  let ?ch = "\<lparr>operation = name t, choice_width = width t, choice_word = w OR r, free_mask = ?free, legal = True\<rparr>"
  have "repair_template c t raw = Inr ?ch"
    using w r(1) legal by (simp add: repair_template_def)
  then show thesis
    by (rule that) (use legal b free in \<open>simp_all add: repaired_from_def\<close>)
qed

lemma repair_template_self:
  assumes "isa_contract_ok c" and "make_transducer c = Inr tr" and "t \<in> set (templates tr)"
    and "in_form t w" and "0 \<le> w" and "w < 2 ^ nat (width t)"
  shows "\<exists>ch. repair_template c t w = Inr ch \<and> choice_word ch = w \<and> operation ch = name t \<and> legal ch
    \<and> choice_width ch = width t"
proof -
  note u = transducer_templates [OF assms(1-3), unfolded usable_def]
  have "template_repair t w = Inr w"
    using u assms(4-6) by (intro template_repair_self) (simp_all add: in_form_def)
  moreover have "repair_fields (name t) (w, 0) = (w, 0)"
    using assms(4) by (simp add: in_form_def repair_fields_self)
  moreover have "is_legal_word c w (width t = 16)"
    using u transducer_legal_16 [OF assms(1,2), of w] transducer_legal_32 [OF assms(1,2), of w]
      assms(3-6) by (auto simp: template_ok_def)
  ultimately show ?thesis
    by (simp add: repair_template_def)
qed


section \<open>Selection\<close>

text \<open>The index \<open>raw * n // domain\<close> hits each of \<open>n\<close> choices for \<open>domain div n\<close> or one more raw values.\<close>

lemma le_div_iff: "0 < b \<Longrightarrow> x \<le> a div b \<longleftrightarrow> x * b \<le> (a :: int)"
proof
  assume b: "0 < b" and "x \<le> a div b"
  then have "x * b \<le> a div b * b" by (simp add: mult_right_mono)
  also have "\<dots> \<le> a" using b div_mult_mod_eq [of a b] pos_mod_sign [of b a] by linarith
  finally show "x * b \<le> a" .
next
  assume b: "0 < b" and "x * b \<le> a"
  then have "x * b div b \<le> a div b" by (intro zdiv_mono1)
  with b show "x \<le> a div b" by simp
qed

lemma index_in_range:
  assumes "0 \<le> raw" "raw < (D :: int)" "0 < n"
  shows "0 \<le> raw * n div D" "raw * n div D < n"
proof -
  have "0 < D" using assms by linarith
  then show "0 \<le> raw * n div D" using assms by (simp add: pos_imp_zdiv_nonneg_iff)
  have "raw * n < n * D" using assms by (simp add: mult.commute)
  then show "raw * n div D < n" using le_div_iff [OF \<open>0 < D\<close>, of n "raw * n"] by simp
qed

definition ceil_div :: "int \<Rightarrow> int \<Rightarrow> int" where
  "ceil_div a b = - ((- a) div b)"

lemma ceil_div_le: "0 < b \<Longrightarrow> ceil_div a b \<le> x \<longleftrightarrow> a \<le> x * b"
proof -
  assume b: "0 < b"
  have "ceil_div a b \<le> x \<longleftrightarrow> - x \<le> (- a) div b"
    by (simp add: ceil_div_def) linarith
  also have "\<dots> \<longleftrightarrow> - x * b \<le> - a"
    by (rule le_div_iff [OF b])
  finally show ?thesis by simp
qed

lemma preimage_interval:
  assumes "0 < n" "0 < D" "0 \<le> i" "i < n"
  shows "{raw. 0 \<le> raw \<and> raw < D \<and> raw * n div D = i} = {ceil_div (i * D) n ..< ceil_div ((i + 1) * D) n}"
proof -
  have "raw * n div D = i \<longleftrightarrow> i * D \<le> raw * n \<and> \<not> (i + 1) * D \<le> raw * n" for raw
    using le_div_iff [OF \<open>0 < D\<close>, of i "raw * n"] le_div_iff [OF \<open>0 < D\<close>, of "i + 1" "raw * n"] by linarith
  then have eq: "raw * n div D = i \<longleftrightarrow> ceil_div (i * D) n \<le> raw \<and> raw < ceil_div ((i + 1) * D) n" for raw
    using ceil_div_le [OF \<open>0 < n\<close>] by (simp add: not_le [symmetric])
  have lo: "0 \<le> ceil_div (i * D) n"
    using ceil_div_le [OF \<open>0 < n\<close>, of "i * D" "-1"] mult_nonneg_nonneg [of i D] assms by linarith
  have hi: "ceil_div ((i + 1) * D) n \<le> D"
    using ceil_div_le [OF \<open>0 < n\<close>, of "(i + 1) * D" D] assms by (simp add: mult.commute)
  show ?thesis
    unfolding eq using lo hi by auto
qed

lemma ceil_div_step:
  assumes "0 < n"
  shows "ceil_div (x + D) n - ceil_div x n \<in> {D div n, D div n + 1}"
proof -
  let ?q = "(- x) div n" and ?r = "(- x) mod n" and ?e = "D div n" and ?s = "D mod n"
  have r: "0 \<le> ?r" "?r < n" "0 \<le> ?s" "?s < n"
    using assms by simp_all
  have "- (x + D) = (?q - ?e) * n + (?r - ?s)"
    using div_mult_mod_eq [of "- x" n] div_mult_mod_eq [of D n] by (simp add: algebra_simps)
  then have "(- (x + D)) div n = (?q - ?e) + (?r - ?s) div n"
    using assms by (simp only: div_mult_self3)
  moreover have "(?r - ?s) div n = 0 \<or> (?r - ?s) div n = - 1"
  proof (cases "?s \<le> ?r")
    case True
    then have "(?r - ?s) div n = 0"
      using r by (intro div_pos_pos_trivial) linarith+
    then show ?thesis by simp
  next
    case False
    then have "(?r - ?s) div n = - 1"
      using r assms by (intro int_div_pos_eq [where r = "?r - ?s + n"]) linarith+
    then show ?thesis by simp
  qed
  ultimately show ?thesis
    by (auto simp: ceil_div_def)
qed


lemma distinct_preimage_card:
  assumes "distinct choices" and "i < length choices" and "0 < raw_width"
  shows "{raw. select_balanced raw raw_width choices = Inr (choices ! i)} =
    {raw. 0 \<le> raw \<and> raw < 2 ^ nat raw_width \<and> raw * int (length choices) div 2 ^ nat raw_width = int i}"
proof (rule Collect_cong)
  fix raw :: int
  let ?D = "2 ^ nat raw_width :: int" and ?n = "int (length choices)"
  have n: "0 < ?n" using assms(2) by linarith
  show "select_balanced raw raw_width choices = Inr (choices ! i) \<longleftrightarrow> 0 \<le> raw \<and> raw < ?D \<and> raw * ?n div ?D = int i"
  proof (cases "0 \<le> raw \<and> raw < ?D")
    case True
    then have range: "0 \<le> raw * ?n div ?D" "raw * ?n div ?D < ?n"
      using index_in_range [of raw ?D ?n] n by simp_all
    have "select_balanced raw raw_width choices = Inr (choices ! nat (raw * ?n div ?D))"
      using True assms min_absorb2 [of "raw * ?n div ?D" "?n - 1"] range
      by (auto simp: select_balanced_def Let_def push_bit_eq_mult)
    with True range assms show ?thesis
      by (auto simp: nth_eq_iff_index_eq)
  next
    case False
    then show ?thesis by (auto simp: select_balanced_def push_bit_eq_mult)
  qed
qed

lemma select_balanced_member:
  assumes "0 \<le> raw" and "raw < 2 ^ nat raw_width" and "0 < raw_width" and "choices \<noteq> []"
  shows "\<exists>x \<in> set choices. select_balanced raw raw_width choices = Inr x"
proof -
  let ?D = "2 ^ nat raw_width :: int" and ?n = "int (length choices)"
  have "nat (min (?n - 1) (raw * ?n div ?D)) < length choices"
    using assms(4) by (cases "length choices") (auto simp: min_def nat_less_iff)
  with assms show ?thesis
    by (auto simp: select_balanced_def Let_def push_bit_eq_mult intro!: nth_mem)
qed

text \<open>The names of the templates, in order.\<close>

definition template_names :: "isa_contract \<Rightarrow> string list" where
  "template_names c =
     [''ADDI'', ''SLTI'', ''SLTIU'', ''XORI'', ''ORI'', ''ANDI'', ''SLLI'', ''SRLI'', ''SRAI'', ''ADD'', ''SLL'', ''SLT'',
      ''SLTU'', ''XOR'', ''SRL'', ''OR'', ''AND'', ''SUB'', ''SRA'', ''LB'', ''LH'', ''LW'', ''LBU'', ''LHU'']
     @ (if xlen c = 64 then [''LD'', ''LWU''] else []) @ [''SB'', ''SH'', ''SW'']
     @ (if xlen c = 64 then [''SD''] else [])
     @ [''BEQ'', ''BNE'', ''BLT'', ''BGE'', ''BLTU'', ''BGEU'', ''AUIPC'', ''LUI'', ''JAL'', ''JALR'', ''FENCE'',
        ''ECALL'', ''EBREAK'', ''WFI'']
     @ (if ''M'' \<in> set (privilege_modes c) then [''MRET''] else [])
     @ (if ''S'' \<in> set (privilege_modes c) then [''SRET''] else [])
     @ (if xlen c = 64 then [''ADDIW'', ''SLLIW'', ''SRLIW'', ''SRAIW'', ''ADDW'', ''SLLW'', ''SRLW'', ''SUBW'', ''SRAW''] else [])"

definition rname :: "instruction_template res \<Rightarrow> string" where
  "rname r = (case r of Inl _ \<Rightarrow> [] | Inr t \<Rightarrow> name t)"

lemma make_template_name: "make_template n w ext fm fv = Inr t \<Longrightarrow> name t = n"
  by (simp add: make_template_Inr)

lemma rname_make:
  "is_ok (make_template n w ext fm fv) \<Longrightarrow> rname (make_template n w ext fm fv) = n"
  "is_ok (base_template n ext opc f3 f7 em ev) \<Longrightarrow> rname (base_template n ext opc f3 f7 em ev) = n"
  "is_ok (compressed_template n q k em ev) \<Longrightarrow> rname (compressed_template n q k em ev) = n"
  unfolding base_template_def compressed_template_def Let_def is_ok_iff rname_def
  by (auto simp: make_template_name split: option.splits)

lemma build_names: "build xs = Inr ts \<Longrightarrow> map name ts = map rname xs"
  by (simp add: build_Inr rname_def comp_def)

lemma i_names:
  assumes "isa_contract_ok c" and "i_templates c = Inr ts"
  shows "map name ts = template_names c"
proof -
  have sys: "is_ok (make_template n 32 ''I'' 0xFFFFFFFF v) \<longleftrightarrow> n \<noteq> [] \<and> v AND 0xFFFFFFFF = v" for n v
    unfolding is_ok_iff make_template_Inr subset_mask by (simp add: word_mask_eq mask_eq_exp_minus_1)
  show ?thesis
    unfolding build_names [OF assms(2) [unfolded i_templates_def Let_def]] template_names_def
    using isa_contract_xlen [OF assms(1)]
    by (elim disjE) (simp_all add: rname_make base_template_args sys del: push_bit_numeral push_bit_of_1)
qed

definition m_template_names :: "isa_contract \<Rightarrow> string list" where
  "m_template_names c = [''MUL'', ''MULH'', ''MULHSU'', ''MULHU'', ''DIV'', ''DIVU'', ''REM'', ''REMU'']
     @ (if xlen c = 64 then [''MULW'', ''DIVW'', ''DIVUW'', ''REMW'', ''REMUW''] else [])"

lemma m_names:
  assumes "m_templates c = Inr ts"
  shows "map name ts = m_template_names c"
  unfolding build_names [OF assms [unfolded m_templates_def]] m_template_names_def
  by (simp add: rname_make base_template_args)

definition c_template_names :: "isa_contract \<Rightarrow> string list" where
  "c_template_names c = [''C.ADDI4SPN'', ''C.LW'', ''C.SW'', ''C.ADDI''] @ (if xlen c = 32 then [''C.JAL''] else [])
     @ [''C.LI'', ''C.ADDI16SP'', ''C.LUI'', ''C.SRLI'', ''C.SRAI'', ''C.ANDI'', ''C.SUB'', ''C.XOR'', ''C.OR'', ''C.AND'',
        ''C.J'', ''C.BEQZ'', ''C.BNEZ'', ''C.SLLI'', ''C.LWSP'', ''C.JR'', ''C.MV'', ''C.EBREAK'', ''C.JALR'', ''C.ADD'', ''C.SWSP'']
     @ (if xlen c = 32 then [] else [''C.LD'', ''C.SD'', ''C.ADDIW'', ''C.SUBW'', ''C.ADDW'', ''C.LDSP'', ''C.SDSP''])"

lemma c_names:
  assumes "c_templates c = Inr ts"
  shows "map name ts = c_template_names c"
  unfolding build_names [OF assms [unfolded c_templates_build]] c_template_names_def c_calls_def
  by (simp add: c_common_calls_def c_rv64_calls_def rname_make c_template_simps del: push_bit_numeral push_bit_of_1)

lemma names_distinct: "distinct (template_names c @ m_template_names c @ c_template_names c)"
  by (simp add: template_names_def m_template_names_def c_template_names_def) auto

lemma transducer_names:
  assumes "isa_contract_ok c" and "make_transducer c = Inr tr"
  shows "distinct (map name (templates tr))"
    and "set (map name (templates tr)) \<subseteq> set (template_names c @ m_template_names c @ c_template_names c)"
    and "''ADDI'' \<in> set (map name (templates tr))"
proof -
  obtain its mts cts where *: "i_templates c = Inr its"
     "(if ''M'' \<in> set (extensions c) then m_templates c else Inr []) = Inr mts"
     "(if ''C'' \<in> set (extensions c) \<and> instruction_alignment c = 2 then c_templates c else Inr []) = Inr cts"
     "contract tr = c" "templates tr = its @ mts @ cts"
     "by_name tr = dict_set_all [] (map (\<lambda>t. (name t, t)) (templates tr))"
     "supports_legal_instruction_validation c"
    by (rule make_transducer_templates [OF assms(2)])
  have m: "map name mts = [] \<or> map name mts = m_template_names c"
    using *(2) m_names [of c mts] by (auto split: if_splits)
  have c: "map name cts = [] \<or> map name cts = c_template_names c"
    using *(3) c_names [of c cts] by (auto split: if_splits)
  show "distinct (map name (templates tr))"
    "set (map name (templates tr)) \<subseteq> set (template_names c @ m_template_names c @ c_template_names c)"
    using m c names_distinct [of c] unfolding *(5) map_append i_names [OF assms(1) *(1)]
    by (elim disjE; simp only: append_Nil append_Nil2 distinct_append set_append; auto)+
  show "''ADDI'' \<in> set (map name (templates tr))"
    unfolding *(5) map_append i_names [OF assms(1) *(1)] by (simp add: template_names_def)
qed

lemma make_transducer_total:
  assumes "isa_contract_ok c" and "supports_legal_instruction_validation c"
  shows "\<exists>tr. make_transducer c = Inr tr"
proof -
  obtain its where "i_templates c = Inr its" using templates_total(1) [OF assms(1)] by blast
  moreover obtain mts where "m_templates c = Inr mts" using templates_total(2) [OF assms(1)] by blast
  moreover obtain cts where "c_templates c = Inr cts" using c_calls_ok [of c] by (auto simp: c_templates_build simp flip: build_total)
  ultimately show ?thesis
    using assms(2) by (simp add: make_transducer_def Let_def)
qed

lemma names_legal:
  assumes "isa_contract_ok c" and "make_transducer c = Inr tr" and "t \<in> set (templates tr)"
  shows "name t \<noteq> ''ILLEGAL''"
proof -
  have "''ILLEGAL'' \<notin> set (template_names c @ m_template_names c @ c_template_names c)"
    by (simp add: template_names_def m_template_names_def c_template_names_def)
  then show ?thesis
    using transducer_names(2) [OF assms(1,2)] assms(3) by auto
qed

lemma lookup_name:
  assumes "isa_contract_ok c" and "make_transducer c = Inr tr" and "t \<in> set (templates tr)"
  shows "map_of (by_name tr) (name t) = Some t"
proof -
  have "by_name tr = dict_set_all [] (map (\<lambda>t. (name t, t)) (templates tr))"
    by (rule make_transducer_templates [OF assms(2)])
  then show ?thesis
    using transducer_names(1) [OF assms(1,2)] assms(3)
    by (auto simp: map_of_dict_set_all_distinct comp_def distinct_map split: option.splits
        dest!: map_of_SomeD dest: inj_onD intro!: weak_map_of_SomeI)
qed

lemma width_available:
  assumes "isa_contract_ok c" and "make_transducer c = Inr tr"
    and "wd = 32 \<or> wd = 16 \<and> ''C'' \<in> set (extensions c) \<and> instruction_alignment c = 2"
  shows "\<exists>t \<in> set (templates tr). width t = wd"
proof -
  have s: "supports_legal_instruction_validation c"
    by (rule make_transducer_templates [OF assms(2)])
  have "is_legal_word c 0x13 False"
    using s by (simp add: is_legal_word_def base_legal_def bits_arith)
  moreover have "is_legal_word c 0x4000 True" if "''C'' \<in> set (extensions c)" "instruction_alignment c = 2"
    using s that by (simp add: is_legal_word_def compressed_legal_def bits_arith)
  ultimately show ?thesis
    using transducer_legal_32 [OF assms(1,2), of "0x13"] transducer_legal_16 [OF assms(1,2), of "0x4000"] assms(3) by auto
qed

lemma bits_not_opcode: "bits 0 7 (NOT OPCODE_MASK) = 0"
  by (simp add: OPCODE_MASK_def bits_arith)

lemma illegal_choice_spec:
  assumes "0 \<le> raw" and "wd = 32 \<or> wd = 16"
  shows "\<exists>ch. illegal_choice c raw wd = Inr ch \<and> operation ch = ''ILLEGAL'' \<and> \<not> legal ch
    \<and> \<not> is_legal_word c (choice_word ch) (wd = 16) \<and> repaired_from raw wd ch"
proof (cases "wd = 16")
  case True
  let ?w = "raw AND push_bit 2 7"
  have f: "bits 0 2 ?w = 0" "bits 13 3 ?w = 0" "?w AND C_ADDI4SPN_IMMEDIATE_MASK = 0"
    by (simp_all add: bits_and and.assoc C_ADDI4SPN_IMMEDIATE_MASK_def) (simp_all add: bits_arith)
  then have "\<not> compressed_legal c ?w"
    unfolding compressed_legal_def Let_def c_legal_simps by simp
  then have "\<not> is_legal_word c ?w True"
    by (auto simp: is_legal_word_def)
  moreover have "0 \<le> ?w" "?w < 2 ^ 16"
    using AND_upper2 [of "push_bit 2 7" raw] by auto
  ultimately show ?thesis
    using assms True by (simp add: illegal_choice_def Let_def repaired_from_def)
next
  case False
  then have wd: "wd = 32" using assms by simp
  let ?w = "((raw AND mask 32) AND NOT OPCODE_MASK) OR 0x4B"
  have "bits 0 7 ?w = 0x4B"
    by (simp add: bits_or bits_and bits_not_opcode) (simp add: bits_arith)
  then have illegal: "\<not> is_legal_word c ?w False"
    by (auto simp: is_legal_word_def base_legal_def)
  have "(raw AND mask 32) AND NOT OPCODE_MASK = take_bit 32 (raw AND NOT OPCODE_MASK)"
    by (auto simp: bit_eq_iff bit_simps)
  moreover have "0x4B AND mask 32 = (0x4B :: int)"
    by (simp add: mask_eq_exp_minus_1)
  note or_mask_bounds [OF take_bit_nonnegative take_bit_int_less_exp this, of "raw AND NOT OPCODE_MASK"]
  ultimately have b: "0 \<le> ?w" "?w < 2 ^ 32"
    by simp_all
  have "0x4B AND NOT OPCODE_MASK = 0"
    by (simp add: OPCODE_MASK_def)
  moreover have "?w AND (mask 32 AND NOT OPCODE_MASK) =
      (raw AND (mask 32 AND NOT OPCODE_MASK)) OR ((0x4B AND NOT OPCODE_MASK) AND mask 32)"
    by (auto simp: bit_eq_iff bit_and_iff bit_or_iff bit_not_iff)
  ultimately have "?w AND (mask 32 AND NOT OPCODE_MASK) = raw AND (mask 32 AND NOT OPCODE_MASK)"
    by simp
  then show ?thesis
    using assms(1) wd b illegal by (simp add: illegal_choice_def Let_def repaired_from_def word_mask_eq)
qed

text \<open>Selection is fair: over the raw values of a selector of any width, each of the choices is
  selected by \<open>domain div n\<close> raw values or by one more, so two preimages differ by at most one.\<close>

theorem select_balanced_fair:
  assumes "distinct choices" and "i < length choices" and "0 < raw_width"
  shows "int (card {raw. select_balanced raw raw_width choices = Inr (choices ! i)})
    \<in> {2 ^ nat raw_width div int (length choices), 2 ^ nat raw_width div int (length choices) + 1}"
proof -
  let ?D = "2 ^ nat raw_width :: int" and ?n = "int (length choices)" and ?i = "int i"
  have n: "0 < ?n" "?i < ?n" using assms(2) by linarith+
  have step: "ceil_div ((?i + 1) * ?D) ?n - ceil_div (?i * ?D) ?n \<in> {?D div ?n, ?D div ?n + 1}"
    using ceil_div_step [OF n(1), of "?i * ?D" ?D] by (simp add: ring_distribs add.commute)
  moreover have "0 \<le> ?D div ?n"
    using n by (simp add: pos_imp_zdiv_nonneg_iff)
  moreover have "d \<in> {e, e + 1} \<Longrightarrow> 0 \<le> e \<Longrightarrow> int (nat d) = d" for d e :: int
    by auto
  ultimately have "int (card {ceil_div (?i * ?D) ?n ..< ceil_div ((?i + 1) * ?D) ?n})
      = ceil_div ((?i + 1) * ?D) ?n - ceil_div (?i * ?D) ?n"
    unfolding card_atLeastLessThan_int by blast
  then show ?thesis
    unfolding distinct_preimage_card [OF assms] using preimage_interval [OF n(1) _ _ n(2), of ?D] step
    by (simp only: zero_less_power zero_less_numeral of_nat_0_le_iff)
qed

text \<open>C4: No repair fails: for a valid contract of implemented extensions the transducer is built, and every selector byte and every
  nonnegative payload gives an instruction of the width asked for (16 bits where the contract has
  them). Unless an illegal instruction was allowed and selected, the word is legal under the
  contract, and the legality that is reported is the real one; the word agrees with the payload on
  every bit reported free. The internal assertion is never reached.\<close>

theorem transducer_repair_legal:
  assumes "make_isa_contract xl exts modes al = Inr c" and "supports_legal_instruction_validation c"
    and "0 \<le> sel" and "sel < 256" and "0 \<le> raw"
    and "wd = 32 \<or> wd = 16 \<and> ''C'' \<in> set exts \<and> al = 2"
  shows "\<exists>tr ch. make_transducer c = Inr tr \<and> repair tr sel raw illegal wd = Inr ch \<and> choice_width ch = wd
    \<and> 0 \<le> choice_word ch \<and> choice_word ch < 2 ^ nat wd
    \<and> choice_word ch AND free_mask ch = raw AND free_mask ch
    \<and> legal ch = is_legal_word c (choice_word ch) (wd = 16)
    \<and> legal ch = (operation ch \<noteq> ''ILLEGAL'') \<and> (\<not> illegal \<longrightarrow> legal ch)"
proof -
  have ok: "isa_contract_ok c" and c: "extensions c = exts" "instruction_alignment c = al"
    using make_isa_contract_ok [OF assms(1)] assms(1) by (simp_all add: make_isa_contract_Inr)
  obtain tr where new: "make_transducer c = Inr tr"
    using make_transducer_total [OF ok assms(2)] by blast
  define ts where "ts = filter (\<lambda>t. width t = wd) (templates tr)"
  have tr: "contract tr = c"
    by (rule make_transducer_templates [OF new])
  have ne: "ts \<noteq> []"
    using width_available [OF ok new, of wd] assms(6) c by (auto simp: ts_def filter_empty_conv)
  obtain chosen where ch: "select_balanced sel 8 (map Some ts @ (if illegal then [None] else [])) = Inr chosen"
      "chosen \<in> set (map Some ts @ (if illegal then [None] else []))"
    using select_balanced_member [of sel 8 "map Some ts @ (if illegal then [None] else [])"] ne assms(3,4) by auto
  have run: "repair tr sel raw illegal wd = (case chosen of None \<Rightarrow> illegal_choice c raw wd | Some t \<Rightarrow> repair_template c t raw)"
    using assms(3,4,6) ne ch(1) by (auto simp: repair_def selector_width_def ts_def tr)
  show ?thesis
  proof (cases chosen)
    case None
    then have "illegal" using ch(2) by (auto split: if_splits)
    then show ?thesis
      using new run None illegal_choice_spec [OF assms(5), of wd c] assms(6) by (auto simp: repaired_from_def)
  next
    case (Some t)
    then have t: "t \<in> set (templates tr)" "width t = wd"
      using ch(2) by (auto simp: ts_def split: if_splits)
    obtain x where "repair_template c t raw = Inr x" "operation x = name t" "legal x"
      "is_legal_word c (choice_word x) (width t = 16)" "repaired_from raw (width t) x"
      by (rule repair_template_legal [OF ok new t(1) assms(5)])
    moreover have "name t \<noteq> ''ILLEGAL''"
      using names_legal [OF ok new t(1)] .
    ultimately show ?thesis
      using new run Some t(2) by (auto simp: repaired_from_def)
  qed
qed


text \<open>C5: The transducer reaches every legal instruction: each 32-bit word, and each 16-bit word where
  the contract has the C extension, that the legality check accepts is returned unchanged by the
  repair of some named operation.\<close>

theorem transducer_complete:
  assumes "make_isa_contract xl exts modes al = Inr c" and "make_transducer c = Inr tr"
    and "is_legal_word c w compressed"
  shows "\<exists>op ch. repair_for_operation tr op w = Inr ch \<and> choice_word ch = w \<and> legal ch
    \<and> operation ch = op \<and> choice_width ch = (if compressed then 16 else 32)"
proof -
  have ok: "isa_contract_ok c"
    by (rule make_isa_contract_ok [OF assms(1)])
  have tr: "contract tr = c"
    by (rule make_transducer_templates [OF assms(2)])
  note b = legal_word_bounds(1,2) [OF assms(3)]
  obtain t where t: "t \<in> set (templates tr)" "width t = (if compressed then 16 else 32)" "in_form t w"
    using transducer_legal_16 [OF ok assms(2), of w] transducer_legal_32 [OF ok assms(2), of w] assms(3) b
    by (cases compressed) auto
  have "0 \<le> w" "w < 2 ^ nat (width t)"
    using b t(2) by (cases compressed; simp)+
  then obtain ch where "repair_template c t w = Inr ch" "choice_word ch = w" "operation ch = name t" "legal ch"
      "choice_width ch = width t"
    using repair_template_self [OF ok assms(2) t(1,3)] by blast
  then show ?thesis
    using lookup_name [OF ok assms(2) t(1)] t(2)
    by (intro exI [of _ "name t"] exI [of _ ch]) (simp add: repair_for_operation_def tr)
qed


definition rv32imc :: isa_contract where
  "rv32imc = \<lparr>xlen = 32, extensions = [''I'', ''M'', ''C''], privilege_modes = [''M''], instruction_alignment = 2\<rparr>"

lemma rv32imc_facts:
  "make_isa_contract 32 [''I'', ''M'', ''C''] [''M''] 2 = Inr rv32imc" "supports_legal_instruction_validation rv32imc"
  by (simp_all add: make_isa_contract_def rv32imc_def supports_legal_instruction_validation_def implemented_extensions_def)

theorem select_balanced_fair_witness:
  "int (card {raw. select_balanced raw 2 [''ADDI'', ''LUI'', ''JAL''] = Inr ''LUI''}) \<in> {1, 2}"
  using select_balanced_fair [of "[''ADDI'', ''LUI'', ''JAL'']" 1 2] by simp

theorem transducer_repair_legal_witness:
  "\<exists>tr ch. make_transducer rv32imc = Inr tr \<and> repair tr 200 0x1234 False 16 = Inr ch
     \<and> is_legal_word rv32imc (choice_word ch) True \<and> choice_word ch AND free_mask ch = 0x1234 AND free_mask ch"
  using transducer_repair_legal [OF rv32imc_facts, of 200 "0x1234" 16 False] by auto

theorem transducer_complete_witness:
  "\<exists>tr op ch. make_transducer rv32imc = Inr tr \<and> repair_for_operation tr op 0x00C58533 = Inr ch
     \<and> choice_word ch = 0x00C58533"
proof -
  obtain tr where tr: "make_transducer rv32imc = Inr tr"
    using make_transducer_total [OF make_isa_contract_ok [OF rv32imc_facts(1)] rv32imc_facts(2)] by blast
  have "is_legal_word rv32imc 0x00C58533 False"
    using rv32imc_facts(2) by (simp add: is_legal_word_def base_legal_def bits_arith Let_def)
  from transducer_complete [OF rv32imc_facts(1) tr this] tr show ?thesis by blast
qed


end
