(* ===== verification/Genome.thy ===== *)
theory Genome
  imports Stdlib Interfaces
begin

text \<open>
  The testcase genome (\<open>scenario/genome.py\<close>): triggers, actions, memory images, reset actions and
  the genome itself, each with the checks of its constructor.
\<close>

section \<open>Records and their constructors\<close>

definition DIRECTIONS :: "string list" where
  "DIRECTIONS = [''CPU_TO_IP'', ''IP_TO_CPU'', ''IP_TO_IP'', ''CPU_TO_IP_TO_CPU'', ''IP_TO_CPU_TO_IP'',
     ''MULTI_COMPONENT_CHAIN'']"

definition natural :: "int \<Rightarrow> string \<Rightarrow> int \<Rightarrow> unit res" where
  "natural value nm minimum =
     check (\<not> value < minimum) (ValueError (nm @ '' must be an integer >= '' @ int_dec minimum))"

record trigger =
  kind :: string
  source_component :: string
  source_port :: string
  trigger_mask :: int
  trigger_value :: int
  occurrence :: int

definition make_trigger :: "string \<Rightarrow> string \<Rightarrow> string \<Rightarrow> int \<Rightarrow> int \<Rightarrow> int \<Rightarrow> trigger res" where
  "make_trigger k cmpt prt msk val occ =
     (let t = \<lparr>kind = k, source_component = cmpt, source_port = prt, trigger_mask = msk,
               trigger_value = val, occurrence = occ\<rparr> in
      if k \<noteq> ''START'' \<and> k \<noteq> ''AFTER_OUTPUT'' then Inl (ValueError ''unknown trigger kind'')
      else if k = ''START'' then
        (if cmpt \<noteq> [] \<or> prt \<noteq> [] \<or> msk \<noteq> 0 \<or> val \<noteq> 0 \<or> occ \<noteq> 1
         then Inl (ValueError ''START trigger cannot refer to an output'') else Inr t)
      else if cmpt = [] \<or> prt = [] then Inl (ValueError ''AFTER_OUTPUT requires a real output endpoint'')
      else res_bind (natural msk ''trigger mask'' 1) (\<lambda>_.
        res_bind (natural val ''trigger value'' 0) (\<lambda>_.
        res_bind (natural occ ''trigger occurrence'' 1) (\<lambda>_.
          if val AND NOT msk \<noteq> 0 then Inl (ValueError ''trigger value exceeds mask'') else Inr t))))"

record action =
  action_id :: string
  component :: string
  port :: string
  action_value :: int
  direction :: string
  trig :: trigger
  delay_component :: string
  delay_ticks :: int
  bit_offset :: int
  action_width :: "int option"

definition make_action :: "action \<Rightarrow> action res" where
  "make_action a =
     (if action_id a = [] \<or> component a = [] \<or> port a = []
      then Inl (ValueError ''action identity and source endpoint are required'')
      else if direction a \<notin> set DIRECTIONS then Inl (ValueError ''unknown mutation direction'')
      else res_bind (natural (action_value a) ''action value'' 0) (\<lambda>_.
        res_bind (natural (delay_ticks a) ''delay_ticks'' 0) (\<lambda>_.
        res_bind (natural (bit_offset a) ''bit_offset'' 0) (\<lambda>_.
        res_bind (case action_width a of None \<Rightarrow> Inr () | Some w \<Rightarrow> natural w ''width'' 1) (\<lambda>_. Inr a)))))"

record memory_image =
  image_id :: string
  image_component :: string
  image_address :: int
  data_hex :: string

definition make_memory_image :: "string \<Rightarrow> string \<Rightarrow> int \<Rightarrow> string \<Rightarrow> memory_image res" where
  "make_memory_image iid cmpt adr dh =
     (if iid = [] \<or> cmpt = [] then Inl (ValueError ''memory image identity and component are required'')
      else res_bind (natural adr ''image address'' 0) (\<lambda>_.
        if dh = [] \<or> odd (length dh) then Inl (ValueError ''memory image must have whole bytes'')
        else (case bytes_fromhex dh of
          None \<Rightarrow> Inl (ValueError ''memory image must be hex'')
        | Some bs \<Rightarrow> if bytes_hex bs \<noteq> dh then Inl (ValueError ''memory image hex must be canonical lowercase'')
            else Inr \<lparr>image_id = iid, image_component = cmpt, image_address = adr, data_hex = dh\<rparr>)))"

definition image_data :: "memory_image \<Rightarrow> bytes res" where
  "image_data img = (case bytes_fromhex (data_hex img) of
     None \<Rightarrow> Inl (ValueError ''non-hexadecimal number found in fromhex() arg'') | Some bs \<Rightarrow> Inr bs)"

record reset_action =
  reset_id :: string
  policy :: string
  reset_trigger :: trigger
  reset_delay_component :: string
  reset_delay_ticks :: int

definition make_reset_action :: "reset_action \<Rightarrow> reset_action res" where
  "make_reset_action a =
     (if reset_id a = [] \<or> (policy a \<noteq> ''warm_all'' \<and> policy a \<noteq> ''cold_all'')
      then Inl (ValueError ''reset action needs an identity and whole-scene policy'')
      else res_bind (natural (reset_delay_ticks a) ''reset delay_ticks'' 0) (\<lambda>_. Inr a))"

record scenario_genome =
  testcase :: string
  genome_direction :: string
  path_id :: string
  schedule_order :: "string list"
  max_steps :: int
  actions :: "action list"
  initial_images :: "memory_image list"
  encoding_version :: int
  reset_actions :: "reset_action list"
  quiesce_steps :: int

definition trigger_scheduled :: "string list \<Rightarrow> trigger \<Rightarrow> bool" where
  "trigger_scheduled order t = (kind t = ''AFTER_OUTPUT'' \<longrightarrow> source_component t \<in> set order)"

definition check_action_order :: "string list \<Rightarrow> action \<Rightarrow> unit res" where
  "check_action_order order a =
     (if component a \<notin> set order then Inl (ValueError ''action source is absent from schedule_order'')
      else if delay_component a \<noteq> [] \<and> delay_component a \<notin> set order
        then Inl (ValueError ''delay component is absent from schedule_order'')
      else if \<not> trigger_scheduled order (trig a)
        then Inl (ValueError ''trigger component is absent from schedule_order'')
      else Inr ())"

definition check_reset_order :: "string list \<Rightarrow> reset_action \<Rightarrow> unit res" where
  "check_reset_order order a =
     (if reset_delay_component a \<noteq> [] \<and> reset_delay_component a \<notin> set order
        then Inl (ValueError ''reset delay component is absent from schedule_order'')
      else if \<not> trigger_scheduled order (reset_trigger a)
        then Inl (ValueError ''reset trigger component is absent from schedule_order'')
      else Inr ())"

definition make_genome :: "scenario_genome \<Rightarrow> scenario_genome res" where
  "make_genome g =
     (if testcase g = [] \<or> path_id g = [] then Inl (ValueError ''testcase_id and path_id are required'')
      else if genome_direction g \<notin> set DIRECTIONS then Inl (ValueError ''unknown mutation direction'')
      else if schedule_order g = [] \<or> [] \<in> set (schedule_order g) \<or> \<not> distinct (schedule_order g)
        then Inl (ValueError ''schedule_order must list unique components'')
      else res_bind (natural (max_steps g) ''max_steps'' 1) (\<lambda>_.
        if encoding_version g \<noteq> 2 \<and> encoding_version g \<noteq> 3
          then Inl (ValueError ''unknown genome encoding version'')
        else if reset_actions g \<noteq> [] \<and> encoding_version g \<noteq> 3
          then Inl (ValueError ''reset actions require genome encoding version 3'')
        else res_bind (natural (quiesce_steps g) ''quiesce_steps'' 0) (\<lambda>_.
          if quiesce_steps g > 4096 then Inl (ValueError ''quiesce_steps exceeds first-stage budget'')
          else if quiesce_steps g \<noteq> 0 \<and> encoding_version g \<noteq> 3
            then Inl (ValueError ''quiesce steps require genome encoding version 3'')
          else if \<not> distinct (map action_id (actions g)) then Inl (ValueError ''action_id must be unique'')
          else if \<not> distinct (map action_id (actions g) @ map reset_id (reset_actions g))
            then Inl (ValueError ''action_id must be unique across the testcase'')
          else if \<not> distinct (map image_id (initial_images g)) then Inl (ValueError ''image_id must be unique'')
          else if \<exists>img \<in> set (initial_images g). image_component img \<notin> set (schedule_order g)
            then Inl (ValueError ''memory image component is absent from schedule_order'')
          else res_bind (check_all (check_action_order (schedule_order g)) (actions g)) (\<lambda>_.
            res_bind (check_all (check_reset_order (schedule_order g)) (reset_actions g)) (\<lambda>_. Inr g)))))"

end
