(* ===== verification/Rv32i.thy ===== *)
theory Rv32i
  imports Rejections Transducer Genome
begin

text \<open>
  The constrained instruction sources (\<open>scenario/rv32i_sources.py\<close>): instruction records with
  their checks and encodings, MMIO windows, the fragments that make a CPU touch a device register,
  mutation of instructions and addresses, the admission check for instruction bytes and the decoder
  from fuzzer bytes to legal fragments.
\<close>

section \<open>Instructions\<close>

definition OPERATIONS :: "string list" where
  "OPERATIONS = [''LUI'', ''ADDI'', ''XORI'', ''ORI'', ''ANDI'', ''AND'', ''OR'', ''SLLI'', ''SRLI'', ''SRAI'',
     ''LW'', ''SW'', ''SB'', ''NOP'']"

definition SHIFT_OPERATIONS :: "string list" where
  "SHIFT_OPERATIONS = [''SLLI'', ''SRLI'', ''SRAI'']"

definition REGISTER_LOGIC_OPERATIONS :: "string list" where
  "REGISTER_LOGIC_OPERATIONS = [''AND'', ''OR'']"

definition MEMORY_OPERATIONS :: "string list" where
  "MEMORY_OPERATIONS = [''LW'', ''SW'', ''SB'']"

definition check_register :: "int \<Rightarrow> string \<Rightarrow> string \<Rightarrow> unit res" where
  "check_register value nm ptr =
     (if \<not> (0 \<le> value \<and> value < 32)
      then reject FIELD_BAD_REGISTER (nm @ '' must be an RV32I register number 0..31'') ptr [(''value'', JInt value)]
      else Inr ())"

definition signed_12 :: "int \<Rightarrow> string \<Rightarrow> unit res" where
  "signed_12 value op =
     (if \<not> (- (push_bit 11 1) \<le> value \<and> value < push_bit 11 1)
      then reject FIELD_BAD_IMMEDIATE ''immediate must fit signed 12 bits'' ''instruction.immediate''
        [(''operation'', JStr op), (''immediate'', JInt value)]
      else Inr ())"

record instruction =
  opn :: string
  rd :: int
  rs1 :: int
  rs2 :: int
  immediate :: int

definition unexpected_operand :: "string \<Rightarrow> string \<Rightarrow> string \<Rightarrow> int \<Rightarrow> 'a res" where
  "unexpected_operand op message nm value =
     reject ISA_UNEXPECTED_OPERAND message (''instruction.'' @ nm) [(''operation'', JStr op), (''value'', JInt value)]"

text \<open>The checks that depend on the operation; the register ranges are checked before.\<close>

definition check_operands :: "instruction \<Rightarrow> unit res" where
  "check_operands i =
     (let op = opn i; imm = immediate i;
          operand = (\<lambda>c m p. reject c m p [(''operation'', JStr op), (''immediate'', JInt imm)])
      in
      if op = ''LUI'' then
        (if \<not> (0 \<le> imm \<and> imm < push_bit 20 1)
         then operand FIELD_BAD_IMMEDIATE ''LUI immediate must fit unsigned 20 bits'' ''instruction.immediate''
         else if rs1 i \<noteq> 0 then unexpected_operand op ''LUI has no source registers'' ''rs1'' (rs1 i)
         else if rs2 i \<noteq> 0 then unexpected_operand op ''LUI has no source registers'' ''rs2'' (rs2 i)
         else Inr ())
      else if op \<in> set REGISTER_LOGIC_OPERATIONS then
        (if imm \<noteq> 0
         then operand FIELD_BAD_IMMEDIATE ''register logic instructions have no immediate'' ''instruction.immediate''
         else Inr ())
      else if op = ''NOP'' then
        (if rd i \<noteq> 0 then unexpected_operand op ''NOP has no operands'' ''rd'' (rd i)
         else if rs1 i \<noteq> 0 then unexpected_operand op ''NOP has no operands'' ''rs1'' (rs1 i)
         else if rs2 i \<noteq> 0 then unexpected_operand op ''NOP has no operands'' ''rs2'' (rs2 i)
         else if imm \<noteq> 0 then unexpected_operand op ''NOP has no operands'' ''immediate'' imm
         else Inr ())
      else if op \<in> set SHIFT_OPERATIONS then
        (if \<not> (0 \<le> imm \<and> imm < 32)
         then operand FIELD_BAD_SHAMT ''shift amount must be an RV32I shamt 0..31'' ''instruction.shamt''
         else if rs2 i \<noteq> 0 then unexpected_operand op (op @ '' has no rs2'') ''rs2'' (rs2 i)
         else Inr ())
      else res_bind (signed_12 imm op) (\<lambda>_.
        if op \<in> {''ADDI'', ''XORI'', ''ORI'', ''ANDI'', ''LW''} \<and> rs2 i \<noteq> 0
          then unexpected_operand op (op @ '' has no rs2'') ''rs2'' (rs2 i)
        else if op \<in> {''SW'', ''SB''} \<and> rd i \<noteq> 0
          then unexpected_operand op (op @ '' has no rd'') ''rd'' (rd i)
        else if op \<in> {''LW'', ''SW''} \<and> imm mod 4 \<noteq> 0
          then operand FIELD_BAD_ALIGNMENT ''LW/SW offset must be word aligned'' ''instruction.immediate''
        else Inr ()))"

definition make_instruction :: "string \<Rightarrow> int \<Rightarrow> int \<Rightarrow> int \<Rightarrow> int \<Rightarrow> instruction res" where
  "make_instruction op d s1 s2 imm =
     (let i = \<lparr>opn = op, rd = d, rs1 = s1, rs2 = s2, immediate = imm\<rparr> in
      if op \<notin> set OPERATIONS
      then reject ISA_DISALLOWED_OPERATION ''unsupported first-stage RV32I operation'' ''instruction.operation''
        [(''operation'', JStr op)]
      else res_bind (check_register d ''rd'' ''instruction.rd'') (\<lambda>_.
        res_bind (check_register s1 ''rs1'' ''instruction.rs1'') (\<lambda>_.
        res_bind (check_register s2 ''rs2'' ''instruction.rs2'') (\<lambda>_.
        res_bind (check_operands i) (\<lambda>_. Inr i)))))"

definition instruction_word :: "instruction \<Rightarrow> int" where
  "instruction_word i =
     (let op = opn i; imm = immediate i in
      if op = ''NOP'' then 0x00000013
      else if op = ''LUI'' then push_bit 12 imm OR push_bit 7 (rd i) OR 0x37
      else if op \<in> set REGISTER_LOGIC_OPERATIONS then
        push_bit 20 (rs2 i) OR push_bit 15 (rs1 i) OR push_bit 12 (if op = ''AND'' then 7 else 6)
          OR push_bit 7 (rd i) OR 0x33
      else if op \<in> set SHIFT_OPERATIONS then
        (let funct3 = (if op = ''SLLI'' then 1 else 5);
             shift = (if op = ''SRAI'' then imm OR 0x400 else imm)
         in push_bit 20 (shift AND 0xfff) OR push_bit 15 (rs1 i) OR push_bit 12 funct3 OR push_bit 7 (rd i) OR 0x13)
      else if op \<in> {''ADDI'', ''XORI'', ''ORI'', ''ANDI'', ''LW''} then
        (let funct3 = (if op = ''LW'' then 2 else if op = ''ADDI'' then 0 else if op = ''XORI'' then 4
                       else if op = ''ORI'' then 6 else 7);
             opcode = (if op = ''LW'' then 0x03 else 0x13)
         in push_bit 20 (imm AND 0xfff) OR push_bit 15 (rs1 i) OR push_bit 12 funct3 OR push_bit 7 (rd i) OR opcode)
      else
        (let funct3 = (if op = ''SW'' then 2 else 0)
         in push_bit 25 (drop_bit 5 imm AND 0x7f) OR push_bit 20 (rs2 i) OR push_bit 15 (rs1 i)
            OR push_bit 12 funct3 OR push_bit 7 (imm AND 0x1f) OR 0x23))"

section \<open>MMIO windows and fragments\<close>

record mmio_window =
  win_base :: int
  win_size :: int
  win_readable :: bool
  win_writable :: bool
  write_widths :: "int list"

definition make_mmio_window :: "int \<Rightarrow> int \<Rightarrow> bool \<Rightarrow> bool \<Rightarrow> int list \<Rightarrow> mmio_window res" where
  "make_mmio_window b sz r w ws =
     (let message = ''MMIO window must fit a nonempty RV32 address range'' in
      if \<not> (0 \<le> b \<and> b < push_bit 32 1) then reject MMIO_BAD_WINDOW message ''window.base'' [(''base'', JInt b)]
      else if sz \<le> 0 then reject MMIO_BAD_WINDOW message ''window.size'' [(''size'', JInt sz)]
      else if b + sz > push_bit 32 1
        then reject MMIO_BAD_WINDOW message ''window.range'' [(''base'', JInt b), (''size'', JInt sz)]
      else if \<not> (r \<or> w)
        then reject MMIO_BAD_PERMISSION ''MMIO window must permit a read or write'' ''window.permissions''
          [(''readable'', JBool False), (''writable'', JBool False)]
      else if ws = [] \<or> (\<exists>x \<in> set ws. x \<noteq> 1 \<and> x \<noteq> 4) \<or> \<not> distinct ws
        then reject MMIO_BAD_WIDTH ''MMIO write widths must be a unique tuple of 1 and/or 4'' ''window.write_widths''
          [(''write_widths'', JList (map JInt ws))]
      else Inr \<lparr>win_base = b, win_size = sz, win_readable = r, win_writable = w, write_widths = ws\<rparr>)"

definition contains :: "mmio_window \<Rightarrow> int \<Rightarrow> int \<Rightarrow> bool" where
  "contains w adr wd \<longleftrightarrow> wd > 0 \<and> win_base w \<le> adr \<and> adr + wd \<le> win_base w + win_size w"

definition split_address :: "int \<Rightarrow> int \<times> int" where
  "split_address adr =
     (let low = ((adr AND 0xfff) + 0x800) mod 0x1000 - 0x800;
          high = drop_bit 12 (adr - low) AND 0xfffff
      in (high, low))"

definition windows_argument :: "mmio_window list \<Rightarrow> unit res" where
  "windows_argument ws =
     (if ws = [] then reject MMIO_NO_WINDOW ''at least one MMIO window is required'' ''mmio.windows''
        [(''windows'', JList [])]
      else Inr ())"

definition access_width :: "string \<Rightarrow> int" where
  "access_width op = (if op = ''SB'' then 1 else 4)"

definition register_conflict :: "string \<Rightarrow> int \<Rightarrow> int \<Rightarrow> 'a res" where
  "register_conflict ptr b d =
     reject FIELD_REGISTER_CONFLICT ''MMIO base and data registers must be distinct nonzero registers'' ptr
       [(''base_register'', JInt b), (''data_register'', JInt d)]"

definition mmio_access_fragment ::
    "string \<Rightarrow> int \<Rightarrow> mmio_window list \<Rightarrow> int \<Rightarrow> int \<Rightarrow> instruction list res" where
  "mmio_access_fragment op adr windows base_register data_register =
     (if op \<notin> set MEMORY_OPERATIONS
      then reject ISA_DISALLOWED_OPERATION ''MMIO access must be LW, SW, or SB'' ''mmio.operation'' [(''operation'', JStr op)]
      else res_bind (windows_argument windows) (\<lambda>_.
        res_bind (check_register base_register ''base_register'' ''mmio.base_register'') (\<lambda>_.
        res_bind (check_register data_register ''data_register'' ''mmio.data_register'') (\<lambda>_.
        if base_register = 0 then register_conflict ''mmio.base_register'' base_register data_register
        else if data_register = 0 \<or> base_register = data_register
          then register_conflict ''mmio.data_register'' base_register data_register
        else (let wd = access_width op in
          if \<not> (0 \<le> adr \<and> adr < push_bit 32 1)
            then reject FIELD_BAD_ADDRESS ''MMIO address must fit RV32'' ''mmio.address'' [(''address'', JInt adr)]
          else if adr mod wd \<noteq> 0
            then reject FIELD_BAD_ALIGNMENT ''MMIO access address is misaligned'' ''mmio.address''
              [(''address'', JInt adr), (''width'', JInt wd)]
          else (let containing = filter (\<lambda>w. contains w adr wd) windows in
            if containing = []
              then reject MMIO_OUT_OF_WINDOW ''MMIO access is outside declared target windows'' ''mmio.address''
                [(''address'', JInt adr), (''width'', JInt wd)]
            else if \<not> list_ex (\<lambda>w. if op = ''LW'' then win_readable w else win_writable w) containing
              then reject (if op = ''LW'' then MMIO_WRITE_ONLY else MMIO_READ_ONLY)
                ''MMIO access is not permitted by declared target windows'' ''mmio.address''
                [(''operation'', JStr op), (''address'', JInt adr)]
            else if op \<noteq> ''LW'' \<and> \<not> list_ex (\<lambda>w. win_writable w \<and> wd \<in> set (write_widths w)) containing
              then reject MMIO_BAD_WIDTH ''MMIO access width is not supported by declared target windows'' ''mmio.width''
                [(''operation'', JStr op), (''width'', JInt wd)]
            else (let (high, low) = split_address adr in
              res_bind (make_instruction ''LUI'' base_register 0 0 high) (\<lambda>load_base.
              res_bind (if op = ''LW'' then make_instruction ''LW'' data_register base_register 0 low
                        else make_instruction op 0 base_register data_register low) (\<lambda>access.
                Inr [load_base, access])))))))))"

definition mmio_write_fragment ::
    "string \<Rightarrow> int \<Rightarrow> int \<Rightarrow> mmio_window list \<Rightarrow> int \<Rightarrow> int \<Rightarrow> instruction list res" where
  "mmio_write_fragment op adr value windows base_register data_register =
     (if op \<noteq> ''SW'' \<and> op \<noteq> ''SB''
      then reject ISA_DISALLOWED_OPERATION ''MMIO write must be SW or SB'' ''mmio.operation'' [(''operation'', JStr op)]
      else if \<not> (0 \<le> value \<and> value < push_bit 32 1)
      then reject FIELD_BAD_IMMEDIATE ''MMIO write value must fit RV32'' ''mmio.value'' [(''value'', JInt value)]
      else res_bind (mmio_access_fragment op adr windows base_register data_register) (\<lambda>access.
        let (high, low) = split_address value in
        res_bind (make_instruction ''LUI'' data_register 0 0 high) (\<lambda>lui.
        res_bind (make_instruction ''ADDI'' data_register data_register 0 low) (\<lambda>addi.
          Inr ([lui, addi] @ access)))))"

definition first_slot :: "mmio_window \<Rightarrow> int \<Rightarrow> int" where
  "first_slot w wd = (win_base w + wd - 1) div wd * wd"

definition byte_at :: "bytes \<Rightarrow> nat \<Rightarrow> int" where
  "byte_at bs i = uint (bs ! i)"

definition mutate_mmio_access ::
    "string \<Rightarrow> bytes \<Rightarrow> mmio_window list \<Rightarrow> int \<Rightarrow> int \<Rightarrow> instruction list res" where
  "mutate_mmio_access op entropy windows base_register data_register =
     (if length entropy < 4
      then reject DECODE_MALFORMED_ENTROPY ''MMIO mutation requires at least four entropy bytes'' ''mutation.entropy''
        [(''entropy'', JStr (bytes_hex entropy))]
      else res_bind (windows_argument windows) (\<lambda>_.
        if op \<notin> set MEMORY_OPERATIONS
        then reject ISA_DISALLOWED_OPERATION ''MMIO access must be LW, SW, or SB'' ''mmio.operation'' [(''operation'', JStr op)]
        else (let wd = access_width op;
              accessible = filter (\<lambda>w. if op = ''LW'' then win_readable w else win_writable w) windows in
          if accessible = []
            then reject MMIO_WINDOW_DENIED ''no MMIO window permits this operation'' ''mmio.operation'' [(''operation'', JStr op)]
          else (let width_permitted = filter (\<lambda>w. op = ''LW'' \<or> wd \<in> set (write_widths w)) accessible in
            if width_permitted = []
              then reject MMIO_BAD_WIDTH (''no MMIO window supports '' @ op @ '' access width'') ''mmio.width''
                [(''operation'', JStr op), (''width'', JInt wd)]
            else (let permitted = filter (\<lambda>w. first_slot w wd + wd \<le> win_base w + win_size w) width_permitted in
              if permitted = []
                then reject MMIO_NO_ALIGNED_ADDRESS (''no MMIO window has an aligned '' @ op @ '' address'') ''mmio.windows''
                  [(''operation'', JStr op), (''width'', JInt wd)]
              else (let w = permitted ! nat (byte_at entropy 0 mod int (length permitted));
                        first = first_slot w wd;
                        slots = (win_base w + win_size w - wd - first) div wd + 1;
                        adr = first + (from_bytes_little (take 3 (drop 1 entropy)) mod slots) * wd
                in mmio_access_fragment op adr windows base_register data_register))))))"

section \<open>Mutation, encoding and admission\<close>

definition sign_extend_12 :: "int \<Rightarrow> int" where
  "sign_extend_12 raw = (if raw AND 0x800 \<noteq> 0 then raw - 0x1000 else raw)"

definition mutate_instruction :: "instruction \<Rightarrow> bytes \<Rightarrow> instruction res" where
  "mutate_instruction seed entropy =
     (if length entropy < 4
      then reject DECODE_MALFORMED_ENTROPY ''instruction seed and at least four entropy bytes are required''
        ''mutation.entropy'' [(''entropy'', JStr (bytes_hex entropy))]
      else (let field = byte_at entropy 0 mod 3;
                signed = sign_extend_12 (from_bytes_little (take 2 (drop 1 entropy)) AND 0xfff);
                register = byte_at entropy 3 AND 31;
                op = opn seed
        in
        if op = ''NOP'' then Inr seed
        else if op = ''LUI'' then
          (let imm = from_bytes_little (take 4 entropy) AND 0xfffff
           in make_instruction op (if field = 0 then register else rd seed) 0 0
                (if field \<noteq> 0 then imm else immediate seed))
        else if op \<in> set SHIFT_OPERATIONS then
          make_instruction op (if field = 0 then register else rd seed)
            (if field = 1 then register else rs1 seed) 0 (if field = 2 then register else immediate seed)
        else if op \<in> {''ADDI'', ''XORI'', ''ORI'', ''ANDI'', ''LW''} then
          (let imm = (if op = ''LW'' then signed AND NOT 3 else signed)
           in make_instruction op (if field = 0 then register else rd seed)
                (if field = 1 \<and> op \<noteq> ''LW'' then register else rs1 seed) 0
                (if field = 2 then imm else immediate seed))
        else
          (let imm = (if op = ''SW'' then signed AND NOT 3 else signed)
           in make_instruction op 0 (rs1 seed) (if field = 0 then register else rs2 seed)
                (if field \<noteq> 0 then imm else immediate seed))))"

text \<open>\<open>int.to_bytes(4, 'little')\<close> raises \<open>OverflowError\<close> outside the 32-bit range.\<close>

definition word_bytes :: "int \<Rightarrow> bytes res" where
  "word_bytes w = (if 0 \<le> w \<and> w < 2 ^ 32 then Inr (to_bytes_little 4 w) else Inl (OverflowError ''int too big to convert''))"

definition fragment_bytes :: "instruction list \<Rightarrow> bytes res" where
  "fragment_bytes is =
     (if is = [] then reject FRAGMENT_INVALID_SEQUENCE ''a nonempty RV32I instruction tuple is required''
        ''fragment.instructions'' [(''instructions'', JList [])]
      else res_bind (map_res (\<lambda>i. word_bytes (instruction_word i)) is) (\<lambda>ws. Inr (concat ws)))"

definition fragment_image :: "string \<Rightarrow> string \<Rightarrow> int \<Rightarrow> instruction list \<Rightarrow> memory_image res" where
  "fragment_image iid cmpt adr is =
     (if \<not> (0 \<le> adr \<and> adr < push_bit 32 1)
      then reject FIELD_BAD_ADDRESS ''program image address must be a 32-bit RV32 byte address'' ''image.address''
        [(''address'', JInt adr)]
      else if adr mod 4 \<noteq> 0
      then reject FIELD_BAD_ALIGNMENT ''program image address must be word aligned'' ''image.address''
        [(''address'', JInt adr)]
      else res_bind (fragment_bytes is) (\<lambda>bs.
        if adr + int (length bs) > push_bit 32 1
        then reject FRAGMENT_EXCEEDS_ADDRESS_SPACE ''program fragment exceeds RV32 address space'' ''image.address''
          [(''address'', JInt adr), (''length'', JInt (int (length bs)))]
        else make_memory_image iid cmpt adr (bytes_hex bs)))"

definition fragment_pointer :: "int \<Rightarrow> string \<Rightarrow> string" where
  "fragment_pointer offset suffix = ''fragment['' @ int_dec offset @ '']'' @ suffix"

text \<open>A compressed half word that only computes in registers 12 to 15.\<close>

definition compressed_safe :: "int \<Rightarrow> bool" where
  "compressed_safe half =
     (let quadrant = bits 0 2 half; funct3 = bits 13 3 half; rd = bits 7 5 half; rs2 = bits 2 5 half;
          compact_rd = 8 + bits 7 3 half; compact_rs2 = 8 + bits 2 3 half
      in (quadrant = 1 \<and> funct3 \<in> {0, 2, 3} \<and> 12 \<le> rd \<and> rd \<le> 15)
       \<or> (quadrant = 1 \<and> funct3 = 4 \<and> 12 \<le> compact_rd \<and> compact_rd \<le> 15
          \<and> (bits 10 2 half \<noteq> 3 \<or> (12 \<le> compact_rs2 \<and> compact_rs2 \<le> 15)))
       \<or> (quadrant = 2 \<and> funct3 = 0 \<and> 12 \<le> rd \<and> rd \<le> 15)
       \<or> (quadrant = 2 \<and> funct3 = 4 \<and> 12 \<le> rd \<and> rd \<le> 15 \<and> 12 \<le> rs2 \<and> rs2 \<le> 15))"

definition check_compressed_pair :: "isa_contract option \<Rightarrow> int \<Rightarrow> bytes \<Rightarrow> unit res" where
  "check_compressed_pair isa offset bs = (case isa of
     None \<Rightarrow> reject ISA_DISALLOWED_OPERATION ''compressed instruction requires declared C extension''
       (fragment_pointer offset []) []
   | Some c \<Rightarrow>
     (if ''C'' \<notin> set (extensions c) \<or> instruction_alignment c \<noteq> 2
      then reject ISA_DISALLOWED_OPERATION ''compressed instruction requires declared C extension''
        (fragment_pointer offset []) []
      else check_all (\<lambda>half_offset.
        let half = from_bytes_little (take 2 (drop (nat half_offset) bs)) in
        if \<not> compressed_safe half \<or> \<not> is_legal_word c half True
        then reject ISA_DISALLOWED_OPERATION ''F1 compressed pair requires safe straight-line ALU words''
          (fragment_pointer (offset + half_offset) []) []
        else Inr ()) [0, 2]))"

definition rv32i_only :: isa_contract where
  "rv32i_only = \<lparr>xlen = 32, extensions = [''I''], privilege_modes = [''M''], instruction_alignment = 4\<rparr>"

text \<open>One word of a fragment at a byte offset; \<open>bs\<close> are its four bytes.\<close>

definition check_word :: "isa_contract option \<Rightarrow> int \<Rightarrow> bytes \<Rightarrow> unit res" where
  "check_word isa offset bs =
     (let word = from_bytes_little bs in
      if bits 0 2 word \<noteq> 3 then check_compressed_pair isa offset bs
      else
       (let opcode = bits 0 7 word; funct3 = bits 12 3 word;
            encoding = [(''opcode'', JInt opcode), (''funct3'', JInt funct3)] in
        if opcode = 0x37 \<or> (opcode = 0x13 \<and> funct3 \<in> {0, 2, 3, 4, 6, 7}) then Inr ()
        else if opcode = 0x33 \<and> is_legal_word (case isa of None \<Rightarrow> rv32i_only | Some c \<Rightarrow> c) word False then Inr ()
        else if opcode = 0x13 \<and> funct3 \<in> {1, 5} then
          (let imm = bits 20 12 word; reserved = drop_bit 5 imm in
           if reserved = 0 \<or> (funct3 = 5 \<and> reserved = 0x20) then Inr ()
           else reject ISA_RESERVED_IMM_BIT ''unsupported RV32I shift immediate encoding''
             (fragment_pointer offset ''.immediate'')
             ([(''immediate'', JInt imm), (''shamt'', JInt (imm AND 31))] @ encoding))
        else if opcode = 0x03 \<and> funct3 = 2 then
          (let imm = bits 20 12 word in
           if imm mod 4 = 0 then Inr ()
           else reject FIELD_BAD_ALIGNMENT ''unsupported first-stage RV32I instruction encoding''
             (fragment_pointer offset ''.immediate'') ((''immediate'', JInt imm) # encoding))
        else if opcode = 0x23 \<and> funct3 \<in> {0, 2} then
          (let imm = push_bit 5 (drop_bit 25 word) OR bits 7 5 word in
           if funct3 = 0 \<or> imm mod 4 = 0 then Inr ()
           else reject FIELD_BAD_ALIGNMENT ''unsupported first-stage RV32I instruction encoding''
             (fragment_pointer offset ''.immediate'') ((''immediate'', JInt imm) # encoding))
        else if opcode = 0x13 then
          reject ISA_DISALLOWED_OPERATION
            (''unsupported RV32I OP-IMM funct3 '' @ int_dec funct3 @ '' at byte offset '' @ int_dec offset)
            (fragment_pointer offset ''.funct3'') [(''funct3'', JInt funct3), (''opcode'', JInt opcode)]
        else reject ISA_DISALLOWED_OPERATION ''unsupported first-stage RV32I instruction encoding''
          (fragment_pointer offset []) encoding))"

text \<open>The words of a byte string, each with its byte offset.\<close>

fun word_chunks :: "int \<Rightarrow> bytes \<Rightarrow> (int \<times> bytes) list" where
  "word_chunks offset [] = []"
| "word_chunks offset (b # bs) = (offset, take 4 (b # bs)) # word_chunks (offset + 4) (drop 3 bs)"

definition check_instruction_bytes :: "bytes \<Rightarrow> isa_contract option \<Rightarrow> unit res" where
  "check_instruction_bytes bs isa =
     (if bs = [] \<or> length bs mod 4 \<noteq> 0
      then reject DECODE_MALFORMED_RECORD ''instruction fragment requires complete 32-bit words'' ''fragment.data''
        [(''length'', JInt (int (length bs)))]
      else check_all (\<lambda>ow. check_word isa (fst ow) (snd ow)) (word_chunks 0 bs))"

definition validate_instruction_bytes :: "bytes \<Rightarrow> isa_contract option \<Rightarrow> unit res" where
  "validate_instruction_bytes bs isa = check_instruction_bytes bs isa"

text \<open>Only a rejection is caught; any other error would leave the function.\<close>

definition validate_instruction_bytes_detailed :: "bytes \<Rightarrow> rejection option res" where
  "validate_instruction_bytes_detailed bs = (case check_instruction_bytes bs None of
     Inr _ \<Rightarrow> Inr None
   | Inl (RejectionError m r) \<Rightarrow> Inr (Some r)
   | Inl e \<Rightarrow> Inl e)"

definition word_operation :: "int \<Rightarrow> string res" where
  "word_operation word =
     (let opcode = bits 0 7 word; funct3 = bits 12 3 word in
      if opcode = 0x33 then
        res_bind (make_transducer rv32i_only) (\<lambda>tr.
          case find (\<lambda>t. width t = 32 \<and> fixed_value t AND 0x7f = 0x33 \<and> word AND fixed_mask t = fixed_value t)
              (templates tr) of
            None \<Rightarrow> Inl (StopIteration []) | Some t \<Rightarrow> Inr (name t))
      else Inr (if word = 0x00000013 then ''NOP''
        else if opcode = 0x37 then ''LUI''
        else if opcode = 0x13 \<and> funct3 = 0 then ''ADDI''
        else if opcode = 0x13 \<and> funct3 = 1 then ''SLLI''
        else if opcode = 0x13 \<and> funct3 = 2 then ''SLTI''
        else if opcode = 0x13 \<and> funct3 = 3 then ''SLTIU''
        else if opcode = 0x13 \<and> funct3 = 4 then ''XORI''
        else if opcode = 0x13 \<and> funct3 = 5 \<and> bits 30 1 word = 0 then ''SRLI''
        else if opcode = 0x13 \<and> funct3 = 5 then ''SRAI''
        else if opcode = 0x13 \<and> funct3 = 6 then ''ORI''
        else if opcode = 0x13 \<and> funct3 = 7 then ''ANDI''
        else if opcode = 0x33 \<and> funct3 = 6 then ''OR''
        else if opcode = 0x33 \<and> funct3 = 7 then ''AND''
        else if opcode = 0x03 then ''LW''
        else if funct3 = 2 then ''SW'' else ''SB''))"

definition instruction_operator_id :: "bytes \<Rightarrow> string res" where
  "instruction_operator_id bs =
     res_bind (validate_instruction_bytes bs None) (\<lambda>_.
       res_bind (map_res (\<lambda>ow. word_operation (from_bytes_little (snd ow))) (word_chunks 0 bs)) (\<lambda>ops.
         Inr (''rv32i:'' @ join ''+'' ops)))"

section \<open>Decoding fuzzer bytes\<close>

definition arithmetic_fragment :: "bytes \<Rightarrow> int \<Rightarrow> instruction list res" where
  "arithmetic_fragment raw register =
     (let imm = sign_extend_12 (from_bytes_little (take 2 (drop 2 raw)) AND 0xfff);
          edit = byte_at raw 6 AND 0xc0
      in
      if edit \<noteq> 0 then
        res_bind (make_instruction ''LUI'' register 0 0 (from_bytes_little (take 4 (drop 7 raw)) AND 0xfffff)) (\<lambda>lui.
        res_bind (make_instruction ''ADDI'' register register 0 imm) (\<lambda>addi.
          if edit = 0x80 then Inr [lui]
          else if edit = 0xc0 then
            (let xor_immediate = sign_extend_12 (from_bytes_little (take 2 (drop 4 raw)) AND 0xfff) in
             res_bind (make_instruction ''XORI'' register register 0 xor_immediate) (\<lambda>xori. Inr [lui, xori, addi]))
          else Inr [lui, addi]))
      else if byte_at raw 4 AND 0x20 \<noteq> 0 then
        (let op = [''SLLI'', ''SRLI'', ''SRAI''] ! nat (byte_at raw 6 mod 3) in
         res_bind (make_instruction op register (byte_at raw 4 AND 31) 0 (imm AND 31)) (\<lambda>i. Inr [i]))
      else
        (let op = (if byte_at raw 4 AND 0x80 = 0 then (if byte_at raw 4 AND 0x40 = 0 then ''ADDI'' else ''ORI'')
                   else (if byte_at raw 4 AND 0x40 = 0 then ''XORI'' else ''ANDI'')) in
         res_bind (make_instruction op register (byte_at raw 4 AND 31) 0 imm) (\<lambda>i. Inr [i])))"

definition decode_instruction_fragment :: "bytes \<Rightarrow> mmio_window list \<Rightarrow> string list \<Rightarrow> instruction list res" where
  "decode_instruction_fragment entropy windows allowed =
     (if entropy = []
      then reject DECODE_MALFORMED_ENTROPY ''instruction entropy must be nonempty bytes'' ''mutation.entropy''
        [(''entropy'', JStr [])]
      else if allowed = [] \<or> (\<exists>op \<in> set allowed. op \<notin> set MEMORY_OPERATIONS) \<or> \<not> distinct allowed
      then reject ISA_DISALLOWED_OPERATION ''allowed MMIO operations must be a nonempty unique tuple of LW, SW, SB''
        ''mmio.allowed_operations'' [(''allowed_mmio_operations'', JList (map JStr allowed))]
      else (let raw = take 12 (entropy @ replicate 12 0);
                choice = byte_at raw 0 mod (if windows \<noteq> [] then 3 + int (length allowed) else 3);
                register = 1 + byte_at raw 1 mod 31
        in
        if choice = 0 then res_bind (make_instruction ''NOP'' 0 0 0 0) (\<lambda>i. Inr [i])
        else if choice = 1 then
          res_bind (make_instruction ''LUI'' register 0 0 (from_bytes_little (take 4 (drop 2 raw)) AND 0xfffff))
            (\<lambda>i. Inr [i])
        else if choice = 2 then arithmetic_fragment raw register
        else (let op = allowed ! nat (choice - 3) in
          res_bind (mutate_mmio_access op (take 4 (drop 1 raw)) windows 1 2) (\<lambda>access.
            if op = ''LW'' then Inr access
            else (let (high, low) = split_address (from_bytes_little (take 4 (drop 8 raw))) in
              res_bind (make_instruction ''LUI'' 2 0 0 high) (\<lambda>lui.
              res_bind (make_instruction ''ADDI'' 2 2 0 low) (\<lambda>addi.
                Inr ([lui, addi] @ access))))))))"

section \<open>Bit fields of composed words\<close>

lemma bits_push_above: "lo + n \<le> k \<Longrightarrow> bits lo n (push_bit k v) = 0"
  by (auto simp: bit_eq_iff bits_simps bit_simps)

lemma int_bit_bound: "0 \<le> (v :: int) \<Longrightarrow> v < 2 ^ m \<Longrightarrow> m \<le> i \<Longrightarrow> \<not> bit v i"
  by (metis bit_take_bit_iff leD take_bit_int_eq_self)

lemma bits_push_below: "0 \<le> v \<Longrightarrow> v < 2 ^ m \<Longrightarrow> k + m \<le> lo \<Longrightarrow> bits lo n (push_bit k v) = 0"
  by (auto simp: bit_eq_iff bits_simps bit_simps int_bit_bound)

lemma bits_push_at: "0 \<le> v \<Longrightarrow> v < 2 ^ n \<Longrightarrow> bits lo n (push_bit lo v) = v"
  by (auto simp: bit_eq_iff bits_simps bit_simps) (metis int_bit_bound linorder_not_less)

lemma bits_push_in: "bits (k + j) n (push_bit k v) = bits j n v"
  by (rule bit_eqI) (auto simp: bits_simps bit_simps)

lemma bits_small: "0 \<le> v \<Longrightarrow> v < 2 ^ n \<Longrightarrow> bits 0 n v = v"
  using bits_push_at [of v n 0] by simp

definition fits :: "nat \<Rightarrow> int \<Rightarrow> bool" where
  "fits n v \<longleftrightarrow> 0 \<le> v \<and> v < 2 ^ n"

lemma fits_or: "fits n a \<Longrightarrow> fits n b \<Longrightarrow> fits n (a OR b)"
  using or_mask_bounds [of a n b] unfolding fits_def by (simp add: take_bit_small flip: take_bit_eq_mask)

lemma fits_push: "fits m v \<Longrightarrow> k + m \<le> n \<Longrightarrow> fits n (push_bit k v)"
proof -
  assume v: "fits m v" "k + m \<le> n"
  then have "push_bit k v < 2 ^ (k + m)"
    by (simp add: fits_def push_bit_eq_mult power_add mult.commute)
  also have "\<dots> \<le> (2 :: int) ^ n"
    using v(2) by (simp add: power_increasing)
  finally show ?thesis using v by (simp add: fits_def push_bit_eq_mult)
qed

text \<open>The fields of a word with a twelve-bit field on hi (the I, R and S formats).\<close>

definition i_format :: "int \<Rightarrow> int \<Rightarrow> int \<Rightarrow> int \<Rightarrow> int \<Rightarrow> int" where
  "i_format hi s1 f3 d opc = push_bit 20 hi OR push_bit 15 s1 OR push_bit 12 f3 OR push_bit 7 d OR opc"

lemma i_format_fields:
  assumes "0 \<le> hi" "hi < 4096" "0 \<le> s1" "s1 < 32" "0 \<le> f3" "f3 < 8" "0 \<le> d" "d < 32" "0 \<le> opc" "opc < 128"
  shows "bits 0 7 (i_format hi s1 f3 d opc) = opc" "bits 12 3 (i_format hi s1 f3 d opc) = f3"
    "bits 20 12 (i_format hi s1 f3 d opc) = hi" "bits 25 7 (i_format hi s1 f3 d opc) = bits 5 7 hi"
    "bits 7 5 (i_format hi s1 f3 d opc) = d" 
    "0 \<le> i_format hi s1 f3 d opc" "i_format hi s1 f3 d opc < 2 ^ 32"
proof -
  note below = bits_push_below [of s1 5] bits_push_below [of f3 3] bits_push_below [of d 5] bits_push_below [of opc 7 0, simplified]
  note at = bits_push_at [of hi 12] bits_push_at [of f3 3] bits_push_at [of d 5] bits_small [of opc 7] bits_push_in [of 20 5 7 hi, simplified]
  show "bits 0 7 (i_format hi s1 f3 d opc) = opc" "bits 12 3 (i_format hi s1 f3 d opc) = f3"
    "bits 20 12 (i_format hi s1 f3 d opc) = hi" "bits 25 7 (i_format hi s1 f3 d opc) = bits 5 7 hi"
    "bits 7 5 (i_format hi s1 f3 d opc) = d" 
    using assms by (simp_all add: i_format_def bits_or bits_push_above below at)
  have "fits 12 hi" "fits 5 s1" "fits 3 f3" "fits 5 d" "fits 32 opc"
    using assms by (simp_all add: fits_def)
  then have "fits 32 (i_format hi s1 f3 d opc)"
    using fits_push [of 12 hi 20 32] fits_push [of 5 s1 15 32] fits_push [of 3 f3 12 32] fits_push [of 5 d 7 32]
    unfolding i_format_def by (simp add: fits_or)
  then show "0 \<le> i_format hi s1 f3 d opc" "i_format hi s1 f3 d opc < 2 ^ 32"
    by (simp_all add: fits_def)
qed

lemma and_fff: "v AND 0xfff = v mod 4096" "v AND 0x1f = v mod 32" "v AND 0x7f = v mod 128" "v AND 31 = v mod 32"
  "v AND 0xfffff = v mod 1048576" for v :: int
  using take_bit_eq_mask [of 12 v] take_bit_eq_mask [of 5 v] take_bit_eq_mask [of 7 v] take_bit_eq_mask [of 20 v]
  by (simp_all add: take_bit_eq_mod mask_eq_exp_minus_1)

section \<open>Constructed instructions are admitted\<close>

definition instruction_ok :: "instruction \<Rightarrow> bool" where
  "instruction_ok i \<longleftrightarrow> make_instruction (opn i) (rd i) (rs1 i) (rs2 i) (immediate i) = Inr i"

lemma reject_never [simp]: "reject c m p d \<noteq> Inr x" "is_ok (reject c m p d) = False"
  by (auto simp: reject_def is_ok_def split: sum.splits)

lemma check_register_Inr [simp]: "check_register v nm p = Inr u \<longleftrightarrow> 0 \<le> v \<and> v < 32"
  by (simp add: check_register_def)

lemma unexpected_never [simp]: "unexpected_operand op m nm v \<noteq> Inr x"
  by (simp add: unexpected_operand_def)

lemma signed_12_Inr [simp]: "signed_12 v op = Inr u \<longleftrightarrow> - 2048 \<le> v \<and> v < 2048"
  by (auto simp: signed_12_def)

text \<open>What the operand checks of each group of operations accept.\<close>

definition operands_ok :: "instruction \<Rightarrow> bool" where
  "operands_ok i \<longleftrightarrow>
    (if opn i = ''LUI'' then 0 \<le> immediate i \<and> immediate i < 1048576 \<and> rs1 i = 0 \<and> rs2 i = 0
     else if opn i \<in> {''AND'', ''OR''} then immediate i = 0
     else if opn i = ''NOP'' then rd i = 0 \<and> rs1 i = 0 \<and> rs2 i = 0 \<and> immediate i = 0
     else if opn i \<in> {''SLLI'', ''SRLI'', ''SRAI''} then 0 \<le> immediate i \<and> immediate i < 32 \<and> rs2 i = 0
     else - 2048 \<le> immediate i \<and> immediate i < 2048
       \<and> (opn i \<in> {''ADDI'', ''XORI'', ''ORI'', ''ANDI'', ''LW''} \<longrightarrow> rs2 i = 0)
       \<and> (opn i \<in> {''SW'', ''SB''} \<longrightarrow> rd i = 0) \<and> (opn i \<in> {''LW'', ''SW''} \<longrightarrow> immediate i mod 4 = 0))"

lemma check_operands_Inr: "check_operands i = Inr u \<longleftrightarrow> operands_ok i"
  by (simp add: check_operands_def operands_ok_def Let_def REGISTER_LOGIC_OPERATIONS_def SHIFT_OPERATIONS_def)

lemma make_instruction_Inr:
  "make_instruction op d s1 s2 imm = Inr i \<longleftrightarrow> op \<in> set OPERATIONS \<and> 0 \<le> d \<and> d < 32 \<and> 0 \<le> s1 \<and> s1 < 32 \<and> 0 \<le> s2 \<and> s2 < 32
     \<and> i = \<lparr>opn = op, rd = d, rs1 = s1, rs2 = s2, immediate = imm\<rparr> \<and> operands_ok i"
  by (auto simp: make_instruction_def Let_def check_operands_Inr)

lemma make_instruction_ok: "make_instruction op d s1 s2 imm = Inr i \<Longrightarrow> instruction_ok i"
  unfolding instruction_ok_def make_instruction_Inr by auto

lemma instruction_ok_iff:
  "instruction_ok i \<longleftrightarrow> opn i \<in> set OPERATIONS \<and> 0 \<le> rd i \<and> rd i < 32 \<and> 0 \<le> rs1 i \<and> rs1 i < 32 \<and> 0 \<le> rs2 i \<and> rs2 i < 32
     \<and> operands_ok i"
  unfolding instruction_ok_def make_instruction_Inr by (simp add: instruction.equality)

text \<open>The admission check as a predicate on the word.\<close>

definition word_admitted :: "isa_contract option \<Rightarrow> int \<Rightarrow> bool" where
  "word_admitted isa w \<longleftrightarrow> bits 0 2 w = 3 \<and> (let opc = bits 0 7 w; f3 = bits 12 3 w in
     opc = 0x37 \<or> (opc = 0x13 \<and> f3 \<in> {0, 2, 3, 4, 6, 7})
     \<or> (opc = 0x33 \<and> is_legal_word (case isa of None \<Rightarrow> rv32i_only | Some c \<Rightarrow> c) w False)
     \<or> (opc = 0x13 \<and> f3 \<in> {1, 5} \<and> (bits 25 7 w = 0 \<or> (f3 = 5 \<and> bits 25 7 w = 0x20)))
     \<or> (opc = 0x03 \<and> f3 = 2 \<and> bits 20 12 w mod 4 = 0)
     \<or> (opc = 0x23 \<and> f3 \<in> {0, 2} \<and> (f3 = 0 \<or> bits 7 5 w mod 4 = 0)))"

lemma bits_top7: "drop_bit 5 (bits 20 12 w) = bits 25 7 w"
  by (auto simp: bit_eq_iff bits_simps bit_simps)

lemma store_imm_mod: "(push_bit 5 x OR bits 7 5 w) mod 4 = bits 7 5 w mod 4"
proof -
  have "(push_bit 5 x OR bits 7 5 w) mod 4 = take_bit 2 (push_bit 5 x OR bits 7 5 w)"
    by (simp add: take_bit_eq_mod)
  also have "\<dots> = take_bit 2 (bits 7 5 w)"
    by (auto simp: bit_eq_iff bit_simps)
  finally show ?thesis by (simp add: take_bit_eq_mod)
qed

lemma check_word_admitted:
  "bits 0 2 (from_bytes_little bs) = 3 \<Longrightarrow> check_word isa off bs = Inr u \<longleftrightarrow> word_admitted isa (from_bytes_little bs)"
  by (auto simp: check_word_def word_admitted_def Let_def bits_top7 store_imm_mod)


lemma sub_opcode_low: "bits 0 7 w \<in> {0x37, 0x13, 0x33, 0x03, 0x23} \<Longrightarrow> bits 0 2 w = 3"
  by (rule base_opcodes_low) (auto simp: base_opcodes_def)

lemma rv32i_only_supports: "supports_legal_instruction_validation rv32i_only"
  by (simp add: supports_legal_instruction_validation_def rv32i_only_def implemented_extensions_def)

lemma logic_legal:
  assumes "bits 0 7 w = 0x33" and "bits 25 7 w = 0" and "0 \<le> w" and "w < 2 ^ 32"
    and "supports_legal_instruction_validation c"
  shows "is_legal_word c w False"
  using assms sub_opcode_low [of w] by (simp add: is_legal_word_def base_legal_def)

lemma s_format: "push_bit 25 a OR push_bit 20 b OR x = push_bit 20 (push_bit 5 a OR b) OR (x :: int)"
  by (simp add: push_bit_or or.assoc)

text \<open>Each operation in terms of the common format.\<close>

lemma instruction_word_format:
  assumes "instruction_ok i"
  shows "0 \<le> instruction_word i \<and> instruction_word i < 2 ^ 32 \<and> word_admitted None (instruction_word i)"
proof -
  note ok = assms [unfolded instruction_ok_iff]
  then have r: "0 \<le> rd i" "rd i < 32" "0 \<le> rs1 i" "rs1 i < 32" "0 \<le> rs2 i" "rs2 i < 32"
    by blast+
  note F = i_format_fields [OF _ _ r(3,4) _ _ r(1,2)]
  consider (nop) "opn i = ''NOP''" | (lui) "opn i = ''LUI''" | (logic) "opn i \<in> {''AND'', ''OR''}"
    | (shift) "opn i \<in> {''SLLI'', ''SRLI'', ''SRAI''}" | (imm) "opn i \<in> {''ADDI'', ''XORI'', ''ORI'', ''ANDI''}"
    | (lw) "opn i = ''LW''" | (store) "opn i \<in> {''SW'', ''SB''}"
    using ok by (auto simp: OPERATIONS_def)
  then show ?thesis
  proof cases
    case nop
    then show ?thesis
      by (simp add: instruction_word_def word_admitted_def bits_arith)
  next
    case lui
    then have imm: "fits 20 (immediate i)"
      using ok by (simp add: operands_ok_def fits_def Let_def)
    have w: "instruction_word i = push_bit 12 (immediate i) OR push_bit 7 (rd i) OR 0x37"
      using lui by (simp add: instruction_word_def)
    have "bits 0 7 (instruction_word i) = 0x37"
      unfolding w by (simp add: bits_or bits_push_above bits_small)
    moreover have "fits 5 (rd i)" "fits 32 0x37"
      using r by (simp_all add: fits_def)
    then have "fits 32 (instruction_word i)"
      using fits_push [OF imm, of 12 32] fits_push [of 5 "rd i" 7 32] unfolding w by (simp add: fits_or)
    ultimately show ?thesis
      using sub_opcode_low [of "instruction_word i"] by (simp add: word_admitted_def fits_def)
  next
    case logic
    have w: "instruction_word i = i_format (rs2 i) (rs1 i) (if opn i = ''AND'' then 7 else 6) (rd i) 0x33"
      using logic by (auto simp: instruction_word_def i_format_def REGISTER_LOGIC_OPERATIONS_def)
    have "bits 5 7 (rs2 i) = 0"
      using r(5,6) bits_push_below [of "rs2 i" 5 0 5 7] by simp
    then show ?thesis
      unfolding w using F [of "rs2 i" "if opn i = ''AND'' then 7 else 6" "0x33"] r
      by (auto simp: word_admitted_def sub_opcode_low intro!: logic_legal rv32i_only_supports)
  next
    case shift
    let ?s = "(if opn i = ''SRAI'' then immediate i OR 0x400 else immediate i) AND 0xfff"
    have w: "instruction_word i = i_format ?s (rs1 i) (if opn i = ''SLLI'' then 1 else 5) (rd i) 0x13"
      using shift by (auto simp: instruction_word_def i_format_def REGISTER_LOGIC_OPERATIONS_def SHIFT_OPERATIONS_def)
    have imm: "0 \<le> immediate i" "immediate i < 32"
      using ok shift by (auto simp: operands_ok_def)
    have top: "bits 5 7 ?s = (if opn i = ''SRAI'' then 0x20 else 0)"
      using imm bits_push_below [of "immediate i" 5 0 5 7] by (simp add: bits_and bits_or) (simp add: bits_arith)
    have "0 \<le> ?s" "?s < 4096" by (simp_all add: and_fff)
    then show ?thesis
      unfolding w using F [of ?s "if opn i = ''SLLI'' then 1 else 5" "0x13"] top shift
      by (auto simp: word_admitted_def sub_opcode_low)
  next
    case imm
    let ?f = "if opn i = ''ADDI'' then 0 else if opn i = ''XORI'' then 4 else if opn i = ''ORI'' then 6 else (7 :: int)"
    have w: "instruction_word i = i_format (immediate i AND 0xfff) (rs1 i) ?f (rd i) 0x13"
      using imm by (auto simp: instruction_word_def i_format_def REGISTER_LOGIC_OPERATIONS_def SHIFT_OPERATIONS_def)
    have "0 \<le> immediate i AND 0xfff" "immediate i AND 0xfff < 4096" by (simp_all add: and_fff)
    then show ?thesis
      unfolding w using F [of "immediate i AND 0xfff" ?f "0x13"] by (auto simp: word_admitted_def sub_opcode_low)
  next
    case lw
    have w: "instruction_word i = i_format (immediate i AND 0xfff) (rs1 i) 2 (rd i) 0x03"
      using lw by (simp add: instruction_word_def i_format_def REGISTER_LOGIC_OPERATIONS_def SHIFT_OPERATIONS_def)
    have b: "0 \<le> immediate i AND 0xfff" "immediate i AND 0xfff < 4096" by (simp_all add: and_fff)
    have "(immediate i AND 0xfff) mod 4 = 0"
      using ok lw by (simp add: operands_ok_def and_fff mod_mod_cancel)
    then show ?thesis
      unfolding w using F [of "immediate i AND 0xfff" 2 "0x03"] b by (auto simp: word_admitted_def sub_opcode_low)
  next
    case store
    let ?hi = "push_bit 5 (drop_bit 5 (immediate i) AND 0x7f) OR rs2 i" and ?d = "immediate i AND 0x1f"
    let ?f = "if opn i = ''SW'' then 2 else (0 :: int)"
    have w: "instruction_word i = i_format ?hi (rs1 i) ?f ?d 0x23"
      using store by (auto simp: instruction_word_def i_format_def REGISTER_LOGIC_OPERATIONS_def SHIFT_OPERATIONS_def s_format Let_def or.assoc)
    have "fits 12 (push_bit 5 (drop_bit 5 (immediate i) AND 0x7f))"
      by (rule fits_push [of 7]) (simp_all add: fits_def and_fff)
    then have hi: "0 \<le> ?hi" "?hi < 4096"
      using fits_or [of 12 _ "rs2 i"] r by (auto simp: fits_def)
    have d: "0 \<le> ?d" "?d < 32" by (simp_all add: and_fff)
    have al: "opn i = ''SW'' \<Longrightarrow> ?d mod 4 = 0"
      using ok by (simp add: operands_ok_def and_fff mod_mod_cancel)
    show ?thesis
      unfolding w using i_format_fields [OF hi r(3,4) _ _ d, of ?f "0x23"] store al
      by (auto simp: word_admitted_def sub_opcode_low)
  qed
qed


lemma word_chunks_append:
  "length bs = 4 \<Longrightarrow> word_chunks off (bs @ cs) = (off, bs) # word_chunks (off + 4) cs"
  by (cases bs) simp_all

lemma word_chunks_concat:
  "\<forall>w \<in> set ws. length w = 4 \<Longrightarrow> map snd (word_chunks off (concat ws)) = ws"
  by (induction ws arbitrary: off) (simp_all add: word_chunks_append)

lemma word_bytes_small: "0 \<le> w \<Longrightarrow> w < 2 ^ 32 \<Longrightarrow> word_bytes w = Inr (to_bytes_little 4 w)"
  by (simp add: word_bytes_def)

lemma word_of_bytes: "0 \<le> w \<Longrightarrow> w < 2 ^ 32 \<Longrightarrow> from_bytes_little (to_bytes_little 4 w) = w"
  by (simp add: from_to_bytes_little)

lemma map_res_total: "\<forall>x \<in> set xs. f x = Inr (g x) \<Longrightarrow> map_res f xs = Inr (map g xs)"
  by (induction xs) simp_all

lemma fragment_bytes_ok:
  assumes "is \<noteq> []" and "\<forall>i \<in> set is. instruction_ok i"
  shows "fragment_bytes is = Inr (concat (map (\<lambda>i. to_bytes_little 4 (instruction_word i)) is))"
proof -
  have "map_res (\<lambda>i. word_bytes (instruction_word i)) is = Inr (map (\<lambda>i. to_bytes_little 4 (instruction_word i)) is)"
    using assms(2) instruction_word_format by (intro map_res_total) (simp add: word_bytes_def)
  with assms(1) show ?thesis by (simp add: fragment_bytes_def)
qed

lemma concat_words_length: "length (concat (map (\<lambda>i. to_bytes_little 4 (f i)) is)) = 4 * length is"
  by (induction "is") simp_all

lemma check_bytes_intro:
  "bs \<noteq> [] \<Longrightarrow> length bs mod 4 = 0 \<Longrightarrow> (\<And>ow. ow \<in> set (word_chunks 0 bs) \<Longrightarrow> check_word isa (fst ow) (snd ow) = Inr ())
   \<Longrightarrow> check_instruction_bytes bs isa = Inr ()"
  by (simp add: check_instruction_bytes_def)

lemma fragment_check:
  assumes "is \<noteq> []" and "\<forall>i \<in> set is. instruction_ok i"
  shows "check_instruction_bytes (concat (map (\<lambda>i. to_bytes_little 4 (instruction_word i)) is)) None = Inr ()"
proof -
  let ?ws = "map (\<lambda>i. to_bytes_little 4 (instruction_word i)) is"
  have words: "map snd (word_chunks 0 (concat ?ws)) = ?ws"
    by (rule word_chunks_concat) simp
  have "check_word None (fst ow) (snd ow) = Inr ()" if "ow \<in> set (word_chunks 0 (concat ?ws))" for ow
  proof -
    have "snd ow \<in> set (map snd (word_chunks 0 (concat ?ws)))"
      unfolding set_map using that by (rule imageI)
    then have "snd ow \<in> set ?ws"
      unfolding words .
    then obtain i where i: "i \<in> set is" "snd ow = to_bytes_little 4 (instruction_word i)"
      by auto
    with assms(2) have f: "0 \<le> instruction_word i" "instruction_word i < 2 ^ 32" "word_admitted None (instruction_word i)"
      using instruction_word_format by blast+
    have eq: "from_bytes_little (snd ow) = instruction_word i"
      unfolding i(2) by (rule word_of_bytes [OF f(1,2)])
    have "bits 0 2 (from_bytes_little (snd ow)) = 3"
      unfolding eq using f(3) by (simp add: word_admitted_def)
    from check_word_admitted [OF this, THEN iffD2] show ?thesis
      unfolding eq using f(3) by blast
  qed
  moreover have len: "length (concat ?ws) = 4 * length is"
    by (rule concat_words_length)
  have "concat ?ws \<noteq> []"
  proof
    assume "concat ?ws = []"
    with len have "4 * length is = 0" by (simp only: list.size)
    with assms(1) show False by simp
  qed
  moreover have "length (concat ?ws) mod 4 = 0"
    unfolding len by simp
  ultimately show ?thesis
    by (intro check_bytes_intro) blast+
qed

text \<open>What the constructors accept, the admission check admits: every nonempty sequence of
  validated instructions encodes into four bytes each, and the encoding passes the check that guards
  instruction memory, with no extension beyond RV32I declared.\<close>

theorem fragment_admitted:
  assumes "is \<noteq> []" and "\<forall>i \<in> set is. make_instruction (opn i) (rd i) (rs1 i) (rs2 i) (immediate i) = Inr i"
  shows "\<exists>bs. fragment_bytes is = Inr bs \<and> length bs = 4 * length is \<and> validate_instruction_bytes bs None = Inr ()"
  using fragment_bytes_ok [of "is"] fragment_check [of "is"] concat_words_length [of instruction_word "is"] assms
  by (auto simp: instruction_ok_def validate_instruction_bytes_def)

theorem fragment_admitted_witness:
  "\<exists>bs. fragment_bytes [\<lparr>opn = ''LUI'', rd = 5, rs1 = 0, rs2 = 0, immediate = 0x10000\<rparr>,
       \<lparr>opn = ''SW'', rd = 0, rs1 = 5, rs2 = 6, immediate = - 8\<rparr>] = Inr bs
     \<and> length bs = 8 \<and> validate_instruction_bytes bs None = Inr ()"
  using fragment_admitted [of "[\<lparr>opn = ''LUI'', rd = 5, rs1 = 0, rs2 = 0, immediate = 0x10000\<rparr>,
       \<lparr>opn = ''SW'', rd = 0, rs1 = 5, rs2 = 6, immediate = - 8\<rparr>]"]
  by (simp add: make_instruction_Inr OPERATIONS_def operands_ok_def)

lemma word_chunks_lengths:
  "length bs mod 4 = 0 \<Longrightarrow> ow \<in> set (word_chunks off bs) \<Longrightarrow> length (snd ow) = 4"
proof (induction off bs rule: word_chunks.induct)
  case (2 off b bs)
  have len: "3 \<le> length bs" "length (drop 3 bs) mod 4 = 0"
    using "2.prems"(1) by (cases "length bs \<le> 2"; simp; presburger)+
  with 2 show ?case by (cases "ow \<in> set (word_chunks (off + 4) (drop 3 bs))") auto
qed simp

lemma admitted_word_legal:
  assumes "word_admitted (Some c) w" and "0 \<le> w" and "w < 2 ^ 32"
    and "supports_legal_instruction_validation c" and "xlen c = 32 \<or> xlen c = 64"
  shows "is_legal_word c w False"
proof -
  have "drop_bit 26 w = bits 26 6 w"
    using assms(2,3) by (intro drop_bit_top) simp_all
  moreover have "bits 25 7 w = bits 25 1 w + 2 * bits 26 6 w"
    using drop_bit_bits [of 25 w 7] drop_bit_bits [of 25 w 1] drop_bit_bits [of 26 w 6] by simp
  moreover have "bits 25 1 w < 2" "0 \<le> bits 25 1 w"
    using bits_bounds [of 25 1 w] by simp_all
  ultimately have top: "bits 25 7 w = 0 \<Longrightarrow> drop_bit 26 w = 0" "bits 25 7 w = 0x20 \<Longrightarrow> drop_bit 26 w = 0x10"
    using bits_bounds(1) [of 26 6 w] by presburger+
  have low: "bits 0 2 w = 3"
    using assms(1) unfolding word_admitted_def by (rule conjunct1)
  consider "bits 0 7 w = 0x37" | "bits 0 7 w = 0x13" "bits 12 3 w \<in> {0, 2, 3, 4, 6, 7}" | "is_legal_word c w False"
    | "bits 0 7 w = 0x13" "bits 12 3 w \<in> {1, 5}" "bits 25 7 w = 0"
    | "bits 0 7 w = 0x13" "bits 12 3 w = 5" "bits 25 7 w = 0x20"
    | "bits 0 7 w = 0x03" "bits 12 3 w = 2" | "bits 0 7 w = 0x23" "bits 12 3 w \<in> {0, 2}"
    using assms(1) unfolding word_admitted_def Let_def option.case by blast
  then have "base_legal c w \<or> is_legal_word c w False"
  proof cases
    case 4
    with top(1) assms(5) show ?thesis by (auto simp: base_legal_def)
  next
    case 5
    with top(2) assms(5) show ?thesis by (auto simp: base_legal_def)
  next
    case 6
    with assms(5) show ?thesis by (auto simp: base_legal_def)
  next
    case 7
    with assms(5) show ?thesis by (auto simp: base_legal_def)
  qed (simp_all add: base_legal_def)
  with low show ?thesis
    using assms(2-4) by (auto simp: is_legal_word_def)
qed

text \<open>The admission check admits only legal instructions: when it accepts bytes for a contract of
  implemented extensions, every word is a legal 32-bit instruction of the contract or a pair of legal
  compressed ones.\<close>

theorem admission_legal:
  assumes "check_instruction_bytes bs (Some c) = Inr ()" and "supports_legal_instruction_validation c"
    and "xlen c = 32 \<or> xlen c = 64"
  shows "length bs mod 4 = 0 \<and> (\<forall>w \<in> set (map snd (word_chunks 0 bs)).
      is_legal_word c (from_bytes_little w) False
      \<or> (is_legal_word c (from_bytes_little (take 2 w)) True \<and> is_legal_word c (from_bytes_little (take 2 (drop 2 w))) True))"
proof -
  have len: "bs \<noteq> []" "length bs mod 4 = 0"
    and all: "\<forall>ow \<in> set (word_chunks 0 bs). check_word (Some c) (fst ow) (snd ow) = Inr ()"
    using assms(1) by (auto simp: check_instruction_bytes_def split: if_splits)
  have word: "is_legal_word c (from_bytes_little w) False
      \<or> (is_legal_word c (from_bytes_little (take 2 w)) True \<and> is_legal_word c (from_bytes_little (take 2 (drop 2 w))) True)"
    if "(off, w) \<in> set (word_chunks 0 bs)" for off w
  proof (cases "bits 0 2 (from_bytes_little w) = 3")
    case True
    have "check_word (Some c) off w = Inr ()" "length w = 4"
      using all that word_chunks_lengths [OF len(2) that] by auto
    then have "word_admitted (Some c) (from_bytes_little w)" "0 \<le> from_bytes_little w" "from_bytes_little w < 2 ^ 32"
      using check_word_admitted [OF True] from_bytes_little_bounds [of w] by simp_all
    then show ?thesis
      using admitted_word_legal assms(2,3) by blast
  next
    case False
    have "check_compressed_pair (Some c) off w = Inr ()"
      using all that False by (auto simp: check_word_def)
    then show ?thesis
      by (auto simp: check_compressed_pair_def Let_def split: if_splits)
  qed
  have "\<forall>w \<in> set (map snd (word_chunks 0 bs)). is_legal_word c (from_bytes_little w) False
      \<or> (is_legal_word c (from_bytes_little (take 2 w)) True \<and> is_legal_word c (from_bytes_little (take 2 (drop 2 w))) True)"
  proof
    fix w assume "w \<in> set (map snd (word_chunks 0 bs))"
    then obtain off where "(off, w) \<in> set (word_chunks 0 bs)" by auto
    then show "is_legal_word c (from_bytes_little w) False
      \<or> (is_legal_word c (from_bytes_little (take 2 w)) True \<and> is_legal_word c (from_bytes_little (take 2 (drop 2 w))) True)"
      by (rule word)
  qed
  with len show ?thesis by blast
qed


section \<open>Addresses\<close>

lemma split_address_props:
  assumes "split_address a = (high, low)"
  shows "- 2048 \<le> low" "low < 2048" "0 \<le> high" "high < 1048576"
    "(high * 4096 + low) mod 2 ^ 32 = a mod 2 ^ 32" "a mod 4 = 0 \<Longrightarrow> low mod 4 = 0"
proof -
  have low: "low = (a mod 4096 + 2048) mod 4096 - 2048" and high: "high = (a - low) div 4096 mod 1048576"
    using assms by (auto simp: split_address_def Let_def and_fff drop_bit_eq_div)
  show "- 2048 \<le> low" "low < 2048" unfolding low by simp_all
  show "0 \<le> high" "high < 1048576" unfolding high by simp_all
  have m: "low mod 4096 = a mod 4096"
    unfolding low by (simp add: mod_diff_left_eq mod_add_left_eq)
  then have "4096 dvd a - low"
    by (metis mod_eq_dvd_iff)
  then have q: "a - low = 4096 * ((a - low) div 4096)"
    by simp
  then have "(high * 4096 + low) mod 2 ^ 32 = (((a - low) div 4096) mod 1048576 * 4096 + low) mod 2 ^ 32"
    by (simp add: high)
  also have "\<dots> = (((a - low) div 4096 * 4096) mod (1048576 * 4096) + low) mod 2 ^ 32"
    using mult_mod_right [of 4096 "(a - low) div 4096" 1048576] by (simp add: mult.commute)
  also have "\<dots> = (a - low + low) mod 2 ^ 32"
    using q by (simp add: mod_add_left_eq mult.commute)
  finally show "(high * 4096 + low) mod 2 ^ 32 = a mod 2 ^ 32" by simp
  have "low mod 4096 mod 4 = low mod 4" "a mod 4096 mod 4 = a mod 4"
    by (simp_all add: mod_mod_cancel)
  with m have "low mod 4 = a mod 4" by simp
  then show "a mod 4 = 0 \<Longrightarrow> low mod 4 = 0" by simp
qed

text \<open>The window of an access and its permission for the operation.\<close>

definition permits :: "string \<Rightarrow> mmio_window \<Rightarrow> bool" where
  "permits op w \<longleftrightarrow> (if op = ''LW'' then win_readable w else win_writable w \<and> access_width op \<in> set (write_widths w))"

lemma windows_argument_Inr [simp]: "windows_argument ws = Inr u \<longleftrightarrow> ws \<noteq> []"
  by (simp add: windows_argument_def)

lemma register_conflict_never [simp]: "register_conflict p b d \<noteq> Inr x"
  by (simp add: register_conflict_def)

lemma access_width_pos: "access_width op = 1 \<or> access_width op = 4"
  by (simp add: access_width_def)

definition access_args :: "string \<Rightarrow> int \<Rightarrow> mmio_window list \<Rightarrow> int \<Rightarrow> int \<Rightarrow> bool" where
  "access_args op adr ws b d \<longleftrightarrow> op \<in> set MEMORY_OPERATIONS \<and> 0 < b \<and> b < 32 \<and> 0 < d \<and> d < 32 \<and> b \<noteq> d
     \<and> 0 \<le> adr \<and> adr < 2 ^ 32 \<and> adr mod access_width op = 0
     \<and> (\<exists>w \<in> set ws. contains w adr (access_width op) \<and> permits op w)"

definition access_code :: "string \<Rightarrow> int \<Rightarrow> int \<Rightarrow> int \<Rightarrow> instruction list" where
  "access_code op adr b d = (case split_address adr of (high, low) \<Rightarrow>
     [\<lparr>opn = ''LUI'', rd = b, rs1 = 0, rs2 = 0, immediate = high\<rparr>,
      \<lparr>opn = op, rd = (if op = ''LW'' then d else 0), rs1 = b, rs2 = (if op = ''LW'' then 0 else d), immediate = low\<rparr>])"

lemma make_lui: "0 \<le> b \<Longrightarrow> b < 32 \<Longrightarrow> 0 \<le> high \<Longrightarrow> high < 1048576 \<Longrightarrow>
    make_instruction ''LUI'' b 0 0 high = Inr \<lparr>opn = ''LUI'', rd = b, rs1 = 0, rs2 = 0, immediate = high\<rparr>"
  unfolding make_instruction_Inr by (simp add: OPERATIONS_def operands_ok_def)

lemma make_addi: "0 \<le> d \<Longrightarrow> d < 32 \<Longrightarrow> 0 \<le> s \<Longrightarrow> s < 32 \<Longrightarrow> - 2048 \<le> low \<Longrightarrow> low < 2048 \<Longrightarrow>
    make_instruction ''ADDI'' d s 0 low = Inr \<lparr>opn = ''ADDI'', rd = d, rs1 = s, rs2 = 0, immediate = low\<rparr>"
  unfolding make_instruction_Inr by (simp add: OPERATIONS_def operands_ok_def)

lemma make_access:
  "0 \<le> b \<Longrightarrow> b < 32 \<Longrightarrow> 0 \<le> d \<Longrightarrow> d < 32 \<Longrightarrow> - 2048 \<le> low \<Longrightarrow> low < 2048 \<Longrightarrow> low mod 4 = 0 \<Longrightarrow>
    make_instruction ''LW'' d b 0 low = Inr \<lparr>opn = ''LW'', rd = d, rs1 = b, rs2 = 0, immediate = low\<rparr>"
  "0 \<le> b \<Longrightarrow> b < 32 \<Longrightarrow> 0 \<le> d \<Longrightarrow> d < 32 \<Longrightarrow> - 2048 \<le> low \<Longrightarrow> low < 2048 \<Longrightarrow> low mod 4 = 0 \<Longrightarrow>
    make_instruction ''SW'' 0 b d low = Inr \<lparr>opn = ''SW'', rd = 0, rs1 = b, rs2 = d, immediate = low\<rparr>"
  "0 \<le> b \<Longrightarrow> b < 32 \<Longrightarrow> 0 \<le> d \<Longrightarrow> d < 32 \<Longrightarrow> - 2048 \<le> low \<Longrightarrow> low < 2048 \<Longrightarrow>
    make_instruction ''SB'' 0 b d low = Inr \<lparr>opn = ''SB'', rd = 0, rs1 = b, rs2 = d, immediate = low\<rparr>"
  unfolding make_instruction_Inr by (simp_all add: OPERATIONS_def operands_ok_def)

lemma access_code_made:
  assumes "split_address adr = (high, low)" and "op \<in> set MEMORY_OPERATIONS" and "adr mod access_width op = 0"
    and "0 \<le> b" "b < 32" "0 \<le> d" "d < 32"
  shows "make_instruction ''LUI'' b 0 0 high = Inr (access_code op adr b d ! 0)"
    and "(if op = ''LW'' then make_instruction ''LW'' d b 0 low else make_instruction op 0 b d low)
      = Inr (access_code op adr b d ! 1)"
proof -
  note p = split_address_props [OF assms(1)]
  show "make_instruction ''LUI'' b 0 0 high = Inr (access_code op adr b d ! 0)"
    using assms p by (simp add: make_lui access_code_def)
  have "op = ''LW'' \<or> op = ''SW'' \<or> op = ''SB''"
    using assms(2) by (simp add: MEMORY_OPERATIONS_def)
  then show "(if op = ''LW'' then make_instruction ''LW'' d b 0 low else make_instruction op 0 b d low)
      = Inr (access_code op adr b d ! 1)"
    using assms(1,3-7) p by (elim disjE) (simp_all add: make_access access_code_def access_width_def)
qed

lemma access_code_two: "access_code op adr b d = [access_code op adr b d ! 0, access_code op adr b d ! 1]"
  by (simp add: access_code_def split: prod.splits)

lemma mmio_access_fragment_iff:
  "mmio_access_fragment op adr ws b d = Inr is \<longleftrightarrow> access_args op adr ws b d \<and> is = access_code op adr b d"
proof (cases "op \<in> set MEMORY_OPERATIONS \<and> 0 < b \<and> b < 32 \<and> 0 < d \<and> d < 32 \<and> b \<noteq> d
     \<and> 0 \<le> adr \<and> adr < 2 ^ 32 \<and> adr mod access_width op = 0")
  case True
  obtain high low where s: "split_address adr = (high, low)" by (cases "split_address adr")
  have mk: "make_instruction ''LUI'' b 0 0 high = Inr (access_code op adr b d ! 0)"
    "(if op = ''LW'' then make_instruction ''LW'' d b 0 low else make_instruction op 0 b d low)
      = Inr (access_code op adr b d ! 1)"
    using access_code_made [OF s, of op b d] True by simp_all
  let ?c = "filter (\<lambda>w. contains w adr (access_width op)) ws"
  have "mmio_access_fragment op adr ws b d = Inr is \<longleftrightarrow> ws \<noteq> [] \<and> ?c \<noteq> []
      \<and> list_ex (\<lambda>w. if op = ''LW'' then win_readable w else win_writable w) ?c
      \<and> (op \<noteq> ''LW'' \<longrightarrow> list_ex (\<lambda>w. win_writable w \<and> access_width op \<in> set (write_widths w)) ?c)
      \<and> is = access_code op adr b d"
    using True mk access_code_two [of op adr b d]
    by (auto simp: mmio_access_fragment_def Let_def s check_register_def windows_argument_def)
  also have "\<dots> \<longleftrightarrow> access_args op adr ws b d \<and> is = access_code op adr b d"
    using True by (auto simp: access_args_def list_ex_iff permits_def filter_empty_conv)
  finally show ?thesis .
next
  case False
  have "mmio_access_fragment op adr ws b d \<noteq> Inr is"
    using False by (auto simp: mmio_access_fragment_def Let_def split: if_splits)
  with False show ?thesis by (auto simp: access_args_def)
qed

lemma access_code_ok:
  assumes "access_args op adr ws b d"
  shows "\<forall>i \<in> set (access_code op adr b d). instruction_ok i"
proof -
  obtain high low where s: "split_address adr = (high, low)" by (cases "split_address adr")
  have "instruction_ok (access_code op adr b d ! 0)" "instruction_ok (access_code op adr b d ! 1)"
    using access_code_made [OF s, of op b d] assms make_instruction_ok
    by (auto simp: access_args_def split: if_splits)
  then show ?thesis
    by (subst access_code_two) simp
qed

section \<open>Mutated addresses stay in their window\<close>

definition valid_window :: "mmio_window \<Rightarrow> bool" where
  "valid_window w \<longleftrightarrow> make_mmio_window (win_base w) (win_size w) (win_readable w) (win_writable w) (write_widths w) = Inr w"

lemma valid_window_range: "valid_window w \<Longrightarrow> 0 \<le> win_base w \<and> 0 < win_size w \<and> win_base w + win_size w \<le> 2 ^ 32"
  by (auto simp: valid_window_def make_mmio_window_def Let_def split: if_splits)

lemma first_slot_props:
  assumes "wd = 1 \<or> wd = 4"
  shows "win_base w \<le> first_slot w wd" "first_slot w wd mod wd = 0"
proof -
  have "win_base w \<le> (win_base w + 3) div 4 * 4" by presburger
  then show "win_base w \<le> first_slot w wd" "first_slot w wd mod wd = 0"
    using assms by (auto simp: first_slot_def)
qed

lemma slot_in_window:
  assumes "wd = 1 \<or> wd = 4" and "valid_window w" and "first_slot w wd + wd \<le> win_base w + win_size w"
    and "0 \<le> x"
  defines "slots \<equiv> (win_base w + win_size w - wd - first_slot w wd) div wd + 1"
  defines "adr \<equiv> first_slot w wd + (x mod slots) * wd"
  shows "contains w adr wd" "adr mod wd = 0" "0 \<le> adr" "adr < 2 ^ 32"
proof -
  note f = first_slot_props [OF assms(1), of w] and v = valid_window_range [OF assms(2)]
  let ?room = "win_base w + win_size w - wd - first_slot w wd"
  have wd: "0 < wd" using assms(1) by auto
  have "0 \<le> ?room div wd"
    using assms(3) wd by (simp add: pos_imp_zdiv_nonneg_iff)
  then have pos: "0 < slots" unfolding slots_def by linarith
  then have k: "0 \<le> x mod slots" "x mod slots \<le> slots - 1"
    using pos_mod_bound [of slots x] by simp_all
  have "(slots - 1) * wd \<le> ?room"
    using le_div_iff [OF wd, of "?room div wd" ?room] unfolding slots_def by simp
  moreover have "(x mod slots) * wd \<le> (slots - 1) * wd"
    using k assms(1) by (auto intro: mult_right_mono)
  ultimately have hi: "adr + wd \<le> win_base w + win_size w"
    unfolding adr_def by linarith
  have lo: "first_slot w wd \<le> adr"
    unfolding adr_def using k assms(1) by auto
  show "contains w adr wd"
    using hi lo f assms(1) by (auto simp: contains_def)
  show "adr mod wd = 0"
    unfolding adr_def using f(2) by (simp add: mod_add_eq [symmetric])
  show "0 \<le> adr" "adr < 2 ^ 32"
    using hi lo f v assms(1) by auto
qed

definition usable_window :: "string \<Rightarrow> mmio_window \<Rightarrow> bool" where
  "usable_window op w \<longleftrightarrow> permits op w \<and> first_slot w (access_width op) + access_width op \<le> win_base w + win_size w"

lemma mutate_mmio_access_total:
  assumes "op \<in> set MEMORY_OPERATIONS" and "4 \<le> length entropy" and "\<forall>w \<in> set ws. valid_window w"
    and "\<exists>w \<in> set ws. usable_window op w" and "0 < b" "b < 32" "0 < d" "d < 32" "b \<noteq> d"
  shows "\<exists>adr. access_args op adr ws b d \<and> mutate_mmio_access op entropy ws b d = Inr (access_code op adr b d)"
proof -
  let ?wd = "access_width op"
  define acc where "acc = filter (\<lambda>w. if op = ''LW'' then win_readable w else win_writable w) ws"
  define wp where "wp = filter (\<lambda>w. op = ''LW'' \<or> ?wd \<in> set (write_widths w)) acc"
  define per where "per = filter (\<lambda>w. first_slot w ?wd + ?wd \<le> win_base w + win_size w) wp"
  have set_per: "set per = {w \<in> set ws. usable_window op w}"
    by (auto simp: per_def wp_def acc_def usable_window_def permits_def)
  then have "set per \<noteq> {}" using assms(4) by auto
  moreover have "set per \<subseteq> set wp" "set wp \<subseteq> set acc" "set acc \<subseteq> set ws"
    unfolding per_def wp_def acc_def by (simp_all only: filter_is_subset)
  ultimately have ne: "per \<noteq> []" "wp \<noteq> []" "acc \<noteq> []" "ws \<noteq> []"
    by auto
  define w where "w = per ! nat (byte_at entropy 0 mod int (length per))"
  have "nat (byte_at entropy 0 mod int (length per)) < length per"
    using ne(1) by (simp add: nat_less_iff)
  then have "w \<in> set per" unfolding w_def by (rule nth_mem)
  with set_per have w: "w \<in> set ws" "usable_window op w" "valid_window w"
    using assms(3) by auto
  define x where "x = from_bytes_little (take 3 (drop 1 entropy))"
  define adr where "adr = first_slot w ?wd + x mod ((win_base w + win_size w - ?wd - first_slot w ?wd) div ?wd + 1) * ?wd"
  have x: "0 \<le> x" unfolding x_def by (rule from_bytes_little_bounds)
  have "contains w adr ?wd" "adr mod ?wd = 0" "0 \<le> adr" "adr < 2 ^ 32"
    unfolding adr_def using w(2) by (intro slot_in_window [OF access_width_pos w(3) _ x], simp add: usable_window_def)+
  then have args: "access_args op adr ws b d"
    using assms w by (auto simp: access_args_def usable_window_def)
  have "mutate_mmio_access op entropy ws b d = mmio_access_fragment op adr ws b d"
    using assms(1,2) ne unfolding mutate_mmio_access_def Let_def acc_def [symmetric] wp_def [symmetric] per_def [symmetric]
      w_def [symmetric] x_def [symmetric] adr_def [symmetric] by (simp add: windows_argument_def)
  also have "\<dots> = Inr (access_code op adr b d)"
    using args by (simp add: mmio_access_fragment_iff)
  finally show ?thesis
    using args by (intro exI [of _ adr] conjI)
qed

lemma access_code_address:
  assumes "access_args op adr ws b d"
  shows "\<exists>lui access. access_code op adr b d = [lui, access] \<and> opn lui = ''LUI'' \<and> opn access = op \<and> rd lui = b \<and> rs1 access = b
    \<and> (immediate lui * 4096 + immediate access) mod 2 ^ 32 = adr"
proof -
  obtain high low where s: "split_address adr = (high, low)" by (cases "split_address adr")
  then show ?thesis
    using split_address_props(5) [OF s] assms by (auto simp: access_code_def access_args_def)
qed

text \<open>C37: The code that reaches a device register reaches the register asked for. A fragment is made
  exactly when registers, alignment, range and a window that contains and permits the access allow
  it; then it is a LUI of the base register and the access, both valid instructions, and the
  effective address (base plus signed offset, modulo \<open>2 ^ 32\<close>) is the requested one.\<close>

theorem mmio_access_correct:
  "((\<exists>is. mmio_access_fragment op adr ws b d = Inr is) \<longleftrightarrow>
      op \<in> {''LW'', ''SW'', ''SB''} \<and> 0 < b \<and> b < 32 \<and> 0 < d \<and> d < 32 \<and> b \<noteq> d \<and> 0 \<le> adr \<and> adr < 2 ^ 32
      \<and> adr mod access_width op = 0
      \<and> (\<exists>w \<in> set ws. contains w adr (access_width op) \<and>
           (if op = ''LW'' then win_readable w else win_writable w \<and> access_width op \<in> set (write_widths w))))
   \<and> (\<forall>is. mmio_access_fragment op adr ws b d = Inr is \<longrightarrow>
      (\<exists>lui access. is = [lui, access] \<and> opn lui = ''LUI'' \<and> opn access = op \<and> rd lui = b \<and> rs1 access = b
        \<and> (\<forall>i \<in> set is. make_instruction (opn i) (rd i) (rs1 i) (rs2 i) (immediate i) = Inr i)
        \<and> (immediate lui * 4096 + immediate access) mod 2 ^ 32 = adr))"
  using access_code_address [of op adr ws b d] access_code_ok [of op adr ws b d]
  unfolding mmio_access_fragment_iff access_args_def MEMORY_OPERATIONS_def permits_def instruction_ok_def by auto

text \<open>Mutation keeps an access inside its device: with windows the constructor accepts and at least
  one that permits the operation and holds an aligned slot, every four entropy bytes give a fragment
  whose effective address lies, aligned, inside a declared window that permits the access.\<close>

theorem mutate_mmio_in_window:
  assumes "op \<in> {''LW'', ''SW'', ''SB''}" and "4 \<le> length entropy"
    and "\<forall>w \<in> set ws. make_mmio_window (win_base w) (win_size w) (win_readable w) (win_writable w) (write_widths w) = Inr w"
    and "\<exists>w \<in> set ws. permits op w \<and> first_slot w (access_width op) + access_width op \<le> win_base w + win_size w"
    and "0 < b" "b < 32" "0 < d" "d < 32" "b \<noteq> d"
  shows "\<exists>lui access adr. mutate_mmio_access op entropy ws b d = Inr [lui, access]
    \<and> (immediate lui * 4096 + immediate access) mod 2 ^ 32 = adr \<and> adr mod access_width op = 0
    \<and> (\<exists>w \<in> set ws. contains w adr (access_width op) \<and> permits op w)"
proof -
  obtain adr where adr: "access_args op adr ws b d" "mutate_mmio_access op entropy ws b d = Inr (access_code op adr b d)"
    using mutate_mmio_access_total [of op entropy ws b d] assms
    unfolding valid_window_def usable_window_def MEMORY_OPERATIONS_def by auto
  with access_code_address [OF adr(1)] show ?thesis
    by (auto simp: access_args_def)
qed

definition uart_window :: mmio_window where
  "uart_window = \<lparr>win_base = 0x10000000, win_size = 0x100, win_readable = True, win_writable = True, write_widths = [1, 4]\<rparr>"

theorem mmio_access_correct_witness:
  "\<exists>lui access. mmio_access_fragment ''SW'' 0x10000010 [uart_window] 5 6 = Inr [lui, access]
    \<and> (immediate lui * 4096 + immediate access) mod 2 ^ 32 = 0x10000010"
proof -
  have "contains uart_window 0x10000010 4"
    by (simp add: contains_def uart_window_def)
  then have "\<exists>is. mmio_access_fragment ''SW'' 0x10000010 [uart_window] 5 6 = Inr is"
    using mmio_access_correct [of "''SW''" "0x10000010" "[uart_window]" 5 6, THEN conjunct1]
    by (simp add: access_width_def uart_window_def)
  then show ?thesis
    using mmio_access_correct [of "''SW''" "0x10000010" "[uart_window]" 5 6, THEN conjunct2] by blast
qed

theorem mutate_mmio_in_window_witness:
  "\<exists>lui access adr. mutate_mmio_access ''LW'' [7, 0xff, 0x80, 3] [uart_window] 1 2 = Inr [lui, access]
    \<and> (immediate lui * 4096 + immediate access) mod 2 ^ 32 = adr \<and> contains uart_window adr 4"
  using mutate_mmio_in_window [of "''LW''" "[7, 0xff, 0x80, 3]" "[uart_window]" 1 2]
  by (fastforce simp: uart_window_def make_mmio_window_def permits_def first_slot_def access_width_def)


lemma reject_bind: "res_bind (reject c m p d) f = reject c m p d"
  by (simp add: reject_def split: sum.splits)

lemma reject_raises:
  assumes "pointer_ok p" and "d \<noteq> []" and "\<forall>kv \<in> set d. fst kv \<noteq> [] \<and> freeze_value (snd kv) = Inr (snd kv)"
  shows "\<exists>r. reject c m p d = Inl (RejectionError m r)"
  using assms freeze_items_done [OF assms(3)] by (simp add: reject_def make_rejection_def freeze_detail_def)

section \<open>Mutation and decoding give valid instructions\<close>

lemma byte_at_bounds: "0 \<le> byte_at bs i" "byte_at bs i < 256"
  using uint_lt2p [of "bs ! i"] by (simp_all add: byte_at_def)

lemma sign_extend_12_bounds:
  assumes "0 \<le> raw" "raw < 4096"
  shows "- 2048 \<le> sign_extend_12 raw" "sign_extend_12 raw < 2048"
proof -
  have "raw AND 0x800 = push_bit 11 (bits 11 1 raw)"
    using and_field [of raw 11 1] by (simp add: mask_eq_exp_minus_1)
  moreover have "bits 11 1 raw = raw div 2048"
    using assms by (simp add: bits_arith)
  ultimately have "raw AND 0x800 \<noteq> 0 \<longleftrightarrow> 2048 \<le> raw"
    using assms by (auto simp: push_bit_eq_mult zdiv_eq_0_iff)
  then show "- 2048 \<le> sign_extend_12 raw" "sign_extend_12 raw < 2048"
    using assms by (auto simp: sign_extend_12_def)
qed

lemma sign_extend_12_zero: "0 \<le> raw \<Longrightarrow> raw < 4096 \<Longrightarrow> sign_extend_12 raw = 0 \<longleftrightarrow> raw = 0"
  by (auto simp: sign_extend_12_def)

lemma clear_low2: "(x :: int) AND NOT 3 = 4 * (x div 4)"
proof -
  have "x AND NOT 3 = push_bit 2 (drop_bit 2 x)"
  proof (rule bit_eqI)
    fix n
    have "bit (3 :: int) n \<longleftrightarrow> n < 2"
      using bit_mask_iff [of 2 n, where 'a = int] by (simp add: mask_eq_exp_minus_1)
    moreover have "2 \<le> n \<Longrightarrow> Suc (Suc (n - 2)) = n" by linarith
    ultimately show "bit (x AND NOT 3) n = bit (push_bit 2 (drop_bit 2 x)) n"
      by (cases "n < 2") (auto simp: bit_simps)
  qed
  then show ?thesis by (simp add: push_bit_eq_mult drop_bit_eq_div)
qed

lemma clear_low2_bounds: "- 2048 \<le> (x :: int) \<Longrightarrow> x < 2048 \<Longrightarrow> - 2048 \<le> x AND NOT 3 \<and> x AND NOT 3 < 2048 \<and> (x AND NOT 3) mod 4 = 0"
  unfolding clear_low2 by presburger

lemma make_instruction_good:
  "op \<in> set OPERATIONS \<Longrightarrow> 0 \<le> d \<Longrightarrow> d < 32 \<Longrightarrow> 0 \<le> s1 \<Longrightarrow> s1 < 32 \<Longrightarrow> 0 \<le> s2 \<Longrightarrow> s2 < 32
   \<Longrightarrow> operands_ok \<lparr>opn = op, rd = d, rs1 = s1, rs2 = s2, immediate = imm\<rparr>
   \<Longrightarrow> \<exists>i. make_instruction op d s1 s2 imm = Inr i \<and> instruction_ok i \<and> opn i = op"
  using make_instruction_Inr [of op d s1 s2 imm "\<lparr>opn = op, rd = d, rs1 = s1, rs2 = s2, immediate = imm\<rparr>"]
    make_instruction_ok [of op d s1 s2 imm] by auto

lemma mutate_instruction_ok:
  assumes "instruction_ok seed" and "4 \<le> length entropy" and "opn seed \<noteq> ''AND''" "opn seed \<noteq> ''OR''"
  shows "\<exists>i. mutate_instruction seed entropy = Inr i \<and> instruction_ok i \<and> opn i = opn seed"
proof -
  define field where "field = byte_at entropy 0 mod 3"
  define register where "register = byte_at entropy 3 AND 31"
  define signed where "signed = sign_extend_12 (from_bytes_little (take 2 (drop 1 entropy)) AND 0xfff)"
  define uimm where "uimm = from_bytes_little (take 4 entropy) AND 0xfffff"
  have r: "0 \<le> register" "register < 32"
    by (simp_all add: register_def and_fff)
  have s: "- 2048 \<le> signed" "signed < 2048"
    unfolding signed_def by (rule sign_extend_12_bounds; simp add: and_fff)+
  note s4 = clear_low2_bounds [OF s]
  have u: "0 \<le> uimm" "uimm < 1048576"
    by (simp_all add: uimm_def and_fff)
  note eq = mutate_instruction_def [of seed entropy, folded field_def register_def signed_def uimm_def, unfolded Let_def,
      folded field_def register_def signed_def uimm_def]
  note ok = assms(1) [unfolded instruction_ok_iff]
  consider (nop) "opn seed = ''NOP''" | (lui) "opn seed = ''LUI''" 
    | (shift) "opn seed \<in> {''SLLI'', ''SRLI'', ''SRAI''}" | (imm) "opn seed \<in> {''ADDI'', ''XORI'', ''ORI'', ''ANDI''}"
    | (lw) "opn seed = ''LW''" | (sw) "opn seed = ''SW''" | (sb) "opn seed = ''SB''"
    using ok assms(3,4) by (auto simp: OPERATIONS_def)
  then show ?thesis
  proof cases
    case nop
    then show ?thesis using assms eq by simp
  next
    case lui
    then show ?thesis
      unfolding eq using assms(2) ok r u by (simp add: make_instruction_good OPERATIONS_def operands_ok_def)
  next
    case shift
    then show ?thesis
      unfolding eq using assms(2) ok r
      by (elim insertE emptyE) (simp_all add: make_instruction_good OPERATIONS_def operands_ok_def SHIFT_OPERATIONS_def)
  next
    case imm
    then show ?thesis
      unfolding eq using assms(2) ok r s
      by (elim insertE emptyE) (simp_all add: make_instruction_good OPERATIONS_def operands_ok_def SHIFT_OPERATIONS_def)
  next
    case lw
    then show ?thesis
      unfolding eq using assms(2) ok r s4
      by (simp add: make_instruction_good OPERATIONS_def operands_ok_def SHIFT_OPERATIONS_def)
  next
    case sw
    then show ?thesis
      unfolding eq using assms(2) ok r s4
      by (simp add: make_instruction_good OPERATIONS_def operands_ok_def SHIFT_OPERATIONS_def)
  next
    case sb
    then show ?thesis
      unfolding eq using assms(2) ok r s
      by (simp add: make_instruction_good OPERATIONS_def operands_ok_def SHIFT_OPERATIONS_def)
  qed
qed

text \<open>Mutation keeps the class: from a valid instruction other than AND and OR, every four entropy
  bytes give a valid instruction of the same operation.\<close>

theorem mutate_keeps_class:
  assumes "make_instruction op d s1 s2 imm = Inr seed" and "op \<notin> {''AND'', ''OR''}" and "4 \<le> length entropy"
  shows "\<exists>i. mutate_instruction seed entropy = Inr i \<and> opn i = op
    \<and> make_instruction (opn i) (rd i) (rs1 i) (rs2 i) (immediate i) = Inr i"
proof -
  have "instruction_ok seed" "opn seed = op"
    using make_instruction_ok [OF assms(1)] assms(1) by (simp_all add: make_instruction_Inr)
  then show ?thesis
    using mutate_instruction_ok [of seed entropy] assms(2,3) by (auto simp: instruction_ok_def)
qed

text \<open>C39: The AND and OR seeds are treated as stores: a mutation that picks another field than the
  second source and a nonzero immediate is refused, and any other loses the destination register.\<close>

theorem mutate_logic_refused:
  assumes "make_instruction op d s1 s2 imm = Inr seed" and "op \<in> {''AND'', ''OR''}" and "4 \<le> length entropy"
  shows "if byte_at entropy 0 mod 3 \<noteq> 0 \<and> from_bytes_little (take 2 (drop 1 entropy)) mod 4096 \<noteq> 0
    then \<exists>r. mutate_instruction seed entropy = Inl (RejectionError ''register logic instructions have no immediate'' r)
    else \<exists>i. mutate_instruction seed entropy = Inr i \<and> rd i = 0"
proof -
  define signed where "signed = sign_extend_12 (from_bytes_little (take 2 (drop 1 entropy)) AND 0xfff)"
  have z: "signed = 0 \<longleftrightarrow> from_bytes_little (take 2 (drop 1 entropy)) mod 4096 = 0"
    unfolding signed_def by (subst sign_extend_12_zero) (simp_all add: and_fff)
  have seed: "opn seed = op" "immediate seed = 0" "0 \<le> rs1 seed" "rs1 seed < 32" "0 \<le> rs2 seed" "rs2 seed < 32"
    using assms(1,2) by (auto simp: make_instruction_Inr operands_ok_def)
  have reg: "0 \<le> byte_at entropy 3 AND 31" "byte_at entropy 3 AND 31 < 32"
    by (simp_all add: and_fff)
  let ?s2 = "if byte_at entropy 0 mod 3 = 0 then byte_at entropy 3 AND 31 else rs2 seed"
  let ?imm = "if byte_at entropy 0 mod 3 \<noteq> 0 then signed else 0"
  have eq: "mutate_instruction seed entropy = make_instruction op 0 (rs1 seed) ?s2 ?imm"
    using assms(2,3) seed unfolding mutate_instruction_def Let_def signed_def [symmetric]
    by (auto simp: SHIFT_OPERATIONS_def)
  show ?thesis
  proof (cases "?imm = 0")
    case True
    then have "make_instruction op 0 (rs1 seed) ?s2 ?imm = Inr \<lparr>opn = op, rd = 0, rs1 = rs1 seed, rs2 = ?s2, immediate = 0\<rparr>"
      unfolding make_instruction_Inr using seed reg assms(2) by (auto simp: OPERATIONS_def operands_ok_def)
    with True eq z show ?thesis by (auto split: if_splits)
  next
    case False
    have "0 \<le> ?s2" "?s2 < 32"
      using seed reg by auto
    then have "make_instruction op 0 (rs1 seed) ?s2 ?imm
       = reject FIELD_BAD_IMMEDIATE ''register logic instructions have no immediate'' ''instruction.immediate''
           [(''operation'', JStr op), (''immediate'', JInt ?imm)]"
      using False seed(3,4) assms(2) unfolding make_instruction_def Let_def check_operands_def
      by (elim insertE emptyE) (simp_all only: OPERATIONS_def REGISTER_LOGIC_OPERATIONS_def check_register_def
          instruction.simps, simp_all add: reject_bind)
    moreover have "\<exists>r. reject FIELD_BAD_IMMEDIATE ''register logic instructions have no immediate'' ''instruction.immediate''
           [(''operation'', JStr op), (''immediate'', JInt ?imm)] = Inl (RejectionError ''register logic instructions have no immediate'' r)"
      by (rule reject_raises) (simp_all add: pointer_ok_def match_ident_def match_index_def ident_start_def digit_def)
    ultimately show ?thesis
      using eq False z by (auto split: if_splits)
  qed
qed

theorem mutate_keeps_class_witness:
  "\<exists>i. mutate_instruction \<lparr>opn = ''LW'', rd = 5, rs1 = 6, rs2 = 0, immediate = 8\<rparr> [2, 0xff, 0x0f, 9] = Inr i \<and> opn i = ''LW''"
  using mutate_keeps_class [of "''LW''" 5 6 0 8 "\<lparr>opn = ''LW'', rd = 5, rs1 = 6, rs2 = 0, immediate = 8\<rparr>" "[2, 0xff, 0x0f, 9]"]
  by (auto simp: make_instruction_Inr OPERATIONS_def operands_ok_def)

theorem mutate_logic_refused_witness:
  "\<exists>r. mutate_instruction \<lparr>opn = ''AND'', rd = 5, rs1 = 6, rs2 = 7, immediate = 0\<rparr> [1, 4, 0, 9]
     = Inl (RejectionError ''register logic instructions have no immediate'' r)"
  using mutate_logic_refused [of "''AND''" 5 6 7 0 "\<lparr>opn = ''AND'', rd = 5, rs1 = 6, rs2 = 7, immediate = 0\<rparr>" "[1, 4, 0, 9]"]
  by (simp add: make_instruction_Inr OPERATIONS_def operands_ok_def byte_at_def)


lemma make_good_all:
  assumes "\<exists>i. make_instruction op d s1 s2 imm = Inr i \<and> instruction_ok i \<and> opn i = op"
  shows "\<exists>is. res_bind (make_instruction op d s1 s2 imm) (\<lambda>i. Inr [i]) = Inr is \<and> is \<noteq> [] \<and> length is \<le> 4 \<and> (\<forall>i \<in> set is. instruction_ok i)"
  using assms by auto

lemma arithmetic_fragment_ok:
  assumes "1 \<le> register" "register < 32"
  shows "\<exists>is. arithmetic_fragment raw register = Inr is \<and> is \<noteq> [] \<and> length is \<le> 4 \<and> (\<forall>i \<in> set is. instruction_ok i)"
proof -
  define imm where "imm = sign_extend_12 (from_bytes_little (take 2 (drop 2 raw)) AND 0xfff)"
  define ximm where "ximm = sign_extend_12 (from_bytes_little (take 2 (drop 4 raw)) AND 0xfff)"
  define uimm where "uimm = from_bytes_little (take 4 (drop 7 raw)) AND 0xfffff"
  define edit where "edit = byte_at raw 6 AND 0xc0"
  define s1 where "s1 = byte_at raw 4 AND 31"
  have b: "- 2048 \<le> imm" "imm < 2048" "- 2048 \<le> ximm" "ximm < 2048" "0 \<le> uimm" "uimm < 1048576" "0 \<le> s1" "s1 < 32"
    unfolding imm_def ximm_def uimm_def s1_def by (simp_all add: and_fff sign_extend_12_bounds)
  have sh: "[''SLLI'', ''SRLI'', ''SRAI''] ! nat (byte_at raw 6 mod 3) \<in> {''SLLI'', ''SRLI'', ''SRAI''}"
    using nth_mem [of "nat (byte_at raw 6 mod 3)" "[''SLLI'', ''SRLI'', ''SRAI'']"] by (simp add: nat_less_iff)
  note eq = arithmetic_fragment_def [of raw register, unfolded Let_def, folded imm_def ximm_def uimm_def edit_def s1_def]
  have lui: "\<exists>i. make_instruction ''LUI'' register 0 0 uimm = Inr i \<and> instruction_ok i"
    using make_instruction_good [of "''LUI''" register 0 0 uimm] assms b by (auto simp: OPERATIONS_def operands_ok_def)
  have addi: "\<exists>i. make_instruction op d s 0 v = Inr i \<and> instruction_ok i \<and> opn i = op"
    if "op \<in> {''ADDI'', ''ORI'', ''XORI'', ''ANDI''}" "- 2048 \<le> v" "v < 2048" "0 \<le> s" "s < 32" "0 \<le> d" "d < 32" for op v s d
    using that by (elim insertE emptyE) (simp_all add: make_instruction_good OPERATIONS_def operands_ok_def)
  have shift: "\<exists>i. make_instruction op register s1 0 (imm AND 31) = Inr i \<and> instruction_ok i \<and> opn i = op"
    if "op \<in> {''SLLI'', ''SRLI'', ''SRAI''}" for op
    using that assms b by (elim insertE emptyE) (simp_all add: make_instruction_good OPERATIONS_def operands_ok_def and_fff)
  show ?thesis
  proof (cases "edit \<noteq> 0")
    case True
    obtain i ia ix where "make_instruction ''LUI'' register 0 0 uimm = Inr i" "instruction_ok i"
      "make_instruction ''ADDI'' register register 0 imm = Inr ia" "instruction_ok ia"
      "make_instruction ''XORI'' register register 0 ximm = Inr ix" "instruction_ok ix"
      using lui addi [of "''ADDI''" imm register register] addi [of "''XORI''" ximm register register] b assms by auto
    with True show ?thesis
      unfolding eq by (cases "edit = 0x80"; cases "edit = 0xc0") simp_all
  next
    case False
    then show ?thesis
      unfolding eq using make_good_all [OF shift [OF sh]]
        make_good_all [OF addi [of "''ADDI''" imm s1 register]] make_good_all [OF addi [of "''ORI''" imm s1 register]]
        make_good_all [OF addi [of "''XORI''" imm s1 register]] make_good_all [OF addi [of "''ANDI''" imm s1 register]] b assms
      by (simp only: if_False if_split simp_thms) simp
  qed
qed

lemma decode_ok:
  assumes "entropy \<noteq> []" and "allowed \<noteq> []" "set allowed \<subseteq> set MEMORY_OPERATIONS" "distinct allowed"
    and "\<forall>w \<in> set ws. valid_window w" and "ws \<noteq> [] \<Longrightarrow> \<forall>op \<in> set allowed. \<exists>w \<in> set ws. usable_window op w"
  shows "\<exists>is. decode_instruction_fragment entropy ws allowed = Inr is \<and> is \<noteq> [] \<and> length is \<le> 4 \<and> (\<forall>i \<in> set is. instruction_ok i)"
proof -
  define raw where "raw = take 12 (entropy @ replicate 12 0)"
  define choice where "choice = byte_at raw 0 mod (if ws \<noteq> [] then 3 + int (length allowed) else 3)"
  define register where "register = 1 + byte_at raw 1 mod 31"
  define uimm where "uimm = from_bytes_little (take 4 (drop 2 raw)) AND 0xfffff"
  have reg: "1 \<le> register" "register < 32"
    using pos_mod_bound [of 31 "byte_at raw 1"] by (simp_all add: register_def)
  have u: "0 \<le> uimm" "uimm < 1048576" by (simp_all add: uimm_def and_fff)
  have c: "0 \<le> choice" "choice < (if ws \<noteq> [] then 3 + int (length allowed) else 3)"
    unfolding choice_def by simp_all
  have guard: "\<not> (allowed = [] \<or> (\<exists>op \<in> set allowed. op \<notin> set MEMORY_OPERATIONS) \<or> \<not> distinct allowed)"
    using assms(2-4) by auto
  note eq = decode_instruction_fragment_def [of entropy ws allowed, unfolded Let_def, folded raw_def, folded choice_def register_def uimm_def]
  consider "choice = 0" | "choice = 1" | "choice = 2" | (mmio) "3 \<le> choice"
    using c(1) by linarith
  then show ?thesis
  proof cases
    case 1
    have "\<exists>i. make_instruction ''NOP'' 0 0 0 0 = Inr i \<and> instruction_ok i \<and> opn i = ''NOP''"
      by (rule make_instruction_good) (simp_all add: OPERATIONS_def operands_ok_def)
    with 1 show ?thesis unfolding eq using assms(1) guard by (simp only: if_False if_True) auto
  next
    case 2
    have "\<exists>i. make_instruction ''LUI'' register 0 0 uimm = Inr i \<and> instruction_ok i \<and> opn i = ''LUI''"
      by (rule make_instruction_good) (use reg u in \<open>simp_all add: OPERATIONS_def operands_ok_def\<close>)
    with 2 show ?thesis unfolding eq using assms(1) guard by (simp only: if_False if_True) auto
  next
    case 3
    then show ?thesis
      unfolding eq using assms(1) guard arithmetic_fragment_ok [OF reg, of raw] by (simp only: if_False if_True) auto
  next
    case mmio
    then have ws: "ws \<noteq> []" and idx: "nat (choice - 3) < length allowed"
      using c by (auto split: if_splits)
    define op where "op = allowed ! nat (choice - 3)"
    have op: "op \<in> set allowed" unfolding op_def using idx by (rule nth_mem)
    have "length (take 4 (drop 1 raw)) = 4"
      by (simp add: raw_def)
    then obtain adr where a: "access_args op adr ws 1 2" "mutate_mmio_access op (take 4 (drop 1 raw)) ws 1 2 = Inr (access_code op adr 1 2)"
      using mutate_mmio_access_total [of op "take 4 (drop 1 raw)" ws 1 2] op assms(3,5) assms(6) [OF ws] by auto
    obtain high low where s: "split_address (from_bytes_little (take 4 (drop 8 raw))) = (high, low)"
      by (cases "split_address (from_bytes_little (take 4 (drop 8 raw)))")
    note p = split_address_props [OF s]
    have m: "\<exists>i. make_instruction ''LUI'' 2 0 0 high = Inr i \<and> instruction_ok i"
      "\<exists>i. make_instruction ''ADDI'' 2 2 0 low = Inr i \<and> instruction_ok i"
      using make_instruction_good [of "''LUI''" 2 0 0 high] make_instruction_good [of "''ADDI''" 2 2 0 low] p
      by (auto simp: OPERATIONS_def operands_ok_def)
    have two: "length (access_code op adr 1 2) = 2"
      by (subst access_code_two) simp
    show ?thesis
      unfolding eq op_def [symmetric] using assms(1) guard mmio a m s access_code_ok [OF a(1)] two
      by auto
  qed
qed

text \<open>C36: Every input decodes to code that is admitted: for nonempty fuzzer bytes, a duplicate-free
  choice of memory operations, and windows the constructor accepts of which each allowed operation
  can use one (or no windows at all), the decoder returns one to four valid instructions, and their
  encoding passes the admission check.\<close>

theorem decode_admitted:
  assumes "entropy \<noteq> []" and "allowed \<noteq> []" "set allowed \<subseteq> {''LW'', ''SW'', ''SB''}" "distinct allowed"
    and "\<forall>w \<in> set ws. make_mmio_window (win_base w) (win_size w) (win_readable w) (win_writable w) (write_widths w) = Inr w"
    and "ws \<noteq> [] \<Longrightarrow> \<forall>op \<in> set allowed. \<exists>w \<in> set ws. usable_window op w"
  shows "\<exists>is bs. decode_instruction_fragment entropy ws allowed = Inr is \<and> length is \<le> 4
    \<and> fragment_bytes is = Inr bs \<and> length bs = 4 * length is \<and> validate_instruction_bytes bs None = Inr ()"
proof -
  obtain "is" where i: "decode_instruction_fragment entropy ws allowed = Inr is" "is \<noteq> []" "length is \<le> 4"
      "\<forall>i \<in> set is. instruction_ok i"
    using decode_ok [of entropy allowed ws] assms unfolding valid_window_def MEMORY_OPERATIONS_def by auto
  then show ?thesis
    using fragment_bytes_ok [OF i(2,4)] fragment_check [OF i(2,4)] concat_words_length [of instruction_word "is"]
    by (simp add: validate_instruction_bytes_def)
qed

theorem decode_admitted_witness:
  "\<exists>is bs. decode_instruction_fragment [4, 200, 17] [uart_window] [''LW'', ''SW''] = Inr is
     \<and> fragment_bytes is = Inr bs \<and> validate_instruction_bytes bs None = Inr ()"
proof -
  have "\<exists>is bs. decode_instruction_fragment [4, 200, 17] [uart_window] [''LW'', ''SW''] = Inr is \<and> length is \<le> 4
    \<and> fragment_bytes is = Inr bs \<and> length bs = 4 * length is \<and> validate_instruction_bytes bs None = Inr ()"
    by (rule decode_admitted) (simp_all add: uart_window_def make_mmio_window_def usable_window_def permits_def access_width_def first_slot_def)
  then show ?thesis by blast
qed


theorem admission_legal_witness:
  "check_instruction_bytes [0x13, 0, 0, 0] (Some rv32imc) = Inr () \<and> is_legal_word rv32imc 0x13 False"
proof -
  have c: "check_instruction_bytes [0x13, 0, 0, 0] (Some rv32imc) = Inr ()"
    by (simp add: check_instruction_bytes_def check_word_def Let_def bits_arith)
  have "\<not> is_legal_word rv32imc 0x13 True"
    by (rule notI) (auto dest: legal_word_bounds(3) simp: bits_arith)
  then show ?thesis
    using c admission_legal [OF c rv32imc_facts(2)] by (simp add: rv32imc_def)
qed

end
