(* ===== verification/Memory.thy ===== *)
theory Memory
  imports Rv32i
begin

text \<open>
  The authoritative byte memory of a testcase (\<open>scenario/memory.py\<close>): regions with aliases, a
  sparse dictionary of versioned byte cells, reads that determine a byte once, reserved instruction
  slots filled once, images, resets, and the registry of issued instruction acceptances.

  Every method that can raise does so before its first write, so a method returns either an error or
  a result with the new memory. An acceptance object carries its identity (\<open>receipt_ref\<close>): the
  registry is keyed by it, as the code keys its registry by \<open>id(receipt)\<close>. The guards against
  replaced methods and foreign call frames have no counterpart in the model.
\<close>

section \<open>Data\<close>

definition MAX_ADDRESS :: int where
  "MAX_ADDRESS = push_bit 64 1 - 1"

definition mem_natural :: "int \<Rightarrow> string \<Rightarrow> unit res" where
  "mem_natural value nm = check (\<not> value < 0) (ValueError (nm @ '' must be a nonnegative integer''))"

record memory_region =
  memory_id :: string
  region_base :: int
  region_size :: int
  aliases :: "int list"
  readable :: bool
  writable :: bool

definition check_alias :: "int \<Rightarrow> int \<Rightarrow> unit res" where
  "check_alias sz a =
     res_bind (mem_natural a ''alias'') (\<lambda>_.
       check (\<not> a > MAX_ADDRESS - sz + 1) (ValueError ''memory alias exceeds address bounds''))"

definition make_memory_region :: "string \<Rightarrow> int \<Rightarrow> int \<Rightarrow> int list \<Rightarrow> bool \<Rightarrow> bool \<Rightarrow> memory_region res" where
  "make_memory_region mid b sz als r w =
     (if mid = [] then Inl (ValueError ''memory_id must be a nonempty string'')
      else res_bind (mem_natural b ''base'') (\<lambda>_.
        res_bind (mem_natural sz ''size'') (\<lambda>_.
        if sz = 0 \<or> b > MAX_ADDRESS - sz + 1 then Inl (ValueError ''memory region exceeds address bounds'')
        else res_bind (check_all (check_alias sz) als) (\<lambda>_.
          Inr \<lparr>memory_id = mid, region_base = b, region_size = sz, aliases = als, readable = r, writable = w\<rparr>))))"

type_synonym version = "int \<times> int"
type_synonym byte_key = "string \<times> int"

record byte_cell =
  cell_value :: u8
  cell_version :: version
  writer_kind :: string
  writer_event_id :: string

record read_snapshot =
  transaction_id :: string
  snap_memory :: string
  snap_generation :: int
  snap_offset :: int
  snap_data :: bytes
  versions :: "version list"
  writer_event_ids :: "string list"
  materialized_offsets :: "int list"
  writer_kinds :: "string list"

definition snapshot_value :: "read_snapshot \<Rightarrow> int" where
  "snapshot_value s = from_bytes_little (snap_data s)"

record instruction_acceptance =
  receipt_ref :: int
  acc_memory :: string
  acc_address :: int
  acc_offset :: int
  acc_generation :: int
  acc_data :: bytes
  source_event_id :: string
  acc_versions :: "version list"
  acc_writer_event_ids :: "string list"
  acc_writer_kinds :: "string list"

type_synonym material =
  "string \<times> int \<times> int \<times> int \<times> bytes \<times> string \<times> version list \<times> string list \<times> string list"

definition acceptance_material :: "instruction_acceptance \<Rightarrow> material res" where
  "acceptance_material r =
     (if acc_memory r = [] \<or> source_event_id r = []
         \<or> acc_address r < 0 \<or> acc_offset r < 0 \<or> acc_generation r < 0
         \<or> acc_data r = [] \<or> length (acc_data r) mod 4 \<noteq> 0
         \<or> length (acc_versions r) \<noteq> length (acc_data r)
         \<or> length (acc_writer_event_ids r) \<noteq> length (acc_data r)
         \<or> length (acc_writer_kinds r) \<noteq> length (acc_data r)
         \<or> list_ex (\<lambda>v. fst v < 0 \<or> snd v < 0) (acc_versions r)
      then Inl (ValueError ''invalid instruction acceptance material'')
      else Inr (acc_memory r, acc_address r, acc_offset r, acc_generation r, acc_data r, source_event_id r,
                acc_versions r, acc_writer_event_ids r, acc_writer_kinds r))"

type_synonym mem_window = "int \<times> int \<times> memory_region"

abbreviation win_lo :: "mem_window \<Rightarrow> int" where "win_lo w \<equiv> fst w"
abbreviation win_hi :: "mem_window \<Rightarrow> int" where "win_hi w \<equiv> fst (snd w)"
abbreviation win_region :: "mem_window \<Rightarrow> memory_region" where "win_region w \<equiv> snd (snd w)"

record memory =
  regions :: "memory_region list"
  windows :: "mem_window list"
  initialization_seed :: int
  instruction_isa :: "isa_contract option"
  max_initialized_bytes :: int
  generation :: int
  step_count :: int
  cells :: "(byte_key, byte_cell) dict"
  initial_images :: "(byte_key, u8) dict"
  instruction_slots :: "byte_key set"
  commit_sequences :: "(string, int) dict"
  issued :: "(int, material) dict"
  next_ref :: int

section \<open>Construction\<close>

definition add_window :: "mem_window list \<Rightarrow> memory_region \<Rightarrow> int \<Rightarrow> mem_window list res" where
  "add_window ws r b =
     (let e = b + region_size r in
      if \<exists>w \<in> set ws. b < win_hi w \<and> win_lo w < e then Inl (ValueError ''overlapping memory windows'')
      else Inr (ws @ [(b, e, r)]))"

definition add_region :: "mem_window list \<times> string list \<Rightarrow> memory_region \<Rightarrow> (mem_window list \<times> string list) res" where
  "add_region s r = (case s of (ws, seen) \<Rightarrow>
     (if memory_id r \<in> set seen then Inl (ValueError (''duplicate memory_id '' @ memory_id r))
      else res_bind (fold_res (\<lambda>ws b. add_window ws r b) ws (region_base r # aliases r)) (\<lambda>ws'.
        Inr (ws', memory_id r # seen))))"

definition isa_declared :: "isa_contract \<Rightarrow> bool" where
  "isa_declared c =
     (xlen c \<in> {32, 64} \<and> set (extensions c) \<subseteq> {''I'', ''M'', ''C''} \<and> ''I'' \<in> set (extensions c)
      \<and> (''C'' \<in> set (extensions c) \<longrightarrow> instruction_alignment c = 2))"

definition make_memory :: "memory_region list \<Rightarrow> int \<Rightarrow> int \<Rightarrow> isa_contract option \<Rightarrow> memory res" where
  "make_memory rs seed maxb isa =
     res_bind (mem_natural seed ''initialization_seed'') (\<lambda>_.
     res_bind (mem_natural maxb ''max_initialized_bytes'') (\<lambda>_.
       if rs = [] then Inl (ValueError ''regions must be a nonempty tuple'')
       else res_bind (fold_res add_region ([], []) rs) (\<lambda>s.
         if (case isa of None \<Rightarrow> False | Some c \<Rightarrow> \<not> isa_declared c)
         then Inl (ValueError ''instruction ISA must be declared RV32I/M/C or RV64I/M/C'')
         else Inr \<lparr>regions = rs, windows = fst s, initialization_seed = seed, instruction_isa = isa,
            max_initialized_bytes = maxb, generation = 0, step_count = 0, cells = [], initial_images = [],
            instruction_slots = {}, commit_sequences = dict_set_all [] (map (\<lambda>r. (memory_id r, 0)) rs),
            issued = [], next_ref = 0\<rparr>)))"

definition initialized_bytes :: "memory \<Rightarrow> int" where
  "initialized_bytes m = int (length (cells m))"

definition memory_ids :: "memory \<Rightarrow> string list" where
  "memory_ids m = map memory_id (regions m)"

section \<open>Inspection\<close>

definition region_document :: "memory_region \<Rightarrow> json" where
  "region_document r = JObj [(''memory_id'', JStr (memory_id r)), (''base'', JInt (region_base r)),
     (''size'', JInt (region_size r)), (''aliases'', JList (map JInt (aliases r))),
     (''readable'', JBool (readable r)), (''writable'', JBool (writable r))]"

definition key_json :: "byte_key \<Rightarrow> json" where
  "key_json k = JList [JStr (fst k), JInt (snd k)]"

definition identity_document :: "memory \<Rightarrow> json" where
  "identity_document m = JObj (
     [(''regions'', JList (map region_document (regions m))),
      (''initialization_seed'', JInt (initialization_seed m)),
      (''initialization_algorithm'', JStr ''memory-init-v1''),
      (''max_initialized_bytes'', JInt (max_initialized_bytes m)),
      (''instruction_slots'', JList (map key_json (sorted_list_of_set (instruction_slots m))))]
     @ (case instruction_isa m of None \<Rightarrow> []
        | Some c \<Rightarrow> [(''instruction_isa'', JObj (
            [(''xlen'', JInt (xlen c)), (''extensions'', JList (map JStr (extensions c)))]
            @ (if ''C'' \<in> set (extensions c)
               then [(''instruction_alignment'', JInt (instruction_alignment c))] else [])))]))"

definition cell_record :: "byte_key \<times> byte_cell \<Rightarrow> bytes" where
  "cell_record kc = (case kc of (k, c) \<Rightarrow>
     string_bytes (json_dumps (JList [JStr (fst k), JInt (snd k), JInt (uint (cell_value c)),
       JList [JInt (fst (cell_version c)), JInt (snd (cell_version c))],
       JStr (writer_kind c), JStr (writer_event_id c)])) @ [10])"

definition state_summary :: "memory \<Rightarrow> json" where
  "state_summary m = JObj [
     (''generation'', JInt (generation m)),
     (''step_count'', JInt (step_count m)),
     (''initialized_bytes'', JInt (initialized_bytes m)),
     (''commit_sequences'', JObj (map (\<lambda>kv. (fst kv, JInt (snd kv))) (commit_sequences m))),
     (''cells_sha256'', JStr (sha256_hex (concat (map cell_record (sort_key fst (cells m))))))]"

definition determined_bytes :: "memory \<Rightarrow> (string \<times> int \<times> u8 \<times> string) list" where
  "determined_bytes m = map (\<lambda>kc. (fst (fst kc), snd (fst kc), cell_value (snd kc), writer_kind (snd kc)))
     (sort_key fst (cells m))"

definition inspect_byte :: "memory \<Rightarrow> string \<Rightarrow> int \<Rightarrow> byte_cell option res" where
  "inspect_byte m mid off =
     (if mid \<notin> set (memory_ids m) \<or> \<not> (0 \<le> off \<and> off < push_bit 64 1)
      then Inl (ValueError ''invalid memory byte inspection'')
      else Inr (map_of (cells m) (mid, off)))"

definition reserved_instruction_bytes :: "memory \<Rightarrow> byte_key list" where
  "reserved_instruction_bytes m =
     filter (\<lambda>k. \<not> dict_has (cells m) k) (sorted_list_of_set (instruction_slots m))"

section \<open>Address resolution\<close>

definition resolve :: "memory \<Rightarrow> int \<Rightarrow> int \<Rightarrow> bool \<Rightarrow> (memory_region \<times> int) res" where
  "resolve m adr wd write =
     res_bind (mem_natural adr ''address'') (\<lambda>_.
       if adr > MAX_ADDRESS then Inl (ValueError ''address exceeds address bounds'')
       else if wd \<notin> {1, 2, 4, 8} then Inl (ValueError ''unsupported access width'')
       else if adr mod wd \<noteq> 0 then Inl (ValueError ''unaligned access'')
       else if wd - 1 > MAX_ADDRESS - adr then Inl (ValueError ''address span exceeds address bounds'')
       else (case find (in_window win_lo win_hi adr) (windows m) of
         None \<Rightarrow> Inl (ValueError ''unmapped address; MMIO requires real IP response'')
       | Some w \<Rightarrow>
           if adr + wd > win_hi w then Inl (ValueError ''access crosses memory window'')
           else if write \<and> \<not> writable (win_region w) then Inl (ValueError ''read-only memory'')
           else if \<not> write \<and> \<not> readable (win_region w) then Inl (ValueError ''write-only memory'')
           else Inr (win_region w, adr - win_lo w)))"

definition resolve_span :: "memory \<Rightarrow> int \<Rightarrow> int \<Rightarrow> bool \<Rightarrow> (string \<times> int \<times> int) res" where
  "resolve_span m adr wd write =
     res_bind (resolve m adr wd write) (\<lambda>(r, off). Inr (memory_id r, generation m, off))"

definition span_keys :: "string \<Rightarrow> int \<Rightarrow> int \<Rightarrow> byte_key list" where
  "span_keys mid off n = map (\<lambda>i. (mid, off + i)) [0..n - 1]"

definition slot_pending :: "memory \<Rightarrow> byte_key \<Rightarrow> bool" where
  "slot_pending m k \<longleftrightarrow> k \<in> instruction_slots m \<and> \<not> dict_has (cells m) k"

definition instruction_slot_unmaterialized :: "memory \<Rightarrow> int \<Rightarrow> bool res" where
  "instruction_slot_unmaterialized m adr =
     (if adr < 0 \<or> adr mod 4 \<noteq> 0 then Inl (ValueError ''invalid instruction slot inspection'')
      else res_bind (resolve_span m adr 4 False) (\<lambda>(mid, _, off).
        Inr (list_all (slot_pending m) (span_keys mid off 4))))"

definition advance_step :: "memory \<Rightarrow> memory" where
  "advance_step m = m\<lparr>step_count := step_count m + 1\<rparr>"

section \<open>Bytes, versions, budget\<close>

definition initial_byte :: "memory \<Rightarrow> byte_key \<Rightarrow> u8" where
  "initial_byte m k =
     sha256 (string_bytes (json_dumps (JList [JStr ''memory-init-v1'', JInt (initialization_seed m),
       JStr (fst k), JInt (generation m), JInt (snd k)]))) ! 0"

definition next_version :: "memory \<Rightarrow> string \<Rightarrow> (version \<times> memory) res" where
  "next_version m mid = (case map_of (commit_sequences m) mid of
     None \<Rightarrow> Inl (KeyError mid)
   | Some s \<Rightarrow> Inr ((generation m, s + 1), m\<lparr>commit_sequences := dict_set (commit_sequences m) mid (s + 1)\<rparr>))"

definition budget :: "memory \<Rightarrow> int \<Rightarrow> unit res" where
  "budget m additions =
     check (\<not> initialized_bytes m + additions > max_initialized_bytes m) (ValueError ''initialized byte budget exceeded'')"

definition missing_keys :: "memory \<Rightarrow> byte_key list \<Rightarrow> byte_key list" where
  "missing_keys m ks = filter (\<lambda>k. \<not> dict_has (cells m) k) ks"

definition check_instruction_ready :: "memory \<Rightarrow> byte_key list \<Rightarrow> unit res" where
  "check_instruction_ready m ks =
     check (\<not> list_ex (slot_pending m) ks) (InstructionNotReady ''online instruction slot awaits its source'')"

definition put_cells :: "memory \<Rightarrow> (byte_key \<times> byte_cell) list \<Rightarrow> memory" where
  "put_cells m kcs = m\<lparr>cells := dict_set_all (cells m) kcs\<rparr>"

section \<open>Reads and writes\<close>

definition validate_read :: "memory \<Rightarrow> int \<Rightarrow> int \<Rightarrow> unit res" where
  "validate_read m adr wd =
     res_bind (resolve m adr wd False) (\<lambda>(r, off).
       let ks = span_keys (memory_id r) off wd; missing = missing_keys m ks in
       res_bind (check_instruction_ready m ks) (\<lambda>_.
         if missing \<noteq> [] \<and> \<not> writable r then Inl (ValueError ''uninitialized read-only memory'')
         else budget m (int (length missing))))"

definition enabled_lanes :: "int \<Rightarrow> int \<Rightarrow> int list" where
  "enabled_lanes wd be = filter (\<lambda>i. bit_lane be i) [0..wd - 1]"

definition check_store :: "int \<Rightarrow> int \<Rightarrow> int \<Rightarrow> unit res" where
  "check_store value wd be =
     res_bind (mem_natural value ''value'') (\<lambda>_.
       if value \<ge> push_bit (nat (8 * wd)) 1 then Inl (ValueError ''value exceeds access width'')
       else res_bind (mem_natural be ''byte_enable'') (\<lambda>_.
         check (\<not> be \<ge> push_bit (nat wd) 1) (ValueError ''byte_enable exceeds access width'')))"

definition validate_write :: "memory \<Rightarrow> int \<Rightarrow> int \<Rightarrow> int \<Rightarrow> int \<Rightarrow> unit res" where
  "validate_write m adr value wd be =
     res_bind (resolve m adr wd True) (\<lambda>(r, off).
       res_bind (check_store value wd be) (\<lambda>_.
         budget m (int (length (missing_keys m (map (\<lambda>i. (memory_id r, off + i)) (enabled_lanes wd be)))))))"

definition mem_read :: "memory \<Rightarrow> int \<Rightarrow> int \<Rightarrow> string \<Rightarrow> (read_snapshot \<times> memory) res" where
  "mem_read m adr wd tid =
     (if tid = [] then Inl (ValueError ''transaction_id must be nonempty'')
      else res_bind (resolve m adr wd False) (\<lambda>(r, off).
        let ks = span_keys (memory_id r) off wd; missing = missing_keys m ks in
        res_bind (check_instruction_ready m ks) (\<lambda>_.
          if missing \<noteq> [] \<and> \<not> writable r then Inl (ValueError ''uninitialized read-only memory'')
          else res_bind (budget m (int (length missing))) (\<lambda>_.
            res_bind (if missing = [] then Inr m
               else res_bind (next_version m (memory_id r)) (\<lambda>(v, m1).
                 Inr (put_cells m1 (map (\<lambda>k. (k, \<lparr>cell_value = initial_byte m k, cell_version = v,
                   writer_kind = ''FIRST_READ'',
                   writer_event_id = ''init:'' @ memory_id r @ '':'' @ int_dec (snd k)\<rparr>)) missing)))) (\<lambda>m2.
              let cs = map (\<lambda>k. the (map_of (cells m2) k)) ks in
              Inr (\<lparr>transaction_id = tid, snap_memory = memory_id r, snap_generation = generation m,
                snap_offset = off, snap_data = map cell_value cs, versions = map cell_version cs,
                writer_event_ids = map writer_event_id cs, materialized_offsets = map snd missing,
                writer_kinds = map writer_kind cs\<rparr>, m2))))))"

definition mem_write :: "memory \<Rightarrow> int \<Rightarrow> int \<Rightarrow> int \<Rightarrow> int \<Rightarrow> string \<Rightarrow> (version option \<times> memory) res" where
  "mem_write m adr value wd be ev =
     (if ev = [] then Inl (ValueError ''writer_event_id must be nonempty'')
      else res_bind (resolve m adr wd True) (\<lambda>(r, off).
        res_bind (check_store value wd be) (\<lambda>_.
          let enabled = enabled_lanes wd be in
          res_bind (budget m (int (length (missing_keys m (map (\<lambda>i. (memory_id r, off + i)) enabled))))) (\<lambda>_.
            if enabled = [] then Inr (None, m)
            else res_bind (next_version m (memory_id r)) (\<lambda>(v, m1).
              Inr (Some v, put_cells m1 (map (\<lambda>i. ((memory_id r, off + i),
                \<lparr>cell_value = byte_lane value i, cell_version = v, writer_kind = ''STORE'',
                 writer_event_id = ev\<rparr>)) enabled)))))))"

section \<open>Images, instruction slots, resets\<close>

definition preload :: "memory \<Rightarrow> int \<Rightarrow> bytes \<Rightarrow> memory res" where
  "preload m adr bs =
     (if bs = [] then Inl (ValueError ''preload data must be nonempty bytes'')
      else res_bind (resolve m adr 1 False) (\<lambda>(r, off).
        if off + int (length bs) > region_size r then Inl (ValueError ''preload crosses memory window'')
        else (let ks = span_keys (memory_id r) off (int (length bs)) in
          if list_ex (\<lambda>k. dict_has (cells m) k \<or> k \<in> instruction_slots m) ks
          then Inl (ValueError ''preload would overwrite initialized or reserved instruction bytes'')
          else res_bind (budget m (int (length ks))) (\<lambda>_.
            Inr (put_cells (m\<lparr>initial_images := dict_set_all (initial_images m) (zip ks bs)\<rparr>)
              (map (\<lambda>kb. (fst kb, \<lparr>cell_value = snd kb, cell_version = (generation m, 0),
                 writer_kind = ''INITIAL_IMAGE'', writer_event_id = ''initial-image''\<rparr>)) (zip ks bs)))))))"

definition reinstall_image :: "memory \<Rightarrow> int \<Rightarrow> bytes \<Rightarrow> string \<Rightarrow> ((string \<times> int \<times> version) \<times> memory) res" where
  "reinstall_image m adr bs ev =
     (if bs = [] \<or> ev = [] then Inl (ValueError ''reset image requires bytes and an event identity'')
      else res_bind (resolve m adr 1 False) (\<lambda>(r, off).
        if off + int (length bs) > region_size r then Inl (ValueError ''reset image crosses memory window'')
        else (let ks = span_keys (memory_id r) off (int (length bs)) in
          if list_ex (\<lambda>k. \<not> dict_has (initial_images m) k) ks
          then Inl (ValueError ''reset image must replace declared initial image bytes'')
          else res_bind (next_version m (memory_id r)) (\<lambda>(v, m1).
            Inr ((memory_id r, off, v), put_cells m1
              (map (\<lambda>kb. (fst kb, \<lparr>cell_value = snd kb, cell_version = v, writer_kind = ''RESET_IMAGE'',
                 writer_event_id = ev\<rparr>)) (zip ks bs)))))))"

definition declare_instruction_slots :: "memory \<Rightarrow> int \<Rightarrow> int \<Rightarrow> memory res" where
  "declare_instruction_slots m adr cnt =
     res_bind (mem_natural cnt ''count'') (\<lambda>_.
       if cnt = 0 then Inl (ValueError ''instruction slot count must be positive'')
       else res_bind (resolve m adr 4 False) (\<lambda>(r, off).
         if off + cnt * 4 > region_size r then Inl (ValueError ''instruction slots cross memory window'')
         else (let ks = span_keys (memory_id r) off (cnt * 4) in
           if list_ex (dict_has (cells m)) ks then Inl (ValueError ''instruction slots contain determined bytes'')
           else Inr (m\<lparr>instruction_slots := instruction_slots m \<union> set ks\<rparr>))))"

definition accept_instructions :: "memory \<Rightarrow> int \<Rightarrow> bytes \<Rightarrow> string \<Rightarrow> (instruction_acceptance \<times> memory) res" where
  "accept_instructions m adr bs ev =
     res_bind (validate_instruction_bytes bs (instruction_isa m)) (\<lambda>_.
       if ev = [] then Inl (ValueError ''instruction source_event_id must be nonempty'')
       else res_bind (resolve m adr 4 False) (\<lambda>(r, off).
         if off + int (length bs) > region_size r then Inl (ValueError ''instruction fragment crosses memory window'')
         else (let ks = span_keys (memory_id r) off (int (length bs)) in
           if list_ex (\<lambda>k. k \<notin> instruction_slots m) ks
           then Inl (ValueError ''instruction bytes are outside declared online slots'')
           else if list_ex (dict_has (cells m)) ks
           then Inl (ValueError ''instruction admission would overwrite determined bytes'')
           else res_bind (budget m (int (length ks))) (\<lambda>_.
             res_bind (next_version m (memory_id r)) (\<lambda>(v, m1).
               let m2 = put_cells m1 (map (\<lambda>kb. (fst kb, \<lparr>cell_value = snd kb, cell_version = v,
                          writer_kind = ''INSTRUCTION_SOURCE'', writer_event_id = ev\<rparr>)) (zip ks bs));
                   cs = map (\<lambda>k. the (map_of (cells m2) k)) ks;
                   receipt = \<lparr>receipt_ref = next_ref m, acc_memory = memory_id r, acc_address = adr, acc_offset = off,
                     acc_generation = generation m, acc_data = bs, source_event_id = ev,
                     acc_versions = map cell_version cs, acc_writer_event_ids = map writer_event_id cs,
                     acc_writer_kinds = map writer_kind cs\<rparr>
               in res_bind (acceptance_material receipt) (\<lambda>mat.
                 Inr (receipt, m2\<lparr>issued := dict_set (issued m2) (next_ref m) mat, next_ref := next_ref m + 1\<rparr>)))))))"

definition validate_instruction_acceptance :: "memory \<Rightarrow> instruction_acceptance \<Rightarrow> instruction_acceptance res" where
  "validate_instruction_acceptance m receipt =
     (let refused = ValueError ''instruction acceptance is not an unchanged actual issued result'' in
      case map_of (issued m) (receipt_ref receipt) of
        None \<Rightarrow> Inl refused
      | Some row \<Rightarrow> res_bind (acceptance_material receipt) (\<lambda>mat.
          if mat \<noteq> row \<or> acc_generation receipt \<noteq> generation m then Inl refused else Inr receipt))"

definition warm_reset :: "memory \<Rightarrow> memory" where
  "warm_reset m = m\<lparr>issued := []\<rparr>"

definition cold_reset :: "memory \<Rightarrow> memory" where
  "cold_reset m =
     (let g = generation m + 1 in
      m\<lparr>issued := [], generation := g,
        cells := map (\<lambda>kv. (fst kv, \<lparr>cell_value = snd kv, cell_version = (g, 0), writer_kind = ''INITIAL_IMAGE'',
                   writer_event_id = ''initial-image''\<rparr>)) (initial_images m),
        commit_sequences := dict_set_all [] (map (\<lambda>r. (memory_id r, 0)) (regions m))\<rparr>)"

section \<open>The invariant\<close>

definition key_ok :: "memory \<Rightarrow> byte_key \<Rightarrow> bool" where
  "key_ok m k \<longleftrightarrow> (\<exists>r \<in> set (regions m). memory_id r = fst k \<and> 0 \<le> snd k \<and> snd k < region_size r)"

definition window_ok :: "memory \<Rightarrow> mem_window \<Rightarrow> bool" where
  "window_ok m w \<longleftrightarrow> win_region w \<in> set (regions m) \<and> win_hi w = win_lo w + region_size (win_region w)"

definition cell_ok :: "memory \<Rightarrow> byte_key \<Rightarrow> byte_cell \<Rightarrow> bool" where
  "cell_ok m k c \<longleftrightarrow> key_ok m k \<and> fst (cell_version c) = generation m \<and> 0 \<le> snd (cell_version c)
     \<and> (\<exists>s. map_of (commit_sequences m) (fst k) = Some s \<and> snd (cell_version c) \<le> s)"

definition sequences_ok :: "memory \<Rightarrow> bool" where
  "sequences_ok m \<longleftrightarrow> (\<forall>r \<in> set (regions m). \<exists>s \<ge> 0. map_of (commit_sequences m) (memory_id r) = Some s)"

definition receipts_ok :: "memory \<Rightarrow> bool" where
  "receipts_ok m \<longleftrightarrow> (\<forall>ref mat. map_of (issued m) ref = Some mat \<longrightarrow> ref < next_ref m)"

text \<open>The windows never overlap; every determined byte lies in a region, belongs to the current
  generation and is not newer than its region; the byte budget holds; the initial image is always
  determined; acceptances have distinct identities.\<close>

definition mem_inv :: "memory \<Rightarrow> bool" where
  "mem_inv m \<longleftrightarrow>
     disjoint_list win_lo win_hi (windows m) \<and> (\<forall>w \<in> set (windows m). window_ok m w)
     \<and> sequences_ok m \<and> 0 \<le> generation m
     \<and> dict_wf (cells m) \<and> initialized_bytes m \<le> max_initialized_bytes m
     \<and> (\<forall>k c. map_of (cells m) k = Some c \<longrightarrow> cell_ok m k c)
     \<and> dict_wf (initial_images m) \<and> (\<forall>k. dict_has (initial_images m) k \<longrightarrow> dict_has (cells m) k)
     \<and> receipts_ok m"

lemma mem_invD:
  assumes "mem_inv m"
  shows "disjoint_list win_lo win_hi (windows m)" "\<And>w. w \<in> set (windows m) \<Longrightarrow> window_ok m w"
    "sequences_ok m" "0 \<le> generation m" "dict_wf (cells m)" "initialized_bytes m \<le> max_initialized_bytes m"
    "\<And>k c. map_of (cells m) k = Some c \<Longrightarrow> cell_ok m k c" "dict_wf (initial_images m)"
    "\<And>k. dict_has (initial_images m) k \<Longrightarrow> dict_has (cells m) k" "receipts_ok m"
  using assms by (auto simp: mem_inv_def)

lemma mem_inv_frame:
  "mem_inv (m\<lparr>instruction_slots := S\<rparr>) = mem_inv m" "mem_inv (m\<lparr>step_count := n\<rparr>) = mem_inv m"
proof -
  have "cell_ok (m\<lparr>instruction_slots := S\<rparr>) = cell_ok m" "cell_ok (m\<lparr>step_count := n\<rparr>) = cell_ok m"
    by (simp_all add: fun_eq_iff cell_ok_def key_ok_def)
  then show "mem_inv (m\<lparr>instruction_slots := S\<rparr>) = mem_inv m" "mem_inv (m\<lparr>step_count := n\<rparr>) = mem_inv m"
    by (simp_all add: mem_inv_def window_ok_def sequences_ok_def receipts_ok_def initialized_bytes_def)
qed

lemma mem_inv_issued:
  assumes "\<forall>ref mat. map_of rs ref = Some mat \<longrightarrow> ref < n"
  shows "mem_inv m \<Longrightarrow> mem_inv (m\<lparr>issued := rs, next_ref := n\<rparr>)"
proof -
  have "cell_ok (m\<lparr>issued := rs, next_ref := n\<rparr>) = cell_ok m"
    by (simp add: fun_eq_iff cell_ok_def key_ok_def)
  with assms show "mem_inv m \<Longrightarrow> mem_inv (m\<lparr>issued := rs, next_ref := n\<rparr>)"
    by (simp add: mem_inv_def window_ok_def sequences_ok_def receipts_ok_def initialized_bytes_def)
qed

section \<open>Spans\<close>

lemma set_span_keys: "set (span_keys mid off n) = {k. fst k = mid \<and> off \<le> snd k \<and> snd k < off + n}"
proof (rule set_eqI)
  fix k :: byte_key
  have "(\<exists>i \<in> {0..n - 1}. k = (mid, off + i)) \<longleftrightarrow> fst k = mid \<and> off \<le> snd k \<and> snd k < off + n"
    by (cases k) (auto intro!: bexI [of _ "snd k - off"])
  then show "k \<in> set (span_keys mid off n) \<longleftrightarrow> k \<in> {k. fst k = mid \<and> off \<le> snd k \<and> snd k < off + n}"
    by (simp add: span_keys_def image_iff)
qed

lemma distinct_span_keys [simp]: "distinct (span_keys mid off n)"
  by (simp add: span_keys_def distinct_map inj_on_def)

lemma length_span_keys [simp]: "length (span_keys mid off n) = nat n"
  by (simp add: span_keys_def)

lemma nth_span_keys: "i < nat n \<Longrightarrow> span_keys mid off n ! i = (mid, off + int i)"
  by (simp add: span_keys_def nth_upto)

lemma resolve_Inr:
  "resolve m adr wd wr = Inr (r, off) \<longleftrightarrow> 0 \<le> adr \<and> adr \<le> MAX_ADDRESS \<and> wd \<in> {1, 2, 4, 8} \<and> adr mod wd = 0
     \<and> wd - 1 \<le> MAX_ADDRESS - adr
     \<and> (\<exists>w. find (in_window win_lo win_hi adr) (windows m) = Some w \<and> adr + wd \<le> win_hi w
        \<and> (if wr then writable (win_region w) else readable (win_region w)) \<and> r = win_region w \<and> off = adr - win_lo w)"
proof (cases "find (in_window win_lo win_hi adr) (windows m)")
  case None
  then show ?thesis by (simp add: resolve_def mem_natural_def)
next
  case (Some w)
  define W where "W = (wd \<in> {1, 2, 4, 8 :: int})"
  define A where "A = (adr mod wd = 0)"
  show ?thesis
    unfolding resolve_def mem_natural_def Some check_simps option.case W_def [symmetric] A_def [symmetric]
    by (cases wr) (auto simp only: not_less not_le if_True if_False sum.inject sum.distinct option.inject prod.inject
      W_def [symmetric] A_def [symmetric] split: if_split_asm if_split)
qed

lemma resolve_span_in_region:
  assumes "mem_inv m" and "resolve m adr wd wr = Inr (r, off)"
  shows "r \<in> set (regions m)" "0 \<le> off" "off + wd \<le> region_size r" "wd \<in> {1, 2, 4, 8}"
    "\<And>k. k \<in> set (span_keys (memory_id r) off wd) \<Longrightarrow> key_ok m k"
proof -
  obtain w where w: "find (in_window win_lo win_hi adr) (windows m) = Some w" "adr + wd \<le> win_hi w"
      "r = win_region w" "off = adr - win_lo w" and wd: "wd \<in> {1, 2, 4, 8}"
    using assms(2) unfolding resolve_Inr by blast
  then have "w \<in> set (windows m)" "in_window win_lo win_hi adr w"
    by (auto simp: find_Some_iff)
  with mem_invD(2) [OF assms(1)] w show r: "r \<in> set (regions m)" "0 \<le> off" "off + wd \<le> region_size r"
    by (auto simp: window_ok_def in_window_def)
  show "wd \<in> {1, 2, 4, 8}" by (rule wd)
  show "key_ok m k" if "k \<in> set (span_keys (memory_id r) off wd)" for k
    using that r by (auto simp: set_span_keys key_ok_def)
qed

lemma keys_in_region:
  "r \<in> set (regions m) \<Longrightarrow> 0 \<le> off \<Longrightarrow> off + n \<le> region_size r \<Longrightarrow> k \<in> set (span_keys (memory_id r) off n) \<Longrightarrow> key_ok m k"
  by (auto simp: set_span_keys key_ok_def)

section \<open>Commits\<close>

lemma map_of_put_cells:
  assumes "distinct (map fst kcs)"
  shows "map_of (cells (put_cells m kcs)) k = (case map_of kcs k of None \<Rightarrow> map_of (cells m) k | Some c \<Rightarrow> Some c)"
  by (simp add: put_cells_def map_of_dict_set_all_distinct [OF assms])

lemma put_cells_simps [simp]:
  "regions (put_cells m kcs) = regions m" "windows (put_cells m kcs) = windows m"
  "generation (put_cells m kcs) = generation m" "commit_sequences (put_cells m kcs) = commit_sequences m"
  "initial_images (put_cells m kcs) = initial_images m" "issued (put_cells m kcs) = issued m"
  "next_ref (put_cells m kcs) = next_ref m" "max_initialized_bytes (put_cells m kcs) = max_initialized_bytes m"
  "instruction_slots (put_cells m kcs) = instruction_slots m" "initialization_seed (put_cells m kcs) = initialization_seed m"
  "instruction_isa (put_cells m kcs) = instruction_isa m"
  "cells (put_cells m kcs) = dict_set_all (cells m) kcs"
  by (simp_all add: put_cells_def)

lemma next_version_Inr:
  "next_version m mid = Inr (v, m1) \<longleftrightarrow> (\<exists>s. map_of (commit_sequences m) mid = Some s \<and> v = (generation m, s + 1)
     \<and> m1 = m\<lparr>commit_sequences := dict_set (commit_sequences m) mid (s + 1)\<rparr>)"
  by (auto simp: next_version_def split: option.splits)

lemma budget_Inr [simp]: "budget m n = Inr u \<longleftrightarrow> initialized_bytes m + n \<le> max_initialized_bytes m"
  by (auto simp: budget_def)

lemma commit_inv:
  assumes "mem_inv m" and "next_version m mid = Inr (v, m1)" and "distinct (map fst kcs)"
    and "\<forall>kc \<in> set kcs. fst (fst kc) = mid \<and> key_ok m (fst kc) \<and> cell_version (snd kc) = v"
    and "initialized_bytes m + int (length (missing_keys m (map fst kcs))) \<le> max_initialized_bytes m"
  shows "mem_inv (put_cells m1 kcs)"
proof -
  obtain s where s: "map_of (commit_sequences m) mid = Some s" "v = (generation m, s + 1)"
      "m1 = m\<lparr>commit_sequences := dict_set (commit_sequences m) mid (s + 1)\<rparr>"
    using assms(2) by (auto simp: next_version_Inr)
  note inv = mem_invD [OF assms(1)]
  let ?m = "put_cells m1 kcs"
  have key: "key_ok ?m k = key_ok m k" for k
    by (simp add: key_ok_def s)
  have seqs: "map_of (commit_sequences ?m) k = (if k = mid then Some (s + 1) else map_of (commit_sequences m) k)" for k
    by (simp add: s dict_simps)
  have s0: "0 \<le> s" if "kcs \<noteq> []"
  proof -
    obtain kc where "kc \<in> set kcs" using \<open>kcs \<noteq> []\<close> by (cases kcs) auto
    with assms(4) have "fst (fst kc) = mid" "key_ok m (fst kc)" by auto
    with inv(3) s(1) show ?thesis by (auto simp: key_ok_def sequences_ok_def)
  qed
  have "cell_ok ?m k c" if c: "map_of (cells ?m) k = Some c" for k c
  proof (cases "map_of kcs k")
    case None
    with c have "map_of (cells m) k = Some c"
      by (simp add: s map_of_dict_set_all_distinct [OF assms(3)])
    then have "cell_ok m k c" by (rule inv(7))
    then show ?thesis unfolding cell_ok_def key seqs using s(1) by (auto simp: s(3))
  next
    case (Some c')
    with c have "c' = c" by (simp add: s map_of_dict_set_all_distinct [OF assms(3)])
    with Some have "(k, c) \<in> set kcs" by (simp add: map_of_SomeD)
    with assms(4) s0 show ?thesis unfolding cell_ok_def key seqs by (force simp: s)
  qed
  moreover have "initialized_bytes ?m = initialized_bytes m + int (length (missing_keys m (map fst kcs)))"
    by (simp add: initialized_bytes_def s length_dict_set_all [OF assms(3)] missing_keys_def filter_map comp_def)
  moreover have "sequences_ok ?m"
    using inv(3) s(1) unfolding sequences_ok_def seqs by (auto simp: s(3)) 
  ultimately show ?thesis
    using inv assms(5) unfolding mem_inv_def receipts_ok_def
    by (auto simp: s window_ok_def dict_has_set_all)
qed

lemma zip_keys:
  assumes "length ks = length bs"
  shows "map fst (map (\<lambda>kb. (fst kb, f kb)) (zip ks bs)) = ks"
  using assms by (simp add: comp_def)

text \<open>A commit never overwrites a byte without giving it a newer version; a byte, once determined,
  stays determined within its generation.\<close>

definition cells_le :: "memory \<Rightarrow> memory \<Rightarrow> bool" where
  "cells_le m m' \<longleftrightarrow> (\<forall>k c. map_of (cells m) k = Some c \<longrightarrow>
     (\<exists>c'. map_of (cells m') k = Some c'
        \<and> (c' = c \<or> fst (cell_version c') = fst (cell_version c) \<and> snd (cell_version c) < snd (cell_version c'))))"

definition mem_le :: "memory \<Rightarrow> memory \<Rightarrow> bool" where
  "mem_le m m' \<longleftrightarrow> regions m' = regions m \<and> windows m' = windows m \<and> instruction_slots m \<subseteq> instruction_slots m'
     \<and> next_ref m \<le> next_ref m'
     \<and> (\<forall>k b. map_of (initial_images m) k = Some b \<longrightarrow> map_of (initial_images m') k = Some b)
     \<and> (generation m < generation m' \<or> generation m' = generation m \<and> cells_le m m')"

lemma cells_leD:
  "cells_le m m' \<Longrightarrow> map_of (cells m) k = Some c \<Longrightarrow> \<exists>c'. map_of (cells m') k = Some c'
     \<and> (c' = c \<or> fst (cell_version c') = fst (cell_version c) \<and> snd (cell_version c) < snd (cell_version c'))"
  by (auto simp: cells_le_def)

lemma cells_le_trans:
  assumes "cells_le m m'" and "cells_le m' m''"
  shows "cells_le m m''"
  unfolding cells_le_def
proof (intro allI impI)
  fix k c
  assume "map_of (cells m) k = Some c"
  from cells_leD [OF assms(1) this] obtain c' where c': "map_of (cells m') k = Some c'"
      "c' = c \<or> fst (cell_version c') = fst (cell_version c) \<and> snd (cell_version c) < snd (cell_version c')" by blast
  from cells_leD [OF assms(2) c'(1)] c'(2) show "\<exists>c''. map_of (cells m'') k = Some c''
      \<and> (c'' = c \<or> fst (cell_version c'') = fst (cell_version c) \<and> snd (cell_version c) < snd (cell_version c''))"
    by force
qed

lemma mem_le_refl: "mem_le m m"
  by (simp add: mem_le_def cells_le_def)

lemma mem_le_trans: "mem_le m m' \<Longrightarrow> mem_le m' m'' \<Longrightarrow> mem_le m m''"
  unfolding mem_le_def using cells_le_trans by fastforce

lemma mem_le_reuse: "cells m' = cells m \<Longrightarrow> cells_le m m'"
  by (simp add: cells_le_def)

lemma commit_le:
  assumes "mem_inv m" and "next_version m mid = Inr (v, m1)" and "distinct (map fst kcs)"
    and "\<forall>kc \<in> set kcs. fst (fst kc) = mid \<and> cell_version (snd kc) = v"
  shows "mem_le m (put_cells m1 kcs)"
proof -
  obtain s where s: "map_of (commit_sequences m) mid = Some s" "v = (generation m, s + 1)"
      "m1 = m\<lparr>commit_sequences := dict_set (commit_sequences m) mid (s + 1)\<rparr>"
    using assms(2) by (auto simp: next_version_Inr)
  have "\<exists>c'. map_of (cells (put_cells m1 kcs)) k = Some c'
      \<and> (c' = c \<or> fst (cell_version c') = fst (cell_version c) \<and> snd (cell_version c) < snd (cell_version c'))"
    if c: "map_of (cells m) k = Some c" for k c
  proof (cases "map_of kcs k")
    case None
    with c show ?thesis by (simp add: s map_of_dict_set_all_distinct [OF assms(3)])
  next
    case (Some c')
    then have "(k, c') \<in> set kcs" by (simp add: map_of_SomeD)
    with assms(4) have "fst k = mid" "cell_version c' = v" by auto
    with mem_invD(7) [OF assms(1) c] s(1,2) Some show ?thesis
      by (simp add: cell_ok_def s map_of_dict_set_all_distinct [OF assms(3)])
  qed
  then show ?thesis by (auto simp: mem_le_def cells_le_def s)
qed

lemma next_version_ok:
  assumes "mem_inv m" and "r \<in> set (regions m)"
  obtains v m1 where "next_version m (memory_id r) = Inr (v, m1)"
  using mem_invD(3) [OF assms(1)] assms(2) by (auto simp: sequences_ok_def next_version_Inr)

section \<open>Reads\<close>

definition read_back :: "memory \<Rightarrow> memory_region \<Rightarrow> int \<Rightarrow> int \<Rightarrow> string \<Rightarrow> int list \<Rightarrow> read_snapshot" where
  "read_back m r off wd tid mat =
     (let cs = map (\<lambda>k. the (map_of (cells m) k)) (span_keys (memory_id r) off wd) in
      \<lparr>transaction_id = tid, snap_memory = memory_id r, snap_generation = generation m,
       snap_offset = off, snap_data = map cell_value cs, versions = map cell_version cs,
       writer_event_ids = map writer_event_id cs, materialized_offsets = mat, writer_kinds = map writer_kind cs\<rparr>)"

definition first_read :: "memory \<Rightarrow> memory_region \<Rightarrow> version \<Rightarrow> byte_key \<Rightarrow> byte_key \<times> byte_cell" where
  "first_read m r v k = (k, \<lparr>cell_value = initial_byte m k, cell_version = v, writer_kind = ''FIRST_READ'',
     writer_event_id = ''init:'' @ memory_id r @ '':'' @ int_dec (snd k)\<rparr>)"

lemma mem_readE:
  assumes "mem_read m adr wd tid = Inr (s, m')"
  obtains (determined) r off where "resolve m adr wd False = Inr (r, off)" "tid \<noteq> []" "m' = m"
      "missing_keys m (span_keys (memory_id r) off wd) = []" "s = read_back m r off wd tid []"
      "initialized_bytes m \<le> max_initialized_bytes m"
      "\<not> list_ex (slot_pending m) (span_keys (memory_id r) off wd)"
  | (first) r off v m1 where "resolve m adr wd False = Inr (r, off)" "tid \<noteq> []"
      "next_version m (memory_id r) = Inr (v, m1)" "writable r"
      "m' = put_cells m1 (map (first_read m r v) (missing_keys m (span_keys (memory_id r) off wd)))"
      "s = read_back m' r off wd tid (map snd (missing_keys m (span_keys (memory_id r) off wd)))"
      "initialized_bytes m + int (length (missing_keys m (span_keys (memory_id r) off wd))) \<le> max_initialized_bytes m"
      "\<not> list_ex (slot_pending m) (span_keys (memory_id r) off wd)"
      "missing_keys m (span_keys (memory_id r) off wd) \<noteq> []"
proof -
  obtain r off where r: "resolve m adr wd False = Inr (r, off)" "tid \<noteq> []"
    using assms by (auto simp: mem_read_def split: if_splits)
  let ?ks = "span_keys (memory_id r) off wd"
  show thesis
  proof (cases "missing_keys m ?ks = []")
    case True
    then show thesis
      using assms r determined [OF r]
      by (auto simp: mem_read_def check_instruction_ready_def read_back_def Let_def split: if_splits)
  next
    case False
    then obtain v m1 where v: "next_version m (memory_id r) = Inr (v, m1)"
      using assms r by (auto simp: mem_read_def check_instruction_ready_def Let_def split: if_splits)
    then have "generation m1 = generation m" by (auto simp: next_version_Inr)
    with v False assms r first [OF r v] show thesis
      by (simp add: mem_read_def check_instruction_ready_def read_back_def first_read_def [abs_def] Let_def split: if_splits)
  qed
qed

lemma missing_keys_Nil: "missing_keys m ks = [] \<longleftrightarrow> (\<forall>k \<in> set ks. dict_has (cells m) k)"
  by (auto simp: missing_keys_def filter_empty_conv)

lemma mem_read_determined:
  assumes "resolve m adr wd False = Inr (r, off)" and "tid \<noteq> []"
    and "\<forall>k \<in> set (span_keys (memory_id r) off wd). dict_has (cells m) k"
    and "initialized_bytes m \<le> max_initialized_bytes m"
  shows "mem_read m adr wd tid = Inr (read_back m r off wd tid [], m)"
proof -
  have "missing_keys m (span_keys (memory_id r) off wd) = []"
    using assms(3) by (simp add: missing_keys_Nil)
  moreover have "\<not> list_ex (slot_pending m) (span_keys (memory_id r) off wd)"
    using assms(3) by (auto simp: list_ex_iff slot_pending_def)
  ultimately show ?thesis
    using assms(1,2,4) by (simp add: mem_read_def check_instruction_ready_def read_back_def Let_def budget_def)
qed

lemma resolve_windows: "windows m' = windows m \<Longrightarrow> resolve m' = resolve m"
  by (simp add: resolve_def fun_eq_iff)

lemma fst_first_read [simp]: "fst (first_read m r v k) = k" "map fst (map (first_read m r v) ks) = ks"
  by (simp_all add: first_read_def comp_def)

lemma missing_subset: "set (missing_keys m ks) \<subseteq> set ks" "distinct ks \<Longrightarrow> distinct (missing_keys m ks)"
  "missing_keys m (missing_keys m ks) = missing_keys m ks"
  by (auto simp: missing_keys_def)

lemma mem_read_inv:
  assumes "mem_inv m" and "mem_read m adr wd tid = Inr (s, m')"
  shows "mem_inv m' \<and> mem_le m m'"
  using assms(2)
proof (cases rule: mem_readE)
  case (determined r off)
  with assms(1) show ?thesis by (simp add: mem_le_refl)
next
  case (first r off v m1)
  let ?kcs = "map (first_read m r v) (missing_keys m (span_keys (memory_id r) off wd))"
  have keys: "\<forall>kc \<in> set ?kcs. fst (fst kc) = memory_id r \<and> key_ok m (fst kc) \<and> cell_version (snd kc) = v"
    using resolve_span_in_region(5) [OF assms(1) first(1)] missing_subset(1) [of m "span_keys (memory_id r) off wd"]
    by (auto simp: first_read_def set_span_keys)
  have d: "distinct (map fst ?kcs)"
    by (simp only: fst_first_read) (simp add: missing_subset)
  show ?thesis
    unfolding first(5)
    using commit_inv [OF assms(1) first(3) d keys] commit_le [OF assms(1) first(3) d] keys first(7)
    by (simp only: fst_first_read missing_subset(3)) auto
qed


section \<open>Writes and images\<close>

definition stored :: "memory_region \<Rightarrow> int \<Rightarrow> int \<Rightarrow> version \<Rightarrow> string \<Rightarrow> int \<Rightarrow> byte_key \<times> byte_cell" where
  "stored r off value v ev i = ((memory_id r, off + i),
     \<lparr>cell_value = byte_lane value i, cell_version = v, writer_kind = ''STORE'', writer_event_id = ev\<rparr>)"

definition installed :: "version \<Rightarrow> string \<Rightarrow> string \<Rightarrow> byte_key \<times> u8 \<Rightarrow> byte_key \<times> byte_cell" where
  "installed v knd ev kb = (fst kb, \<lparr>cell_value = snd kb, cell_version = v, writer_kind = knd, writer_event_id = ev\<rparr>)"

lemma fst_installed [simp]: "fst (installed v knd ev kb) = fst kb" "cell_version (snd (installed v knd ev kb)) = v"
  by (simp_all add: installed_def)

lemma fst_stored [simp]: "fst (stored r off value v ev i) = (memory_id r, off + i)" "cell_version (snd (stored r off value v ev i)) = v"
  by (simp_all add: stored_def)

lemma keys_installed: "length ks = length bs \<Longrightarrow> map fst (map (installed v knd ev) (zip ks bs)) = ks"
  by (simp add: comp_def)

lemma keys_stored: "map fst (map (stored r off value v ev) js) = map (\<lambda>i. (memory_id r, off + i)) js"
  by (simp add: comp_def)

lemma set_enabled_lanes: "i \<in> set (enabled_lanes wd be) \<longleftrightarrow> 0 \<le> i \<and> i < wd \<and> bit_lane be i"
  by (auto simp: enabled_lanes_def)

lemma distinct_enabled_lanes [simp]: "distinct (map (\<lambda>i. (mid, off + i)) (enabled_lanes wd be))"
  by (simp add: enabled_lanes_def distinct_map inj_on_def)

lemma mem_writeE:
  assumes "mem_write m adr value wd be ev = Inr (ver, m')"
  obtains (idle) r off where "resolve m adr wd True = Inr (r, off)" "ev \<noteq> []" "check_store value wd be = Inr ()"
      "enabled_lanes wd be = []" "ver = None" "m' = m"
  | (store) r off v m1 where "resolve m adr wd True = Inr (r, off)" "ev \<noteq> []" "check_store value wd be = Inr ()"
      "enabled_lanes wd be \<noteq> []" "next_version m (memory_id r) = Inr (v, m1)" "ver = Some v"
      "m' = put_cells m1 (map (stored r off value v ev) (enabled_lanes wd be))"
      "initialized_bytes m + int (length (missing_keys m (map (\<lambda>i. (memory_id r, off + i)) (enabled_lanes wd be))))
         \<le> max_initialized_bytes m"
proof -
  obtain r off where r: "resolve m adr wd True = Inr (r, off)" "ev \<noteq> []" "check_store value wd be = Inr ()"
    using assms by (auto simp: mem_write_def split: if_splits)
  show thesis
  proof (cases "enabled_lanes wd be = []")
    case True
    then have "ver = None" "m' = m"
      using assms r by (auto simp: mem_write_def Let_def split: if_splits)
    then show thesis by (rule idle [OF r True])
  next
    case False
    then obtain v m1 where v: "next_version m (memory_id r) = Inr (v, m1)"
      using assms r by (auto simp: mem_write_def Let_def split: if_splits)
    with False assms r store [OF r _ v] show thesis
      by (auto simp: mem_write_def stored_def [abs_def] Let_def split: if_splits)
  qed
qed

lemma stored_ok:
  assumes "mem_inv m" and "resolve m adr wd wr = Inr (r, off)"
  shows "\<forall>kc \<in> set (map (stored r off value v ev) (enabled_lanes wd be)).
    fst (fst kc) = memory_id r \<and> key_ok m (fst kc) \<and> cell_version (snd kc) = v"
  using resolve_span_in_region(5) [OF assms] by (auto simp: set_enabled_lanes set_span_keys)

lemma mem_write_inv:
  assumes "mem_inv m" and "mem_write m adr value wd be ev = Inr (ver, m')"
  shows "mem_inv m' \<and> mem_le m m'"
  using assms(2)
proof (cases rule: mem_writeE)
  case (idle r off)
  with assms(1) show ?thesis by (simp add: mem_le_refl)
next
  case (store r off v m1)
  let ?kcs = "map (stored r off value v ev) (enabled_lanes wd be)"
  have d: "distinct (map fst ?kcs)"
    by (simp only: keys_stored distinct_enabled_lanes)
  note ok = stored_ok [OF assms(1) store(1), of "value" v ev be]
  show ?thesis
    unfolding store(7)
    using commit_inv [OF assms(1) store(5) d ok] commit_le [OF assms(1) store(5) d] ok store(8)
    by (simp only: keys_stored) auto
qed

lemma preload_Inr:
  "preload m adr bs = Inr m' \<longleftrightarrow> bs \<noteq> [] \<and> (\<exists>r off. resolve m adr 1 False = Inr (r, off)
     \<and> off + int (length bs) \<le> region_size r
     \<and> (\<forall>k \<in> set (span_keys (memory_id r) off (int (length bs))). \<not> dict_has (cells m) k \<and> k \<notin> instruction_slots m)
     \<and> initialized_bytes m + int (length bs) \<le> max_initialized_bytes m
     \<and> m' = put_cells (m\<lparr>initial_images := dict_set_all (initial_images m)
              (zip (span_keys (memory_id r) off (int (length bs))) bs)\<rparr>)
            (map (installed (generation m, 0) ''INITIAL_IMAGE'' ''initial-image'')
              (zip (span_keys (memory_id r) off (int (length bs))) bs)))"
  by (auto simp: preload_def installed_def [abs_def] Let_def list_ex_iff not_less split: if_splits)

lemma preload_inv:
  assumes "mem_inv m" and "preload m adr bs = Inr m'"
  shows "mem_inv m' \<and> mem_le m m'"
proof -
  obtain r off where r: "resolve m adr 1 False = Inr (r, off)" "off + int (length bs) \<le> region_size r"
      and new: "\<forall>k \<in> set (span_keys (memory_id r) off (int (length bs))). \<not> dict_has (cells m) k \<and> k \<notin> instruction_slots m"
      and b: "initialized_bytes m + int (length bs) \<le> max_initialized_bytes m"
      and m': "m' = put_cells (m\<lparr>initial_images := dict_set_all (initial_images m)
              (zip (span_keys (memory_id r) off (int (length bs))) bs)\<rparr>)
            (map (installed (generation m, 0) ''INITIAL_IMAGE'' ''initial-image'')
              (zip (span_keys (memory_id r) off (int (length bs))) bs))"
    using assms(2) unfolding preload_Inr by blast
  define ks where "ks = span_keys (memory_id r) off (int (length bs))"
  define kcs where "kcs = map (installed (generation m, 0) ''INITIAL_IMAGE'' ''initial-image'') (zip ks bs)"
  have len: "length ks = length bs" by (simp add: ks_def)
  have keys: "map fst kcs = ks" "distinct (map fst kcs)"
    unfolding kcs_def keys_installed [OF len] by (simp_all add: ks_def)
  have cs: "cells m' = cells m @ kcs"
  proof -
    have "\<forall>kc \<in> set kcs. \<not> dict_has (cells m) (fst kc)"
      using new [folded ks_def] by (simp flip: keys(1))
    then show ?thesis
      unfolding m' ks_def [symmetric] kcs_def [symmetric] put_cells_simps
      by (simp add: dict_set_all_new keys(2))
  qed
  note inv = mem_invD [OF assms(1)]
  have ok: "cell_ok m k c" if "(k, c) \<in> set kcs" for k c
  proof -
    from that have "k \<in> set ks" "cell_version c = (generation m, 0)"
      by (auto simp: kcs_def installed_def dest: set_zip_leftD)
    moreover have "r \<in> set (regions m)" "0 \<le> off"
      using resolve_span_in_region [OF assms(1) r(1)] by auto
    moreover obtain s where "0 \<le> s" "map_of (commit_sequences m) (memory_id r) = Some s"
      using inv(3) \<open>r \<in> set (regions m)\<close> by (auto simp: sequences_ok_def)
    ultimately show ?thesis
      using keys_in_region [of r m off "int (length bs)" k] r(2) by (auto simp: cell_ok_def ks_def set_span_keys)
  qed
  have cell: "map_of (cells m') k = Some c \<Longrightarrow> map_of (cells m) k = Some c \<or> (k, c) \<in> set kcs" for k c
    by (auto simp: cs map_add_Some_iff dest: map_of_SomeD)
  have old: "map_of (cells m) k = Some c \<Longrightarrow> map_of (cells m') k = Some c" for k c
    by (simp add: cs map_add_def)
  have same: "cell_ok m' = cell_ok m"
    by (simp add: m' fun_eq_iff cell_ok_def key_ok_def)
  have "mem_inv m'"
    unfolding mem_inv_def same
  proof (intro conjI)
    show "dict_wf (cells m')" using inv(5) by (simp add: m')
    show "initialized_bytes m' \<le> max_initialized_bytes m'"
      using b by (simp add: initialized_bytes_def cs kcs_def len) (simp add: m')
    show "\<forall>k c. map_of (cells m') k = Some c \<longrightarrow> cell_ok m k c"
      using cell ok inv(7) by blast
    show "\<forall>k. dict_has (initial_images m') k \<longrightarrow> dict_has (cells m') k"
      using inv(9) by (auto simp: m' dict_has_set_all image_image)
  qed (use inv in \<open>auto simp: m' window_ok_def sequences_ok_def receipts_ok_def\<close>)
  moreover have "map_of (initial_images m') k = Some b" if image: "map_of (initial_images m) k = Some b" for k b
  proof -
    have "dict_has (cells m) k"
      using inv(9) [of k] image by (simp add: dict_has_def)
    then have "k \<notin> set ks" using new [folded ks_def] by blast
    then have "map_of (zip ks bs) k = None" using len by (simp add: map_of_zip_is_None)
    moreover have "distinct (map fst (zip ks bs))" using len by (simp add: ks_def)
    ultimately show ?thesis
      using image unfolding m' ks_def [symmetric] by (simp add: map_of_dict_set_all_distinct)
  qed
  ultimately show ?thesis
    unfolding mem_le_def using old by (auto simp: cells_le_def m')
qed


lemma reinstall_Inr:
  "reinstall_image m adr bs ev = Inr (res, m') \<longleftrightarrow> bs \<noteq> [] \<and> ev \<noteq> [] \<and>
     (\<exists>r off v m1. resolve m adr 1 False = Inr (r, off) \<and> off + int (length bs) \<le> region_size r
     \<and> (\<forall>k \<in> set (span_keys (memory_id r) off (int (length bs))). dict_has (initial_images m) k)
     \<and> next_version m (memory_id r) = Inr (v, m1) \<and> res = (memory_id r, off, v)
     \<and> m' = put_cells m1 (map (installed v ''RESET_IMAGE'' ev)
              (zip (span_keys (memory_id r) off (int (length bs))) bs)))"
  by (fastforce simp: reinstall_image_def installed_def [abs_def] Let_def list_ex_iff not_less split: if_splits)

lemma installed_ok:
  assumes "r \<in> set (regions m)" and "0 \<le> off" and "off + n \<le> region_size r"
  shows "\<forall>kc \<in> set (map (installed v knd ev) (zip (span_keys (memory_id r) off n) bs)).
    fst (fst kc) = memory_id r \<and> key_ok m (fst kc) \<and> cell_version (snd kc) = v"
proof
  fix kc
  assume "kc \<in> set (map (installed v knd ev) (zip (span_keys (memory_id r) off n) bs))"
  then have k: "fst kc \<in> set (span_keys (memory_id r) off n)" "cell_version (snd kc) = v"
    by (auto dest: set_zip_leftD)
  then show "fst (fst kc) = memory_id r \<and> key_ok m (fst kc) \<and> cell_version (snd kc) = v"
    using keys_in_region [OF assms k(1)] by (simp add: set_span_keys)
qed

lemma install_commit:
  assumes "mem_inv m" and "resolve m adr wd wr = Inr (r, off)" and "off + int (length bs) \<le> region_size r"
    and "next_version m (memory_id r) = Inr (v, m1)"
    and "initialized_bytes m + int (length (missing_keys m (span_keys (memory_id r) off (int (length bs))))) \<le> max_initialized_bytes m"
  shows "mem_inv (put_cells m1 (map (installed v knd ev) (zip (span_keys (memory_id r) off (int (length bs))) bs)))"
    "mem_le m (put_cells m1 (map (installed v knd ev) (zip (span_keys (memory_id r) off (int (length bs))) bs)))"
proof -
  let ?ks = "span_keys (memory_id r) off (int (length bs))"
  let ?kcs = "map (installed v knd ev) (zip ?ks bs)"
  have keys: "map fst ?kcs = ?ks" by (rule keys_installed) simp
  then have d: "distinct (map fst ?kcs)" by (simp only: distinct_span_keys)
  note ok = installed_ok [OF resolve_span_in_region(1,2) [OF assms(1,2)] assms(3), of v knd ev bs]
  show "mem_inv (put_cells m1 ?kcs)"
    using commit_inv [OF assms(1,4) d ok] assms(5) by (simp only: keys)
  show "mem_le m (put_cells m1 ?kcs)"
    using commit_le [OF assms(1,4) d] ok by blast
qed

lemma reinstall_inv:
  assumes "mem_inv m" and "reinstall_image m adr bs ev = Inr (res, m')"
  shows "mem_inv m' \<and> mem_le m m'"
proof -
  obtain r off v m1 where r: "resolve m adr 1 False = Inr (r, off)" "off + int (length bs) \<le> region_size r"
      and img: "\<forall>k \<in> set (span_keys (memory_id r) off (int (length bs))). dict_has (initial_images m) k"
      and v: "next_version m (memory_id r) = Inr (v, m1)"
      and m': "m' = put_cells m1 (map (installed v ''RESET_IMAGE'' ev)
              (zip (span_keys (memory_id r) off (int (length bs))) bs))"
    using assms(2) unfolding reinstall_Inr by blast
  have "missing_keys m (span_keys (memory_id r) off (int (length bs))) = []"
    using img mem_invD(9) [OF assms(1)] by (auto simp: missing_keys_Nil)
  then show ?thesis
    using install_commit [OF assms(1) r v] mem_invD(6) [OF assms(1)] by (simp add: m')
qed

lemma declare_Inr:
  "declare_instruction_slots m adr cnt = Inr m' \<longleftrightarrow> cnt > 0 \<and>
     (\<exists>r off. resolve m adr 4 False = Inr (r, off) \<and> off + cnt * 4 \<le> region_size r
     \<and> (\<forall>k \<in> set (span_keys (memory_id r) off (cnt * 4)). \<not> dict_has (cells m) k)
     \<and> m' = m\<lparr>instruction_slots := instruction_slots m \<union> set (span_keys (memory_id r) off (cnt * 4))\<rparr>)"
  by (fastforce simp: declare_instruction_slots_def mem_natural_def Let_def list_ex_iff not_less split: if_splits)

lemma declare_inv:
  "mem_inv m \<Longrightarrow> declare_instruction_slots m adr cnt = Inr m' \<Longrightarrow> mem_inv m' \<and> mem_le m m'"
  unfolding declare_Inr
  by (auto simp: mem_inv_frame mem_le_def cells_le_def)

definition receipt_of :: "memory \<Rightarrow> memory_region \<Rightarrow> int \<Rightarrow> int \<Rightarrow> bytes \<Rightarrow> string \<Rightarrow> version \<Rightarrow> instruction_acceptance" where
  "receipt_of m r adr off bs ev v =
     \<lparr>receipt_ref = next_ref m, acc_memory = memory_id r, acc_address = adr, acc_offset = off,
      acc_generation = generation m, acc_data = bs, source_event_id = ev,
      acc_versions = replicate (length bs) v, acc_writer_event_ids = replicate (length bs) ev,
      acc_writer_kinds = replicate (length bs) ''INSTRUCTION_SOURCE''\<rparr>"

lemma map_of_installed:
  assumes "i < length bs"
  shows "map_of (map (installed v knd ev) (zip (span_keys mid off (int (length bs))) bs)) (mid, off + int i)
    = Some \<lparr>cell_value = bs ! i, cell_version = v, writer_kind = knd, writer_event_id = ev\<rparr>"
proof (rule map_of_is_SomeI)
  have "map fst (map (installed v knd ev) (zip (span_keys mid off (int (length bs))) bs)) = span_keys mid off (int (length bs))"
    by (rule keys_installed) simp
  then show "distinct (map fst (map (installed v knd ev) (zip (span_keys mid off (int (length bs))) bs)))"
    by (simp only: distinct_span_keys)
  have "zip (span_keys mid off (int (length bs))) bs ! i = ((mid, off + int i), bs ! i)"
    using assms by (simp add: nth_span_keys)
  then have "((mid, off + int i), bs ! i) \<in> set (zip (span_keys mid off (int (length bs))) bs)"
    using assms by (metis length_span_keys length_zip min.idem nat_int nth_mem)
  then show "((mid, off + int i), \<lparr>cell_value = bs ! i, cell_version = v, writer_kind = knd, writer_event_id = ev\<rparr>)
    \<in> set (map (installed v knd ev) (zip (span_keys mid off (int (length bs))) bs))"
    by (force simp: installed_def)
qed

lemma installed_cells:
  assumes "i < length bs"
  shows "map_of (cells (put_cells m (map (installed v knd ev) (zip (span_keys mid off (int (length bs))) bs)))) (mid, off + int i)
    = Some \<lparr>cell_value = bs ! i, cell_version = v, writer_kind = knd, writer_event_id = ev\<rparr>"
proof -
  have "map fst (map (installed v knd ev) (zip (span_keys mid off (int (length bs))) bs)) = span_keys mid off (int (length bs))"
    by (rule keys_installed) simp
  then have "distinct (map fst (map (installed v knd ev) (zip (span_keys mid off (int (length bs))) bs)))"
    by (simp only: distinct_span_keys)
  from map_of_put_cells [OF this] map_of_installed [OF assms] show ?thesis by simp
qed

lemma installed_span:
  "map (\<lambda>k. f (the (map_of (cells (put_cells m (map (installed v knd ev) (zip (span_keys mid off (int (length bs))) bs)))) k)))
     (span_keys mid off (int (length bs)))
   = map (\<lambda>b. f \<lparr>cell_value = b, cell_version = v, writer_kind = knd, writer_event_id = ev\<rparr>) bs"
  by (rule nth_equalityI) (simp_all add: nth_span_keys installed_cells del: put_cells_simps)


lemma installed_fold:
  "(\<lambda>kb. (fst kb, \<lparr>cell_value = snd kb, cell_version = v, writer_kind = knd, writer_event_id = ev\<rparr>)) = installed v knd ev"
  by (simp add: fun_eq_iff installed_def)

lemma acceptE:
  assumes "accept_instructions m adr bs ev = Inr (rc, m')"
  obtains r off v m1 mat where "validate_instruction_bytes bs (instruction_isa m) = Inr ()" "ev \<noteq> []"
    "resolve m adr 4 False = Inr (r, off)" "off + int (length bs) \<le> region_size r"
    "\<forall>k \<in> set (span_keys (memory_id r) off (int (length bs))). slot_pending m k"
    "initialized_bytes m + int (length bs) \<le> max_initialized_bytes m"
    "next_version m (memory_id r) = Inr (v, m1)" "rc = receipt_of m r adr off bs ev v"
    "acceptance_material rc = Inr mat"
    "m' = (put_cells m1 (map (installed v ''INSTRUCTION_SOURCE'' ev) (zip (span_keys (memory_id r) off (int (length bs))) bs)))
       \<lparr>issued := dict_set (issued m) (next_ref m) mat, next_ref := next_ref m + 1\<rparr>"
proof -
  obtain r off where r: "validate_instruction_bytes bs (instruction_isa m) = Inr ()" "ev \<noteq> []"
      "resolve m adr 4 False = Inr (r, off)"
    using assms by (auto simp: accept_instructions_def split: if_splits)
  let ?ks = "span_keys (memory_id r) off (int (length bs))"
  have g: "off + int (length bs) \<le> region_size r" "\<forall>k \<in> set ?ks. slot_pending m k"
      "initialized_bytes m + int (length bs) \<le> max_initialized_bytes m"
    using assms r by (auto simp: accept_instructions_def Let_def list_ex_iff slot_pending_def split: if_splits)
  obtain v m1 where v: "next_version m (memory_id r) = Inr (v, m1)"
    using assms r g by (auto simp: accept_instructions_def Let_def list_ex_iff slot_pending_def split: if_splits)
  then have m1: "issued m1 = issued m"
    by (auto simp: next_version_Inr)
  have "\<not> list_ex (\<lambda>k. k \<notin> instruction_slots m) ?ks" "\<not> list_ex (dict_has (cells m)) ?ks"
    using g(2) by (auto simp: list_ex_iff slot_pending_def)
  with assms r g v obtain mat where "acceptance_material rc = Inr mat" "rc = receipt_of m r adr off bs ev v"
    "m' = (put_cells m1 (map (installed v ''INSTRUCTION_SOURCE'' ev) (zip ?ks bs)))
       \<lparr>issued := dict_set (issued m) (next_ref m) mat, next_ref := next_ref m + 1\<rparr>"
    by (auto simp: accept_instructions_def Let_def installed_fold receipt_of_def comp_def
        installed_span map_replicate_const m1 simp del: put_cells_simps(12))
  then show thesis using that r g v by blast
qed

lemma admit_inv:
  assumes "mem_inv m" and "accept_instructions m adr bs ev = Inr (rc, m')"
  shows "mem_inv m' \<and> mem_le m m'"
  using assms(2)
proof (cases rule: acceptE)
  case (1 r off v m1 mat)
  let ?ks = "span_keys (memory_id r) off (int (length bs))"
  let ?m = "put_cells m1 (map (installed v ''INSTRUCTION_SOURCE'' ev) (zip ?ks bs))"
  have "length (missing_keys m ?ks) \<le> length bs"
    using length_filter_le [of _ ?ks] by (simp add: missing_keys_def)
  then have "mem_inv ?m" "mem_le m ?m"
    using install_commit [OF assms(1) 1(3,4,7)] 1(6) by auto
  moreover have "\<forall>ref mt. map_of (dict_set (issued m) (next_ref m) mat) ref = Some mt \<longrightarrow> ref < next_ref m + 1"
    using mem_invD(10) [OF assms(1)] by (fastforce simp: receipts_ok_def dict_simps)
  moreover have "next_ref m1 = next_ref m"
    using 1(7) by (auto simp: next_version_Inr)
  ultimately show ?thesis
    using mem_inv_issued [of "dict_set (issued m) (next_ref m) mat" "next_ref m + 1" ?m]
    by (auto simp: 1(10) mem_le_def cells_le_def)
qed

section \<open>Construction and resets\<close>

lemma map_of_map_values: "map_of (map (\<lambda>kv. (fst kv, f (snd kv))) d) k = map_option f (map_of d k)"
  by (induction d) auto

lemma zero_sequences:
  "map_of (dict_set_all [] (map (\<lambda>r. (memory_id r, 0 :: int)) rs)) k = (if k \<in> memory_id ` set rs then Some 0 else None)"
proof -
  have "map_of (dict_set_all d (map (\<lambda>r. (memory_id r, 0 :: int)) rs)) k
    = (if k \<in> memory_id ` set rs then Some 0 else map_of d k)" for d
    by (induction rs arbitrary: d) (auto simp: dict_simps)
  then show ?thesis by simp
qed

lemma warm_reset_inv: "mem_inv m \<Longrightarrow> mem_inv (warm_reset m) \<and> mem_le m (warm_reset m)"
  using mem_inv_issued [of "[]" "next_ref m" m] by (simp add: warm_reset_def mem_le_def cells_le_def)

lemma cold_reset_cells:
  "map_of (cells (cold_reset m)) k = map_option (\<lambda>b. \<lparr>cell_value = b, cell_version = (generation m + 1, 0),
      writer_kind = ''INITIAL_IMAGE'', writer_event_id = ''initial-image''\<rparr>) (map_of (initial_images m) k)"
  using map_of_map_values [of "\<lambda>b. \<lparr>cell_value = b, cell_version = (generation m + 1, 0),
      writer_kind = ''INITIAL_IMAGE'', writer_event_id = ''initial-image''\<rparr>" "initial_images m" k]
  by (simp add: cold_reset_def Let_def)

lemma cold_reset_inv:
  assumes "mem_inv m"
  shows "mem_inv (cold_reset m) \<and> mem_le m (cold_reset m)"
proof -
  note inv = mem_invD [OF assms]
  let ?m = "cold_reset m"
  have seq: "map_of (commit_sequences ?m) k = (if k \<in> memory_id ` set (regions m) then Some 0 else None)" for k
    by (simp add: cold_reset_def Let_def zero_sequences)
  note cell = cold_reset_cells [of m]
  have key: "key_ok m k" if image: "dict_has (initial_images m) k" for k
  proof -
    obtain c where "map_of (cells m) k = Some c"
      using inv(9) [OF image] by (auto simp: dict_has_def)
    from inv(7) [OF this] show ?thesis by (simp add: cell_ok_def)
  qed
  have "cell_ok ?m k c" if c: "map_of (cells ?m) k = Some c" for k c
  proof -
    from c have "dict_has (initial_images m) k" and v: "cell_version c = (generation m + 1, 0)"
      by (auto simp: cell dict_has_def)
    from key [OF this(1)] have k: "key_ok ?m k" "fst k \<in> memory_id ` set (regions m)"
      by (auto simp: key_ok_def cold_reset_def Let_def intro: rev_image_eqI)
    show ?thesis unfolding cell_ok_def seq using k v by (simp add: cold_reset_def Let_def)
  qed
  moreover have "int (length (initial_images m)) \<le> max_initialized_bytes m"
  proof -
    have "set (map fst (initial_images m)) \<subseteq> set (map fst (cells m))"
      using inv(9) by (auto simp: dict_has_keys)
    then have "length (map fst (initial_images m)) \<le> length (map fst (cells m))"
      using inv(5,8) by (metis card_mono distinct_card finite_set)
    with inv(6) show ?thesis by (simp add: initialized_bytes_def)
  qed
  moreover have "sequences_ok ?m"
    unfolding sequences_ok_def seq by (auto simp: cold_reset_def Let_def)
  ultimately have "mem_inv ?m"
    using inv(1,2,4,8) unfolding mem_inv_def
    by (auto simp: dict_has_def cell) (auto simp: cold_reset_def Let_def comp_def window_ok_def initialized_bytes_def receipts_ok_def)
  then show ?thesis by (simp add: cold_reset_def mem_le_def Let_def)
qed


lemma add_window_disjoint:
  assumes "add_window ws r b = Inr ws'" and "disjoint_list win_lo win_hi ws"
  shows "disjoint_list win_lo win_hi ws'" "set ws' = insert (b, b + region_size r, r) (set ws)"
  using assms by (auto simp: add_window_def Let_def windows_overlap_def disjoint_list_snoc split: if_splits)

definition windows_built :: "memory_region list \<Rightarrow> mem_window list \<Rightarrow> bool" where
  "windows_built rs ws \<longleftrightarrow> disjoint_list win_lo win_hi ws
     \<and> (\<forall>w \<in> set ws. win_region w \<in> set rs \<and> win_hi w = win_lo w + region_size (win_region w))"

lemma fold_windows_built:
  assumes "fold_res (\<lambda>ws b. add_window ws r b) ws bs = Inr ws'" and "windows_built rs ws" and "r \<in> set rs"
  shows "windows_built rs ws'"
  using assms(1,2)
proof (rule fold_res_invariant)
  fix ws b ws'
  assume "windows_built rs ws" and *: "add_window ws r b = Inr ws'"
  then have "disjoint_list win_lo win_hi ws" by (simp add: windows_built_def)
  note add_window_disjoint [OF * this]
  with \<open>windows_built rs ws\<close> assms(3) show "windows_built rs ws'" by (auto simp: windows_built_def)
qed

lemma regions_windows_built:
  assumes "fold_res add_region ([], []) rs = Inr s"
  shows "windows_built rs (fst s)"
  using assms
proof (rule fold_res_invariant [where P = "\<lambda>s. windows_built rs (fst s)"])
  show "windows_built rs (fst s')" if "r \<in> set rs" "windows_built rs (fst s)" "add_region s r = Inr s'" for s r s'
    using that fold_windows_built [of r "fst s" "region_base r # aliases r" _ rs]
    by (auto simp: add_region_def split: prod.splits if_splits)
qed (simp add: windows_built_def)

text \<open>The windows of a memory form a table whose owners are unique.\<close>

definition memory_windows :: "mem_window list \<Rightarrow> bool" where
  "memory_windows ws \<longleftrightarrow> (\<exists>rs seed maxb isa m. make_memory rs seed maxb isa = Inr m \<and> windows m = ws)"

lemma make_memoryE:
  assumes "make_memory rs seed maxb isa = Inr m"
  obtains s where "0 \<le> seed" "0 \<le> maxb" "rs \<noteq> []" "fold_res add_region ([], []) rs = Inr s"
    "m = \<lparr>regions = rs, windows = fst s, initialization_seed = seed, instruction_isa = isa,
      max_initialized_bytes = maxb, generation = 0, step_count = 0, cells = [], initial_images = [],
      instruction_slots = {}, commit_sequences = dict_set_all [] (map (\<lambda>r. (memory_id r, 0)) rs),
      issued = [], next_ref = 0\<rparr>"
  using assms that by (cases "fold_res add_region ([], []) rs")
    (auto simp: make_memory_def mem_natural_def split: if_splits option.splits)

lemma make_memory_inv:
  assumes "make_memory rs seed maxb isa = Inr m"
  shows "mem_inv m"
  using assms
proof (cases rule: make_memoryE)
  case (1 s)
  from regions_windows_built [OF 1(4)] 1(2) show "mem_inv m"
    unfolding 1(5) by (auto simp: mem_inv_def windows_built_def window_ok_def sequences_ok_def receipts_ok_def
        initialized_bytes_def zero_sequences dict_has_def)
qed

interpretation memory_table: window_table "\<lambda>w. fst w" "\<lambda>w. fst (snd w)" memory_windows
proof (unfold_locales, goal_cases)
  case (1 ws)
  then obtain rs seed maxb isa m where m: "make_memory rs seed maxb isa = Inr m" "windows m = ws"
    by (auto simp: memory_windows_def)
  show ?case
    using mem_invD(1) [OF make_memory_inv [OF m(1)]] m(2) by simp
qed

section \<open>The memory as a machine\<close>

datatype mem_call =
    Advance_step
  | Read int int string
  | Write int int int int string
  | Preload int bytes
  | Reinstall_image int bytes string
  | Declare_instruction_slots int int
  | Accept_instructions int bytes string
  | Warm_reset
  | Cold_reset

definition after :: "memory \<Rightarrow> ('a \<times> memory) res \<Rightarrow> memory" where
  "after m r = (case r of Inl e \<Rightarrow> m | Inr x \<Rightarrow> snd x)"

fun mem_step :: "memory \<Rightarrow> mem_call \<Rightarrow> memory" where
  "mem_step m Advance_step = advance_step m"
| "mem_step m (Read adr wd tid) = after m (mem_read m adr wd tid)"
| "mem_step m (Write adr v wd be ev) = after m (mem_write m adr v wd be ev)"
| "mem_step m (Preload adr bs) = (case preload m adr bs of Inl e \<Rightarrow> m | Inr m' \<Rightarrow> m')"
| "mem_step m (Reinstall_image adr bs ev) = after m (reinstall_image m adr bs ev)"
| "mem_step m (Declare_instruction_slots adr cnt) =
     (case declare_instruction_slots m adr cnt of Inl e \<Rightarrow> m | Inr m' \<Rightarrow> m')"
| "mem_step m (Accept_instructions adr bs ev) = after m (accept_instructions m adr bs ev)"
| "mem_step m Warm_reset = warm_reset m"
| "mem_step m Cold_reset = cold_reset m"

lemma after_inv:
  assumes "mem_inv m" and "\<And>x m'. r = Inr (x, m') \<Longrightarrow> mem_inv m' \<and> mem_le m m'"
  shows "mem_inv (after m r) \<and> mem_le m (after m r)"
  using assms by (cases r) (auto simp: after_def mem_le_refl)

lemma mem_step_ok: "mem_inv m \<Longrightarrow> mem_inv (mem_step m c) \<and> mem_le m (mem_step m c)"
proof (induction m c rule: mem_step.induct)
  case (1 m)
  then show ?case by (simp add: advance_step_def mem_inv_frame mem_le_def cells_le_def)
next
  case (4 m adr bs)
  then show ?case using preload_inv [of m adr bs] by (cases "preload m adr bs") (simp_all add: mem_le_refl)
next
  case (6 m adr cnt)
  then show ?case
    using declare_inv [of m adr cnt] by (cases "declare_instruction_slots m adr cnt") (simp_all add: mem_le_refl)
qed (auto simp only: mem_step.simps intro!: after_inv dest: mem_read_inv mem_write_inv reinstall_inv admit_inv
      warm_reset_inv cold_reset_inv)

interpretation memory_machine: progressing_machine mem_step mem_inv mem_le
  by unfold_locales (auto simp: mem_step_ok mem_le_refl intro: mem_le_trans)


section \<open>What the memory promises\<close>

lemma run_windows: "mem_inv m \<Longrightarrow> windows (foldl mem_step m cs) = windows m"
  using memory_machine.run_le [of m cs] by (simp add: mem_le_def)

lemma stored_cells:
  assumes "next_version m (memory_id r) = Inr (v, m1)"
  shows "map_of (cells (put_cells m1 (map (stored r off x v ev) (enabled_lanes wd be)))) k =
    (if fst k = memory_id r \<and> off \<le> snd k \<and> snd k < off + wd \<and> bit_lane be (snd k - off)
     then Some \<lparr>cell_value = byte_lane x (snd k - off), cell_version = v, writer_kind = ''STORE'', writer_event_id = ev\<rparr>
     else map_of (cells m) k)"
proof -
  let ?kcs = "map (stored r off x v ev) (enabled_lanes wd be)"
  have d: "distinct (map fst ?kcs)" by (simp only: keys_stored distinct_enabled_lanes)
  have m1: "cells m1 = cells m" using assms by (auto simp: next_version_Inr)
  show ?thesis
  proof (cases "fst k = memory_id r \<and> off \<le> snd k \<and> snd k < off + wd \<and> bit_lane be (snd k - off)")
    case True
    then have "snd k - off \<in> set (enabled_lanes wd be)" by (simp add: set_enabled_lanes)
    then have "stored r off x v ev (snd k - off) \<in> set ?kcs" by simp
    moreover have "stored r off x v ev (snd k - off) = (k, \<lparr>cell_value = byte_lane x (snd k - off),
        cell_version = v, writer_kind = ''STORE'', writer_event_id = ev\<rparr>)"
      using True by (simp add: stored_def prod_eq_iff)
    ultimately have "map_of ?kcs k = Some \<lparr>cell_value = byte_lane x (snd k - off), cell_version = v,
        writer_kind = ''STORE'', writer_event_id = ev\<rparr>"
      using d by (intro map_of_is_SomeI) simp_all
    with True show ?thesis by (simp only: map_of_put_cells [OF d] option.case if_True) simp
  next
    case False
    have "map_of ?kcs k = None"
      unfolding map_of_eq_None_iff using False by (auto simp: set_enabled_lanes)
    with False show ?thesis by (simp only: map_of_put_cells [OF d] option.case if_False m1)
  qed
qed

text \<open>C6: Whatever calls are made on a memory, also failing ones, the windows stay disjoint, every
  determined byte lies in a region and carries a version of the current generation not newer than its
  region's commit counter, and the byte budget holds. Across calls of one generation a byte never becomes
  undetermined and never changes without a strictly newer version.\<close>

theorem memory_run:
  assumes "make_memory rs seed maxb isa = Inr m"
  shows "mem_inv (foldl mem_step m cs) \<and> mem_le (foldl mem_step m cs) (foldl mem_step m (cs @ ds))"
  using memory_machine.run_inv [OF make_memory_inv [OF assms]]
    memory_machine.run_le [OF memory_machine.run_inv [OF make_memory_inv [OF assms]]]
  by (simp add: foldl_append)

text \<open>An aligned access of 1, 2, 4 or 8 bytes that lies inside a window which allows it always resolves to
  that window's region and offset, after any run and independently of the order the windows were declared in.\<close>

theorem resolve_complete:
  assumes "make_memory rs seed maxb isa = Inr m" and "w \<in> set (windows m)"
    and "0 \<le> adr" and "adr + wd - 1 \<le> MAX_ADDRESS" and "wd \<in> {1, 2, 4, 8}" and "adr mod wd = 0"
    and "win_lo w \<le> adr" and "adr + wd \<le> win_hi w"
    and "if wr then writable (win_region w) else readable (win_region w)"
  shows "resolve (foldl mem_step m cs) adr wd wr = Inr (win_region w, adr - win_lo w)"
proof -
  have "memory_windows (windows m)"
    unfolding memory_windows_def using assms(1) by blast
  moreover have "in_window win_lo win_hi adr w" "adr \<le> MAX_ADDRESS"
    using assms(4,5,7,8) by (auto simp: in_window_def)
  ultimately have "find (in_window win_lo win_hi adr) (windows m) = Some w" "adr \<le> MAX_ADDRESS"
    using memory_table.owner_unique [of "windows m" adr w] assms(2) by simp_all
  with assms show ?thesis
    unfolding resolve_Inr run_windows [OF make_memory_inv [OF assms(1)]] by auto
qed

text \<open>C8: A store that enables some lane replaces exactly the enabled bytes of its region, with the bytes of
  the value in little-endian order, under one version newer than that of every byte of the region; all other
  bytes, instruction slots and images are as before.\<close>

theorem write_effect:
  assumes "mem_inv m" and "mem_write m adr x wd be ev = Inr (Some v, m')" and "resolve m adr wd True = Inr (r, off)"
  shows "map_of (cells m') k =
      (if fst k = memory_id r \<and> off \<le> snd k \<and> snd k < off + wd \<and> bit_lane be (snd k - off)
       then Some \<lparr>cell_value = byte_lane x (snd k - off), cell_version = v, writer_kind = ''STORE'', writer_event_id = ev\<rparr>
       else map_of (cells m) k)
    \<and> (map_of (cells m) k = Some c \<longrightarrow> fst k = memory_id r \<longrightarrow>
        fst v = fst (cell_version c) \<and> snd (cell_version c) < snd v)
    \<and> initial_images m' = initial_images m \<and> instruction_slots m' = instruction_slots m \<and> issued m' = issued m"
  using assms(2)
proof (cases rule: mem_writeE)
  case (store r' off' v' m1)
  then have eq: "r' = r" "off' = off" "v' = v" using assms(3) by simp_all
  note v = store(5) [unfolded eq]
  have "fst v = fst (cell_version c) \<and> snd (cell_version c) < snd v"
    if "map_of (cells m) k = Some c" "fst k = memory_id r"
    using mem_invD(7) [OF assms(1) that(1)] that(2) v by (auto simp: cell_ok_def next_version_Inr)
  moreover have "initial_images m1 = initial_images m" "instruction_slots m1 = instruction_slots m" "issued m1 = issued m"
    using v by (auto simp: next_version_Inr)
  ultimately show ?thesis
    unfolding store(7) eq using stored_cells [OF v, of off x ev wd be k] by (auto simp del: put_cells_simps(12))
qed simp

text \<open>C7: A full-width store is read back through every alias of its region: the read succeeds, returns the
  stored value with the store's version and event, and determines nothing new.\<close>

theorem read_after_write:
  assumes "mem_inv m" and "mem_write m adr x wd (2 ^ nat wd - 1) ev = Inr (Some v, m')"
    and "resolve m adr wd True = Inr (r, off)" and "resolve m adr' wd False = Inr (r, off)" and "tid \<noteq> []"
  shows "\<exists>s. mem_read m' adr' wd tid = Inr (s, m') \<and> snapshot_value s = x \<and> materialized_offsets s = []
    \<and> versions s = replicate (nat wd) v \<and> writer_event_ids s = replicate (nat wd) ev"
proof -
  have wd: "wd \<in> {1, 2, 4, 8}" using resolve_span_in_region(4) [OF assms(1,3)] .
  have lane: "bit_lane (2 ^ nat wd - 1) i" if "0 \<le> i" "i < wd" for i
    using that by (simp add: bit_lane_def bit_mask_iff flip: mask_eq_exp_minus_1)
  have x: "0 \<le> x" "x < 256 ^ nat wd"
  proof -
    have "check_store x wd (2 ^ nat wd - 1) = Inr ()" using assms(2) by (cases rule: mem_writeE) simp_all
    then have "0 \<le> x" "x < 2 ^ nat (8 * wd)" 
      by (auto simp: check_store_def mem_natural_def push_bit_eq_mult split: if_splits)
    moreover have "nat (8 * wd) = 8 * nat wd" using wd by auto
    ultimately show "0 \<le> x" "x < 256 ^ nat wd" by (simp_all add: power_mult)
  qed
  let ?cell = "\<lambda>i. \<lparr>cell_value = byte_lane x i, cell_version = v, writer_kind = ''STORE'', writer_event_id = ev\<rparr>"
  have w: "windows m' = windows m" and b: "initialized_bytes m' \<le> max_initialized_bytes m'"
    using mem_write_inv [OF assms(1,2)] by (simp_all add: mem_le_def mem_inv_def)
  have cell: "map_of (cells m') (memory_id r, off + i) = Some (?cell i)" if "0 \<le> i" "i < wd" for i
    using assms(2)
  proof (cases rule: mem_writeE)
    case (store r' off' v' m1)
    then have eq: "r' = r" "off' = off" "v' = v" using assms(3) by simp_all
    show ?thesis unfolding store(7) eq stored_cells [OF store(5) [unfolded eq]] using that lane by simp
  qed (use that lane in simp)
  then have "\<forall>k \<in> set (span_keys (memory_id r) off wd). dict_has (cells m') k"
    by (auto simp: span_keys_def dict_has_def)
  moreover have "resolve m' adr' wd False = Inr (r, off)" using assms(4) resolve_windows [OF w] by simp
  ultimately have read: "mem_read m' adr' wd tid = Inr (read_back m' r off wd tid [], m')"
    using mem_read_determined [of m' adr' wd r off tid] assms(5) b by blast
  have cs: "map (\<lambda>k. f (the (map_of (cells m') k))) (span_keys (memory_id r) off wd) = map (\<lambda>i. f (?cell (int i))) [0..<nat wd]" for f
    by (rule nth_equalityI) (use cell in \<open>auto simp: nth_span_keys\<close>)
  have "map (\<lambda>i. byte_lane x (int i)) [0..<nat wd] = to_bytes_little (nat wd) x"
    by (simp add: to_bytes_little_map)
  then have "snapshot_value (read_back m' r off wd tid []) = x"
    using cs [of cell_value] x by (simp add: snapshot_value_def read_back_def comp_def from_to_bytes_little)
  then show ?thesis
    using read cs [of cell_version] cs [of writer_event_id]
    by (simp add: read_back_def comp_def map_replicate_const)
qed

text \<open>A read determines a byte once: reading the same bytes again returns the same data, versions and
  writers, materialises nothing and leaves the memory unchanged; bytes determined before a read keep their cell.\<close>

theorem read_stable:
  assumes "mem_inv m" and "mem_read m adr wd tid = Inr (s, m')" and "tid' \<noteq> []"
  shows "mem_read m' adr wd tid' = Inr (s\<lparr>transaction_id := tid', materialized_offsets := []\<rparr>, m')
    \<and> (map_of (cells m) k = Some c \<longrightarrow> map_of (cells m') k = Some c)"
  using assms(2)
proof (cases rule: mem_readE)
  case (determined r off)
  then show ?thesis
    using mem_read_determined [of m adr wd r off tid'] assms(3) by (simp add: missing_keys_Nil read_back_def)
next
  case (first r off v m1)
  let ?ks = "span_keys (memory_id r) off wd"
  let ?kcs = "map (first_read m r v) (missing_keys m ?ks)"
  have d: "distinct (map fst ?kcs)" by (simp only: fst_first_read) (simp add: missing_subset)
  have m1: "cells m1 = cells m" "windows m1 = windows m" using first(3) by (auto simp: next_version_Inr)
  have "\<forall>k \<in> set ?ks. dict_has (cells m') k"
    by (auto simp: first(5) dict_has_set_all missing_keys_def m1 image_image)
  moreover have "initialized_bytes m' \<le> max_initialized_bytes m'"
    using mem_read_inv [OF assms(1,2)] by (simp add: mem_inv_def)
  ultimately have "mem_read m' adr wd tid' = Inr (read_back m' r off wd tid' [], m')"
    using mem_read_determined [of m' adr wd r off tid'] assms(3) first(1) resolve_windows [of m' m]
    by (simp add: first(5) m1)
  moreover have "map_of (cells m') k = Some c" if "map_of (cells m) k = Some c"
  proof -
    have "k \<notin> fst ` set ?kcs" using that by (auto simp: missing_keys_def dict_has_def image_image)
    then have "map_of ?kcs k = None" by (simp only: map_of_eq_None_iff not_False_eq_True)
    with that show ?thesis by (simp only: first(5) map_of_put_cells [OF d] m1 option.case)
  qed
  ultimately show ?thesis by (simp add: first(6) read_back_def)
qed


lemma validation_agrees:
  assumes "mem_inv m" and "ident \<noteq> []"
  shows "(validate_read m adr wd = Inl e \<longleftrightarrow> mem_read m adr wd ident = Inl e)
    \<and> (validate_write m adr x wd be = Inl e \<longleftrightarrow> mem_write m adr x wd be ident = Inl e)"
proof
  show "validate_read m adr wd = Inl e \<longleftrightarrow> mem_read m adr wd ident = Inl e"
  proof (cases "resolve m adr wd False")
    case (Inr ro)
    obtain r off where ro: "ro = (r, off)" by (cases ro)
    obtain v m1 where v: "next_version m (memory_id r) = Inr (v, m1)"
      using next_version_ok [OF assms(1)] resolve_span_in_region(1) [OF assms(1)] Inr ro by metis
    show ?thesis
      using Inr assms(2) by (simp add: validate_read_def mem_read_def Let_def ro v budget_def check_instruction_ready_def)
  qed (simp add: validate_read_def mem_read_def assms(2))
  show "validate_write m adr x wd be = Inl e \<longleftrightarrow> mem_write m adr x wd be ident = Inl e"
  proof (cases "resolve m adr wd True")
    case (Inr ro)
    obtain r off where ro: "ro = (r, off)" by (cases ro)
    obtain v m1 where v: "next_version m (memory_id r) = Inr (v, m1)"
      using next_version_ok [OF assms(1)] resolve_span_in_region(1) [OF assms(1)] Inr ro by metis
    show ?thesis
      using Inr assms(2)
      by (cases "check_store x wd be") (simp_all add: validate_write_def mem_write_def Let_def ro v budget_def)
  qed (simp add: validate_write_def mem_write_def assms(2))
qed

text \<open>The checks and the accesses agree: \<open>validate_read\<close> and \<open>validate_write\<close> fail exactly when
  the access itself would, with the same error, so an access whose check passed always succeeds.\<close>

theorem validation_exact:
  assumes "mem_inv m" and "ident \<noteq> []"
  shows "(validate_read m adr wd = Inl e \<longleftrightarrow> mem_read m adr wd ident = Inl e)
    \<and> (validate_write m adr x wd be = Inl e \<longleftrightarrow> mem_write m adr x wd be ident = Inl e)"
  using validation_agrees [OF assms] .

lemma installed_read:
  assumes "off \<le> o'" and "o' + wd \<le> off + int (length bs)" and "0 \<le> wd"
  shows "map (\<lambda>k. f (the (map_of (cells (put_cells m1 (map (installed v knd ev) (zip (span_keys mid off (int (length bs))) bs)))) k)))
      (span_keys mid o' wd)
    = map (\<lambda>b. f \<lparr>cell_value = b, cell_version = v, writer_kind = knd, writer_event_id = ev\<rparr>) (take (nat wd) (drop (nat (o' - off)) bs))"
proof (rule nth_equalityI)
  fix i assume "i < length (map (\<lambda>k. f (the (map_of (cells (put_cells m1 (map (installed v knd ev)
      (zip (span_keys mid off (int (length bs))) bs)))) k))) (span_keys mid o' wd))"
  then have i: "i < nat wd" by simp
  have j: "nat (o' - off) + i < length bs" "o' + int i = off + int (nat (o' - off) + i)"
    using assms i by linarith+
  show "map (\<lambda>k. f (the (map_of (cells (put_cells m1 (map (installed v knd ev) (zip (span_keys mid off (int (length bs))) bs)))) k)))
      (span_keys mid o' wd) ! i
    = map (\<lambda>b. f \<lparr>cell_value = b, cell_version = v, writer_kind = knd, writer_event_id = ev\<rparr>)
       (take (nat wd) (drop (nat (o' - off)) bs)) ! i"
    using i j by (simp add: nth_span_keys installed_cells del: put_cells_simps of_nat_add)
qed (use assms in auto)

lemma accept_cells:
  assumes "accept_instructions m adr bs ev = Inr (rc, m')"
  obtains v m1 where "cells m' = cells (put_cells m1 (map (installed v ''INSTRUCTION_SOURCE'' ev)
      (zip (span_keys (acc_memory rc) (acc_offset rc) (int (length bs))) bs)))"
    "windows m' = windows m" "cells m1 = cells m"
    "\<forall>k \<in> set (span_keys (acc_memory rc) (acc_offset rc) (int (length bs))). slot_pending m k"
  using assms
proof (cases rule: acceptE)
  case (1 r off v m1 mat)
  then show ?thesis using that [of m1 v] by (auto simp: receipt_of_def next_version_Inr)
qed

lemma accept_determined:
  assumes "accept_instructions m adr bs ev = Inr (rc, m')"
    and "k \<in> set (span_keys (acc_memory rc) (acc_offset rc) (int (length bs)))"
  shows "dict_has (cells m') k"
  using assms(1)
proof (cases rule: accept_cells)
  case (1 v m1)
  let ?ks = "span_keys (acc_memory rc) (acc_offset rc) (int (length bs))"
  let ?kcs = "map (installed v ''INSTRUCTION_SOURCE'' ev) (zip ?ks bs)"
  have "map fst ?kcs = ?ks" by (rule keys_installed) simp
  then have "fst ` set ?kcs = set ?ks" by (simp only: set_map [symmetric])
  with assms(2) show ?thesis unfolding 1(1) put_cells_simps dict_has_set_all by blast
qed

lemma accept_read:
  assumes "mem_inv m" and "accept_instructions m adr bs ev = Inr (rc, m')" and "tid \<noteq> []"
    and "resolve m a wd False = Inr (r, o')" and "memory_id r = acc_memory rc"
    and "acc_offset rc \<le> o'" and "o' + wd \<le> acc_offset rc + int (length bs)"
  shows "\<exists>s. mem_read m' a wd tid = Inr (s, m') \<and> snap_data s = take (nat wd) (drop (nat (o' - acc_offset rc)) bs)
        \<and> writer_kinds s = replicate (nat wd) ''INSTRUCTION_SOURCE''"
  using assms(2)
proof (cases rule: accept_cells)
  case (1 v m1)
  have wd: "0 \<le> wd" using resolve_span_in_region(4) [OF assms(1,4)] by auto
  have "dict_has (cells m') k" if "k \<in> set (span_keys (memory_id r) o' wd)" for k
    using that assms(5-7) by (intro accept_determined [OF assms(2)]) (auto simp: set_span_keys)
  moreover have "resolve m' a wd False = Inr (r, o')"
    using assms(4) resolve_windows [OF 1(2)] by simp
  moreover have "initialized_bytes m' \<le> max_initialized_bytes m'"
    using admit_inv [OF assms(1,2)] by (simp add: mem_inv_def)
  ultimately have read: "mem_read m' a wd tid = Inr (read_back m' r o' wd tid [], m')"
    using mem_read_determined [of m' a wd r o' tid] assms(3) by blast
  have span: "map (\<lambda>k. f (the (map_of (cells m') k))) (span_keys (memory_id r) o' wd)
      = map (\<lambda>b. f \<lparr>cell_value = b, cell_version = v, writer_kind = ''INSTRUCTION_SOURCE'', writer_event_id = ev\<rparr>)
         (take (nat wd) (drop (nat (o' - acc_offset rc)) bs))" for f
    unfolding 1(1) assms(5) by (rule installed_read [OF assms(6,7) wd])
  have "min (length bs - nat (o' - acc_offset rc)) (nat wd) = nat wd"
    using assms(6,7) by linarith
  then show ?thesis
    using read span [of cell_value] span [of writer_kind]
    by (simp add: read_back_def comp_def map_replicate_const)
qed

lemma accept_twice:
  assumes "accept_instructions m adr bs ev = Inr (rc, m')" and "resolve m a 4 False = Inr (r, o')"
    and "(memory_id r, o') \<in> set (span_keys (acc_memory rc) (acc_offset rc) (int (length bs)))"
  shows "\<not> is_ok (accept_instructions m' a bs' ev')"
proof
  assume "is_ok (accept_instructions m' a bs' ev')"
  then obtain x where "accept_instructions m' a bs' ev' = Inr x" by (auto simp: is_ok_iff)
  then obtain rc' m'' where "accept_instructions m' a bs' ev' = Inr (rc', m'')" by (cases x) simp
  then show False
  proof (cases rule: acceptE)
    case (1 r2 off2 v2 m2 mat2)
    have "windows m' = windows m" using assms(1) by (cases rule: accept_cells)
    then have "r2 = r" "off2 = o'"
      using 1(3) assms(2) resolve_windows [of m' m] by auto
    moreover have "bs' \<noteq> []"
      using 1(1) by (auto simp: validate_instruction_bytes_def check_instruction_bytes_def)
    ultimately have "slot_pending m' (memory_id r, o')"
      using 1(5) by (simp add: set_span_keys)
    then show False using accept_determined [OF assms(1,3)] by (simp add: slot_pending_def)
  qed
qed

lemma accept_validates:
  assumes "accept_instructions m adr bs ev = Inr (rc, m')"
  shows "validate_instruction_acceptance m' rc = Inr rc"
  using assms
proof (cases rule: acceptE)
  case (1 r off v m1 mat)
  then have "map_of (issued m') (receipt_ref rc) = Some mat" "acc_generation rc = generation m'"
    by (auto simp: receipt_of_def dict_simps next_version_Inr)
  with 1(9) show ?thesis by (simp add: validate_instruction_acceptance_def)
qed

text \<open>C9: Instructions are admitted into a reserved slot once. Before the admission every fetch that
  touches the slot, through any alias, is refused as not ready; afterwards it returns the admitted bytes, a
  second admission there is refused, and the issued acceptance validates until a warm or cold reset revokes it.\<close>

theorem instruction_admission:
  assumes "mem_inv m" and "accept_instructions m adr bs ev = Inr (rc, m')" and "tid \<noteq> []"
    and "resolve m a wd False = Inr (r, o')" and "memory_id r = acc_memory rc"
    and "acc_offset rc \<le> o'" and "o' + wd \<le> acc_offset rc + int (length bs)"
  shows "mem_read m a wd tid = Inl (InstructionNotReady ''online instruction slot awaits its source'')
    \<and> (\<exists>s. mem_read m' a wd tid = Inr (s, m') \<and> snap_data s = take (nat wd) (drop (nat (o' - acc_offset rc)) bs)
        \<and> writer_kinds s = replicate (nat wd) ''INSTRUCTION_SOURCE'')
    \<and> \<not> is_ok (accept_instructions m' a bs' ev')
    \<and> validate_instruction_acceptance m' rc = Inr rc
    \<and> \<not> is_ok (validate_instruction_acceptance (warm_reset m') rc)
    \<and> \<not> is_ok (validate_instruction_acceptance (cold_reset m') rc)"
  using assms(2)
proof (cases rule: accept_cells)
  case (1 v m1)
  let ?ks = "span_keys (memory_id r) o' wd"
  have wd: "wd \<in> {1, 2, 4, 8}" using resolve_span_in_region(4) [OF assms(1,4)] .
  have first: "(memory_id r, o') \<in> set ?ks" "(memory_id r, o') \<in> set (span_keys (acc_memory rc) (acc_offset rc) (int (length bs)))"
    using wd assms(5-7) by (auto simp: set_span_keys)
  then have "list_ex (slot_pending m) ?ks"
    using 1(4) by (auto simp: list_ex_iff)
  then have pending: "mem_read m a wd tid = Inl (InstructionNotReady ''online instruction slot awaits its source'')"
    using assms(3,4) by (simp add: mem_read_def check_instruction_ready_def Let_def)
  have "\<not> is_ok (accept_instructions m' a bs' ev')"
  proof (cases "resolve m a 4 False")
    case (Inl e)
    then have "resolve m' a 4 False = Inl e" using resolve_windows [OF 1(2)] by simp
    then show ?thesis by (cases "validate_instruction_bytes bs' (instruction_isa m')") (simp_all add: accept_instructions_def)
  next
    case (Inr ro)
    then obtain r2 o2 where ro: "resolve m a 4 False = Inr (r2, o2)" by (cases ro) simp
    then have "r2 = r" "o2 = o'" using assms(4) unfolding resolve_Inr by auto
    with accept_twice [OF assms(2)] ro first(2) show ?thesis by blast
  qed
  with pending accept_read [OF assms] accept_validates [OF assms(2)] show ?thesis
    by (simp add: validate_instruction_acceptance_def warm_reset_def cold_reset_def Let_def)
qed

text \<open>C10: A cold reset after any run restores exactly the preloaded image: each image byte has its
  preloaded value again with version 0 of the new generation, every byte outside the image is undetermined,
  and reserved instruction slots wait for their source again.\<close>

theorem cold_reset_restores:
  assumes "mem_inv m" and "preload m adr bs = Inr m1" and "resolve m adr 1 False = Inr (r, off)" and "i < length bs"
  shows "map_of (cells (cold_reset (foldl mem_step m1 cs))) (memory_id r, off + int i) =
      Some \<lparr>cell_value = bs ! i, cell_version = (generation (foldl mem_step m1 cs) + 1, 0),
        writer_kind = ''INITIAL_IMAGE'', writer_event_id = ''initial-image''\<rparr>
    \<and> (\<not> dict_has (initial_images (foldl mem_step m1 cs)) k \<longrightarrow> \<not> dict_has (cells (cold_reset (foldl mem_step m1 cs))) k
        \<and> (k \<in> instruction_slots (foldl mem_step m1 cs) \<longrightarrow> slot_pending (cold_reset (foldl mem_step m1 cs)) k))"
proof -
  let ?m = "foldl mem_step m1 cs"
  let ?ks = "span_keys (memory_id r) off (int (length bs))"
  have cell: "map_of (cells (cold_reset ?m)) k = map_option (\<lambda>b. \<lparr>cell_value = b, cell_version = (generation ?m + 1, 0),
      writer_kind = ''INITIAL_IMAGE'', writer_event_id = ''initial-image''\<rparr>) (map_of (initial_images ?m) k)" for k
    by (rule cold_reset_cells)
  have "initial_images m1 = dict_set_all (initial_images m) (zip ?ks bs)"
    using assms(2,3) by (auto simp: preload_Inr)
  moreover have d: "distinct (map fst (zip ?ks bs))" by simp
  moreover have "map_of (zip ?ks bs) (?ks ! i) = Some (bs ! i)"
    using assms(4) by (intro map_of_zip_nth) simp_all
  ultimately have "map_of (initial_images m1) (memory_id r, off + int i) = Some (bs ! i)"
    using assms(4) by (simp add: map_of_dict_set_all_distinct [OF d] nth_span_keys)
  moreover have "mem_le m1 ?m"
    using memory_machine.run_le preload_inv [OF assms(1,2)] by blast
  ultimately have "map_of (initial_images ?m) (memory_id r, off + int i) = Some (bs ! i)"
    by (simp add: mem_le_def)
  then show ?thesis
    by (auto simp: cell dict_has_def slot_pending_def) (simp add: cold_reset_def Let_def)
qed


section \<open>A concrete memory\<close>

text \<open>One region of 64 bytes with an alias.\<close>

definition ram_region :: memory_region where
  "ram_region = \<lparr>memory_id = ''ram'', region_base = 0x1000, region_size = 64, aliases = [0x2000], readable = True, writable = True\<rparr>"

definition ram :: memory where
  "ram = \<lparr>regions = [ram_region], windows = [(0x1000, 0x1040, ram_region), (0x2000, 0x2040, ram_region)],
     initialization_seed = 0, instruction_isa = None, max_initialized_bytes = 64, generation = 0, step_count = 0,
     cells = [], initial_images = [], instruction_slots = {}, commit_sequences = [(''ram'', 0)], issued = [], next_ref = 0\<rparr>"

lemma ram_made: "make_memory [ram_region] 0 64 None = Inr ram"
  by (simp add: make_memory_def mem_natural_def add_region_def add_window_def ram_region_def ram_def Let_def)

lemma ram_inv: "mem_inv ram"
  by (rule make_memory_inv [OF ram_made])

lemma ram_simps [simp]:
  "windows ram = [(0x1000, 0x1040, ram_region), (0x2000, 0x2040, ram_region)]" "cells ram = []"
  "initial_images ram = []" "instruction_slots ram = {}" "max_initialized_bytes ram = 64" "generation ram = 0"
  "commit_sequences ram = [(''ram'', 0)]" "instruction_isa ram = None" "next_ref ram = 0" "issued ram = []"
  by (simp_all add: ram_def)

lemma ram_resolve:
  "resolve ram 0x1000 4 True = Inr (ram_region, 0)" "resolve ram 0x2000 4 False = Inr (ram_region, 0)"
  "resolve ram 0x1000 4 False = Inr (ram_region, 0)" "resolve ram 0x1000 1 False = Inr (ram_region, 0)"
  by (simp_all add: resolve_def mem_natural_def MAX_ADDRESS_def in_window_def ram_region_def)

theorem memory_run_witness:
  "mem_inv (foldl mem_step ram [Read 0x1000 4 ''t'', Cold_reset]) \<and>
   mem_le (foldl mem_step ram [Read 0x1000 4 ''t'']) (foldl mem_step ram ([Read 0x1000 4 ''t''] @ [Cold_reset]))"
  using memory_run [OF ram_made, of "[Read 0x1000 4 ''t'', Cold_reset]" "[]"]
    memory_run [OF ram_made, of "[Read 0x1000 4 ''t'']" "[Cold_reset]"] by blast

theorem resolve_complete_witness:
  "resolve (foldl mem_step ram [Warm_reset]) 0x2008 4 True = Inr (ram_region, 8)"
  using resolve_complete [OF ram_made, where w = "(0x2000, 0x2040, ram_region)" and adr = "0x2008" and wd = 4 and wr = True
      and cs = "[Warm_reset]"]
  by (simp add: MAX_ADDRESS_def ram_region_def)

lemma ram_write:
  "\<exists>m'. mem_write ram 0x1000 0x01020304 4 15 ''store'' = Inr (Some (0, 1), m')"
  by (simp add: mem_write_def ram_resolve check_store_def mem_natural_def Let_def missing_keys_def enabled_lanes_def
      bit_lane_def upto.simps budget_def initialized_bytes_def next_version_def ram_region_def)

theorem write_effect_witness:
  "\<exists>m'. mem_write ram 0x1000 0x01020304 4 15 ''store'' = Inr (Some (0, 1), m')
     \<and> map_of (cells m') (''ram'', 2) = Some \<lparr>cell_value = 2, cell_version = (0, 1), writer_kind = ''STORE'', writer_event_id = ''store''\<rparr>"
proof -
  obtain m' where w: "mem_write ram 0x1000 0x01020304 4 15 ''store'' = Inr (Some (0, 1), m')"
    using ram_write by blast
  have "byte_lane 0x01020304 2 = 2" by (simp add: byte_lane_def)
  with w write_effect [OF ram_inv w ram_resolve(1), of "(''ram'', 2)"] show ?thesis
    by (simp add: ram_region_def bit_lane_def)
qed

theorem read_after_write_witness:
  "\<exists>m' s. mem_write ram 0x1000 0x01020304 4 15 ''store'' = Inr (Some (0, 1), m')
     \<and> mem_read m' 0x2000 4 ''load'' = Inr (s, m') \<and> snapshot_value s = 0x01020304"
proof -
  obtain m' where w: "mem_write ram 0x1000 0x01020304 4 15 ''store'' = Inr (Some (0, 1), m')"
    using ram_write by blast
  have "(2::int) ^ nat 4 - 1 = 15" by simp
  then show ?thesis
    using w read_after_write [OF ram_inv _ ram_resolve(1,2), where m' = m' and tid = "''load''"
      and x = "0x01020304" and ev = "''store''" and v = "(0, 1)"] by auto
qed

lemma ram_read: "\<exists>s m'. mem_read ram 0x1000 4 ''load'' = Inr (s, m')"
  by (simp add: mem_read_def ram_resolve Let_def missing_keys_def check_instruction_ready_def slot_pending_def list_ex_iff
      budget_def initialized_bytes_def next_version_def ram_region_def span_keys_def upto.simps dict_has_def)

theorem read_stable_witness:
  "\<exists>s m'. mem_read ram 0x1000 4 ''load'' = Inr (s, m')
     \<and> mem_read m' 0x1000 4 ''again'' = Inr (s\<lparr>transaction_id := ''again'', materialized_offsets := []\<rparr>, m')"
proof -
  obtain s m' where r: "mem_read ram 0x1000 4 ''load'' = Inr (s, m')" using ram_read by blast
  with read_stable [OF ram_inv r, of "''again''"] show ?thesis by auto
qed

theorem validation_exact_witness:
  "mem_read ram 0x1002 4 ''load'' = Inl (ValueError ''unaligned access'')
   \<and> validate_read ram 0x1002 4 = Inl (ValueError ''unaligned access'')"
proof -
  have "mem_read ram 0x1002 4 ''load'' = Inl (ValueError ''unaligned access'')"
    by (simp add: mem_read_def resolve_def mem_natural_def MAX_ADDRESS_def)
  with validation_exact [OF ram_inv, where ident = "''load''" and adr = "0x1002" and wd = 4] show ?thesis by simp
qed

lemma ram_slots:
  "\<exists>m. declare_instruction_slots ram 0x1000 1 = Inr m \<and> mem_inv m
     \<and> (\<exists>rc m'. accept_instructions m 0x1000 [0x13, 0, 0, 0] ''src'' = Inr (rc, m') \<and> acc_memory rc = ''ram'' \<and> acc_offset rc = 0)
     \<and> windows m = windows ram"
proof -
  let ?ks = "[(''ram'', 0), (''ram'', 1), (''ram'', 2), (''ram'', 3)]"
  let ?m = "ram\<lparr>instruction_slots := set ?ks\<rparr>"
  have ks: "span_keys ''ram'' 0 4 = ?ks" by (simp add: span_keys_def upto.simps)
  have d: "declare_instruction_slots ram 0x1000 1 = Inr ?m"
    by (simp add: declare_instruction_slots_def mem_natural_def ram_resolve Let_def ram_region_def ks dict_has_def)
  have v: "validate_instruction_bytes [0x13, 0, 0, 0] None = Inr ()"
    by (simp add: validate_instruction_bytes_def check_instruction_bytes_def check_word_def Let_def bits_arith)
  have "resolve ?m 0x1000 4 False = Inr (ram_region, 0)"
    using ram_resolve(3) resolve_windows [of ?m ram] by simp
  then have "\<exists>rc m'. accept_instructions ?m 0x1000 [0x13, 0, 0, 0] ''src'' = Inr (rc, m') \<and> acc_memory rc = ''ram'' \<and> acc_offset rc = 0"
    by (simp add: accept_instructions_def v Let_def ram_region_def ks dict_has_def budget_def initialized_bytes_def
        next_version_def acceptance_material_def put_cells_def)
  with d declare_inv [OF ram_inv d] show ?thesis by auto
qed

theorem instruction_admission_witness:
  "\<exists>m rc m'. declare_instruction_slots ram 0x1000 1 = Inr m
     \<and> accept_instructions m 0x1000 [0x13, 0, 0, 0] ''src'' = Inr (rc, m')
     \<and> mem_read m 0x2000 4 ''fetch'' = Inl (InstructionNotReady ''online instruction slot awaits its source'')
     \<and> (\<exists>s. mem_read m' 0x2000 4 ''fetch'' = Inr (s, m') \<and> snap_data s = [0x13, 0, 0, 0])"
proof -
  obtain m rc m' where d: "declare_instruction_slots ram 0x1000 1 = Inr m" "mem_inv m" "windows m = windows ram"
      and a: "accept_instructions m 0x1000 [0x13, 0, 0, 0] ''src'' = Inr (rc, m')" "acc_memory rc = ''ram''" "acc_offset rc = 0"
    using ram_slots by blast
  have "resolve m 0x2000 4 False = Inr (ram_region, 0)"
    using ram_resolve(2) resolve_windows [OF d(3)] by simp
  with instruction_admission [OF d(2) a(1), where tid = "''fetch''" and a = "0x2000" and wd = 4 and r = ram_region and o' = 0] d a show ?thesis
    by (fastforce simp: ram_region_def)
qed

theorem cold_reset_restores_witness:
  "\<exists>m1. preload ram 0x1000 [1, 2] = Inr m1 \<and>
     map_of (cells (cold_reset (foldl mem_step m1 [Write 0x1000 0xff 1 1 ''w'', Cold_reset]))) (''ram'', 0)
       = Some \<lparr>cell_value = 1, cell_version = (generation (foldl mem_step m1 [Write 0x1000 0xff 1 1 ''w'', Cold_reset]) + 1, 0),
           writer_kind = ''INITIAL_IMAGE'', writer_event_id = ''initial-image''\<rparr>"
proof -
  have "\<exists>m1. preload ram 0x1000 [1, 2] = Inr m1"
    by (simp add: preload_def ram_resolve Let_def ram_region_def span_keys_def upto.simps dict_has_def budget_def initialized_bytes_def)
  then obtain m1 where p: "preload ram 0x1000 [1, 2] = Inr m1" by blast
  with cold_reset_restores [OF ram_inv p ram_resolve(4), where i = 0
      and cs = "[Write 0x1000 0xff 1 1 ''w'', Cold_reset]"] show ?thesis
    by (simp add: ram_region_def)
qed

end
