(* ===== verification/Memory_Service.thy ===== *)
theory Memory_Service
  imports Memory Ledger
begin

text \<open>
  The memory service (\<open>scenario/memory_service.py\<close>): it commits CPU reads and stores into the
  persistent memory through the ledger, freezes each response at its commit, keeps the event log, and
  publishes committed stores in a bounded stream that its consumer acknowledges as a prefix.

  The service state carries memory and ledger. The callback handed to the ledger works on the service
  state; the ledger is put back afterwards. A frozen document, which the code keeps as sorted JSON
  bytes and parses on every lookup, is the JSON value those bytes encode (\<open>json_sorted\<close>). A write
  receipt carries its identity \<open>wr_ref\<close>. Reads of armed native sessions (the registries below
  line 294 of the file) are not modelled: no session is armed.
\<close>

section \<open>Model\<close>

record write_receipt =
  wr_ref :: int
  wr_key :: transaction_key
  wr_version :: "version option"
  wr_byte_enable :: int
  commit_json :: "json option"

definition commit_document :: "write_receipt \<Rightarrow> json res" where
  "commit_document rc = (case commit_json rc of
     None \<Rightarrow> Inl (ValueError ''write receipt has no measured commit document'') | Some d \<Rightarrow> Inr d)"

datatype service_receipt = Snapshot read_snapshot | Written write_receipt

record service =
  svc_memory :: memory
  svc_ledger :: "service_receipt ledger"
  include_writer_kinds :: bool
  svc_events :: "json list"
  commit_stream_capacity :: "int option"
  pending_commits :: "(string, write_receipt \<times> json \<times> json) dict"
  issued_receipt_ids :: "(int, string) dict"
  service_commit_sequence :: int
  commit_reserved :: int
  next_receipt :: int

definition make_service :: "memory \<Rightarrow> service_receipt ledger \<Rightarrow> bool \<Rightarrow> int option \<Rightarrow> service res" where
  "make_service m l kinds capacity =
     (if (case capacity of None \<Rightarrow> False | Some c \<Rightarrow> c < 1)
      then Inl (ValueError ''commit stream capacity must be a positive integer'')
      else Inr \<lparr>svc_memory = m, svc_ledger = l, include_writer_kinds = kinds, svc_events = [],
        commit_stream_capacity = capacity, pending_commits = [], issued_receipt_ids = [],
        service_commit_sequence = 0, commit_reserved = 0, next_receipt = 0\<rparr>)"

definition commit_stream_enabled :: "service \<Rightarrow> bool" where
  "commit_stream_enabled s = (commit_stream_capacity s \<noteq> None)"

definition pending_commit_count :: "service \<Rightarrow> int" where
  "pending_commit_count s = int (length (pending_commits s))"

definition stream_full :: "service \<Rightarrow> bool" where
  "stream_full s = (case commit_stream_capacity s of None \<Rightarrow> False
     | Some c \<Rightarrow> pending_commit_count s + commit_reserved s \<ge> c)"

definition lookup_pending_commit :: "service \<Rightarrow> string \<Rightarrow> (write_receipt \<times> json) res" where
  "lookup_pending_commit s cid = (case map_of (pending_commits s) cid of
     None \<Rightarrow> Inl (ValueError ''commit was not issued or has been acknowledged'')
   | Some (rc, frozen, event) \<Rightarrow>
       (case map_of (entries (svc_ledger s)) (wr_key rc) of
          None \<Rightarrow> Inl (RuntimeError ''issued commit no longer matches the completed callback receipt'')
        | Some e \<Rightarrow>
            if status e \<noteq> complete \<or> receipt e \<noteq> Some (Written rc) \<or> commit_json rc \<noteq> Some frozen
            then Inl (RuntimeError ''issued commit no longer matches the completed callback receipt'')
            else Inr (rc, event)))"

definition lookup_issued_write_commit :: "service \<Rightarrow> write_receipt \<Rightarrow> json res" where
  "lookup_issued_write_commit s rc = (case map_of (issued_receipt_ids s) (wr_ref rc) of
     None \<Rightarrow> Inl (ValueError ''receipt was not issued or has been acknowledged'')
   | Some cid \<Rightarrow> res_bind (lookup_pending_commit s cid) (\<lambda>(actual, event).
       if wr_ref actual \<noteq> wr_ref rc then Inl (ValueError ''receipt is not the actual issued callback object'')
       else Inr event))"

definition drain_commit_events :: "service \<Rightarrow> int option \<Rightarrow> json list res" where
  "drain_commit_events s limit =
     (if (case limit of None \<Rightarrow> False | Some n \<Rightarrow> n < 1) then Inl (ValueError ''drain limit must be a positive integer'')
      else (let ids = map fst (pending_commits s);
                ids' = (case limit of None \<Rightarrow> ids | Some n \<Rightarrow> take (nat n) ids) in
        res_bind (map_res (lookup_pending_commit s) ids') (\<lambda>rows. Inr (map snd rows))))"

text \<open>\<open>del\<close> of an absent identity would raise after earlier prefix entries were released.\<close>

fun release_commits :: "service \<Rightarrow> string list \<Rightarrow> unit res \<times> service" where
  "release_commits s [] = (Inr (), s)"
| "release_commits s (cid # cids) = (case map_of (pending_commits s) cid of
     None \<Rightarrow> (Inl (KeyError cid), s)
   | Some (rc, _, _) \<Rightarrow>
       (let s1 = s\<lparr>pending_commits := dict_del (pending_commits s) cid\<rparr> in
        if dict_has (issued_receipt_ids s) (wr_ref rc)
        then release_commits (s1\<lparr>issued_receipt_ids := dict_del (issued_receipt_ids s) (wr_ref rc)\<rparr>) cids
        else (Inl (KeyError (int_dec (wr_ref rc))), s1)))"

definition ack_commit_events :: "service \<Rightarrow> string list \<Rightarrow> unit res \<times> service" where
  "ack_commit_events s cids =
     (if cids \<noteq> take (length cids) (map fst (pending_commits s))
      then (Inl (ValueError ''ack must name the exact pending commit prefix''), s)
      else release_commits s cids)"

definition service_accept_instructions :: "service \<Rightarrow> int \<Rightarrow> bytes \<Rightarrow> string \<Rightarrow> instruction_acceptance res \<times> service" where
  "service_accept_instructions s adr bs ev = (case accept_instructions (svc_memory s) adr bs ev of
     Inl e \<Rightarrow> (Inl e, s)
   | Inr (rc, m') \<Rightarrow>
       (case validate_instruction_acceptance m' rc of
          Inl e \<Rightarrow> (Inl e, s\<lparr>svc_memory := m'\<rparr>)
        | Inr _ \<Rightarrow> (Inr rc, s\<lparr>svc_memory := m', svc_events := svc_events s @
            [JObj [(''kind'', JStr ''instruction_source''), (''address'', JInt adr), (''data_hex'', JStr (bytes_hex bs)),
                   (''source_event_id'', JStr ev), (''generation'', JInt (generation m'))]]\<rparr>)))"

definition version_json :: "version \<Rightarrow> json" where
  "version_json v = JList [JInt (fst v), JInt (snd v)]"

definition initialization_event :: "transaction_key \<Rightarrow> read_snapshot \<Rightarrow> int \<Rightarrow> json" where
  "initialization_event key snap off =
     (let lane = nat (off - snap_offset snap) in
      JObj [(''kind'', JStr ''memory_initialization''), (''transaction'', key_document key),
        (''memory_id'', JStr (snap_memory snap)), (''generation'', JInt (snap_generation snap)),
        (''byte_offset'', JInt off), (''value'', JInt (uint (snap_data snap ! lane))),
        (''version'', version_json (versions snap ! lane)),
        (''writer_event_id'', JStr (writer_event_ids snap ! lane))])"

definition read_event :: "bool \<Rightarrow> transaction_key \<Rightarrow> int \<Rightarrow> int \<Rightarrow> read_snapshot \<Rightarrow> json" where
  "read_event kinds key adr wd snap =
     JObj ([(''kind'', JStr ''memory_read''), (''transaction'', key_document key), (''address'', JInt adr),
       (''width_bytes'', JInt wd), (''memory_id'', JStr (snap_memory snap)), (''generation'', JInt (snap_generation snap)),
       (''byte_offset'', JInt (snap_offset snap)), (''value'', JInt (snapshot_value snap)),
       (''data_hex'', JStr (bytes_hex (snap_data snap))), (''versions'', JList (map version_json (versions snap))),
       (''writer_event_ids'', JList (map JStr (writer_event_ids snap)))]
       @ (if kinds then [(''writer_kinds'', JList (map JStr (writer_kinds snap)))] else []))"

definition read_payload :: "int \<Rightarrow> int \<Rightarrow> json" where
  "read_payload adr wd = JObj [(''op'', JStr ''read''), (''address'', JInt adr), (''width_bytes'', JInt wd)]"

definition read_commit :: "transaction_key \<Rightarrow> int \<Rightarrow> int \<Rightarrow> service \<Rightarrow> service_receipt res \<times> service" where
  "read_commit key adr wd s = (case mem_read (svc_memory s) adr wd (key_str key) of
     Inl e \<Rightarrow> (Inl e, s)
   | Inr (snap, m') \<Rightarrow> (Inr (Snapshot snap), s\<lparr>svc_memory := m', svc_events := svc_events s
       @ map (initialization_event key snap) (materialized_offsets snap)
       @ [read_event (include_writer_kinds s) key adr wd snap]\<rparr>))"

definition service_read :: "service \<Rightarrow> transaction_key \<Rightarrow> int \<Rightarrow> int \<Rightarrow> service_receipt option res \<times> service" where
  "service_read s key adr wd = (case validate_read (svc_memory s) adr wd of
     Inl e \<Rightarrow> (Inl e, s)
   | Inr _ \<Rightarrow> (case execute_once (svc_ledger s) key (read_payload adr wd) (read_commit key adr wd) s of
       (r, l', s') \<Rightarrow> (r, s'\<lparr>svc_ledger := l'\<rparr>)))"

definition complete_key :: "transaction_key \<Rightarrow> bool" where
  "complete_key key = (execution_id key \<noteq> [] \<and> testcase_id key \<noteq> [] \<and> source_component key \<noteq> [] \<and> channel_id key \<noteq> []
     \<and> 0 \<le> source_epoch key \<and> source_epoch key < push_bit 64 1
     \<and> 0 \<le> source_sequence key \<and> source_sequence key < push_bit 64 1)"

definition write_payload :: "int \<Rightarrow> int \<Rightarrow> int \<Rightarrow> int \<Rightarrow> json" where
  "write_payload adr x wd be = JObj [(''op'', JStr ''write''), (''address'', JInt adr), (''value'', JInt x),
     (''width_bytes'', JInt wd), (''byte_enable'', JInt be)]"

definition typed_version :: "version \<Rightarrow> bool" where
  "typed_version v = (0 \<le> fst v \<and> fst v < push_bit 64 1 \<and> 0 \<le> snd v \<and> snd v < push_bit 64 1)"

definition check_outcome :: "memory \<Rightarrow> string \<Rightarrow> int \<Rightarrow> int \<Rightarrow> version option \<Rightarrow> unit res" where
  "check_outcome m mid gen be v =
     (let conflict = RuntimeError ''host memory write outcome conflicts with commit'' in
      if be = 0 then check (v = None) conflict
      else (case v of None \<Rightarrow> Inl conflict
        | Some u \<Rightarrow>
            if \<not> typed_version u \<or> fst u \<noteq> gen then Inl conflict
            else (case map_of (commit_sequences m) mid of
                None \<Rightarrow> Inl (KeyError mid)
              | Some q \<Rightarrow> check (\<not> (snd u \<noteq> q \<or> snd u = 0)) conflict)))"

definition committed_cell :: "memory \<Rightarrow> transaction_key \<Rightarrow> string \<Rightarrow> int \<Rightarrow> int \<Rightarrow> version option \<Rightarrow> int \<Rightarrow> json res" where
  "committed_cell m key mid off x v lane = (case map_of (cells m) (mid, off + lane) of
     None \<Rightarrow> Inl (KeyError (''('' @ py_repr mid @ '', '' @ int_dec (off + lane) @ '')''))
   | Some c \<Rightarrow>
       if \<not> typed_version (cell_version c) \<or> Some (cell_version c) \<noteq> v \<or> writer_kind c \<noteq> ''STORE''
          \<or> writer_event_id c \<noteq> key_str key \<or> cell_value c \<noteq> byte_lane x lane
       then Inl (RuntimeError ''host memory write outcome conflicts with commit'')
       else Inr (JObj [(''byte_offset'', JInt (off + lane)), (''value'', JInt (uint (cell_value c))),
         (''version'', version_json (cell_version c)), (''writer_kind'', JStr (writer_kind c)),
         (''writer_event_id'', JStr (writer_event_id c))]))"

definition commit_facts :: "transaction_key \<Rightarrow> string \<Rightarrow> int \<Rightarrow> int \<Rightarrow> int \<Rightarrow> int \<Rightarrow> version option \<Rightarrow> string \<Rightarrow> json list
    \<Rightarrow> (string \<times> json) list" where
  "commit_facts key mid gen off wd be v dig cs =
     [(''schema_version'', JStr ''memory_write_commit_receipt.v1''), (''fullkey'', key_document key),
      (''memory_kind'', JStr ''modeled_host_persistent_memory''), (''memory_id'', JStr mid), (''generation'', JInt gen),
      (''byte_offset'', JInt off), (''width_bytes'', JInt wd), (''byte_enable'', JInt be),
      (''version'', case v of None \<Rightarrow> JNull | Some u \<Rightarrow> version_json u), (''payload_sha256'', JStr dig),
      (''commit_status'', JStr ''complete''), (''performed_effect'', JBool (v \<noteq> None)), (''enabled_byte_cells'', JList cs)]"

definition commit_id_of :: "(string \<times> json) list \<Rightarrow> string" where
  "commit_id_of facts = sha256_hex (string_bytes (json_dumps_ascii (JObj facts)))"

definition write_event :: "transaction_key \<Rightarrow> int \<Rightarrow> int \<Rightarrow> string \<Rightarrow> int \<Rightarrow> int \<Rightarrow> int \<Rightarrow> int \<Rightarrow> version option \<Rightarrow> json" where
  "write_event key adr wd mid gen off x be v =
     JObj [(''kind'', JStr ''memory_write''), (''transaction'', key_document key), (''address'', JInt adr),
       (''width_bytes'', JInt wd), (''memory_id'', JStr mid), (''generation'', JInt gen), (''byte_offset'', JInt off),
       (''value'', JInt x), (''byte_enable'', JInt be),
       (''version'', case v of None \<Rightarrow> JNull | Some u \<Rightarrow> version_json u)]"

text \<open>The callback's world: the service, whether a stream slot was reserved, and the receipt made.\<close>

type_synonym write_world = "service \<times> bool \<times> write_receipt option"

definition reserve_slot :: "write_world \<Rightarrow> unit res \<times> write_world" where
  "reserve_slot w = (case w of (s, reserved, actual) \<Rightarrow>
     if \<not> commit_stream_enabled s then (Inr (), w)
     else if stream_full s then (Inl (RuntimeError ''memory commit stream capacity exceeded before effect''), w)
     else (Inr (), s\<lparr>commit_reserved := commit_reserved s + 1\<rparr>, True, actual))"

definition store_commit :: "transaction_key \<Rightarrow> int \<Rightarrow> int \<Rightarrow> int \<Rightarrow> int \<Rightarrow> write_world \<Rightarrow> service_receipt res \<times> write_world" where
  "store_commit key adr x wd be w = (case w of (s, reserved, actual) \<Rightarrow>
     case resolve_span (svc_memory s) adr wd True of Inl e \<Rightarrow> (Inl e, w)
     | Inr (mid, gen, off) \<Rightarrow>
       (case mem_write (svc_memory s) adr x wd be (key_str key) of Inl e \<Rightarrow> (Inl e, w)
        | Inr (v, m') \<Rightarrow>
          (let s2 = s\<lparr>svc_memory := m'\<rparr>; w2 = (s2, reserved, actual) in
           case resolve m' adr wd True of Inl e \<Rightarrow> (Inl e, w2)
           | Inr (r, off') \<Rightarrow>
             if mid = [] \<or> \<not> (0 \<le> gen \<and> gen < push_bit 64 1) \<or> \<not> (0 \<le> off \<and> off < push_bit 64 1)
                \<or> mid \<noteq> memory_id r \<or> off \<noteq> off' \<or> gen \<noteq> generation m'
             then (Inl (RuntimeError ''host memory span identity conflicts with commit''), w2)
             else (case res_bind (check_outcome m' mid gen be v) (\<lambda>_.
                     res_bind (map_res (committed_cell m' key mid off x v) (enabled_lanes wd be)) (\<lambda>cs.
                     res_bind (digest (write_payload adr x wd be)) (\<lambda>dig. Inr (cs, dig)))) of
                 Inl e \<Rightarrow> (Inl e, w2)
               | Inr (cs, dig) \<Rightarrow>
                 (let facts = commit_facts key mid gen off wd be v dig cs;
                      frozen = json_sorted (JObj (facts @ [(''commit_id'', JStr (commit_id_of facts))]));
                      rc = \<lparr>wr_ref = next_receipt s, wr_key = key, wr_version = v, wr_byte_enable = be, commit_json = Some frozen\<rparr>
                  in (Inr (Written rc), s2\<lparr>svc_events := svc_events s2 @ [write_event key adr wd mid gen off x be v],
                        next_receipt := next_receipt s + 1\<rparr>, reserved, Some rc))))))"

definition write_commit :: "transaction_key \<Rightarrow> int \<Rightarrow> int \<Rightarrow> int \<Rightarrow> int \<Rightarrow> write_world \<Rightarrow> service_receipt res \<times> write_world" where
  "write_commit key adr x wd be w = (case reserve_slot w of
     (Inl e, w1) \<Rightarrow> (Inl e, w1)
   | (Inr _, w1) \<Rightarrow> store_commit key adr x wd be w1)"

definition json_field :: "json \<Rightarrow> string \<Rightarrow> json res" where
  "json_field d k = (case d of JObj kvs \<Rightarrow> (case map_of kvs k of None \<Rightarrow> Inl (KeyError k) | Some v \<Rightarrow> Inr v)
     | _ \<Rightarrow> Inl (TypeError ''not subscriptable''))"

definition commit_event :: "int \<Rightarrow> transaction_key \<Rightarrow> string \<Rightarrow> json \<Rightarrow> json" where
  "commit_event n key cid frozen = json_sorted (JObj [(''kind'', JStr ''memory_write_commit''),
     (''schema_version'', JStr ''memory_write_commit.v1''), (''service_commit_sequence'', JInt n),
     (''transaction'', key_document key), (''commit_id'', JStr cid), (''commit_document'', frozen)])"

definition publish :: "service \<Rightarrow> transaction_key \<Rightarrow> write_receipt \<Rightarrow> service_receipt option \<Rightarrow> unit res \<times> service" where
  "publish s key rc result =
     (case map_of (entries (svc_ledger s)) key of
        None \<Rightarrow> (Inl (RuntimeError ''memory commit publication requires actual completed callback''), s)
      | Some e \<Rightarrow>
        if status e \<noteq> complete \<or> receipt e \<noteq> Some (Written rc) \<or> result \<noteq> Some (Written rc)
        then (Inl (RuntimeError ''memory commit publication requires actual completed callback''), s)
        else (case commit_json rc of
            None \<Rightarrow> (Inl (RuntimeError ''memory commit publication requires actual completed callback''), s)
          | Some frozen \<Rightarrow>
            (case json_field frozen ''commit_id'' of
               Inr (JStr cid) \<Rightarrow>
                 (let n = service_commit_sequence s + 1;
                      event = commit_event n key cid frozen
                  in (Inr (), s\<lparr>service_commit_sequence := n,
                        pending_commits := dict_set (pending_commits s) cid (rc, frozen, event),
                        issued_receipt_ids := dict_set (issued_receipt_ids s) (wr_ref rc) cid\<rparr>))
             | _ \<Rightarrow> (Inl (KeyError ''commit_id''), s))))"

text \<open>After the ledger call: a completed callback is published, and the reserved slot is given back on
  every path (the \<open>finally\<close> of the method).\<close>

definition finish_write :: "transaction_key \<Rightarrow> service_receipt option res \<Rightarrow> service_receipt ledger \<Rightarrow> write_world
    \<Rightarrow> service_receipt option res \<times> service" where
  "finish_write key r l' w = (case w of (s', reserved, actual) \<Rightarrow>
     (let s1 = s'\<lparr>svc_ledger := l'\<rparr>;
          (r2, s2) = (case (r, actual) of
              (Inr result, Some rc) \<Rightarrow>
                if commit_stream_enabled s1
                then (case publish s1 key rc result of (Inl e, s2) \<Rightarrow> (Inl e, s2) | (Inr _, s2) \<Rightarrow> (r, s2))
                else (r, s1)
            | _ \<Rightarrow> (r, s1))
      in (r2, if reserved then s2\<lparr>commit_reserved := commit_reserved s2 - 1\<rparr> else s2)))"

definition service_write :: "service \<Rightarrow> transaction_key \<Rightarrow> int \<Rightarrow> int \<Rightarrow> int \<Rightarrow> int \<Rightarrow> service_receipt option res \<times> service" where
  "service_write s key adr x wd be =
     (if \<not> complete_key key then (Inl (ValueError ''write requires a complete typed transaction key''), s)
      else case validate_write (svc_memory s) adr x wd be of Inl e \<Rightarrow> (Inl e, s)
      | Inr _ \<Rightarrow>
        if commit_stream_enabled s \<and> \<not> dict_has (entries (svc_ledger s)) key \<and> stream_full s
        then (Inl (RuntimeError ''memory commit stream capacity exceeded before effect''), s)
        else (case execute_once (svc_ledger s) key (write_payload adr x wd be) (write_commit key adr x wd be) (s, False, None) of
          (r, l', w) \<Rightarrow> finish_write key r l' w))"

section \<open>The store callback\<close>

lemma map_of_sort_key: "distinct (map fst kvs) \<Longrightarrow> map_of (sort_key fst kvs) = map_of kvs"
  by (rule map_of_inject_set [THEN iffD2])
    (simp_all add: distinct_map inj_on_def)

lemma json_field_sorted:
  assumes "distinct (map fst kvs)" and "map_of kvs k = Some (JStr x)"
  shows "json_field (json_sorted (JObj kvs)) k = Inr (JStr x)"
proof -
  have "map_of (map (\<lambda>kv. (fst kv, json_sorted (snd kv))) kvs) k = Some (JStr x)"
    using assms(2) map_of_map_values [of json_sorted kvs k] by simp
  moreover have "distinct (map fst (map (\<lambda>kv. (fst kv, json_sorted (snd kv))) kvs))"
    using assms(1) by (simp add: comp_def)
  ultimately show ?thesis by (simp add: json_field_def map_of_sort_key)
qed

definition stored_receipt :: "service \<Rightarrow> transaction_key \<Rightarrow> write_receipt \<Rightarrow> bool" where
  "stored_receipt s key rc \<longleftrightarrow> wr_key rc = key \<and> wr_ref rc = next_receipt s
     \<and> (\<exists>frozen cid. commit_json rc = Some frozen \<and> json_field frozen ''commit_id'' = Inr (JStr cid))"

definition same_stream :: "service \<Rightarrow> service \<Rightarrow> bool" where
  "same_stream s s' \<longleftrightarrow> svc_ledger s' = svc_ledger s \<and> pending_commits s' = pending_commits s
     \<and> issued_receipt_ids s' = issued_receipt_ids s \<and> commit_stream_capacity s' = commit_stream_capacity s
     \<and> service_commit_sequence s' = service_commit_sequence s \<and> include_writer_kinds s' = include_writer_kinds s
     \<and> commit_reserved s' = commit_reserved s"

lemma commit_facts_id:
  "json_field (json_sorted (JObj (commit_facts key mid gen off wd be v dig cs @ [(''commit_id'', JStr cid)]))) ''commit_id'' = Inr (JStr cid)"
  by (rule json_field_sorted) (simp_all add: commit_facts_def)

definition committed :: "memory \<Rightarrow> transaction_key \<Rightarrow> string \<Rightarrow> int \<Rightarrow> int \<Rightarrow> int \<Rightarrow> int \<Rightarrow> int \<Rightarrow> version option \<Rightarrow> int
    \<Rightarrow> (json list \<times> string) res" where
  "committed m' key mid gen off x wd be v adr = res_bind (check_outcome m' mid gen be v) (\<lambda>_.
     res_bind (map_res (committed_cell m' key mid off x v) (enabled_lanes wd be)) (\<lambda>cs.
     res_bind (digest (write_payload adr x wd be)) (\<lambda>dig. Inr (cs, dig))))"

lemma store_commit_frame:
  assumes "store_commit key adr x wd be (s, reserved, actual) = (r, s', reserved', actual')"
  shows "reserved' = reserved \<and> same_stream s s'
    \<and> (svc_memory s' = svc_memory s \<or> (\<exists>v. mem_write (svc_memory s) adr x wd be (key_str key) = Inr (v, svc_memory s')))
    \<and> (case r of Inl e \<Rightarrow> actual' = actual \<and> next_receipt s' = next_receipt s
       | Inr y \<Rightarrow> \<exists>rc. y = Written rc \<and> actual' = Some rc \<and> stored_receipt s key rc \<and> next_receipt s' = next_receipt s + 1
           \<and> (\<exists>v. mem_write (svc_memory s) adr x wd be (key_str key) = Inr (v, svc_memory s') \<and> wr_version rc = v))"
    (is "?P r s' reserved' actual'")
proof -
  have fail: "?P (Inl e) s reserved actual" for e by (simp add: same_stream_def)
  have late: "?P (Inl e) (s\<lparr>svc_memory := m'\<rparr>) reserved actual"
    if "mem_write (svc_memory s) adr x wd be (key_str key) = Inr (v, m')" for e v m'
    using that by (simp add: same_stream_def)
  show ?thesis
  proof (cases "resolve_span (svc_memory s) adr wd True")
    case (Inl e)
    with assms fail [of e] show ?thesis by (auto simp: store_commit_def)
  next
    case (Inr span)
    obtain mid gen off where span: "resolve_span (svc_memory s) adr wd True = Inr (mid, gen, off)"
      using Inr by (cases span) auto
    show ?thesis
    proof (cases "mem_write (svc_memory s) adr x wd be (key_str key)")
      case (Inl e)
      with assms span fail [of e] show ?thesis by (auto simp: store_commit_def)
    next
      case (Inr vm)
      obtain v m' where w: "mem_write (svc_memory s) adr x wd be (key_str key) = Inr (v, m')"
        using Inr by (cases vm) auto
      show ?thesis
      proof (cases "committed m' key mid gen off x wd be v adr")
        case (Inl e)
        with assms span w late [OF w] show ?thesis
          by (auto simp: store_commit_def Let_def committed_def split: sum.splits if_splits)
      next
        case (Inr cd)
        obtain cs dig where "committed m' key mid gen off x wd be v adr = Inr (cs, dig)"
          using Inr by (cases cd) auto
        with assms span w late [OF w] show ?thesis
          unfolding committed_def
          by (auto simp add: store_commit_def Let_def same_stream_def stored_receipt_def commit_facts_id
              simp del: json_sorted.simps res_bind_eq_Inr split: sum.splits if_splits)
      qed
    qed
  qed
qed


section \<open>The service as a machine\<close>

definition commit_ok :: "service \<Rightarrow> string \<Rightarrow> write_receipt \<Rightarrow> json \<Rightarrow> bool" where
  "commit_ok s cid rc frozen \<longleftrightarrow> commit_json rc = Some frozen \<and> map_of (issued_receipt_ids s) (wr_ref rc) = Some cid
     \<and> (\<exists>e. map_of (entries (svc_ledger s)) (wr_key rc) = Some e \<and> status e = complete \<and> receipt e = Some (Written rc))"

definition capacity_ok :: "service \<Rightarrow> bool" where
  "capacity_ok s \<longleftrightarrow> (case commit_stream_capacity s of None \<Rightarrow> pending_commits s = []
     | Some c \<Rightarrow> 1 \<le> c \<and> pending_commit_count s \<le> c)"

definition stream_inv :: "service \<Rightarrow> bool" where
  "stream_inv s \<longleftrightarrow> capacity_ok s \<and> commit_reserved s = 0 \<and> dict_wf (pending_commits s)
     \<and> (\<forall>cid rc frozen ev. map_of (pending_commits s) cid = Some (rc, frozen, ev) \<longrightarrow> commit_ok s cid rc frozen)
     \<and> (\<forall>ref cid. map_of (issued_receipt_ids s) ref = Some cid \<longrightarrow> ref < next_receipt s)"

definition service_inv :: "service \<Rightarrow> bool" where
  "service_inv s \<longleftrightarrow> mem_inv (svc_memory s) \<and> ledger_inv (svc_ledger s) \<and> stream_inv s"

text \<open>What later calls keep: the memory moves forward within its generation, completed transactions stay.\<close>

definition service_le :: "service \<Rightarrow> service \<Rightarrow> bool" where
  "service_le s s' \<longleftrightarrow> mem_le (svc_memory s) (svc_memory s') \<and> generation (svc_memory s') = generation (svc_memory s)
     \<and> ledger_le (svc_ledger s, []) (svc_ledger s', [])"


lemma stream_inv_mono:
  assumes "stream_inv s" and "pending_commits s' = pending_commits s" "issued_receipt_ids s' = issued_receipt_ids s"
    "commit_stream_capacity s' = commit_stream_capacity s" "commit_reserved s' = 0" "next_receipt s \<le> next_receipt s'"
    "ledger_le (svc_ledger s, []) (svc_ledger s', [])"
  shows "stream_inv s'"
proof -
  have ok: "commit_ok s' cid rc frozen" if c: "commit_ok s cid rc frozen" for cid rc frozen
  proof -
    obtain e where "map_of (entries (svc_ledger s)) (wr_key rc) = Some e" "status e = complete" "receipt e = Some (Written rc)"
      using c by (auto simp: commit_ok_def)
    moreover from this have "map_of (entries (svc_ledger s')) (wr_key rc) = Some e"
      using ledger_le_complete [OF assms(7)] by simp
    ultimately show ?thesis using c assms(3) by (simp add: commit_ok_def)
  qed
  have "capacity_ok s'"
    using assms(1,2,4) by (simp add: stream_inv_def capacity_ok_def pending_commit_count_def split: option.splits)
  moreover have "ref < next_receipt s'" if "map_of (issued_receipt_ids s') ref = Some cid" for ref cid
    using that assms(1,3,6) unfolding stream_inv_def by (metis order_less_le_trans)
  ultimately show ?thesis
    using assms(1,2,5) ok unfolding stream_inv_def by simp
qed

lemma service_le_refl: "service_le s s"
  by (simp add: service_le_def mem_le_refl ledger_le_refl)

lemma service_le_trans: "service_le s t \<Longrightarrow> service_le t u \<Longrightarrow> service_le s u"
  unfolding service_le_def using mem_le_trans ledger_le_trans by metis

lemma read_generation: "mem_read m adr wd tid = Inr (snap, m') \<Longrightarrow> generation m' = generation m"
  by (erule mem_readE) (auto simp: next_version_Inr)

lemma write_generation: "mem_write m adr x wd be ev = Inr (v, m') \<Longrightarrow> generation m' = generation m"
  by (erule mem_writeE) (auto simp: next_version_Inr)

lemma admit_generation: "accept_instructions m adr bs ev = Inr (rc, m') \<Longrightarrow> generation m' = generation m"
  by (erule acceptE) (auto simp: next_version_Inr)

lemma read_commit_frame:
  assumes "read_commit key adr wd s = (r, s')"
  shows "(\<exists>ev m'. s' = s\<lparr>svc_memory := m', svc_events := ev\<rparr>
      \<and> (m' = svc_memory s \<or> (\<exists>snap. mem_read (svc_memory s) adr wd (key_str key) = Inr (snap, m'))))
    \<and> (\<forall>x. r = Inr x \<longrightarrow> (\<exists>snap. x = Snapshot snap \<and> mem_read (svc_memory s) adr wd (key_str key) = Inr (snap, svc_memory s')))"
proof (cases "mem_read (svc_memory s) adr wd (key_str key)")
  case (Inl e)
  with assms have "s' = s\<lparr>svc_memory := svc_memory s, svc_events := svc_events s\<rparr>" "r = Inl e"
    by (auto simp: read_commit_def)
  then show ?thesis by blast
next
  case (Inr sm)
  with assms show ?thesis by (cases sm) (auto simp: read_commit_def)
qed

lemma service_read_ok:
  assumes "service_inv s" and "service_read s key adr wd = (r, s')"
  shows "service_inv s' \<and> service_le s s'"
proof (cases "validate_read (svc_memory s) adr wd")
  case (Inl e)
  with assms show ?thesis by (simp add: service_read_def service_le_refl)
next
  case (Inr u)
  obtain l' s1 where ex: "execute_once (svc_ledger s) key (read_payload adr wd) (read_commit key adr wd) s = (r, l', s1)"
      and s': "s' = s1\<lparr>svc_ledger := l'\<rparr>"
    using assms(2) Inr by (auto simp: service_read_def split: prod.splits)
  have l: "ledger_inv l'" "ledger_le (svc_ledger s, []) (l', [])"
    using execute_once_inv [of "svc_ledger s" key "read_payload adr wd" "read_commit key adr wd" s]
      execute_once_le [of "svc_ledger s" "[]" key "read_payload adr wd" "read_commit key adr wd" s "[]"] assms(1)
    by (simp_all add: ex service_inv_def)
  have "s1 = s \<or> (\<exists>y. read_commit key adr wd s = (y, s1))"
    using ex by (cases rule: execute_onceE) auto
  then obtain ev m' where s1: "s1 = s\<lparr>svc_memory := m', svc_events := ev\<rparr>"
      and m': "m' = svc_memory s \<or> (\<exists>snap. mem_read (svc_memory s) adr wd (key_str key) = Inr (snap, m'))"
  proof (elim disjE exE)
    assume "s1 = s"
    then have "s1 = s\<lparr>svc_memory := svc_memory s, svc_events := svc_events s\<rparr>" by simp
    then show thesis by (rule that) simp
  next
    fix y assume "read_commit key adr wd s = (y, s1)"
    from read_commit_frame [OF this] show thesis using that by blast
  qed
  have m: "mem_inv m' \<and> mem_le (svc_memory s) m' \<and> generation m' = generation (svc_memory s)"
    using m' assms(1) mem_read_inv read_generation by (auto simp: service_inv_def mem_le_refl)
  moreover have "stream_inv s'"
    by (rule stream_inv_mono [of s]) (use assms(1) l in \<open>auto simp: s' s1 service_inv_def stream_inv_def\<close>)
  ultimately show ?thesis
    using l by (auto simp: service_inv_def service_le_def s' s1)
qed


lemma write_commit_frame:
  assumes "write_commit key adr x wd be (s, False, None) = (r, s1, reserved, actual)"
  shows "same_stream s (s1\<lparr>commit_reserved := commit_reserved s\<rparr>)
    \<and> commit_reserved s1 = commit_reserved s + (if reserved then 1 else 0)
    \<and> (svc_memory s1 = svc_memory s \<or> (\<exists>v. mem_write (svc_memory s) adr x wd be (key_str key) = Inr (v, svc_memory s1)))
    \<and> (case r of Inl e \<Rightarrow> actual = None \<and> next_receipt s1 = next_receipt s
       | Inr y \<Rightarrow> (commit_stream_enabled s \<longrightarrow> \<not> stream_full s) \<and> (\<exists>rc. y = Written rc \<and> actual = Some rc \<and> stored_receipt s key rc
           \<and> next_receipt s1 = next_receipt s + 1
           \<and> (\<exists>v. mem_write (svc_memory s) adr x wd be (key_str key) = Inr (v, svc_memory s1) \<and> wr_version rc = v)))"
proof (cases "commit_stream_enabled s")
  case False
  then have "store_commit key adr x wd be (s, False, None) = (r, s1, reserved, actual)"
    using assms by (simp add: write_commit_def reserve_slot_def)
  from store_commit_frame [OF this] False show ?thesis
    by (auto simp: same_stream_def split: sum.splits)
next
  case True
  show ?thesis
  proof (cases "stream_full s")
    case full: True
    with True assms show ?thesis by (auto simp: write_commit_def reserve_slot_def same_stream_def)
  next
    case False
    then have "store_commit key adr x wd be (s\<lparr>commit_reserved := commit_reserved s + 1\<rparr>, True, None) = (r, s1, reserved, actual)"
      using assms True by (simp add: write_commit_def reserve_slot_def)
    from store_commit_frame [OF this] False show ?thesis
      by (auto simp: same_stream_def stored_receipt_def split: sum.splits)
  qed
qed

text \<open>The entry of the \<open>n\<close>th published commit.\<close>

definition receipt_commit_id :: "write_receipt \<Rightarrow> string" where
  "receipt_commit_id rc = (case json_field (the (commit_json rc)) ''commit_id'' of Inr (JStr cid) \<Rightarrow> cid | _ \<Rightarrow> [])"

definition published_entry :: "int \<Rightarrow> write_receipt \<Rightarrow> string \<times> write_receipt \<times> json \<times> json" where
  "published_entry n rc = (receipt_commit_id rc, rc, the (commit_json rc), commit_event n (wr_key rc) (receipt_commit_id rc) (the (commit_json rc)))"

definition append_commit :: "service \<Rightarrow> write_receipt \<Rightarrow> (string, write_receipt \<times> json \<times> json) dict" where
  "append_commit s rc = (case published_entry (service_commit_sequence s + 1) rc of (cid, e) \<Rightarrow> dict_set (pending_commits s) cid e)"

lemma publish_Inr:
  assumes "map_of (entries (svc_ledger s)) key = Some e" and "status e = complete" and "receipt e = Some (Written rc)" and "wr_key rc = key"
    and "commit_json rc = Some frozen" and "json_field frozen ''commit_id'' = Inr (JStr cid)"
  shows "publish s key rc (Some (Written rc)) = (Inr (), s\<lparr>service_commit_sequence := service_commit_sequence s + 1,
     pending_commits := dict_set (pending_commits s) cid (rc, frozen, commit_event (service_commit_sequence s + 1) key cid frozen),
     issued_receipt_ids := dict_set (issued_receipt_ids s) (wr_ref rc) cid\<rparr>)"
    "append_commit s rc = dict_set (pending_commits s) cid (rc, frozen, commit_event (service_commit_sequence s + 1) key cid frozen)"
  using assms by (simp_all add: publish_def append_commit_def published_entry_def receipt_commit_id_def Let_def)

lemma publish_inv:
  assumes "stream_inv s" and "next_receipt s' = next_receipt s + 1" and "wr_ref rc = next_receipt s"
    and "pending_commits s' = dict_set (pending_commits s) cid (rc, frozen, ev)"
    and "issued_receipt_ids s' = dict_set (issued_receipt_ids s) (wr_ref rc) cid"
    and "commit_stream_capacity s' = commit_stream_capacity s" "commit_reserved s' = 0"
    and "commit_stream_enabled s" "\<not> stream_full s"
    and "ledger_le (svc_ledger s, []) (svc_ledger s', [])" and "commit_json rc = Some frozen"
    and "map_of (entries (svc_ledger s')) (wr_key rc) = Some e" "status e = complete" "receipt e = Some (Written rc)"
  shows "stream_inv s'"
proof -
  have inv: "capacity_ok s" "commit_reserved s = 0" "dict_wf (pending_commits s)"
    "\<And>cid rc frozen ev. map_of (pending_commits s) cid = Some (rc, frozen, ev) \<Longrightarrow> commit_ok s cid rc frozen"
    "\<And>ref cid. map_of (issued_receipt_ids s) ref = Some cid \<Longrightarrow> ref < next_receipt s"
    using assms(1) unfolding stream_inv_def by blast+
  have "commit_ok s' c r f" if p: "map_of (pending_commits s') c = Some (r, f, v)" for c r f v
  proof (cases "c = cid")
    case True
    with p assms(4) have "r = rc" "f = frozen" by (simp_all add: dict_simps)
    with True assms(5,11-14) show ?thesis by (simp add: commit_ok_def dict_simps)
  next
    case False
    with p assms(4) have "map_of (pending_commits s) c = Some (r, f, v)" by (simp add: dict_simps)
    then have ok: "commit_ok s c r f" by (rule inv(4))
    then have "map_of (issued_receipt_ids s) (wr_ref r) = Some c" by (simp add: commit_ok_def)
    with inv(5) assms(3) have "wr_ref r \<noteq> wr_ref rc" by fastforce
    moreover obtain e' where "map_of (entries (svc_ledger s)) (wr_key r) = Some e'" "status e' = complete" "receipt e' = Some (Written r)"
      using ok by (auto simp: commit_ok_def)
    moreover from this have "map_of (entries (svc_ledger s')) (wr_key r) = Some e'"
      using ledger_le_complete [OF assms(10)] by simp
    ultimately show ?thesis using ok assms(5) by (simp add: commit_ok_def dict_simps)
  qed
  moreover have "capacity_ok s'"
    using inv(1,2) assms(4,6,8,9)
    by (auto simp: capacity_ok_def commit_stream_enabled_def stream_full_def pending_commit_count_def dict_simps)
  moreover have "ref < next_receipt s'" if i: "map_of (issued_receipt_ids s') ref = Some c" for ref c
  proof (cases "ref = wr_ref rc")
    case False
    with i assms(5) have "map_of (issued_receipt_ids s) ref = Some c" by (simp add: dict_simps)
    from inv(5) [OF this] assms(2) show ?thesis by simp
  qed (simp add: assms(2,3))
  ultimately show ?thesis
    unfolding stream_inv_def using assms(4,7) inv(3) by auto
qed


text \<open>The three ways a ledger call ends, after the clean-up.\<close>

lemma finish_failed:
  assumes "write_commit key adr x wd be (s, False, None) = (Inl e, s1, reserved, actual)" and "commit_reserved s = 0"
  obtains s' where "finish_write key (Inl e) l' (s1, reserved, actual) = (Inl e, s')"
    "svc_ledger s' = l'" "svc_memory s' = svc_memory s1" "pending_commits s' = pending_commits s"
    "issued_receipt_ids s' = issued_receipt_ids s" "commit_stream_capacity s' = commit_stream_capacity s"
    "commit_reserved s' = 0" "next_receipt s' = next_receipt s" "service_commit_sequence s' = service_commit_sequence s"
  using write_commit_frame [OF assms(1)] assms(2) that
  by (cases reserved) (auto simp: finish_write_def Let_def same_stream_def)

text \<open>The stream after a store: the new commit is at the end, if there is a stream.\<close>

definition grown :: "service \<Rightarrow> write_receipt \<Rightarrow> service \<Rightarrow> bool" where
  "grown s rc s' \<longleftrightarrow> (if commit_stream_enabled s then pending_commits s' = append_commit s rc \<and> service_commit_sequence s' = service_commit_sequence s + 1
     else pending_commits s' = pending_commits s \<and> service_commit_sequence s' = service_commit_sequence s)"

lemma grown_pending: "grown s rc s' \<Longrightarrow> commit_stream_enabled s \<Longrightarrow> \<exists>cid fz ev. map_of (pending_commits s') cid = Some (rc, fz, ev)"
  by (auto simp: grown_def append_commit_def published_entry_def dict_simps)

lemma finish_ran:
  assumes "write_commit key adr x wd be (s, False, None) = (Inr (Written rc), s1, reserved, actual)"
    and "stream_inv s" and "ledger_le (svc_ledger s, []) (l', [])"
    and e: "map_of (entries l') key = Some e" "status e = complete" "receipt e = Some (Written rc)"
  obtains s' where "finish_write key (Inr (Some (Written rc))) l' (s1, reserved, actual) = (Inr (Some (Written rc)), s')"
    "svc_ledger s' = l'" "svc_memory s' = svc_memory s1" "stream_inv s'"
    "commit_stream_enabled s \<longrightarrow> \<not> stream_full s" "grown s rc s'"
proof -
  note fr = write_commit_frame [OF assms(1)]
  have rc: "actual = Some rc" "stored_receipt s key rc" "next_receipt s1 = next_receipt s + 1" "commit_reserved s = 0"
    using fr assms(2) by (auto simp: stream_inv_def)
  show thesis
  proof (cases "commit_stream_enabled s")
    case True
    obtain frozen cid where fz: "commit_json rc = Some frozen" "json_field frozen ''commit_id'' = Inr (JStr cid)"
        "wr_key rc = key" "wr_ref rc = next_receipt s"
      using rc(2) by (auto simp: stored_receipt_def)
    define ev where "ev = commit_event (service_commit_sequence s1 + 1) key cid frozen"
    have pub: "publish (s1\<lparr>svc_ledger := l'\<rparr>) key rc (Some (Written rc)) = (Inr (), s1\<lparr>svc_ledger := l',
          service_commit_sequence := service_commit_sequence s1 + 1,
          pending_commits := dict_set (pending_commits s1) cid (rc, frozen, ev),
          issued_receipt_ids := dict_set (issued_receipt_ids s1) (wr_ref rc) cid\<rparr>)"
        and app: "append_commit (s1\<lparr>svc_ledger := l'\<rparr>) rc = dict_set (pending_commits s1) cid (rc, frozen, ev)"
      using publish_Inr [of "s1\<lparr>svc_ledger := l'\<rparr>" key e rc frozen cid] e fz by (auto simp: ev_def)
    define s' where "s' = s1\<lparr>svc_ledger := l', service_commit_sequence := service_commit_sequence s1 + 1,
          pending_commits := dict_set (pending_commits s1) cid (rc, frozen, ev),
          issued_receipt_ids := dict_set (issued_receipt_ids s1) (wr_ref rc) cid, commit_reserved := 0\<rparr>"
    have "commit_stream_enabled (s1\<lparr>svc_ledger := l'\<rparr>)"
      using True fr by (simp add: commit_stream_enabled_def same_stream_def)
    then have "finish_write key (Inr (Some (Written rc))) l' (s1, reserved, actual) = (Inr (Some (Written rc)), s')"
      using pub rc fr by (simp add: finish_write_def Let_def s'_def)
    moreover have "stream_inv s'"
      by (rule publish_inv [OF assms(2) _ fz(4), where cid = cid and frozen = frozen and ev = ev and e = e])
        (use fr assms(3) True rc fz e in \<open>simp_all add: s'_def same_stream_def\<close>)
    moreover have "grown s rc s'"
      using True fr app by (simp add: grown_def s'_def same_stream_def append_commit_def)
    ultimately show thesis
      using that [of s'] True fr by (simp add: s'_def)
  next
    case False
    define s' where "s' = s1\<lparr>svc_ledger := l', commit_reserved := 0\<rparr>"
    have "\<not> commit_stream_enabled (s1\<lparr>svc_ledger := l'\<rparr>)"
      using False fr by (simp add: commit_stream_enabled_def same_stream_def)
    then have "finish_write key (Inr (Some (Written rc))) l' (s1, reserved, actual) = (Inr (Some (Written rc)), s')"
      using rc fr by (auto simp: finish_write_def Let_def s'_def)
    moreover have "stream_inv s'"
      by (rule stream_inv_mono [OF assms(2)]) (use fr rc assms(3) in \<open>auto simp: s'_def same_stream_def\<close>)
    moreover have "grown s rc s'" using False fr by (simp add: grown_def s'_def same_stream_def)
    ultimately show thesis
      using that [of s'] False by (simp add: s'_def)
  qed
qed

text \<open>A store that reaches its callback, in one statement: what the service did and what it returned.\<close>

lemma service_writeE:
  assumes "service_inv s" and "service_write s key adr x wd be = (r, s')"
  obtains (idle) "s' = s" "\<forall>y. r = Inr y \<longrightarrow> dict_has (entries (svc_ledger s)) key"
  | (failed) e where "r = Inl e" "map_of (entries (svc_ledger s)) key = None" "pending_commits s' = pending_commits s"
      "issued_receipt_ids s' = issued_receipt_ids s" "commit_stream_capacity s' = commit_stream_capacity s"
      "commit_reserved s' = 0" "next_receipt s' = next_receipt s" "service_commit_sequence s' = service_commit_sequence s" "ledger_inv (svc_ledger s')"
      "ledger_le (svc_ledger s, []) (svc_ledger s', [])"
      "svc_memory s' = svc_memory s \<or> (\<exists>v. mem_write (svc_memory s) adr x wd be (key_str key) = Inr (v, svc_memory s'))"
  | (stored) rc v d where "r = Inr (Some (Written rc))" "map_of (entries (svc_ledger s)) key = None"
      "mem_write (svc_memory s) adr x wd be (key_str key) = Inr (v, svc_memory s')" "wr_version rc = v" "wr_key rc = key"
      "digest (write_payload adr x wd be) = Inr d" "stream_inv s'"
      "map_of (entries (svc_ledger s')) key = Some \<lparr>payload_digest = d, status = complete, receipt = Some (Written rc)\<rparr>"
      "ledger_inv (svc_ledger s')" "ledger_le (svc_ledger s, []) (svc_ledger s', [])"
      "commit_stream_enabled s \<longrightarrow> \<not> stream_full s" "grown s rc s'"
proof (cases "complete_key key \<and> validate_write (svc_memory s) adr x wd be = Inr ()
    \<and> \<not> (commit_stream_enabled s \<and> \<not> dict_has (entries (svc_ledger s)) key \<and> stream_full s)")
  case False
  then have "s' = s" "\<forall>y. r = Inr y \<longrightarrow> dict_has (entries (svc_ledger s)) key"
    using assms(2) by (auto simp: service_write_def split: sum.splits if_splits)
  then show thesis by (rule idle)
next
  case True
  let ?ex = "execute_once (svc_ledger s) key (write_payload adr x wd be) (write_commit key adr x wd be) (s, False, None)"
  obtain r1 l' s1 reserved actual where ex: "?ex = (r1, l', s1, reserved, actual)" by (metis prod.collapse)
  have l: "ledger_inv l'" "ledger_le (svc_ledger s, []) (l', [])"
    using execute_once_inv [of "svc_ledger s" key "write_payload adr x wd be" "write_commit key adr x wd be" "(s, False, None)"]
      execute_once_le [of "svc_ledger s" "[]" key "write_payload adr x wd be" "write_commit key adr x wd be" "(s, False, None)" "[]"] assms(1)
    by (simp_all add: ex service_inv_def)
  have inv: "commit_reserved s = 0" "stream_inv s" using assms(1) by (simp_all add: service_inv_def stream_inv_def)
  have step: "finish_write key r1 l' (s1, reserved, actual) = (r, s')"
    using assms(2) True ex by (simp add: service_write_def)
  show thesis
    using ex
  proof (cases rule: execute_onceE)
    case idle': idle
    have "s' = s" "r = r1" using step idle' by (simp_all add: finish_write_def Let_def split: sum.splits)
    then show thesis by (intro idle) (use idle'(3) in \<open>auto simp: dict_has_def\<close>)
  next
    case failed': (failed e)
    from write_commit_frame [OF failed'(2)] have
      m: "svc_memory s1 = svc_memory s \<or> (\<exists>v. mem_write (svc_memory s) adr x wd be (key_str key) = Inr (v, svc_memory s1))"
      by blast
    show thesis
      by (rule finish_failed [OF failed'(2) inv(1), of l']) (rule failed, use step failed' l m in auto)
  next
    case (ran y d)
    from write_commit_frame [OF ran(2)] obtain rc v where rc: "y = Written rc" "wr_key rc = key"
        "mem_write (svc_memory s) adr x wd be (key_str key) = Inr (v, svc_memory s1)" "wr_version rc = v"
      by (auto simp: stored_receipt_def)
    show thesis
      by (rule finish_ran [OF ran(2) [unfolded rc(1)] inv(2) l(2) ran(5)]; (simp add: rc(1))?)
        (rule stored [OF _ ran(1) _ rc(4,2) ran(4)], use step ran l rc in auto)
  qed
qed


lemma service_write_ok:
  assumes "service_inv s" and "service_write s key adr x wd be = (r, s')"
  shows "service_inv s' \<and> service_le s s'"
proof -
  have m: "mem_inv m' \<and> mem_le (svc_memory s) m' \<and> generation m' = generation (svc_memory s)"
    if "m' = svc_memory s \<or> (\<exists>v. mem_write (svc_memory s) adr x wd be (key_str key) = Inr (v, m'))" for m'
    using that assms(1) mem_write_inv write_generation by (auto simp: service_inv_def mem_le_refl)
  show ?thesis
    using assms
  proof (cases rule: service_writeE)
    case idle
    with assms(1) show ?thesis by (simp add: service_le_refl)
  next
    case (failed e)
    have "stream_inv s'"
      by (rule stream_inv_mono [of s]) (use failed assms(1) in \<open>simp_all add: service_inv_def\<close>)
    with m [of "svc_memory s'"] failed show ?thesis by (simp add: service_inv_def service_le_def)
  next
    case (stored rc v d)
    with m [of "svc_memory s'"] show ?thesis by (auto simp: service_inv_def service_le_def)
  qed
qed

lemma service_accept_ok:
  assumes "service_inv s" and "service_accept_instructions s adr bs ev = (r, s')"
  shows "service_inv s' \<and> service_le s s'"
proof (cases "accept_instructions (svc_memory s) adr bs ev")
  case (Inl e)
  with assms show ?thesis by (simp add: service_accept_instructions_def service_le_refl)
next
  case (Inr x)
  then obtain rc m' where a: "accept_instructions (svc_memory s) adr bs ev = Inr (rc, m')" by (cases x) simp
  obtain evs where s': "s' = s\<lparr>svc_memory := m', svc_events := evs\<rparr>"
    using assms(2) a accept_validates [OF a] by (auto simp: service_accept_instructions_def)
  have "stream_inv s'"
    by (rule stream_inv_mono [of s]) (use assms(1) in \<open>simp_all add: s' service_inv_def stream_inv_def ledger_le_refl\<close>)
  with admit_inv [OF _ a] admit_generation [OF a] assms(1) show ?thesis
    by (simp add: service_inv_def service_le_def s' ledger_le_refl)
qed

text \<open>Releasing a commit keeps the stream in order; the identity to delete is always there.\<close>

lemma release_one:
  assumes "stream_inv s" and "map_of (pending_commits s) cid = Some (rc, fz, ev)"
  defines "s1 \<equiv> s\<lparr>pending_commits := dict_del (pending_commits s) cid,
    issued_receipt_ids := dict_del (issued_receipt_ids s) (wr_ref rc)\<rparr>"
  shows "stream_inv s1" "dict_has (issued_receipt_ids s) (wr_ref rc)"
proof -
  have inv: "capacity_ok s" "commit_reserved s = 0" "dict_wf (pending_commits s)"
    "\<And>cid rc frozen ev. map_of (pending_commits s) cid = Some (rc, frozen, ev) \<Longrightarrow> commit_ok s cid rc frozen"
    "\<And>ref cid. map_of (issued_receipt_ids s) ref = Some cid \<Longrightarrow> ref < next_receipt s"
    using assms(1) unfolding stream_inv_def by blast+
  have cid: "map_of (issued_receipt_ids s) (wr_ref rc) = Some cid"
    using inv(4) [OF assms(2)] by (simp add: commit_ok_def)
  then show "dict_has (issued_receipt_ids s) (wr_ref rc)" by (simp add: dict_has_def)
  have "commit_ok s1 c r f" if p: "map_of (pending_commits s1) c = Some (r, f, v)" for c r f v
  proof -
    have "c \<noteq> cid" and "map_of (pending_commits s) c = Some (r, f, v)"
      using p by (auto simp: s1_def dict_simps split: if_splits)
    from inv(4) [OF this(2)] \<open>c \<noteq> cid\<close> cid show ?thesis by (auto simp: commit_ok_def s1_def dict_simps)
  qed
  moreover have "length (dict_del (pending_commits s) cid) \<le> length (pending_commits s)"
    by (simp add: AList.delete_eq)
  then have "capacity_ok s1"
    using inv(1) by (auto simp: capacity_ok_def pending_commit_count_def s1_def split: option.splits)
  ultimately show "stream_inv s1"
    unfolding stream_inv_def using inv by (auto simp: s1_def dict_simps split: if_splits)
qed

lemma release_commits_ok:
  "stream_inv s \<Longrightarrow> release_commits s cids = (r, s') \<Longrightarrow> stream_inv s' \<and> svc_memory s' = svc_memory s \<and> svc_ledger s' = svc_ledger s"
proof (induction s cids arbitrary: r s' rule: release_commits.induct)
  case (2 s cid cids)
  show ?case
  proof (cases "map_of (pending_commits s) cid")
    case (Some p)
    then obtain rc fz ev where p: "map_of (pending_commits s) cid = Some (rc, fz, ev)" by (cases p) simp
    note one = release_one [OF 2(2) p]
    have "release_commits (s\<lparr>pending_commits := dict_del (pending_commits s) cid,
        issued_receipt_ids := dict_del (issued_receipt_ids s) (wr_ref rc)\<rparr>) cids = (r, s')"
      using 2(3) p one(2) by (simp add: Let_def)
    with 2(1) [OF p refl refl refl one(2) one(1)] show ?thesis by simp
  qed (use 2 in simp)
qed simp

datatype service_call =
    Service_read transaction_key int int
  | Service_write transaction_key int int int int
  | Service_accept int bytes string
  | Service_ack "string list"

fun service_step :: "service \<Rightarrow> service_call \<Rightarrow> service" where
  "service_step s (Service_read key adr wd) = snd (service_read s key adr wd)"
| "service_step s (Service_write key adr x wd be) = snd (service_write s key adr x wd be)"
| "service_step s (Service_accept adr bs ev) = snd (service_accept_instructions s adr bs ev)"
| "service_step s (Service_ack cids) = snd (ack_commit_events s cids)"

lemma service_step_ok: "service_inv s \<Longrightarrow> service_inv (service_step s c) \<and> service_le s (service_step s c)"
proof (cases c)
  case (Service_ack cids)
  assume inv: "service_inv s"
  show ?thesis
  proof (cases "cids = take (length cids) (map fst (pending_commits s))")
    case True
    obtain r s' where "release_commits s cids = (r, s')" by fastforce
    with release_commits_ok [OF _ this] inv True Service_ack show ?thesis
      by (simp add: ack_commit_events_def service_inv_def service_le_def mem_le_refl ledger_le_refl)
  qed (use inv Service_ack in \<open>simp add: ack_commit_events_def service_le_refl\<close>)
qed (simp_all add: service_read_ok [OF _ prod.collapse [symmetric]] service_write_ok [OF _ prod.collapse [symmetric]]
    service_accept_ok [OF _ prod.collapse [symmetric]])

interpretation service_machine: progressing_machine service_step service_inv service_le
  by unfold_locales (auto simp: service_step_ok service_le_refl intro: service_le_trans)


lemma make_service_inv: "make_service m l kinds capacity = Inr s \<Longrightarrow> mem_inv m \<Longrightarrow> ledger_inv l \<Longrightarrow> service_inv s"
  by (auto simp: make_service_def service_inv_def stream_inv_def capacity_ok_def pending_commit_count_def split: if_splits option.splits)

lemma lookup_pending_ok:
  assumes "stream_inv s" and "p \<in> set (pending_commits s)"
  shows "lookup_pending_commit s (fst p) = Inr (fst (snd p), snd (snd (snd p)))"
proof -
  obtain cid rc fz ev where p: "p = (cid, rc, fz, ev)" by (metis prod.collapse)
  have "map_of (pending_commits s) cid = Some (rc, fz, ev)"
    using assms unfolding stream_inv_def p by (intro map_of_is_SomeI) auto
  moreover from this have "commit_ok s cid rc fz" using assms(1) unfolding stream_inv_def by blast
  ultimately show ?thesis by (auto simp: lookup_pending_commit_def p commit_ok_def)
qed

lemma release_prefix:
  "stream_inv s \<Longrightarrow> \<exists>s'. release_commits s (map fst (take n (pending_commits s))) = (Inr (), s')
     \<and> pending_commits s' = drop n (pending_commits s)"
proof (induction n arbitrary: s)
  case (Suc n)
  show ?case
  proof (cases "pending_commits s")
    case (Cons p ps)
    obtain cid rc fz ev where p: "p = (cid, rc, fz, ev)" by (metis prod.collapse)
    have look: "map_of (pending_commits s) cid = Some (rc, fz, ev)" by (simp add: Cons p)
    define s1 where "s1 = s\<lparr>pending_commits := dict_del (pending_commits s) cid,
      issued_receipt_ids := dict_del (issued_receipt_ids s) (wr_ref rc)\<rparr>"
    note one = release_one [OF Suc.prems look, folded s1_def]
    have "dict_wf (pending_commits s)" using Suc.prems by (simp add: stream_inv_def)
    then have "pending_commits s1 = ps"
      by (auto simp: s1_def Cons p intro!: delete_id)
    moreover have "release_commits s (map fst (take (Suc n) (pending_commits s))) = release_commits s1 (map fst (take n ps))"
      using one(2) by (simp add: Cons p s1_def Let_def)
    ultimately show ?thesis using Suc.IH [OF one(1)] by (simp add: Cons)
  qed simp
qed simp

section \<open>The commit stream\<close>

text \<open>The service, the receipts of the stores that were carried out for the first time, in order, and the number of commits whose acknowledgement was accepted.\<close>

fun commit_step :: "service \<times> write_receipt list \<times> nat \<Rightarrow> service_call \<Rightarrow> service \<times> write_receipt list \<times> nat" where
  "commit_step (s, ps, n) (Service_write key adr x wd be) = (case service_write s key adr x wd be of
     (Inr (Some (Written rc)), s') \<Rightarrow> (s', if commit_stream_enabled s \<and> \<not> dict_has (entries (svc_ledger s)) key then ps @ [rc] else ps, n)
   | (_, s') \<Rightarrow> (s', ps, n))"
| "commit_step (s, ps, n) (Service_ack cids) = (case ack_commit_events s cids of
     (Inr _, s') \<Rightarrow> (s', ps, n + length cids) | (Inl _, s') \<Rightarrow> (s', ps, n))"
| "commit_step (s, ps, n) (Service_read key adr wd) = (service_step s (Service_read key adr wd), ps, n)"
| "commit_step (s, ps, n) (Service_accept adr bs ev) = (service_step s (Service_accept adr bs ev), ps, n)"

definition commit_queue :: "write_receipt list \<Rightarrow> (string, write_receipt \<times> json \<times> json) dict" where
  "commit_queue ps = map (\<lambda>(i, rc). published_entry (int i) rc) (List.enumerate 1 ps)"

definition commit_history :: "service \<times> write_receipt list \<times> nat \<Rightarrow> bool" where
  "commit_history h = (case h of (s, ps, n) \<Rightarrow> service_inv s
     \<and> (distinct (map receipt_commit_id ps) \<longrightarrow> n \<le> length ps \<and> service_commit_sequence s = int (length ps) \<and> pending_commits s = drop n (commit_queue ps)))"

lemma length_commit_queue [simp]: "length (commit_queue ps) = length ps"
  by (simp add: commit_queue_def)

lemma commit_queue_append: "commit_queue (ps @ [rc]) = commit_queue ps @ [published_entry (int (length ps) + 1) rc]"
  by (simp add: commit_queue_def enumerate_append_eq add.commute)

lemma commit_queue_ids: "map fst (commit_queue ps) = map receipt_commit_id ps"
proof -
  have "map fst (commit_queue ps) = map receipt_commit_id (map snd (List.enumerate 1 ps))"
    by (simp add: commit_queue_def published_entry_def comp_def split_def del: map_snd_enumerate)
  then show ?thesis by (simp only: map_snd_enumerate)
qed

lemma quiet_commits:
  "service_read s key adr wd = (r, s') \<Longrightarrow> pending_commits s' = pending_commits s \<and> service_commit_sequence s' = service_commit_sequence s"
  "service_accept_instructions s adr bs ev = (q, s') \<Longrightarrow> pending_commits s' = pending_commits s \<and> service_commit_sequence s' = service_commit_sequence s"
proof -
  assume rd: "service_read s key adr wd = (r, s')"
  show "pending_commits s' = pending_commits s \<and> service_commit_sequence s' = service_commit_sequence s"
  proof (cases "validate_read (svc_memory s) adr wd")
    case (Inr u)
    then obtain l' s1 where ex: "execute_once (svc_ledger s) key (read_payload adr wd) (read_commit key adr wd) s = (r, l', s1)"
        and s': "s' = s1\<lparr>svc_ledger := l'\<rparr>"
      using rd by (auto simp: service_read_def split: prod.splits)
    have "s1 = s \<or> (\<exists>y. read_commit key adr wd s = (y, s1))" using ex by (cases rule: execute_onceE) auto
    then show ?thesis using read_commit_frame [of key adr wd s _ s1] by (auto simp: s')
  qed (use rd in \<open>simp add: service_read_def\<close>)
qed (auto simp: service_accept_instructions_def split: sum.splits prod.splits)

lemma release_sequence: "release_commits s cids = (r, s') \<Longrightarrow> service_commit_sequence s' = service_commit_sequence s"
  by (induction s cids rule: release_commits.induct) (auto simp: Let_def split: option.splits prod.splits if_splits)

lemma ack_prefix:
  assumes "stream_inv s"
  shows "if cids = take (length cids) (map fst (pending_commits s))
    then \<exists>s'. ack_commit_events s cids = (Inr (), s') \<and> pending_commits s' = drop (length cids) (pending_commits s)
      \<and> service_commit_sequence s' = service_commit_sequence s \<and> length cids \<le> length (pending_commits s)
    else ack_commit_events s cids = (Inl (ValueError ''ack must name the exact pending commit prefix''), s)"
proof (cases "cids = take (length cids) (map fst (pending_commits s))")
  case True
  then have c: "cids = map fst (take (length cids) (pending_commits s))" by (simp add: take_map)
  then have "length cids \<le> length (pending_commits s)" by (metis length_map length_take min.cobounded1)
  moreover obtain s' where "release_commits s cids = (Inr (), s')" "pending_commits s' = drop (length cids) (pending_commits s)"
    using release_prefix [OF assms, of "length cids"] c by auto
  ultimately show ?thesis using True release_sequence by (simp add: ack_commit_events_def)
qed (simp add: ack_commit_events_def)

lemma write_history:
  assumes "commit_history (s, ps, n)"
  shows "commit_history (commit_step (s, ps, n) (Service_write key adr x wd be))"
proof -
  have inv: "service_inv s" using assms by (simp add: commit_history_def)
  obtain r s' where w: "service_write s key adr x wd be = (r, s')" by fastforce
  have inv': "service_inv s'" using service_write_ok [OF inv w] by blast
  show ?thesis
    using inv w
  proof (cases rule: service_writeE)
    case idle
    then have "commit_step (s, ps, n) (Service_write key adr x wd be) = (s, ps, n)"
      using w by (auto split: sum.split option.split service_receipt.split)
    then show ?thesis using assms by simp
  next
    case (failed e)
    then show ?thesis using assms inv' w by (simp add: commit_history_def)
  next
    case (stored rc v d)
    have st: "commit_step (s, ps, n) (Service_write key adr x wd be) = (s', if commit_stream_enabled s then ps @ [rc] else ps, n)"
      using w stored(1,2) by (simp add: dict_has_def)
    show ?thesis
    proof (cases "commit_stream_enabled s")
      case False
      then show ?thesis unfolding st using assms inv' stored(12) by (simp add: commit_history_def grown_def)
    next
      case True
      have "n \<le> length ps" "pending_commits s' = drop n (commit_queue (ps @ [rc]))" "service_commit_sequence s' = int (length ps) + 1"
        if dist: "distinct (map receipt_commit_id (ps @ [rc]))"
      proof -
        have old: "service_commit_sequence s = int (length ps)" "pending_commits s = drop n (commit_queue ps)" "n \<le> length ps"
          using assms dist by (simp_all add: commit_history_def)
        have "fst ` set (pending_commits s) \<subseteq> set (map receipt_commit_id ps)"
          using set_drop_subset [of n "commit_queue ps"] by (auto simp: old(2) simp flip: commit_queue_ids)
        then have "\<not> dict_has (pending_commits s) (receipt_commit_id rc)" using dist by (auto simp: dict_has_keys)
        then have "append_commit s rc = pending_commits s @ [published_entry (int (length ps) + 1) rc]"
          by (simp add: append_commit_def published_entry_def dict_set_new old(1))
        then show "n \<le> length ps" "pending_commits s' = drop n (commit_queue (ps @ [rc]))" "service_commit_sequence s' = int (length ps) + 1"
          using stored(12) True old by (simp_all add: grown_def commit_queue_append)
      qed
      then show ?thesis unfolding st using inv' True by (simp add: commit_history_def le_SucI)
    qed
  qed
qed

lemma commit_step_history: "commit_history h \<Longrightarrow> commit_history (commit_step h c) \<and> fst (commit_step h c) = service_step (fst h) c"
proof (cases h)
  case (fields s ps n)
  assume h: "commit_history h"
  then have inv: "service_inv s" "stream_inv s" by (simp_all add: fields commit_history_def service_inv_def)
  have inv': "service_inv (service_step s c)" using service_step_ok [OF inv(1)] by blast
  show ?thesis
  proof (cases c)
    case (Service_write key adr x wd be)
    then show ?thesis
      using write_history [OF h [unfolded fields], of key adr x wd be]
      by (auto simp: fields split: prod.splits sum.splits option.splits service_receipt.splits)
  next
    case (Service_ack cids)
    then show ?thesis
      using ack_prefix [OF inv(2), of cids] h inv' by (auto simp: fields commit_history_def add.commute split: if_splits)
  next
    case (Service_read key adr wd)
    then show ?thesis using quiet_commits(1) [of s key adr wd] h inv' by (cases "service_read s key adr wd") (simp add: fields commit_history_def)
  next
    case (Service_accept adr bs ev)
    then show ?thesis using quiet_commits(2) [of s adr bs ev] h inv' by (cases "service_accept_instructions s adr bs ev") (simp add: fields commit_history_def)
  qed
qed

interpretation commit_machine: machine commit_step commit_history
  by unfold_locales (simp add: commit_step_history)

text \<open>C13: The commit stream is a bounded first-in first-out queue of the stores. After any sequence of reads, stores, instruction admissions and acknowledgements, of which \<open>ps\<close> are the receipts
  of the stores carried out for the first time and \<open>n\<close> is the number of acknowledged commits: pending are exactly the commits after the first \<open>n\<close>, in the order of the stores, each under the identity of its document
  and with its receipt, its frozen document and the event that carries its position in the whole stream; draining returns exactly these events and never fails; an acknowledgement is accepted exactly for a prefix of the pending
  identities and releases exactly it, and otherwise changes nothing; at most the declared capacity is pending. The identities are SHA-256 digests of the documents; the statement assumes that no two
  documents published in the run have the same digest.\<close>

theorem commit_stream_queue:
  assumes "make_service m l kinds capacity = Inr s" and "mem_inv m" and "ledger_inv l"
    and run: "foldl commit_step (s, [], 0) calls = (t, ps, n)" and no_collision: "distinct (map receipt_commit_id ps)"
  shows "t = foldl service_step s calls \<and> service_inv t \<and> n \<le> length ps \<and> pending_commits t = drop n (commit_queue ps)
    \<and> (\<forall>c. commit_stream_capacity t = Some c \<longrightarrow> int (length ps - n) \<le> c)
    \<and> drain_commit_events t None = Inr (map (\<lambda>p. snd (snd (snd p))) (drop n (commit_queue ps)))
    \<and> (if cids = take (length cids) (map receipt_commit_id (drop n ps))
       then \<exists>t'. ack_commit_events t cids = (Inr (), t') \<and> pending_commits t' = drop (n + length cids) (commit_queue ps)
       else ack_commit_events t cids = (Inl (ValueError ''ack must name the exact pending commit prefix''), t))"
proof -
  have h0: "commit_history (s, [], 0)"
    using make_service_inv [OF assms(1-3)] assms(1) by (auto simp: commit_history_def make_service_def commit_queue_def split: if_splits)
  have fst_run: "commit_history h \<Longrightarrow> fst (foldl commit_step h calls) = foldl service_step (fst h) calls" for h
    by (induction calls arbitrary: h) (simp_all add: commit_step_history)
  have h: "commit_history (t, ps, n)" using commit_machine.run_inv [OF h0, of calls] run by simp
  then have inv: "service_inv t" "n \<le> length ps" "pending_commits t = drop n (commit_queue ps)"
    using no_collision by (simp_all add: commit_history_def)
  then have st: "stream_inv t" by (simp add: service_inv_def)
  have "map_res (lookup_pending_commit t) (map fst qs) = Inr (map (\<lambda>p. (fst (snd p), snd (snd (snd p)))) qs)"
    if "set qs \<subseteq> set (pending_commits t)" for qs
    using that by (induction qs) (auto simp: lookup_pending_ok [OF st])
  from this [OF subset_refl] have drain: "drain_commit_events t None = Inr (map (\<lambda>p. snd (snd (snd p))) (drop n (commit_queue ps)))"
    by (simp add: drain_commit_events_def Let_def comp_def inv(3))
  have "map fst (pending_commits t) = map receipt_commit_id (drop n ps)"
    by (simp only: inv(3) commit_queue_ids flip: drop_map)
  with ack_prefix [OF st, of cids] have acks: "if cids = take (length cids) (map receipt_commit_id (drop n ps))
       then \<exists>t'. ack_commit_events t cids = (Inr (), t') \<and> pending_commits t' = drop (n + length cids) (commit_queue ps)
       else ack_commit_events t cids = (Inl (ValueError ''ack must name the exact pending commit prefix''), t)"
    by (auto simp: inv(3) add.commute split: if_splits)
  have cap: "\<forall>c. commit_stream_capacity t = Some c \<longrightarrow> int (length ps - n) \<le> c"
    using st by (auto simp: stream_inv_def capacity_ok_def pending_commit_count_def inv(3))
  have "t = foldl service_step s calls" using fst_run [OF h0] run by simp
  with inv cap drain acks show ?thesis by blast
qed

lemma validate_read_determined:
  assumes "resolve m adr wd False = Inr (r, off)" and "\<forall>k \<in> set (span_keys (memory_id r) off wd). dict_has (cells m) k"
    and "initialized_bytes m \<le> max_initialized_bytes m"
  shows "validate_read m adr wd = Inr ()"
proof -
  have "missing_keys m (span_keys (memory_id r) off wd) = []" using assms(2) by (simp add: missing_keys_Nil)
  moreover have "\<not> list_ex (slot_pending m) (span_keys (memory_id r) off wd)"
    using assms(2) by (auto simp: list_ex_iff slot_pending_def)
  ultimately show ?thesis
    using assms(1,3) by (simp add: validate_read_def check_instruction_ready_def Let_def budget_def)
qed

lemma later_determined:
  assumes "mem_le m m'" and "generation m' = generation m" and "dict_has (cells m) k"
  shows "dict_has (cells m') k"
  using assms cells_leD [of m m' k] by (fastforce simp: mem_le_def dict_has_def)

lemma read_determines:
  assumes "mem_read m adr wd tid = Inr (snap, m')"
  obtains r off where "resolve m adr wd False = Inr (r, off)"
    "\<forall>k \<in> set (span_keys (memory_id r) off wd). dict_has (cells m') k"
  using assms
proof (cases rule: mem_readE)
  case (determined r off)
  then show ?thesis using that by (simp add: missing_keys_Nil)
next
  case (first r off v m1)
  then have "cells m1 = cells m" by (auto simp: next_version_Inr)
  then have "\<forall>k \<in> set (span_keys (memory_id r) off wd). dict_has (cells m') k"
    by (auto simp: first(5) dict_has_set_all missing_keys_def image_image)
  with first(1) show ?thesis by (rule that)
qed

text \<open>A read response is frozen at its commit: once a fresh read transaction has returned its snapshot, any
  number of later reads, stores, admissions and acknowledgements cannot change the answer; the retry with the same
  key and shape returns the same snapshot and leaves the service unchanged.\<close>

theorem service_read_frozen:
  assumes "service_inv s" and "map_of (entries (svc_ledger s)) key = None"
    and "service_read s key adr wd = (Inr x, s1)"
  shows "\<exists>snap. x = Some (Snapshot snap) \<and> mem_read (svc_memory s) adr wd (key_str key) = Inr (snap, svc_memory s1)
    \<and> service_read (foldl service_step s1 calls) key adr wd = (Inr x, foldl service_step s1 calls)"
proof -
  let ?t = "foldl service_step s1 calls"
  obtain u where v: "validate_read (svc_memory s) adr wd = Inr u"
    using assms(3) by (cases "validate_read (svc_memory s) adr wd") (auto simp: service_read_def)
  then obtain l' s' where ex: "execute_once (svc_ledger s) key (read_payload adr wd) (read_commit key adr wd) s = (Inr x, l', s')"
      and s1: "s1 = s'\<lparr>svc_ledger := l'\<rparr>"
    using assms(3) by (auto simp: service_read_def split: prod.splits)
  from ex obtain snap d where snap: "x = Some (Snapshot snap)" "mem_read (svc_memory s) adr wd (key_str key) = Inr (snap, svc_memory s')"
      "digest (read_payload adr wd) = Inr d"
      "map_of (entries l') key = Some \<lparr>payload_digest = d, status = complete, receipt = Some (Snapshot snap)\<rparr>"
  proof (cases rule: execute_onceE)
    case (ran y d)
    with read_commit_frame [OF ran(2)] that show ?thesis by auto
  qed (use assms(2) in auto)
  obtain r off where r: "resolve (svc_memory s) adr wd False = Inr (r, off)"
      "\<forall>k \<in> set (span_keys (memory_id r) off wd). dict_has (cells (svc_memory s1)) k"
    using read_determines [OF snap(2)] by (auto simp: s1)
  have inv: "service_inv s1" "service_le s s1" using service_read_ok [OF assms(1,3)] by auto
  then have t: "service_inv ?t" "service_le s1 ?t"
    using service_machine.run_inv service_machine.run_le by blast+
  have "windows (svc_memory ?t) = windows (svc_memory s)"
    using inv(2) t(2) by (simp add: service_le_def mem_le_def)
  then have "resolve (svc_memory ?t) adr wd False = Inr (r, off)"
    using r(1) resolve_windows by metis
  moreover have "\<forall>k \<in> set (span_keys (memory_id r) off wd). dict_has (cells (svc_memory ?t)) k"
    using r(2) t(2) later_determined unfolding service_le_def by blast
  moreover have "initialized_bytes (svc_memory ?t) \<le> max_initialized_bytes (svc_memory ?t)"
    using t(1) by (simp add: service_inv_def mem_inv_def)
  ultimately have "validate_read (svc_memory ?t) adr wd = Inr ()" by (rule validate_read_determined)
  moreover have "map_of (entries (svc_ledger ?t)) key = Some \<lparr>payload_digest = d, status = complete, receipt = Some (Snapshot snap)\<rparr>"
    using snap(4) t(2) ledger_le_complete [of "svc_ledger s1" "[]" "svc_ledger ?t" "[]"] by (simp add: service_le_def s1)
  ultimately have "service_read ?t key adr wd = (Inr x, ?t)"
    using snap(1,3) by (simp add: service_read_def execute_once_replay)
  with snap s1 show ?thesis by auto
qed


lemma write_determines:
  assumes "mem_write m adr x wd be ev = Inr (v, m')"
  obtains r off where "resolve m adr wd True = Inr (r, off)" "check_store x wd be = Inr ()"
    "\<forall>k \<in> set (map (\<lambda>i. (memory_id r, off + i)) (enabled_lanes wd be)). dict_has (cells m') k"
  using assms
proof (cases rule: mem_writeE)
  case (idle r off)
  then show ?thesis using that by simp
next
  case (store r off v' m1)
  have "\<forall>k \<in> set (map (\<lambda>i. (memory_id r, off + i)) (enabled_lanes wd be)). dict_has (cells m') k"
    by (auto simp: store(7) dict_has_set_all image_image)
  with store(1,3) show ?thesis by (rule that)
qed

text \<open>C11: A store takes effect once: a fresh store transaction that returned a receipt has performed exactly one memory
  write, under the version the receipt names; a retry with the same key and data after any later calls returns
  the same receipt and performs nothing, also when the commit stream is full by then.\<close>

theorem service_write_once:
  assumes "service_inv s" and "map_of (entries (svc_ledger s)) key = None"
    and "service_write s key adr x wd be = (Inr y, s1)"
  shows "\<exists>rc. y = Some (Written rc) \<and> mem_write (svc_memory s) adr x wd be (key_str key) = Inr (wr_version rc, svc_memory s1)
    \<and> service_write (foldl service_step s1 calls) key adr x wd be = (Inr y, foldl service_step s1 calls)"
  using assms(1,3)
proof (cases rule: service_writeE)
  case (stored rc v d)
  let ?t = "foldl service_step s1 calls"
  have ck: "complete_key key"
    using assms(3) by (auto simp: service_write_def split: if_splits)
  obtain r off where r: "resolve (svc_memory s) adr wd True = Inr (r, off)" "check_store x wd be = Inr ()"
      "\<forall>k \<in> set (map (\<lambda>i. (memory_id r, off + i)) (enabled_lanes wd be)). dict_has (cells (svc_memory s1)) k"
    using write_determines [OF stored(3)] .
  have inv: "service_inv s1" "service_le s s1" using service_write_ok [OF assms(1,3)] by auto
  then have t: "service_inv ?t" "service_le s1 ?t"
    using service_machine.run_inv service_machine.run_le by blast+
  have "windows (svc_memory ?t) = windows (svc_memory s)"
    using inv(2) t(2) by (simp add: service_le_def mem_le_def)
  then have "resolve (svc_memory ?t) adr wd True = Inr (r, off)"
    using r(1) resolve_windows by metis
  moreover have "missing_keys (svc_memory ?t) (map (\<lambda>i. (memory_id r, off + i)) (enabled_lanes wd be)) = []"
    unfolding missing_keys_Nil using r(3) t(2) later_determined unfolding service_le_def by blast
  moreover have "initialized_bytes (svc_memory ?t) \<le> max_initialized_bytes (svc_memory ?t)"
    using t(1) by (simp add: service_inv_def mem_inv_def)
  ultimately have "validate_write (svc_memory ?t) adr x wd be = Inr ()"
    using r(2) by (simp add: validate_write_def budget_def)
  moreover have e: "map_of (entries (svc_ledger ?t)) key = Some \<lparr>payload_digest = d, status = complete, receipt = Some (Written rc)\<rparr>"
    using stored(8) t(2) ledger_le_complete [of "svc_ledger s1" "[]" "svc_ledger ?t" "[]"] by (simp add: service_le_def)
  moreover have "execute_once (svc_ledger ?t) key (write_payload adr x wd be) (write_commit key adr x wd be) (?t, False, None)
      = (Inr (Some (Written rc)), svc_ledger ?t, ?t, False, None)"
    using execute_once_replay [OF e] stored(6) by simp
  ultimately have "service_write ?t key adr x wd be = (Inr (Some (Written rc)), ?t)"
    using ck by (simp add: service_write_def finish_write_def dict_has_def)
  with stored(1,3,4) show ?thesis by auto
qed (use assms(2) in \<open>auto simp: dict_has_def\<close>)


lemma enabled_lanes_Nil:
  assumes "0 \<le> be" and "be < 2 ^ nat wd"
  shows "enabled_lanes wd be = [] \<longleftrightarrow> be = 0"
proof
  assume none: "enabled_lanes wd be = []"
  have "take_bit (nat wd) be = be" using assms by (simp add: take_bit_int_eq_self)
  then have "\<not> bit be n" for n
  proof (cases "n < nat wd")
    case True
    then have "int n \<notin> set (enabled_lanes wd be)" using none by simp
    with True show ?thesis by (simp add: set_enabled_lanes bit_lane_def)
  next
    case False
    with \<open>take_bit (nat wd) be = be\<close> show ?thesis by (metis bit_take_bit_iff)
  qed
  then show "be = 0" by (simp add: bit_eq_iff)
qed (simp add: enabled_lanes_def bit_lane_def)

lemma check_store_bounds:
  "check_store x wd be = Inr () \<Longrightarrow> 0 \<le> be \<and> be < 2 ^ nat wd"
  by (auto simp: check_store_def mem_natural_def push_bit_eq_mult split: if_splits)

text \<open>The self-checks of the store callback hold after every store into an in-range memory.\<close>

definition in_range :: "memory \<Rightarrow> bool" where
  "in_range m \<longleftrightarrow> generation m < 2 ^ 64 \<and> (\<forall>r \<in> set (regions m). memory_id r \<noteq> [] \<and> region_size r \<le> 2 ^ 64)
     \<and> (\<forall>mid q. map_of (commit_sequences m) mid = Some q \<longrightarrow> q + 1 < 2 ^ 64)"

lemma stored_checks:
  assumes "mem_inv m" and "in_range m" and w: "mem_write m adr x wd be (key_str key) = Inr (v, m')"
    and r: "resolve m adr wd True = Inr (r, off)"
  shows "check_outcome m' (memory_id r) (generation m) be v = Inr ()"
    "\<exists>cs. map_res (committed_cell m' key (memory_id r) off x v) (enabled_lanes wd be) = Inr cs"
proof -
  have "(check_outcome m' (memory_id r) (generation m) be v = Inr ()) \<and>
    (\<forall>i \<in> set (enabled_lanes wd be). is_ok (committed_cell m' key (memory_id r) off x v i))"
    using w
  proof (cases rule: mem_writeE)
    case (idle r' off')
    then show ?thesis using check_store_bounds enabled_lanes_Nil [of be wd] by (simp add: check_outcome_def)
  next
    case (store r' off' u m1)
    have eq: "r' = r" "off' = off" using store(1) r by simp_all
    note nv = store(5) [unfolded eq]
    then obtain q where q: "map_of (commit_sequences m) (memory_id r) = Some q" "u = (generation m, q + 1)"
        "commit_sequences m1 = dict_set (commit_sequences m) (memory_id r) (q + 1)"
      by (auto simp: next_version_Inr)
    have "0 \<le> q" using mem_invD(3) [OF assms(1)] resolve_span_in_region(1) [OF assms(1) r] q(1)
      by (auto simp: sequences_ok_def)
    with assms(2) q mem_invD(4) [OF assms(1)] have u: "typed_version u" "snd u \<noteq> 0"
      by (auto simp: typed_version_def in_range_def push_bit_eq_mult)
    have "be \<noteq> 0" using store(4) by (auto simp: enabled_lanes_def bit_lane_def)
    then have "check_outcome m' (memory_id r) (generation m) be v = Inr ()"
      using u q by (simp add: check_outcome_def store(6,7) eq dict_simps)
    moreover have "is_ok (committed_cell m' key (memory_id r) off x v i)" if "i \<in> set (enabled_lanes wd be)" for i
      using that stored_cells [OF nv, of off x "key_str key" wd be "(memory_id r, off + i)"] u
      by (simp add: committed_cell_def store(6,7) eq set_enabled_lanes del: put_cells_simps(12))
    ultimately show ?thesis by blast
  qed
  then show "check_outcome m' (memory_id r) (generation m) be v = Inr ()"
    "\<exists>cs. map_res (committed_cell m' key (memory_id r) off x v) (enabled_lanes wd be) = Inr cs"
    by (auto simp: map_res_all_ok)
qed

lemma store_commit_succeeds:
  assumes "mem_inv (svc_memory s)" and "in_range (svc_memory s)"
    and w: "mem_write (svc_memory s) adr x wd be (key_str key) = Inr (v, m')"
    and r: "resolve (svc_memory s) adr wd True = Inr (r, off)"
  shows "\<exists>rc w'. store_commit key adr x wd be (s, reserved, actual) = (Inr (Written rc), w')"
proof -
  note region = resolve_span_in_region [OF assms(1) r]
  have id: "memory_id r \<noteq> []" "0 \<le> generation (svc_memory s)" "generation (svc_memory s) < push_bit 64 1"
      "0 \<le> off" "off < push_bit 64 1"
    using assms(2) region(1-4) mem_invD(4) [OF assms(1)] by (auto simp: in_range_def push_bit_eq_mult)
  have m': "windows m' = windows (svc_memory s)" "generation m' = generation (svc_memory s)"
    using mem_write_inv [OF assms(1) w] write_generation [OF w] by (simp_all add: mem_le_def)
  have r': "resolve m' adr wd True = Inr (r, off)" using r resolve_windows [OF m'(1)] by simp
  obtain cs where cs: "map_res (committed_cell m' key (memory_id r) off x v) (enabled_lanes wd be) = Inr cs"
    using stored_checks(2) [OF assms] by blast
  obtain d where d: "digest (write_payload adr x wd be) = Inr d" by (simp add: digest_def write_payload_def)
  show ?thesis
    using stored_checks(1) [OF assms] cs d id w r r' m'(2)
    by (simp add: store_commit_def resolve_span_def Let_def)
qed

lemma store_carried_out:
  assumes "service_inv s" and "in_range (svc_memory s)" and "complete_key key"
    and "validate_write (svc_memory s) adr x wd be = Inr ()"
    and "map_of (entries (svc_ledger s)) key = None"
    and "source_sequence key = next_channel (svc_ledger s) (key_channel key)"
    and "source_sequence key = next_target (svc_ledger s) (key_channel key)"
    and "\<not> stream_full s"
  shows "\<exists>rc s1. service_write s key adr x wd be = (Inr (Some (Written rc)), s1)
    \<and> (commit_stream_enabled s \<longrightarrow> (\<exists>cid frozen ev. map_of (pending_commits s1) cid = Some (rc, frozen, ev)))"
proof -
  have inv: "mem_inv (svc_memory s)" using assms(1) by (simp add: service_inv_def)
  have "key_str key \<noteq> []" by (simp add: key_str_def)
  from validation_agrees [OF inv this] have "mem_write (svc_memory s) adr x wd be (key_str key) \<noteq> Inl e" for e
    using assms(4) by (metis sum.distinct(1))
  then obtain v m' where w: "mem_write (svc_memory s) adr x wd be (key_str key) = Inr (v, m')"
    by (cases "mem_write (svc_memory s) adr x wd be (key_str key)") auto
  obtain r off where r: "resolve (svc_memory s) adr wd True = Inr (r, off)"
    using write_determines [OF w] by blast
  define w0 where "w0 = (if commit_stream_enabled s then (s\<lparr>commit_reserved := commit_reserved s + 1\<rparr>, True, None) else (s, False, None :: write_receipt option))"
  have "\<exists>rc w'. store_commit key adr x wd be w0 = (Inr (Written rc), w')"
    unfolding w0_def using store_commit_succeeds [of s adr x wd be key v m' r off]
      store_commit_succeeds [of "s\<lparr>commit_reserved := commit_reserved s + 1\<rparr>" adr x wd be key v m' r off] inv assms(2) w r by simp
  moreover have "write_commit key adr x wd be (s, False, None) = store_commit key adr x wd be w0"
    using assms(8) by (simp add: write_commit_def reserve_slot_def w0_def)
  ultimately obtain rc w' where c: "write_commit key adr x wd be (s, False, None) = (Inr (Written rc), w')" by auto
  obtain d where d: "digest (write_payload adr x wd be) = Inr d" by (simp add: digest_def write_payload_def)
  obtain s' reserved actual where w': "w' = (s', reserved, actual)" by (metis prod.collapse)
  let ?ex = "execute_once (svc_ledger s) key (write_payload adr x wd be) (write_commit key adr x wd be) (s, False, None)"
  have "\<exists>l'. ?ex = (Inr (Some (Written rc)), l', w')"
    using assms(5-7) c d by (simp add: execute_once_def run_target_def Let_def)
  then obtain l' where ex: "?ex = (Inr (Some (Written rc)), l', w')" by blast
  have le: "ledger_le (svc_ledger s, []) (l', [])"
    using execute_once_le [of "svc_ledger s" "[]" key "write_payload adr x wd be" "write_commit key adr x wd be" "(s, False, None)" "[]"]
    by (simp add: ex)
  obtain e where e: "map_of (entries l') key = Some e" "status e = complete" "receipt e = Some (Written rc)"
    using ex by (cases rule: execute_onceE) (use assms(5) in auto)
  have st: "stream_inv s" using assms(1) by (simp add: service_inv_def)
  have sw: "service_write s key adr x wd be = finish_write key (Inr (Some (Written rc))) l' (s', reserved, actual)"
    using assms(3,4,8) ex w' by (simp add: service_write_def)
  show ?thesis
    by (rule finish_ran [OF c [unfolded w'] st le e]) (use sw grown_pending in auto)
qed

text \<open>C12: A store that passed its check is always carried out: for a complete key that is next on its channel, a
  permitted store of an in-range memory and a commit stream with room, the service performs the write, freezes the
  receipt and publishes the commit; none of the self-checks in the callback can fail.\<close>

theorem service_write_succeeds:
  assumes "service_inv s" and "in_range (svc_memory s)" and "complete_key key"
    and "validate_write (svc_memory s) adr x wd be = Inr ()"
    and "map_of (entries (svc_ledger s)) key = None"
    and "source_sequence key = next_channel (svc_ledger s) (key_channel key)"
    and "source_sequence key = next_target (svc_ledger s) (key_channel key)"
    and "\<not> stream_full s"
  shows "\<exists>rc s1. service_write s key adr x wd be = (Inr (Some (Written rc)), s1)
    \<and> (commit_stream_enabled s \<longrightarrow> (\<exists>cid frozen ev. map_of (pending_commits s1) cid = Some (rc, frozen, ev)))"
  using store_carried_out [OF assms] .

section \<open>Examples\<close>

definition ram_service :: service where
  "ram_service = \<lparr>svc_memory = ram, svc_ledger = new_ledger, include_writer_kinds = False, svc_events = [],
     commit_stream_capacity = Some 1, pending_commits = [], issued_receipt_ids = [],
     service_commit_sequence = 0, commit_reserved = 0, next_receipt = 0\<rparr>"

lemma ram_service_simps [simp]: "svc_memory ram_service = ram" "svc_ledger ram_service = new_ledger"
  "commit_stream_capacity ram_service = Some 1" "pending_commits ram_service = []" "commit_reserved ram_service = 0"
  by (simp_all add: ram_service_def)

lemma ram_service_made: "make_service ram new_ledger False (Some 1) = Inr ram_service"
  by (simp add: make_service_def ram_service_def)

lemma ram_service_inv: "service_inv ram_service"
  by (rule make_service_inv [OF ram_service_made ram_inv new_ledger_inv])

lemma new_ledger_simps [simp]: "entries new_ledger = []" "next_channel new_ledger c = 1" "next_target new_ledger c = 1"
  by (simp_all add: new_ledger_def next_channel_def next_target_def dict_get_def)

lemma example_key_facts: "source_sequence example_key = 1" "complete_key example_key" "key_str example_key \<noteq> []"
  by (simp_all add: example_key_def complete_key_def key_str_def)

lemma ram_validate: "validate_read ram 0x1000 4 = Inr ()" "validate_write ram 0x1000 7 4 15 = Inr ()"
  by (simp_all add: validate_read_def validate_write_def ram_resolve Let_def missing_keys_def check_instruction_ready_def
      slot_pending_def list_ex_iff budget_def initialized_bytes_def ram_region_def span_keys_def upto.simps dict_has_def
      check_store_def mem_natural_def enabled_lanes_def bit_lane_def)

lemma ram_service_read: "\<exists>x s1. service_read ram_service example_key 0x1000 4 = (Inr x, s1)"
proof -
  have "mem_read ram 0x1000 4 (key_str example_key) \<noteq> Inl e" for e
    using validation_agrees [OF ram_inv example_key_facts(3), where adr = "0x1000" and wd = 4] ram_validate(1)
    by (metis sum.distinct(1))
  then obtain snap m' where r: "mem_read ram 0x1000 4 (key_str example_key) = Inr (snap, m')"
    by (cases "mem_read ram 0x1000 4 (key_str example_key)") auto
  obtain d where "digest (read_payload 0x1000 4) = Inr d" by (simp add: digest_def read_payload_def)
  then show ?thesis
    using r by (simp add: service_read_def ram_validate execute_once_def example_key_facts run_target_def read_commit_def Let_def)
qed

theorem service_read_frozen_witness:
  "\<exists>x s1. service_read ram_service example_key 0x1000 4 = (Inr x, s1)
     \<and> service_read (foldl service_step s1 [Service_write (example_key\<lparr>source_sequence := 2\<rparr>) 0x1000 7 4 15]) example_key 0x1000 4
       = (Inr x, foldl service_step s1 [Service_write (example_key\<lparr>source_sequence := 2\<rparr>) 0x1000 7 4 15])"
proof -
  obtain x s1 where r: "service_read ram_service example_key 0x1000 4 = (Inr x, s1)" using ram_service_read by blast
  have "map_of (entries (svc_ledger ram_service)) example_key = None" by simp
  from service_read_frozen [OF ram_service_inv this r, of "[Service_write (example_key\<lparr>source_sequence := 2\<rparr>) 0x1000 7 4 15]"] r
  show ?thesis by blast
qed

lemma ram_in_range: "in_range ram"
  by (simp add: in_range_def ram_def ram_region_def)

lemma ram_store_conditions:
  "in_range (svc_memory ram_service)" "validate_write (svc_memory ram_service) 0x1000 7 4 15 = Inr ()"
  "map_of (entries (svc_ledger ram_service)) example_key = None"
  "source_sequence example_key = next_channel (svc_ledger ram_service) (key_channel example_key)"
  "source_sequence example_key = next_target (svc_ledger ram_service) (key_channel example_key)"
  "\<not> stream_full ram_service"
  by (simp_all add: ram_in_range ram_validate example_key_facts stream_full_def pending_commit_count_def)

theorem service_write_succeeds_witness:
  "\<exists>rc s1. service_write ram_service example_key 0x1000 7 4 15 = (Inr (Some (Written rc)), s1)
     \<and> (\<exists>cid frozen ev. map_of (pending_commits s1) cid = Some (rc, frozen, ev))"
  using service_write_succeeds [OF ram_service_inv ram_store_conditions(1) example_key_facts(2) ram_store_conditions(2-6)]
  by (simp add: commit_stream_enabled_def)


theorem commit_stream_queue_witness:
  "\<exists>rc s1. commit_step (ram_service, [], 0) (Service_write example_key 0x1000 7 4 15) = (s1, [rc], 0)
     \<and> drain_commit_events s1 None = Inr [commit_event 1 (wr_key rc) (receipt_commit_id rc) (the (commit_json rc))]
     \<and> (\<exists>t. ack_commit_events s1 [receipt_commit_id rc] = (Inr (), t) \<and> pending_commits t = [])"
proof -
  obtain rc s1 where w: "service_write ram_service example_key 0x1000 7 4 15 = (Inr (Some (Written rc)), s1)"
    using store_carried_out [OF ram_service_inv ram_store_conditions(1) example_key_facts(2) ram_store_conditions(2-6)] by blast
  then have step: "commit_step (ram_service, [], 0) (Service_write example_key 0x1000 7 4 15) = (s1, [rc], 0)"
    by (simp add: commit_stream_enabled_def dict_has_def)
  then have "foldl commit_step (ram_service, [], 0) [Service_write example_key 0x1000 7 4 15] = (s1, [rc], 0)" by simp
  from commit_stream_queue [OF ram_service_made ram_inv new_ledger_inv this, of "[receipt_commit_id rc]"]
  have "drain_commit_events s1 None = Inr [commit_event 1 (wr_key rc) (receipt_commit_id rc) (the (commit_json rc))]
     \<and> (\<exists>t. ack_commit_events s1 [receipt_commit_id rc] = (Inr (), t) \<and> pending_commits t = [])"
    by (auto simp: commit_queue_def published_entry_def)
  with step show ?thesis by blast
qed

theorem service_write_once_witness:
  "\<exists>rc s1. service_write ram_service example_key 0x1000 7 4 15 = (Inr (Some (Written rc)), s1)
     \<and> service_write (foldl service_step s1 [Service_read (example_key\<lparr>source_sequence := 2\<rparr>) 0x1000 4]) example_key 0x1000 7 4 15
       = (Inr (Some (Written rc)), foldl service_step s1 [Service_read (example_key\<lparr>source_sequence := 2\<rparr>) 0x1000 4])"
proof -
  obtain rc s1 where w: "service_write ram_service example_key 0x1000 7 4 15 = (Inr (Some (Written rc)), s1)"
    using store_carried_out [OF ram_service_inv ram_store_conditions(1) example_key_facts(2) ram_store_conditions(2-6)] by blast
  from service_write_once [OF ram_service_inv ram_store_conditions(3) w,
      of "[Service_read (example_key\<lparr>source_sequence := 2\<rparr>) 0x1000 4]"] w
  show ?thesis by blast
qed

end
