(* ===== verification/State_Dependency.thy ===== *)
theory State_Dependency
  imports Memory_Service
begin

text \<open>
  The state dependency tracker (\<open>scenario/state_dependency.py\<close>): it reads the memory service's event documents and
  derives which transaction depends on which through memory bytes. Event fields are read from the JSON document; a
  missing field raises \<open>KeyError\<close>, a field of another JSON type \<open>TypeError\<close>.
\<close>

section \<open>Model\<close>

type_synonym state_key = "string \<times> int \<times> int"

record state_edge =
  edge_kind :: string
  edge_source :: string
  edge_target :: string
  edge_memory :: string
  edge_generation :: int
  edge_offset :: int
  edge_version :: "version option"

record tracker =
  edges :: "state_edge list"
  current :: "(state_key, string \<times> version) dict"
  readers :: "(state_key, string list) dict"
  seen :: "(string \<times> string) set"

definition new_tracker :: tracker where
  "new_tracker = \<lparr>edges = [], current = [], readers = [], seen = {}\<rparr>"

fun as_int :: "json \<Rightarrow> int res" where
  "as_int (JInt i) = Inr i"
| "as_int _ = Inl (TypeError ''int'')"

fun as_str :: "json \<Rightarrow> string res" where
  "as_str (JStr s) = Inr s"
| "as_str _ = Inl (TypeError ''str'')"

fun as_list :: "json \<Rightarrow> json list res" where
  "as_list (JList xs) = Inr xs"
| "as_list _ = Inl (TypeError ''list'')"

definition as_version :: "json \<Rightarrow> version res" where
  "as_version j = (case j of JList [JInt g, JInt n] \<Rightarrow> Inr (g, n) | _ \<Rightarrow> Inl (TypeError ''version''))"

definition int_field :: "json \<Rightarrow> string \<Rightarrow> int res" where
  "int_field d k = res_bind (json_field d k) as_int"

definition str_field :: "json \<Rightarrow> string \<Rightarrow> string res" where
  "str_field d k = res_bind (json_field d k) as_str"

definition list_field :: "json \<Rightarrow> string \<Rightarrow> json list res" where
  "list_field d k = res_bind (json_field d k) as_list"

definition transaction_fields :: "string set" where
  "transaction_fields = {''execution_id'', ''testcase_id'', ''source_component'', ''source_epoch'', ''channel_id'', ''source_sequence''}"

text \<open>\<open>TransactionKey(**record)\<close> takes exactly the six fields.\<close>

definition event_transaction :: "json \<Rightarrow> string res" where
  "event_transaction d =
     res_bind (json_field d ''transaction'') (\<lambda>t.
       case t of JObj kvs \<Rightarrow>
         if fst ` set kvs \<noteq> transaction_fields then Inl (TypeError ''TransactionKey'')
         else res_bind (str_field t ''execution_id'') (\<lambda>ex.
           res_bind (str_field t ''testcase_id'') (\<lambda>tc.
           res_bind (str_field t ''source_component'') (\<lambda>sc.
           res_bind (int_field t ''source_epoch'') (\<lambda>ep.
           res_bind (str_field t ''channel_id'') (\<lambda>ch.
           res_bind (int_field t ''source_sequence'') (\<lambda>sq.
           res_bind (make_transaction_key ex tc sc ep ch sq) (\<lambda>key. Inr (key_str key))))))))
       | _ \<Rightarrow> Inl (TypeError ''TransactionKey''))"

definition make_edge :: "string \<Rightarrow> string \<Rightarrow> string \<Rightarrow> state_key \<Rightarrow> version option \<Rightarrow> state_edge" where
  "make_edge k src tgt sk v = \<lparr>edge_kind = k, edge_source = src, edge_target = tgt, edge_memory = fst sk,
     edge_generation = fst (snd sk), edge_offset = snd (snd sk), edge_version = v\<rparr>"

text \<open>One enabled byte of a store: the edges to the previous writer and to its readers, then the new writer.\<close>

definition write_byte :: "string \<Rightarrow> version \<Rightarrow> tracker \<Rightarrow> state_key \<Rightarrow> tracker" where
  "write_byte identity v t sk =
     (let previous = map_of (current t) sk;
          waw = (case previous of None \<Rightarrow> []
                 | Some (w, pv) \<Rightarrow> if w \<noteq> identity then [make_edge ''WAW'' w identity sk (Some pv)] else []);
          war = map (\<lambda>reader. make_edge ''WAR'' reader identity sk (map_option snd previous)) (dict_get (readers t) sk []) in
      t\<lparr>edges := edges t @ waw @ war, current := dict_set (current t) sk (identity, v), readers := dict_set (readers t) sk []\<rparr>)"

definition ingest_write :: "tracker \<Rightarrow> json \<Rightarrow> string \<Rightarrow> unit res \<times> tracker" where
  "ingest_write t d identity =
     (case res_bind (str_field d ''memory_id'') (\<lambda>mid. res_bind (int_field d ''generation'') (\<lambda>gen.
          res_bind (int_field d ''byte_offset'') (\<lambda>base. res_bind (json_field d ''version'') (\<lambda>v. Inr (mid, gen, base, v))))) of
        Inl e \<Rightarrow> (Inl e, t)
      | Inr (mid, gen, base, JNull) \<Rightarrow> (Inr (), t)
      | Inr (mid, gen, base, v) \<Rightarrow>
          (case res_bind (as_version v) (\<lambda>v. res_bind (int_field d ''width_bytes'') (\<lambda>wd.
               if wd \<le> 0 then Inr (v, wd, 0) else res_bind (int_field d ''byte_enable'') (\<lambda>be. Inr (v, wd, be)))) of
             Inl e \<Rightarrow> (Inl e, t)
           | Inr (v, wd, be) \<Rightarrow>
               (Inr (), foldl (write_byte identity v) t (map (\<lambda>lane. (mid, gen, base + lane)) (enabled_lanes wd be)))))"

definition read_byte_of :: "string \<Rightarrow> tracker \<Rightarrow> state_key \<Rightarrow> string \<Rightarrow> version \<Rightarrow> unit res \<times> tracker" where
  "read_byte_of identity t sk writer v =
     (if map_of (current t) sk \<noteq> None \<and> map_of (current t) sk \<noteq> Some (writer, v)
      then (Inl (ValueError ''read snapshot conflicts with committed state history''), t)
      else (Inr (), t\<lparr>current := dict_set (current t) sk (writer, v),
        edges := edges t @ [make_edge ''RAW'' writer identity sk (Some v), make_edge ''PERSIST'' writer identity sk (Some v)],
        readers := dict_set (readers t) sk (dict_get (readers t) sk [] @ [identity])\<rparr>))"

fun read_bytes_of :: "string \<Rightarrow> string \<Rightarrow> int \<Rightarrow> int \<Rightarrow> tracker \<Rightarrow> (json \<times> json) list \<Rightarrow> unit res \<times> tracker" where
  "read_bytes_of identity mid gen off t [] = (Inr (), t)"
| "read_bytes_of identity mid gen off t ((w, v) # rest) =
     (case res_bind (as_version v) (\<lambda>v. res_bind (as_str w) (\<lambda>w. Inr (w, v))) of
        Inl e \<Rightarrow> (Inl e, t)
      | Inr (w, v) \<Rightarrow> (case read_byte_of identity t (mid, gen, off) w v of
          (Inl e, t') \<Rightarrow> (Inl e, t') | (Inr _, t') \<Rightarrow> read_bytes_of identity mid gen (off + 1) t' rest))"

definition ingest_read :: "tracker \<Rightarrow> json \<Rightarrow> string \<Rightarrow> unit res \<times> tracker" where
  "ingest_read t d identity =
     (case res_bind (str_field d ''memory_id'') (\<lambda>mid. res_bind (int_field d ''generation'') (\<lambda>gen.
          res_bind (int_field d ''byte_offset'') (\<lambda>base. res_bind (list_field d ''writer_event_ids'') (\<lambda>ws.
          res_bind (list_field d ''versions'') (\<lambda>vs. Inr (mid, gen, base, ws, vs)))))) of
        Inl e \<Rightarrow> (Inl e, t)
      | Inr (mid, gen, base, ws, vs) \<Rightarrow> read_bytes_of identity mid gen base t (zip ws vs))"

definition event_kind :: "json \<Rightarrow> string option" where
  "event_kind d = (case d of JObj kvs \<Rightarrow> (case map_of kvs ''kind'' of Some (JStr k) \<Rightarrow> Some k | _ \<Rightarrow> None) | _ \<Rightarrow> None)"

definition ingest_one :: "tracker \<Rightarrow> json \<Rightarrow> unit res \<times> tracker" where
  "ingest_one t d =
     (case event_kind d of
        None \<Rightarrow> (Inr (), t)
      | Some k \<Rightarrow>
          if k \<notin> {''memory_read'', ''memory_write''} then (Inr (), t)
          else (case event_transaction d of
              Inl e \<Rightarrow> (Inl e, t)
            | Inr identity \<Rightarrow>
                if (k, identity) \<in> seen t then (Inr (), t)
                else (let t1 = t\<lparr>seen := insert (k, identity) (seen t)\<rparr> in
                  if k = ''memory_write'' then ingest_write t1 d identity else ingest_read t1 d identity)))"

fun ingest :: "tracker \<Rightarrow> json list \<Rightarrow> unit res \<times> tracker" where
  "ingest t [] = (Inr (), t)"
| "ingest t (d # ds) = (case ingest_one t d of (Inl e, t') \<Rightarrow> (Inl e, t') | (Inr _, t') \<Rightarrow> ingest t' ds)"

definition invalidate_generation :: "tracker \<Rightarrow> string \<Rightarrow> int \<Rightarrow> string \<Rightarrow> state_edge list \<times> tracker" where
  "invalidate_generation t mid gen reset_identity =
     (let hit = filter (\<lambda>kv. fst (fst kv) = mid \<and> fst (snd (fst kv)) = gen) (current t);
          created = map (\<lambda>(sk, w, v). make_edge ''INVALIDATE'' w reset_identity sk (Some v)) hit in
      (created, t\<lparr>edges := edges t @ created, current := foldl dict_del (current t) (map fst hit),
         readers := foldl dict_del (readers t) (map fst hit)\<rparr>))"

definition install_byte :: "string \<Rightarrow> version \<Rightarrow> tracker \<Rightarrow> state_key \<Rightarrow> tracker" where
  "install_byte identity v t sk =
     (case map_of (current t) sk of
        None \<Rightarrow> t
      | Some (w, pv) \<Rightarrow>
          t\<lparr>edges := edges t @ make_edge ''WAW'' w identity sk (Some pv)
              # map (\<lambda>reader. make_edge ''WAR'' reader identity sk (Some pv)) (dict_get (readers t) sk []),
            current := dict_set (current t) sk (identity, v), readers := dict_set (readers t) sk []\<rparr>)"

definition install_image :: "tracker \<Rightarrow> string \<Rightarrow> int \<Rightarrow> int \<Rightarrow> version \<Rightarrow> string \<Rightarrow> state_edge list \<times> tracker" where
  "install_image t mid off n v identity =
     (let t' = foldl (install_byte identity v) t (map (\<lambda>i. (mid, fst v, off + int i)) [0..<nat n]) in
      (drop (length (edges t)) (edges t'), t'))"

section \<open>Transaction identities\<close>

definition digit_char :: "char \<Rightarrow> bool" where
  "digit_char c \<longleftrightarrow> 48 \<le> (of_char c :: nat) \<and> (of_char c :: nat) \<le> 57"

definition dec_value :: "string \<Rightarrow> nat" where
  "dec_value s = foldl (\<lambda>v c. 10 * v + (of_char c - 48)) 0 s"

lemma nat_dec_props: "dec_value (nat_dec n) = n \<and> (\<forall>c \<in> set (nat_dec n). digit_char c) \<and> nat_dec n \<noteq> []"
proof (induction n rule: less_induct)
  case (less n)
  show ?case
  proof (cases "n < 10")
    case True
    then show ?thesis by (simp add: nat_dec.simps [of n] dec_value_def digit_char_def)
  next
    case False
    then have "n div 10 < n" by simp
    from less [OF this] False show ?thesis
      by (simp add: nat_dec.simps [of n] dec_value_def digit_char_def)
  qed
qed

lemma nat_dec_prefix:
  assumes "nat_dec m @ c # x = nat_dec n @ d # y" and "\<not> digit_char c" and "\<not> digit_char d"
  shows "m = n \<and> c # x = d # y"
proof -
  have "takeWhile digit_char (nat_dec m @ c # x) = nat_dec m" "takeWhile digit_char (nat_dec n @ d # y) = nat_dec n"
    using nat_dec_props assms(2,3) by (simp_all add: takeWhile_append2)
  with assms(1) have "nat_dec m = nat_dec n" by metis
  moreover from this have "m = n" using nat_dec_props by metis
  ultimately show ?thesis using assms(1) by simp
qed

lemma int_dec_prefix:
  assumes "int_dec i @ c # x = int_dec j @ d # y" and "\<not> digit_char c" and "\<not> digit_char d"
  shows "i = j \<and> c # x = d # y"
proof -
  have minus: "\<not> digit_char CHR ''-''" by (simp add: digit_char_def)
  have first: "\<exists>e es. nat_dec n = e # es \<and> digit_char e" for n using nat_dec_props [of n] by (cases "nat_dec n") auto
  show ?thesis
  proof (cases "(i < 0) = (j < 0)")
    case True
    then have "nat_dec (nat (if i < 0 then - i else i)) @ c # x = nat_dec (nat (if j < 0 then - j else j)) @ d # y"
      using assms(1) by (auto simp: int_dec_def split: if_splits)
    from nat_dec_prefix [OF this assms(2,3)] True show ?thesis by (auto split: if_splits)
  next
    case False
    with first [of "nat i"] first [of "nat j"] minus assms(1) show ?thesis by (auto simp: int_dec_def split: if_splits)
  qed
qed

text \<open>Reading back one escaped character.\<close>

fun read_repr :: "string \<Rightarrow> (char \<times> string) option" where
  "read_repr [] = None"
| "read_repr (a # r) = (if a \<noteq> char_of (92::nat) then Some (a, r) else (case r of
     [] \<Rightarrow> None
   | e # r' \<Rightarrow> if e = CHR ''n'' then Some (char_of (10::nat), r') else if e = CHR ''r'' then Some (char_of (13::nat), r')
       else if e = CHR ''t'' then Some (char_of (9::nat), r')
       else if e = CHR ''x'' then (case r' of h # l # r'' \<Rightarrow> Some (char_of (16 * the (hex_value h) + the (hex_value l)), r'') | _ \<Rightarrow> None)
       else Some (e, r')))"
lemma of_char_less: "of_char c < (256 :: nat)"
  using mod_less_divisor [of 256 "of_char c"] by simp

lemma read_repr_char:
  assumes "q = char_of (39::nat) \<or> q = char_of (34::nat)"
  shows "read_repr (repr_char q c @ x) = Some (c, x)"
proof -
  have "(of_char c :: nat) div 16 < 16" using of_char_less [of c] by (intro less_mult_imp_div_less) simp
  then have hex: "16 * ((of_char c :: nat) div 16 mod 16) + of_char c mod 16 = of_char c" by simp
  have c: "c = char_of n" if "of_char c = (n :: nat)" for n using that by (metis char_of_char)
  consider "c = q \<or> c = char_of (92::nat)" | "c \<noteq> q" "c \<noteq> char_of (92::nat)" "of_char c = (10::nat)" | "c \<noteq> q" "c \<noteq> char_of (92::nat)" "of_char c = (13::nat)"
    | "c \<noteq> q" "c \<noteq> char_of (92::nat)" "of_char c = (9::nat)"
    | "c \<noteq> q" "c \<noteq> char_of (92::nat)" "of_char c \<noteq> (10::nat)" "of_char c \<noteq> (13::nat)" "of_char c \<noteq> (9::nat)" "of_char c < (32::nat) \<or> of_char c = (127::nat)"
    | "c \<noteq> q" "c \<noteq> char_of (92::nat)" "of_char c \<noteq> (10::nat)" "of_char c \<noteq> (13::nat)" "of_char c \<noteq> (9::nat)" "\<not> (of_char c < (32::nat) \<or> of_char c = (127::nat))"
    by blast
  then show ?thesis
  proof cases
    case 1
    have "char_of (39::nat) = CHR 0x27" "char_of (34::nat) = CHR 0x22" "char_of (92::nat) = CHR 0x5C" by code_simp+
    with 1 assms show ?thesis by (auto simp: repr_char_def)
  next
    case 2
    with c [OF 2(3)] show ?thesis by (simp add: repr_char_def)
  next
    case 3
    with c [OF 3(3)] show ?thesis by (simp add: repr_char_def)
  next
    case 4
    with c [OF 4(3)] show ?thesis by (simp add: repr_char_def)
  next
    case 5
    with hex show ?thesis by (simp add: repr_char_def hex_digit_value del: of_char_eq_iff)
  next
    case 6
    then show ?thesis by (simp add: repr_char_def)
  qed
qed

lemma repr_char_prefix:
  assumes "repr_char q c @ x = repr_char q d @ y" and "q = char_of (39::nat) \<or> q = char_of (34::nat)"
  shows "c = d \<and> x = y"
  using read_repr_char [OF assms(2), of c x, unfolded assms(1)] read_repr_char [OF assms(2), of d y] by (metis option.inject prod.inject)

lemma repr_char_quote: "repr_char q c @ x \<noteq> q # y" if "q = char_of (39::nat) \<or> q = char_of (34::nat)"
  using that by (auto simp: repr_char_def)

lemma repr_body_prefix:
  assumes "q = char_of (39::nat) \<or> q = char_of (34::nat)"
  shows "concat (map (repr_char q) s) @ q # x = concat (map (repr_char q) t) @ q # y \<Longrightarrow> s = t \<and> x = y"
proof (induction s arbitrary: t)
  case Nil
  then show ?case using repr_char_quote [OF assms] by (cases t) (auto, metis append_assoc)
next
  case (Cons c s)
  show ?case
  proof (cases t)
    case Nil
    with Cons.prems repr_char_quote [OF assms] show ?thesis by (simp add: append_assoc)
  next
    case (Cons d t')
    with Cons.prems have "repr_char q c @ concat (map (repr_char q) s) @ q # x = repr_char q d @ concat (map (repr_char q) t') @ q # y" by simp
    from repr_char_prefix [OF this assms] Cons Cons.IH [of t'] show ?thesis by simp
  qed
qed

lemma py_repr_prefix: "py_repr s @ x = py_repr t @ y \<Longrightarrow> s = t \<and> x = y"
  using repr_body_prefix [of _ s x t y] by (auto simp: py_repr_def Let_def split: if_splits)

lemma key_str_inj: "key_str k = key_str k' \<Longrightarrow> k = k'"
proof -
  assume eq: "key_str k = key_str k'"
  then have 1: "py_repr (execution_id k) @ '', testcase_id='' @ py_repr (testcase_id k) @ '', source_component='' @ py_repr (source_component k)
      @ '', source_epoch='' @ int_dec (source_epoch k) @ '', channel_id='' @ py_repr (channel_id k) @ '', source_sequence='' @ int_dec (source_sequence k) @ '')''
    = py_repr (execution_id k') @ '', testcase_id='' @ py_repr (testcase_id k') @ '', source_component='' @ py_repr (source_component k')
      @ '', source_epoch='' @ int_dec (source_epoch k') @ '', channel_id='' @ py_repr (channel_id k') @ '', source_sequence='' @ int_dec (source_sequence k') @ '')''"
    unfolding key_str_def same_append_eq by simp
  note 2 = py_repr_prefix [OF 1]
  then have 3: "py_repr (testcase_id k) @ '', source_component='' @ py_repr (source_component k)
      @ '', source_epoch='' @ int_dec (source_epoch k) @ '', channel_id='' @ py_repr (channel_id k) @ '', source_sequence='' @ int_dec (source_sequence k) @ '')''
    = py_repr (testcase_id k') @ '', source_component='' @ py_repr (source_component k')
      @ '', source_epoch='' @ int_dec (source_epoch k') @ '', channel_id='' @ py_repr (channel_id k') @ '', source_sequence='' @ int_dec (source_sequence k') @ '')''"
    by simp
  note 4 = py_repr_prefix [OF 3]
  then have 5: "py_repr (source_component k) @ '', source_epoch='' @ int_dec (source_epoch k) @ '', channel_id='' @ py_repr (channel_id k) @ '', source_sequence='' @ int_dec (source_sequence k) @ '')''
    = py_repr (source_component k') @ '', source_epoch='' @ int_dec (source_epoch k') @ '', channel_id='' @ py_repr (channel_id k') @ '', source_sequence='' @ int_dec (source_sequence k') @ '')''"
    by simp
  note 6 = py_repr_prefix [OF 5]
  then have 7: "int_dec (source_epoch k) @ CHR '','' # '' channel_id='' @ py_repr (channel_id k) @ '', source_sequence='' @ int_dec (source_sequence k) @ '')''
    = int_dec (source_epoch k') @ CHR '','' # '' channel_id='' @ py_repr (channel_id k') @ '', source_sequence='' @ int_dec (source_sequence k') @ '')''"
    by simp
  have sep: "\<not> digit_char CHR '',''" "\<not> digit_char CHR '')''" by (simp_all add: digit_char_def)
  note 8 = int_dec_prefix [OF 7 sep(1) sep(1)]
  then have 9: "py_repr (channel_id k) @ '', source_sequence='' @ int_dec (source_sequence k) @ '')'' = py_repr (channel_id k') @ '', source_sequence='' @ int_dec (source_sequence k') @ '')''"
    by simp
  note 10 = py_repr_prefix [OF 9]
  then have "int_dec (source_sequence k) @ CHR '')'' # [] = int_dec (source_sequence k') @ CHR '')'' # []" by simp
  note 11 = int_dec_prefix [OF this sep(2) sep(2)]
  from 2 4 6 8 10 11 show "k = k'" by (intro transaction_key.equality) simp_all
qed

section \<open>The tracker agrees with the memory\<close>

definition agrees :: "memory \<Rightarrow> tracker \<Rightarrow> bool" where
  "agrees m t \<longleftrightarrow> (\<forall>sk w v. map_of (current t) sk = Some (w, v) \<longrightarrow> fst (snd sk) = generation m
     \<and> (\<exists>c. map_of (cells m) (fst sk, snd (snd sk)) = Some c \<and> writer_event_id c = w \<and> cell_version c = v))"

text \<open>Every store since the beginning is in the last-writer table.\<close>

definition stores_known :: "memory \<Rightarrow> memory \<Rightarrow> tracker \<Rightarrow> bool" where
  "stores_known m0 m t \<longleftrightarrow> (\<forall>k c. map_of (cells m) k = Some c \<longrightarrow> writer_kind c = ''STORE'' \<longrightarrow> map_of (cells m0) k \<noteq> Some c \<longrightarrow>
     map_of (current t) (fst k, generation m, snd k) = Some (writer_event_id c, cell_version c))"

definition synced :: "memory \<Rightarrow> memory \<Rightarrow> tracker \<Rightarrow> bool" where
  "synced m0 m t \<longleftrightarrow> agrees m t \<and> stores_known m0 m t"

text \<open>A step that determines new bytes by other means than a store.\<close>

definition cells_kept :: "memory \<Rightarrow> memory \<Rightarrow> bool" where
  "cells_kept m m' \<longleftrightarrow> generation m' = generation m \<and> (\<forall>k c. map_of (cells m) k = Some c \<longrightarrow> map_of (cells m') k = Some c)
     \<and> (\<forall>k c. map_of (cells m') k = Some c \<longrightarrow> writer_kind c = ''STORE'' \<longrightarrow> map_of (cells m) k = Some c)"

lemma cells_kept_refl: "cells m' = cells m \<Longrightarrow> generation m' = generation m \<Longrightarrow> cells_kept m m'"
  by (simp add: cells_kept_def)

lemma synced_kept:
  assumes "synced m0 m t" and "cells_kept m m'"
  shows "synced m0 m' t"
proof -
  have "agrees m' t" using assms unfolding synced_def agrees_def cells_kept_def by metis
  moreover have "stores_known m0 m' t" using assms unfolding synced_def stores_known_def cells_kept_def by metis
  ultimately show ?thesis by (simp add: synced_def)
qed

lemma put_cells_kept:
  assumes "cells m1 = cells m" and "generation m1 = generation m" and "cells m' = cells (put_cells m1 kcs)" and "generation m' = generation m1"
    and "distinct (map fst kcs)" and "\<forall>kc \<in> set kcs. \<not> dict_has (cells m) (fst kc) \<and> writer_kind (snd kc) \<noteq> ''STORE''"
  shows "cells_kept m m'"
proof -
  have look: "map_of (cells m') k = (case map_of kcs k of None \<Rightarrow> map_of (cells m) k | Some c \<Rightarrow> Some c)" for k
    unfolding assms(3) assms(1) [symmetric] by (rule map_of_put_cells [OF assms(5)])
  have new: "map_of (cells m) k = None \<and> writer_kind c \<noteq> ''STORE''" if "map_of kcs k = Some c" for k c
    using assms(6) map_of_SomeD [OF that] by (fastforce simp: dict_has_def)
  show ?thesis
    unfolding cells_kept_def using assms(2,4) look new by (auto split: option.splits)
qed

lemma ingest_append: "ingest t (xs @ ys) = (case ingest t xs of (Inl e, t') \<Rightarrow> (Inl e, t') | (Inr _, t') \<Rightarrow> ingest t' ys)"
  by (induction xs arbitrary: t) (auto split: prod.splits sum.splits)

lemma ingest_ignored: "\<forall>d \<in> set ds. \<exists>k. event_kind d = Some k \<and> k \<notin> {''memory_read'', ''memory_write''} \<Longrightarrow> ingest t ds = (Inr (), t)"
  by (induction ds) (auto simp: ingest_one_def)

definition key_valid :: "transaction_key \<Rightarrow> bool" where
  "key_valid k \<longleftrightarrow> make_transaction_key (execution_id k) (testcase_id k) (source_component k) (source_epoch k) (channel_id k) (source_sequence k) = Inr k"

lemma event_transaction_key:
  assumes "json_field d ''transaction'' = Inr (key_document k)" and "key_valid k"
  shows "event_transaction d = Inr (key_str k)"
proof -
  have "fst ` set [(''execution_id'', JStr (execution_id k)), (''testcase_id'', JStr (testcase_id k)),
           (''source_component'', JStr (source_component k)), (''source_epoch'', JInt (source_epoch k)),
           (''channel_id'', JStr (channel_id k)), (''source_sequence'', JInt (source_sequence k))] = transaction_fields"
    by (simp add: transaction_fields_def)
  with assms show ?thesis
    by (simp add: event_transaction_def key_document_def str_field_def int_field_def json_field_def key_valid_def)
qed

lemma agreesD:
  assumes "agrees m t" and "map_of (current t) (mid, gen, off) = Some p" and "map_of (cells m) (mid, off) = Some c"
  shows "p = (writer_event_id c, cell_version c)"
proof -
  obtain w v where p: "p = (w, v)" by (cases p)
  with assms(1,2) have "\<exists>c. map_of (cells m) (mid, off) = Some c \<and> writer_event_id c = w \<and> cell_version c = v"
    unfolding agrees_def by (metis fst_conv snd_conv)
  with assms(3) p show ?thesis by auto
qed

lemma read_byte_ok:
  assumes "synced m0 m t" and "map_of (cells m) (mid, off) = Some c" and "gen = generation m"
  shows "\<exists>t'. read_byte_of identity t (mid, gen, off) (writer_event_id c) (cell_version c) = (Inr (), t') \<and> synced m0 m t' \<and> seen t' = seen t"
proof -
  have "map_of (current t) (mid, gen, off) = None \<or> map_of (current t) (mid, gen, off) = Some (writer_event_id c, cell_version c)"
    using agreesD [of m t mid gen off _ c] assms(1,2) by (cases "map_of (current t) (mid, gen, off)") (auto simp: synced_def)
  with assms show ?thesis by (auto simp: read_byte_of_def synced_def agrees_def stores_known_def dict_simps)
qed

lemma read_bytes_ok:
  assumes "gen = generation m"
  shows "synced m0 m t \<Longrightarrow> \<forall>i < length cs. map_of (cells m) (mid, off + int i) = Some (cs ! i) \<Longrightarrow>
    \<exists>t'. read_bytes_of identity mid gen off t (zip (map JStr (map writer_event_id cs)) (map version_json (map cell_version cs))) = (Inr (), t')
      \<and> synced m0 m t' \<and> seen t' = seen t"
proof (induction cs arbitrary: t off)
  case (Cons c cs)
  have "map_of (cells m) (mid, off) = Some c" using Cons.prems(2) by force
  from read_byte_ok [OF Cons.prems(1) this assms, of identity] obtain t1 where
    t1: "read_byte_of identity t (mid, gen, off) (writer_event_id c) (cell_version c) = (Inr (), t1)" "synced m0 m t1" "seen t1 = seen t" by blast
  have "\<forall>i < length cs. map_of (cells m) (mid, off + 1 + int i) = Some (cs ! i)"
    using Cons.prems(2) by (auto simp: algebra_simps dest: spec [of _ "Suc _"])
  from Cons.IH [OF t1(2) this] t1 show ?case by (simp add: version_json_def as_version_def)
qed simp

lemma write_byte_current: "map_of (current (write_byte identity v t sk)) = (map_of (current t))(sk \<mapsto> (identity, v))" "seen (write_byte identity v t sk) = seen t"
  by (simp_all add: write_byte_def Let_def dict_simps fun_eq_iff)

lemma write_bytes_lookup:
  "map_of (current (foldl (write_byte identity v) t sks)) sk = (if sk \<in> set sks then Some (identity, v) else map_of (current t) sk)"
  "seen (foldl (write_byte identity v) t sks) = seen t"
  by (induction sks arbitrary: t) (simp_all add: write_byte_current)

section \<open>What one service call appends\<close>

lemma read_cells:
  assumes "mem_read m adr wd tid = Inr (snap, m')" and "mem_inv m"
  obtains cs where "cells_kept m m'" "snap_generation snap = generation m'"
    "writer_event_ids snap = map writer_event_id cs" "versions snap = map cell_version cs"
    "\<forall>i < length cs. map_of (cells m') (snap_memory snap, snap_offset snap + int i) = Some (cs ! i)"
proof -
  have "cells_kept m m' \<and> (\<exists>r off mat. snap = read_back m' r off wd tid mat \<and> (\<forall>k \<in> set (span_keys (memory_id r) off wd). dict_has (cells m') k))"
    using assms(1)
  proof (cases rule: mem_readE)
    case (determined r off)
    then show ?thesis by (auto simp: cells_kept_def missing_keys_Nil)
  next
    case (first r off v m1)
    let ?ks = "span_keys (memory_id r) off wd"
    have m1: "cells m1 = cells m" "generation m1 = generation m" using first(3) by (auto simp: next_version_Inr)
    have look: "map_of (cells m') k = (case map_of (map (first_read m r v) (missing_keys m ?ks)) k of None \<Rightarrow> map_of (cells m) k | Some c \<Rightarrow> Some c)" for k
      unfolding first(5) m1(1) [symmetric] by (rule map_of_put_cells) (simp only: fst_first_read missing_subset distinct_span_keys)
    have known: "map_of (map (first_read m r v) (missing_keys m ?ks)) k = None" if "dict_has (cells m) k" for k
      using that unfolding map_of_eq_None_iff by (auto simp: missing_keys_def first_read_def)
    have "cells_kept m m'"
      by (rule put_cells_kept [OF m1, where kcs = "map (first_read m r v) (missing_keys m ?ks)"])
        (auto simp: first(5) m1 missing_keys_def first_read_def comp_def)
    moreover have "dict_has (cells m') k" if "k \<in> set ?ks" for k
    proof (cases "dict_has (cells m) k")
      case True
      with look [of k] known [of k] show ?thesis by (simp add: dict_has_def)
    next
      case False
      with that have "k \<in> fst ` set (map (first_read m r v) (missing_keys m ?ks))" by (force simp: missing_keys_def)
      then have "map_of (map (first_read m r v) (missing_keys m ?ks)) k \<noteq> None" by (simp add: map_of_eq_None_iff)
      with look [of k] show ?thesis by (auto simp: dict_has_def)
    qed
    ultimately show ?thesis using first(6) by blast
  qed
  then obtain r off mat where snap: "snap = read_back m' r off wd tid mat" and has: "\<forall>k \<in> set (span_keys (memory_id r) off wd). dict_has (cells m') k"
    and kept: "cells_kept m m'" by blast
  let ?cs = "map (\<lambda>k. the (map_of (cells m') k)) (span_keys (memory_id r) off wd)"
  show thesis
  proof (rule that [of ?cs])
    show "\<forall>i < length ?cs. map_of (cells m') (snap_memory snap, snap_offset snap + int i) = Some (?cs ! i)"
      using has by (auto simp: snap read_back_def Let_def span_keys_def dict_has_def)
  qed (use kept in \<open>auto simp: snap read_back_def Let_def comp_def\<close>)
qed

definition tracks :: "memory \<Rightarrow> service \<Rightarrow> tracker \<Rightarrow> bool" where
  "tracks m0 s t \<longleftrightarrow> synced m0 (svc_memory s) t \<and> (\<forall>k i. (k, i) \<in> seen t \<longrightarrow> (\<exists>key. i = key_str key \<and> dict_has (entries (svc_ledger s)) key))"

lemma not_seen: "tracks m0 s t \<Longrightarrow> map_of (entries (svc_ledger s)) key = None \<Longrightarrow> (k, key_str key) \<notin> seen t"
  using key_str_inj by (fastforce simp: tracks_def dict_has_def)

lemma ledger_le_has: "ledger_le (l, a) (l', b) \<Longrightarrow> dict_has (entries l) key \<Longrightarrow> dict_has (entries l') key"
  by (auto simp: ledger_le_def dict_has_def)

lemma tracks_kept:
  assumes "tracks m0 s t" and "cells_kept (svc_memory s) (svc_memory s')" and "ledger_le (svc_ledger s, []) (svc_ledger s', [])"
  shows "tracks m0 s' t"
  using assms synced_kept ledger_le_has unfolding tracks_def by meson

lemma tracks_extend:
  assumes "tracks m0 s t" and "ledger_le (svc_ledger s, []) (svc_ledger s', [])" and "synced m0 (svc_memory s') t'"
    and "seen t' \<subseteq> insert (k, key_str key) (seen t)" and "dict_has (entries (svc_ledger s')) key"
  shows "tracks m0 s' t'"
  unfolding tracks_def
proof (intro conjI allI impI)
  fix k' i assume "(k', i) \<in> seen t'"
  then consider "i = key_str key" | "(k', i) \<in> seen t" using assms(4) by auto
  then show "\<exists>key. i = key_str key \<and> dict_has (entries (svc_ledger s')) key"
  proof cases
    case 2
    then obtain key' where "i = key_str key'" "dict_has (entries (svc_ledger s)) key'" using assms(1) by (auto simp: tracks_def)
    with ledger_le_has [OF assms(2)] show ?thesis by blast
  qed (use assms(5) in blast)
qed (rule assms(3))

lemma ingest_read_event:
  assumes "key_valid key" and "(''memory_read'', key_str key) \<notin> seen t" and "synced m0 m t"
    and "writer_event_ids snap = map writer_event_id cs" and "versions snap = map cell_version cs" and "snap_generation snap = generation m"
    and "\<forall>i < length cs. map_of (cells m) (snap_memory snap, snap_offset snap + int i) = Some (cs ! i)"
  shows "\<exists>t'. ingest t (map (initialization_event key snap) offs @ [read_event kinds key adr wd snap]) = (Inr (), t') \<and> synced m0 m t'
    \<and> seen t' = insert (''memory_read'', key_str key) (seen t)"
proof -
  let ?d = "read_event kinds key adr wd snap" and ?t = "t\<lparr>seen := insert (''memory_read'', key_str key) (seen t)\<rparr>"
  have init: "ingest t (map (initialization_event key snap) offs) = (Inr (), t)"
    by (rule ingest_ignored) (auto simp: initialization_event_def event_kind_def Let_def)
  have kind: "event_kind ?d = Some ''memory_read''" "json_field ?d ''transaction'' = Inr (key_document key)"
    by (simp_all add: event_kind_def read_event_def json_field_def)
  have fields: "str_field ?d ''memory_id'' = Inr (snap_memory snap)" "int_field ?d ''generation'' = Inr (snap_generation snap)"
      "int_field ?d ''byte_offset'' = Inr (snap_offset snap)" "list_field ?d ''writer_event_ids'' = Inr (map JStr (writer_event_ids snap))"
      "list_field ?d ''versions'' = Inr (map version_json (versions snap))"
    by (simp_all add: read_event_def json_field_def str_field_def int_field_def list_field_def)
  have "synced m0 m ?t" using assms(3) by (simp add: synced_def agrees_def stores_known_def)
  from read_bytes_ok [OF refl this assms(7), of "key_str key"] obtain t' where
    t': "read_bytes_of (key_str key) (snap_memory snap) (generation m) (snap_offset snap) ?t
        (zip (map JStr (map writer_event_id cs)) (map version_json (map cell_version cs))) = (Inr (), t')" "synced m0 m t'" "seen t' = seen ?t"
    by blast
  have "ingest_one t ?d = (Inr (), t')"
    using t'(1) assms(2) unfolding ingest_one_def kind event_transaction_key [OF kind(2) assms(1)] ingest_read_def fields
    by (simp add: assms(4,5,6) fields)
  with init t' show ?thesis by (simp add: ingest_append)
qed

lemma service_read_tracked:
  assumes "service_inv s" and "tracks m0 s t" and "key_valid key" and "service_read s key adr wd = (r, s')"
  shows "\<exists>evs t'. svc_events s' = svc_events s @ evs \<and> ingest t evs = (Inr (), t') \<and> tracks m0 s' t'"
proof (cases "validate_read (svc_memory s) adr wd")
  case (Inl e)
  with assms show ?thesis by (auto simp: service_read_def)
next
  case (Inr u)
  obtain l' s1 where ex: "execute_once (svc_ledger s) key (read_payload adr wd) (read_commit key adr wd) s = (r, l', s1)"
      and s': "s' = s1\<lparr>svc_ledger := l'\<rparr>"
    using assms(4) Inr by (auto simp: service_read_def split: prod.splits)
  have le: "ledger_le (svc_ledger s, []) (l', [])"
    using execute_once_le [of "svc_ledger s" "[]" key "read_payload adr wd" "read_commit key adr wd" s "[]"] by (simp add: ex)
  have quiet: ?thesis if "svc_memory s1 = svc_memory s" "svc_events s1 = svc_events s"
    using that tracks_kept [OF assms(2), of s'] le by (intro exI [of _ "[]"]) (simp add: s' cells_kept_refl)
  show ?thesis
    using ex
  proof (cases rule: execute_onceE)
    case idle
    then show ?thesis by (intro quiet) simp_all
  next
    case (failed e)
    then show ?thesis by (intro quiet) (auto simp: read_commit_def split: sum.splits)
  next
    case (ran x d)
    obtain snap where rd: "mem_read (svc_memory s) adr wd (key_str key) = Inr (snap, svc_memory s1)"
        "svc_events s1 = svc_events s @ map (initialization_event key snap) (materialized_offsets snap) @ [read_event (include_writer_kinds s) key adr wd snap]"
      using ran(2) by (auto simp: read_commit_def split: sum.splits)
    obtain cs where cs: "cells_kept (svc_memory s) (svc_memory s1)" "snap_generation snap = generation (svc_memory s1)"
        "writer_event_ids snap = map writer_event_id cs" "versions snap = map cell_version cs"
        "\<forall>i < length cs. map_of (cells (svc_memory s1)) (snap_memory snap, snap_offset snap + int i) = Some (cs ! i)"
      using read_cells [OF rd(1)] assms(1) by (auto simp: service_inv_def)
    have "synced m0 (svc_memory s1) t" using assms(2) synced_kept [OF _ cs(1)] by (simp add: tracks_def)
    from ingest_read_event [OF assms(3) not_seen [OF assms(2) ran(1)] this cs(3,4,2,5)] obtain t' where
      t': "ingest t (map (initialization_event key snap) (materialized_offsets snap) @ [read_event (include_writer_kinds s) key adr wd snap]) = (Inr (), t')"
        "synced m0 (svc_memory s1) t'" "seen t' = insert (''memory_read'', key_str key) (seen t)" by blast
    have "tracks m0 s' t'"
      by (rule tracks_extend [OF assms(2)]) (use le t'(2,3) ran(5) in \<open>auto simp: s' dict_has_def\<close>)
    with rd(2) t'(1) show ?thesis by (auto simp: s')
  qed
qed

lemma write_agrees:
  assumes "agrees m t" and look: "\<And>k. map_of (cells m') k = (case map_of (map (stored r off x u ev) (enabled_lanes wd be)) k of None \<Rightarrow> map_of (cells m) k | Some c \<Rightarrow> Some c)"
    and gen: "generation m' = generation m" and t': "t' = foldl (write_byte ev u) t (map (\<lambda>lane. (memory_id r, generation m, off + lane)) (enabled_lanes wd be))"
  shows "agrees m' t'"
  unfolding agrees_def
proof (intro allI impI)
  let ?lanes = "map (\<lambda>lane. (memory_id r, generation m, off + lane)) (enabled_lanes wd be)"
  fix sk w v' assume cur: "map_of (current t') sk = Some (w, v')"
  show "fst (snd sk) = generation m' \<and> (\<exists>c. map_of (cells m') (fst sk, snd (snd sk)) = Some c \<and> writer_event_id c = w \<and> cell_version c = v')"
  proof (cases "sk \<in> set ?lanes")
    case True
    then obtain lane where lane: "lane \<in> set (enabled_lanes wd be)" "sk = (memory_id r, generation m, off + lane)" by auto
    have "map_of (map (stored r off x u ev) (enabled_lanes wd be)) (memory_id r, off + lane) = Some (snd (stored r off x u ev lane))"
      using lane(1) by (intro map_of_is_SomeI) (auto simp: stored_def comp_def)
    with cur True lane gen look [of "(memory_id r, off + lane)"] show ?thesis
      by (auto simp: t' write_bytes_lookup stored_def)
  next
    case False
    with cur have cur: "map_of (current t) sk = Some (w, v')" by (simp add: t' write_bytes_lookup)
    then obtain c where c: "fst (snd sk) = generation m" "map_of (cells m) (fst sk, snd (snd sk)) = Some c" "writer_event_id c = w" "cell_version c = v'"
      using assms(1) unfolding agrees_def by blast
    have "(fst sk, snd (snd sk)) \<notin> fst ` set (map (stored r off x u ev) (enabled_lanes wd be))"
      using False c(1) by (cases sk) (auto simp: stored_def)
    then have "map_of (map (stored r off x u ev) (enabled_lanes wd be)) (fst sk, snd (snd sk)) = None" by (simp only: map_of_eq_None_iff not_False_eq_True)
    with c look gen show ?thesis by simp
  qed
qed

lemma write_known:
  assumes "stores_known m0 m t" and look: "\<And>k. map_of (cells m') k = (case map_of (map (stored r off x u ev) (enabled_lanes wd be)) k of None \<Rightarrow> map_of (cells m) k | Some c \<Rightarrow> Some c)"
    and gen: "generation m' = generation m" and t': "t' = foldl (write_byte ev u) t (map (\<lambda>lane. (memory_id r, generation m, off + lane)) (enabled_lanes wd be))"
  shows "stores_known m0 m' t'"
  unfolding stores_known_def
proof (intro allI impI)
  fix k c assume c: "map_of (cells m') k = Some c" "writer_kind c = ''STORE''" "map_of (cells m0) k \<noteq> Some c"
  let ?stored = "map (stored r off x u ev) (enabled_lanes wd be)"
  show "map_of (current t') (fst k, generation m', snd k) = Some (writer_event_id c, cell_version c)"
  proof (cases "map_of ?stored k")
    case None
    then have "(fst k, generation m, snd k) \<notin> set (map (\<lambda>lane. (memory_id r, generation m, off + lane)) (enabled_lanes wd be))"
      by (cases k) (auto simp: map_of_eq_None_iff stored_def image_iff)
    with None c look [of k] assms(1) gen show ?thesis by (auto simp: stores_known_def t' write_bytes_lookup)
  next
    case (Some d)
    then have "(k, d) \<in> set ?stored" by (rule map_of_SomeD)
    moreover have "d = c" using Some c(1) look [of k] by simp
    ultimately show ?thesis using gen by (auto simp: t' write_bytes_lookup stored_def)
  qed
qed

lemma ingest_write_event:
  assumes "key_valid key" and "(''memory_write'', key_str key) \<notin> seen t" and "synced m0 m t"
    and "mem_write m adr x wd be (key_str key) = Inr (v, m')" and "resolve m adr wd True = Inr (r, off)"
  shows "\<exists>t'. ingest t [write_event key adr wd (memory_id r) (generation m) off x be v] = (Inr (), t') \<and> synced m0 m' t'
    \<and> seen t' = insert (''memory_write'', key_str key) (seen t)"
proof -
  let ?d = "write_event key adr wd (memory_id r) (generation m) off x be v" and ?t = "t\<lparr>seen := insert (''memory_write'', key_str key) (seen t)\<rparr>"
  have kind: "event_kind ?d = Some ''memory_write''" "json_field ?d ''transaction'' = Inr (key_document key)"
    by (simp_all add: event_kind_def write_event_def json_field_def)
  have fields: "str_field ?d ''memory_id'' = Inr (memory_id r)" "int_field ?d ''generation'' = Inr (generation m)"
      "int_field ?d ''byte_offset'' = Inr off" "json_field ?d ''version'' = Inr (case v of None \<Rightarrow> JNull | Some u \<Rightarrow> version_json u)"
      "int_field ?d ''width_bytes'' = Inr wd" "int_field ?d ''byte_enable'' = Inr be"
    by (simp_all add: write_event_def json_field_def str_field_def int_field_def)
  have one: "ingest_one t ?d = ingest_write ?t ?d (key_str key)"
    using assms(2) unfolding ingest_one_def kind event_transaction_key [OF kind(2) assms(1)] by simp
  have t: "agrees m ?t" "stores_known m0 m ?t" using assms(3) by (simp_all add: synced_def agrees_def stores_known_def)
  show ?thesis
    using assms(4)
  proof (cases rule: mem_writeE)
    case (idle r' off')
    have "ingest_write ?t ?d (key_str key) = (Inr (), ?t)" unfolding ingest_write_def fields by (simp add: idle fields)
    with one t idle show ?thesis by (simp add: synced_def)
  next
    case (store r' off' u m1)
    let ?t' = "foldl (write_byte (key_str key) u) ?t (map (\<lambda>lane. (memory_id r, generation m, off + lane)) (enabled_lanes wd be))"
    have wd: "\<not> wd \<le> 0" using store(4) by (auto simp: enabled_lanes_def)
    have w: "ingest_write ?t ?d (key_str key) = (Inr (), ?t')"
      unfolding ingest_write_def fields by (simp add: store(6) fields wd version_json_def as_version_def)
    have same: "r' = r" "off' = off" using store(1) assms(5) by auto
    have m1: "cells m1 = cells m" "generation m1 = generation m" using store(5) by (auto simp: next_version_Inr)
    have look: "map_of (cells m') k = (case map_of (map (stored r off x u (key_str key)) (enabled_lanes wd be)) k of None \<Rightarrow> map_of (cells m) k | Some c \<Rightarrow> Some c)" for k
      unfolding store(7) same m1(1) [symmetric] by (rule map_of_put_cells) (simp add: stored_def comp_def)
    have gen: "generation m' = generation m" using m1 by (simp add: store(7))
    show ?thesis
      using one w write_agrees [OF t(1) look gen refl] write_known [OF t(2) look gen refl] by (simp add: synced_def write_bytes_lookup)
  qed
qed

lemma finish_write_frame:
  "svc_memory (snd (finish_write key r l (s, reserved, actual))) = svc_memory s \<and> svc_events (snd (finish_write key r l (s, reserved, actual))) = svc_events s
    \<and> svc_ledger (snd (finish_write key r l (s, reserved, actual))) = l"
  by (auto simp: finish_write_def publish_def Let_def split: sum.splits option.splits json.splits)

lemma execute_once_failed:
  assumes "execute_once l key p act w = (Inl e, l', w')" and "w' \<noteq> w" and "act w = (Inl e, w')"
  shows "key \<in> set (uncertain_keys l')"
proof -
  have none: "map_of (entries l) key = None" using assms(1,2) by (auto simp: execute_once_def split: sum.splits option.splits if_splits)
  have "\<exists>en. map_of (entries l') key = Some en \<and> status en = uncertain_effect"
    using assms none by (auto simp: execute_once_def run_target_def set_status_def Let_def dict_simps split: sum.splits if_splits)
  then obtain en where "(key, en) \<in> set (entries l')" "status en = uncertain_effect" using map_of_SomeD by fastforce
  then show ?thesis by (force simp: uncertain_keys_def)
qed

lemma store_commit_event:
  assumes "store_commit key adr x wd be (s, reserved, actual) = (Inr y, s', reserved', actual')"
  shows "\<exists>r off v. resolve (svc_memory s) adr wd True = Inr (r, off) \<and> mem_write (svc_memory s) adr x wd be (key_str key) = Inr (v, svc_memory s')
    \<and> svc_events s' = svc_events s @ [write_event key adr wd (memory_id r) (generation (svc_memory s)) off x be v]"
proof -
  obtain mid gen off where span: "resolve_span (svc_memory s) adr wd True = Inr (mid, gen, off)"
    using assms by (auto simp: store_commit_def split: sum.splits)
  then obtain r where r: "resolve (svc_memory s) adr wd True = Inr (r, off)" "mid = memory_id r" "gen = generation (svc_memory s)"
    by (auto simp: resolve_span_def)
  obtain v m' where w: "mem_write (svc_memory s) adr x wd be (key_str key) = Inr (v, m')"
    using assms span by (auto simp: store_commit_def split: sum.splits)
  have "svc_memory s' = m' \<and> svc_events s' = svc_events s @ [write_event key adr wd mid gen off x be v]"
    using assms span w by (auto simp: store_commit_def Let_def split: sum.splits if_splits simp del: res_bind_eq_Inr json_sorted.simps)
  with r w show ?thesis by auto
qed

lemma write_commit_event:
  assumes "write_commit key adr x wd be (s, False, None) = (Inr y, s', reserved', actual')"
  shows "\<exists>r off v. resolve (svc_memory s) adr wd True = Inr (r, off) \<and> mem_write (svc_memory s) adr x wd be (key_str key) = Inr (v, svc_memory s')
    \<and> svc_events s' = svc_events s @ [write_event key adr wd (memory_id r) (generation (svc_memory s)) off x be v]"
proof -
  obtain s1 reserved where "store_commit key adr x wd be (s1, reserved, None) = (Inr y, s', reserved', actual')"
      "svc_memory s1 = svc_memory s" "svc_events s1 = svc_events s"
    using assms by (auto simp: write_commit_def reserve_slot_def split: if_splits)
  from store_commit_event [OF this(1)] this(2,3) show ?thesis by simp
qed

lemma complete_key_valid: "complete_key key \<Longrightarrow> key_valid key"
  by (simp add: complete_key_def key_valid_def make_transaction_key_def)

lemma service_write_tracked:
  assumes "tracks m0 s t" and "service_write s key adr x wd be = (r, s')" and "uncertain_keys (svc_ledger s') = []"
  shows "\<exists>evs t'. svc_events s' = svc_events s @ evs \<and> ingest t evs = (Inr (), t') \<and> tracks m0 s' t'"
proof (cases "s' = s")
  case True
  with assms(1) show ?thesis by (intro exI [of _ "[]"]) simp
next
  case False
  then have key: "complete_key key" using assms(2) by (auto simp: service_write_def split: if_splits)
  obtain r1 l' s1 reserved actual where
    ex: "execute_once (svc_ledger s) key (write_payload adr x wd be) (write_commit key adr x wd be) (s, False, None) = (r1, l', s1, reserved, actual)"
    and fin: "finish_write key r1 l' (s1, reserved, actual) = (r, s')"
    using assms(2) False by (auto simp: service_write_def split: if_splits sum.splits prod.splits)
  have s': "svc_memory s' = svc_memory s1" "svc_events s' = svc_events s1" "svc_ledger s' = l'"
    using finish_write_frame [of key r1 l' s1 reserved actual] fin by auto
  have le: "ledger_le (svc_ledger s, []) (l', [])"
    using execute_once_le [of "svc_ledger s" "[]" key "write_payload adr x wd be" "write_commit key adr x wd be" "(s, False, None)" "[]"] by (simp add: ex)
  have quiet: ?thesis if "s1 = s"
    using that tracks_kept [OF assms(1), of s'] le s' by (intro exI [of _ "[]"]) (simp add: cells_kept_refl)
  show ?thesis
    using ex
  proof (cases rule: execute_onceE)
    case idle
    then show ?thesis by (intro quiet) simp
  next
    case (failed e)
    have "(s1, reserved, actual) = (s, False, None)"
    proof (rule ccontr)
      assume "(s1, reserved, actual) \<noteq> (s, False, None)"
      from execute_once_failed [OF ex [unfolded failed(3)] this failed(2)] assms(3) s'(3) show False by simp
    qed
    then show ?thesis by (intro quiet) simp
  next
    case (ran y d)
    obtain rg off v where w: "resolve (svc_memory s) adr wd True = Inr (rg, off)" "mem_write (svc_memory s) adr x wd be (key_str key) = Inr (v, svc_memory s1)"
        "svc_events s1 = svc_events s @ [write_event key adr wd (memory_id rg) (generation (svc_memory s)) off x be v]"
      using write_commit_event [OF ran(2)] by blast
    have "synced m0 (svc_memory s) t" using assms(1) by (simp add: tracks_def)
    from ingest_write_event [OF complete_key_valid [OF key] not_seen [OF assms(1) ran(1)] this w(2,1)] obtain t' where
      t': "ingest t [write_event key adr wd (memory_id rg) (generation (svc_memory s)) off x be v] = (Inr (), t')" "synced m0 (svc_memory s1) t'"
        "seen t' = insert (''memory_write'', key_str key) (seen t)" by blast
    have "tracks m0 s' t'"
      by (rule tracks_extend [OF assms(1)]) (use le t'(2,3) ran(5) s' in \<open>auto simp: dict_has_def\<close>)
    with w(3) t'(1) s' show ?thesis by auto
  qed
qed

lemma accept_kept:
  assumes "accept_instructions m adr bs ev = Inr (rc, m')"
  shows "cells_kept m m'"
  using assms
proof (cases rule: acceptE)
  case (1 r off v m1 mat)
  let ?kcs = "map (installed v ''INSTRUCTION_SOURCE'' ev) (zip (span_keys (memory_id r) off (int (length bs))) bs)"
  have m1: "cells m1 = cells m" "generation m1 = generation m" using 1(7) by (auto simp: next_version_Inr)
  show ?thesis
  proof (rule put_cells_kept [OF m1, where kcs = ?kcs])
    show "distinct (map fst ?kcs)" by (simp add: comp_def span_keys_def distinct_map inj_on_def)
    show "\<forall>kc \<in> set ?kcs. \<not> dict_has (cells m) (fst kc) \<and> writer_kind (snd kc) \<noteq> ''STORE''"
      using 1(5) by (auto simp: installed_def slot_pending_def dest: set_zip_leftD)
  qed (simp_all add: 1(10) m1)
qed

lemma service_accept_tracked:
  assumes "tracks m0 s t" and "service_accept_instructions s adr bs ev = (r, s')"
  shows "\<exists>evs t'. svc_events s' = svc_events s @ evs \<and> ingest t evs = (Inr (), t') \<and> tracks m0 s' t'"
proof (cases "accept_instructions (svc_memory s) adr bs ev")
  case (Inl e)
  with assms show ?thesis by (intro exI [of _ "[]"]) (auto simp: service_accept_instructions_def)
next
  case (Inr x)
  obtain rc m' where acc: "accept_instructions (svc_memory s) adr bs ev = Inr (rc, m')" using Inr by (cases x) simp
  obtain evs where evs: "svc_events s' = svc_events s @ evs" "\<forall>d \<in> set evs. \<exists>k. event_kind d = Some k \<and> k \<notin> {''memory_read'', ''memory_write''}"
      "svc_memory s' = m'" "svc_ledger s' = svc_ledger s"
    using assms(2) acc by (fastforce simp: service_accept_instructions_def event_kind_def split: sum.splits)
  have "tracks m0 s' t" by (rule tracks_kept [OF assms(1)]) (use accept_kept [OF acc] evs in \<open>simp_all add: ledger_le_refl\<close>)
  with evs ingest_ignored show ?thesis by blast
qed

lemma release_frame: "release_commits s cids = (r, s') \<Longrightarrow> svc_events s' = svc_events s \<and> svc_memory s' = svc_memory s \<and> svc_ledger s' = svc_ledger s"
  by (induction s cids rule: release_commits.induct) (auto simp: Let_def split: option.splits prod.splits if_splits)

fun call_valid :: "service_call \<Rightarrow> bool" where
  "call_valid (Service_read key adr wd) = key_valid key"
| "call_valid _ = True"

lemma service_step_tracked:
  assumes "service_inv s" and "tracks m0 s t" and "call_valid c" and "uncertain_keys (svc_ledger (service_step s c)) = []"
  shows "\<exists>evs t'. svc_events (service_step s c) = svc_events s @ evs \<and> ingest t evs = (Inr (), t') \<and> tracks m0 (service_step s c) t'"
proof (cases c)
  case (Service_ack cids)
  obtain r s' where rel: "ack_commit_events s cids = (r, s')" by fastforce
  then have "svc_events s' = svc_events s" "svc_memory s' = svc_memory s" "svc_ledger s' = svc_ledger s"
    using release_frame by (auto simp: ack_commit_events_def split: if_splits)
  with Service_ack rel assms(2) show ?thesis by (intro exI [of _ "[]"]) (simp add: tracks_def)
next
  case (Service_read key adr wd)
  with service_read_tracked [OF assms(1,2) _ prod.collapse [symmetric], of key adr wd] assms(3) show ?thesis by simp
next
  case (Service_write key adr x wd be)
  with service_write_tracked [OF assms(2) prod.collapse [symmetric], of key adr x wd be] assms(4) show ?thesis by simp
next
  case (Service_accept adr bs ev)
  with service_accept_tracked [OF assms(2) prod.collapse [symmetric], of adr bs ev] show ?thesis by simp
qed

lemma service_run_tracked:
  assumes "make_service m l kinds cap = Inr s0" and "mem_inv m" and "ledger_inv l"
  shows "\<forall>c \<in> set calls. call_valid c \<Longrightarrow> uncertain_keys (svc_ledger (foldl service_step s0 calls)) = [] \<Longrightarrow>
    \<exists>t. ingest new_tracker (svc_events (foldl service_step s0 calls)) = (Inr (), t) \<and> tracks m (foldl service_step s0 calls) t"
proof (induction calls rule: rev_induct)
  case Nil
  have "svc_events s0 = []" "svc_memory s0 = m" using assms(1) by (auto simp: make_service_def split: if_splits)
  then show ?case by (simp add: tracks_def synced_def agrees_def stores_known_def new_tracker_def)
next
  case (snoc c calls)
  let ?s = "foldl service_step s0 calls"
  have inv: "service_inv ?s" using service_machine.run_inv [OF make_service_inv [OF assms]] .
  have "uncertain_keys (svc_ledger ?s) = []"
    using uncertain_mono [of "svc_ledger ?s" "[]" "svc_ledger (service_step ?s c)" "[]"] service_step_ok [OF inv, of c] inv snoc.prems(2)
    by (auto simp: service_le_def service_inv_def)
  then obtain t where t: "ingest new_tracker (svc_events ?s) = (Inr (), t)" "tracks m ?s t" using snoc by auto
  from service_step_tracked [OF inv t(2), of c] snoc.prems obtain evs t' where
    "svc_events (service_step ?s c) = svc_events ?s @ evs" "ingest t evs = (Inr (), t')" "tracks m (service_step ?s c) t'" by auto
  with t(1) show ?case by (simp add: ingest_append)
qed

text \<open>C14: The dependency tracker and the memory service agree: for every sequence of service calls that leaves no
  transaction uncertain, the tracker ingests the complete event stream without ever finding a read snapshot in
  conflict with its history; every entry of its last-writer table is the writer and version of the byte in memory;
  and every byte stored during the run is in the table, so no dependency on a store is missed.\<close>

theorem tracker_consistent:
  assumes "make_service m l kinds cap = Inr s0" and "mem_inv m" and "ledger_inv l" and "\<forall>c \<in> set calls. call_valid c"
    and "s = foldl service_step s0 calls" and "uncertain_keys (svc_ledger s) = []"
  shows "\<exists>t. ingest new_tracker (svc_events s) = (Inr (), t)
    \<and> (\<forall>mid gen off w v. map_of (current t) (mid, gen, off) = Some (w, v) \<longrightarrow> gen = generation (svc_memory s)
        \<and> (\<exists>c. map_of (cells (svc_memory s)) (mid, off) = Some c \<and> writer_event_id c = w \<and> cell_version c = v))
    \<and> (\<forall>mid off c. map_of (cells (svc_memory s)) (mid, off) = Some c \<and> writer_kind c = ''STORE'' \<and> map_of (cells m) (mid, off) \<noteq> Some c \<longrightarrow>
        map_of (current t) (mid, generation (svc_memory s), off) = Some (writer_event_id c, cell_version c))"
proof -
  obtain t where "ingest new_tracker (svc_events s) = (Inr (), t)" "tracks m s t"
    using service_run_tracked [OF assms(1-4)] assms(5,6) by blast
  then show ?thesis unfolding tracks_def synced_def agrees_def stores_known_def by (intro exI [of _ t]) (metis fst_conv snd_conv)
qed

lemma first_execution_certain:
  "execute_once new_ledger key p act w = (Inr x, l', w') \<Longrightarrow> uncertain_keys l' = []"
  by (auto simp: execute_once_def run_target_def set_status_def Let_def uncertain_keys_def split: sum.splits prod.splits if_splits)

theorem tracker_consistent_witness:
  "\<exists>rc s t. service_write ram_service example_key 0x1000 7 4 15 = (Inr (Some (Written rc)), s) \<and> ingest new_tracker (svc_events s) = (Inr (), t)"
proof -
  obtain rc s where w: "service_write ram_service example_key 0x1000 7 4 15 = (Inr (Some (Written rc)), s)"
    using store_carried_out [OF ram_service_inv ram_store_conditions(1) example_key_facts(2) ram_store_conditions(2-6)] by blast
  let ?c = "Service_write example_key 0x1000 7 4 15"
  obtain r l' s1 reserved actual where ex: "execute_once new_ledger example_key (write_payload 0x1000 7 4 15)
      (write_commit example_key 0x1000 7 4 15) (ram_service, False, None) = (r, l', s1, reserved, actual)" by (metis prod.collapse)
  have fin: "finish_write example_key r l' (s1, reserved, actual) = (Inr (Some (Written rc)), s)"
    using w ex by (simp add: service_write_def example_key_facts ram_validate stream_full_def pending_commit_count_def)
  then have "svc_ledger s = l'" using finish_write_frame [of example_key r l' s1 reserved actual] by simp
  moreover have "\<exists>x. r = Inr x" using fin by (cases r) (auto simp: finish_write_def Let_def split: prod.splits)
  ultimately have "uncertain_keys (svc_ledger s) = []" using ex first_execution_certain by metis
  then have "uncertain_keys (svc_ledger (foldl service_step ram_service [?c])) = []" using w by simp
  from tracker_consistent [OF ram_service_made ram_inv new_ledger_inv _ refl this] w show ?thesis by auto
qed

end
