(* ===== verification/Ownership.thy ===== *)
theory Ownership
  imports Stdlib Interfaces "HOL-Library.Product_Lexorder"
begin

text \<open>
  Exclusive bit ownership of device inputs (\<open>scenario/ownership.py\<close>): every bit of every declared input
  has one owner, a fuzzable source, a bound producer or a fixed value.
\<close>

section \<open>Model\<close>

record input_field =
  field_component :: string
  field_port :: string
  field_bits :: int

definition make_input_field :: "string \<Rightarrow> string \<Rightarrow> int \<Rightarrow> input_field res" where
  "make_input_field c p w =
     (if c = [] \<or> p = [] then Inl (ValueError ''component_id and port must be nonempty'')
      else if w < 1 then Inl (ValueError ''input width must be positive'')
      else Inr \<lparr>field_component = c, field_port = p, field_bits = w\<rparr>)"

definition owner_kinds :: "string list" where
  "owner_kinds = [''source'', ''bound'', ''fixed'']"

definition mutation_directions :: "string list" where
  "mutation_directions = [''CPU_TO_IP'', ''IP_TO_CPU'', ''IP_TO_IP'', ''CPU_TO_IP_TO_CPU'', ''IP_TO_CPU_TO_IP'', ''MULTI_COMPONENT_CHAIN'']"

record input_owner =
  owner_component :: string
  owner_port :: string
  owner_offset :: int
  owner_width :: int
  owner_kind :: string
  producer_ref :: string

definition make_input_owner :: "input_owner \<Rightarrow> input_owner res" where
  "make_input_owner w =
     (if owner_component w = [] \<or> owner_port w = [] \<or> producer_ref w = [] then Inl (ValueError ''owner identity and producer_ref must be nonempty'')
      else if owner_kind w \<notin> set owner_kinds then Inl (ValueError ''unknown input owner kind'')
      else if owner_offset w < 0 \<or> owner_width w < 1 then Inl (ValueError ''owner bit range is invalid'')
      else Inr w)"

type_synonym input_key = "string \<times> string"
type_synonym ownership_map = "(input_key, input_owner list) dict"

definition field_key :: "input_field \<Rightarrow> input_key" where
  "field_key f = (field_component f, field_port f)"

definition owner_key :: "input_owner \<Rightarrow> input_key" where
  "owner_key w = (owner_component w, owner_port w)"

definition owner_sort_key :: "input_owner \<Rightarrow> string \<times> string \<times> int \<times> int \<times> string \<times> string" where
  "owner_sort_key w = (owner_component w, owner_port w, owner_offset w, owner_width w, owner_kind w, producer_ref w)"

definition owner_document :: "input_owner \<Rightarrow> json" where
  "owner_document w = JObj [(''component_id'', JStr (owner_component w)), (''port'', JStr (owner_port w)), (''bit_offset'', JInt (owner_offset w)),
     (''width'', JInt (owner_width w)), (''kind'', JStr (owner_kind w)), (''producer_ref'', JStr (producer_ref w))]"

definition ownership_document :: "ownership_map \<Rightarrow> json" where
  "ownership_document m = JObj
     [(''fields'', JList (map (\<lambda>(k, bs). JObj [(''component_id'', JStr (fst k)), (''port'', JStr (snd k)), (''width'', JInt (int (length bs)))])
        (sort_key fst m))),
      (''owners'', JList (map owner_document (sort_key owner_sort_key (remdups (concat (map snd m))))))]"

definition selected_owners :: "input_owner list \<Rightarrow> int \<Rightarrow> int \<Rightarrow> input_owner list" where
  "selected_owners bs off w = take (nat w) (drop (nat off) bs)"

fun refuse_bound :: "input_owner list \<Rightarrow> unit res" where
  "refuse_bound [] = Inr ()"
| "refuse_bound (w # ws) = (if owner_kind w \<noteq> ''source'' then Inl (ValueError (owner_kind w @ '' input cannot be mutated'')) else refuse_bound ws)"

definition single_producer :: "input_owner list \<Rightarrow> string \<Rightarrow> string res" where
  "single_producer ws msg = (let producers = remdups (map producer_ref ws) in
     if length producers \<noteq> 1 then Inl (ValueError msg) else Inr (hd producers))"

definition mutation_source :: "ownership_map \<Rightarrow> string \<Rightarrow> string \<Rightarrow> int \<Rightarrow> int \<Rightarrow> string \<Rightarrow> string res" where
  "mutation_source m c p off w dir =
     (if dir \<notin> set mutation_directions then Inl (ValueError ''unknown mutation direction'')
      else (case map_of m (c, p) of
        None \<Rightarrow> Inl (ValueError ''undeclared input field'')
      | Some bs \<Rightarrow>
          if off < 0 \<or> w < 1 \<or> off + w > int (length bs) then Inl (ValueError ''mutation range exceeds input field'')
          else res_bind (refuse_bound (selected_owners bs off w)) (\<lambda>_.
            single_producer (selected_owners bs off w) ''mutation spans multiple fuzzable sources'')))"

definition field_width :: "ownership_map \<Rightarrow> string \<Rightarrow> string \<Rightarrow> int res" where
  "field_width m c p = (case map_of m (c, p) of None \<Rightarrow> Inl (ValueError ''undeclared input field'') | Some bs \<Rightarrow> Inr (int (length bs)))"

definition binding_producer :: "ownership_map \<Rightarrow> string \<Rightarrow> string \<Rightarrow> int \<Rightarrow> int \<Rightarrow> string res" where
  "binding_producer m c p off w =
     (case map_of m (c, p) of
        None \<Rightarrow> Inl (ValueError ''binding range exceeds input field'')
      | Some bs \<Rightarrow>
          if off < 0 \<or> w < 1 \<or> off + w > int (length bs) then Inl (ValueError ''binding range exceeds input field'')
          else if \<exists>v \<in> set (selected_owners bs off w). owner_kind v \<noteq> ''bound'' then Inl (ValueError ''route target is not bound input'')
          else single_producer (selected_owners bs off w) ''route target has multiple producers'')"

definition irq_group_prefix :: string where
  "irq_group_prefix = ''irq-group:''"

definition irq_group_owner :: "ownership_map \<Rightarrow> string \<Rightarrow> string \<Rightarrow> int \<Rightarrow> int \<Rightarrow> string res" where
  "irq_group_owner m c p off w = res_bind (binding_producer m c p off w) (\<lambda>producer.
     let rest = drop (length irq_group_prefix) producer in
     if w \<noteq> 1 \<or> take (length irq_group_prefix) producer \<noteq> irq_group_prefix \<or> rest = []
     then Inl (ValueError ''input is not owned by an IRQ delivery group'') else Inr rest)"

type_synonym open_map = "(input_key, input_owner option list) dict"

definition declare_field :: "open_map \<Rightarrow> input_field \<Rightarrow> open_map res" where
  "declare_field d f =
     (if dict_has d (field_key f) then Inl (ValueError ''duplicate input field'')
      else Inr (dict_set d (field_key f) (replicate (nat (field_bits f)) None)))"

definition claim_bit :: "input_owner \<Rightarrow> input_owner option list \<Rightarrow> nat \<Rightarrow> input_owner option list res" where
  "claim_bit w bs i = (if bs ! i \<noteq> None then Inl (ValueError ''input ownership overlap'') else Inr (bs[i := Some w]))"

definition claim_owner :: "open_map \<Rightarrow> input_owner \<Rightarrow> open_map res" where
  "claim_owner d w =
     (case map_of d (owner_key w) of
        None \<Rightarrow> Inl (ValueError ''owner references undeclared input field'')
      | Some bs \<Rightarrow>
          if owner_offset w + owner_width w > int (length bs) then Inl (ValueError ''owner exceeds input width'')
          else res_bind (fold_res (claim_bit w) bs [nat (owner_offset w)..<nat (owner_offset w + owner_width w)])
            (\<lambda>bs'. Inr (dict_set d (owner_key w) bs')))"

definition compile_ownership :: "input_field list \<Rightarrow> input_owner list \<Rightarrow> ownership_map res" where
  "compile_ownership declared owners =
     res_bind (fold_res declare_field [] declared) (\<lambda>d0.
     res_bind (fold_res claim_owner d0 owners) (\<lambda>d.
       if \<exists>kv \<in> set d. None \<in> set (snd kv) then Inl (ValueError ''input has unclassified bits'')
       else Inr (map (\<lambda>kv. (fst kv, map the (snd kv))) d)))"

section \<open>Ownership is an exclusive partition\<close>

definition covers :: "input_key \<Rightarrow> int \<Rightarrow> input_owner \<Rightarrow> bool" where
  "covers k i w \<longleftrightarrow> owner_key w = k \<and> owner_offset w \<le> i \<and> i < owner_offset w + owner_width w"

definition fits :: "input_field list \<Rightarrow> input_owner \<Rightarrow> bool" where
  "fits fs w \<longleftrightarrow> (\<exists>f \<in> set fs. field_key f = owner_key w \<and> owner_offset w + owner_width w \<le> field_bits f)"

definition open_bits :: "input_owner list \<Rightarrow> input_field \<Rightarrow> input_owner option list" where
  "open_bits ws f = map (\<lambda>i. find (covers (field_key f) (int i)) ws) [0..<nat (field_bits f)]"

definition open_dict :: "input_field list \<Rightarrow> input_owner list \<Rightarrow> open_map" where
  "open_dict fs ws = map (\<lambda>f. (field_key f, open_bits ws f)) fs"

lemma declare_fields:
  "fold_res declare_field [] fs = (if distinct (map field_key fs) then Inr (open_dict fs []) else Inl (ValueError ''duplicate input field''))"
proof (induction fs rule: rev_induct)
  case (snoc f fs)
  have "dict_has (open_dict fs []) k \<longleftrightarrow> k \<in> field_key ` set fs" for k by (force simp: dict_has_keys open_dict_def)
  with snoc show ?case
    by (auto simp: fold_res_append declare_field_def dict_set_new open_dict_def open_bits_def map_replicate_const)
qed (simp add: open_dict_def)

lemma claim_bits:
  assumes "b \<le> length bs" and "\<forall>i. a \<le> i \<and> i < b \<longrightarrow> bs ! i = None"
  shows "fold_res (claim_bit w) bs [a..<b] = Inr (map (\<lambda>i. if a \<le> i \<and> i < b then Some w else bs ! i) [0..<length bs])"
  using assms
proof (induction b)
  case 0
  then show ?case by (simp add: map_nth)
next
  case (Suc b)
  show ?case
  proof (cases "a \<le> b")
    case True
    let ?bs = "map (\<lambda>i. if a \<le> i \<and> i < b then Some w else bs ! i) [0..<length bs]"
    have "fold_res (claim_bit w) bs [a..<b] = Inr ?bs" using Suc by auto
    moreover have "?bs ! b = None" using Suc.prems True by auto
    moreover have "?bs[b := Some w] = map (\<lambda>i. if a \<le> i \<and> i < Suc b then Some w else bs ! i) [0..<length bs]"
      using True by (intro nth_equalityI) (auto simp: nth_list_update less_Suc_eq)
    ultimately have "claim_bit w ?bs b = Inr (map (\<lambda>i. if a \<le> i \<and> i < Suc b then Some w else bs ! i) [0..<length bs])"
      by (simp add: claim_bit_def)
    with \<open>fold_res (claim_bit w) bs [a..<b] = Inr ?bs\<close> True show ?thesis by (simp add: fold_res_append)
  next
    case False
    then have "map (\<lambda>i. if a \<le> i \<and> i < Suc b then Some w else bs ! i) [0..<length bs] = bs"
      by (intro nth_equalityI) auto
    with False show ?thesis by simp
  qed
qed

lemma claim_bits_ok:
  assumes "b \<le> length bs"
  shows "is_ok (fold_res (claim_bit w) bs [a..<b]) \<longleftrightarrow> (\<forall>i. a \<le> i \<and> i < b \<longrightarrow> bs ! i = None)"
  using assms
proof (induction b)
  case (Suc b)
  show ?case
  proof (cases "a \<le> b \<and> (\<forall>i. a \<le> i \<and> i < b \<longrightarrow> bs ! i = None)")
    case True
    let ?bs = "map (\<lambda>i. if a \<le> i \<and> i < b then Some w else bs ! i) [0..<length bs]"
    have "fold_res (claim_bit w) bs [a..<b] = Inr ?bs" using claim_bits [of b bs a w] True Suc.prems by simp
    then have "fold_res (claim_bit w) bs [a..<Suc b] = claim_bit w ?bs b"
      using True by (simp add: fold_res_append) (cases "claim_bit w ?bs b"; simp)
    moreover have "is_ok (claim_bit w ?bs b) \<longleftrightarrow> bs ! b = None" using Suc.prems by (simp add: claim_bit_def)
    ultimately show ?thesis using True by (auto simp: less_Suc_eq)
  next
    case False
    with Suc show ?thesis by (auto simp: fold_res_append is_ok_iff less_Suc_eq)
  qed
qed (simp add: is_ok_iff)

lemma map_of_open_dict:
  assumes "distinct (map field_key fs)" and "f \<in> set fs"
  shows "map_of (open_dict fs ws) (field_key f) = Some (open_bits ws f)"
  using assms by (auto simp: open_dict_def comp_def intro!: map_of_is_SomeI)

lemma dict_set_open_dict:
  assumes "distinct (map field_key fs)" and "f \<in> set fs"
    and "\<And>g. g \<in> set fs \<Longrightarrow> field_key g \<noteq> field_key f \<Longrightarrow> open_bits ws' g = open_bits ws g" and "open_bits ws' f = bs"
  shows "dict_set (open_dict fs ws) (field_key f) bs = open_dict fs ws'"
  using assms
proof (induction fs)
  case (Cons g fs)
  show ?case
  proof (cases "f = g")
    case True
    have "open_bits ws' h = open_bits ws h" if "h \<in> set fs" for h
    proof (rule Cons.prems(3))
      have "field_key h \<in> field_key ` set fs" using that by simp
      then show "field_key h \<noteq> field_key f" using Cons.prems(1) True by auto
    qed (use that in simp)
    then have "open_dict fs ws' = open_dict fs ws" by (simp add: open_dict_def)
    with True Cons.prems(4) show ?thesis by (simp add: open_dict_def)
  next
    case False
    with Cons have "dict_set (open_dict fs ws) (field_key f) bs = open_dict fs ws'" by (intro Cons.IH) auto
    moreover have "field_key g \<noteq> field_key f" using False Cons.prems(1,2) by force
    ultimately show ?thesis using Cons.prems(3) [of g] by (simp add: open_dict_def)
  qed
qed simp

definition owner_valid :: "input_owner \<Rightarrow> bool" where
  "owner_valid w \<longleftrightarrow> 0 \<le> owner_offset w \<and> 1 \<le> owner_width w"

lemma find_snoc: "find P (xs @ [x]) = (case find P xs of None \<Rightarrow> (if P x then Some x else None) | Some y \<Rightarrow> Some y)"
  by (induction xs) auto

lemma range_covers:
  "owner_valid w \<Longrightarrow> nat (owner_offset w) \<le> i \<and> i < nat (owner_offset w + owner_width w) \<longleftrightarrow> covers (owner_key w) (int i) w"
  by (auto simp: covers_def owner_valid_def)

lemma open_bits_free:
  assumes "owner_valid w" and "field_key f = owner_key w" and "owner_offset w + owner_width w \<le> field_bits f"
  shows "(\<forall>i. nat (owner_offset w) \<le> i \<and> i < nat (owner_offset w + owner_width w) \<longrightarrow> open_bits ws f ! i = None)
    \<longleftrightarrow> (\<forall>i. covers (owner_key w) i w \<longrightarrow> find (covers (owner_key w) i) ws = None)" (is "?bits \<longleftrightarrow> ?found")
proof
  have nth: "open_bits ws f ! i = find (covers (owner_key w) (int i)) ws" if "covers (owner_key w) (int i) w" for i
  proof -
    have "i < nat (field_bits f)" using that assms(3) unfolding covers_def by linarith
    then show ?thesis using assms(2) by (simp add: open_bits_def)
  qed
  {
    assume ?bits
    show ?found
    proof (intro allI impI)
      fix i assume c: "covers (owner_key w) i w"
      then have i: "int (nat i) = i" using assms(1) by (auto simp: covers_def owner_valid_def)
      with c range_covers [OF assms(1), of "nat i"] \<open>?bits\<close> nth [of "nat i"] show "find (covers (owner_key w) i) ws = None" by simp
    qed
  next
    assume ?found
    with range_covers [OF assms(1)] nth show ?bits by simp
  }
qed

lemma open_bits_snoc:
  assumes "owner_valid w" and "field_key f = owner_key w"
    and "\<forall>i. nat (owner_offset w) \<le> i \<and> i < nat (owner_offset w + owner_width w) \<longrightarrow> open_bits ws f ! i = None"
  shows "open_bits (ws @ [w]) f = map (\<lambda>i. if nat (owner_offset w) \<le> i \<and> i < nat (owner_offset w + owner_width w) then Some w else open_bits ws f ! i)
    [0..<length (open_bits ws f)]"
  using assms(2,3) range_covers [OF assms(1)]
  by (intro nth_equalityI) (auto simp: open_bits_def find_snoc split: option.splits)

lemma open_bits_other:
  assumes "field_key g \<noteq> owner_key w"
  shows "open_bits (ws @ [w]) g = open_bits ws g"
proof -
  have "\<not> covers (field_key g) i w" for i using assms by (auto simp: covers_def)
  then show ?thesis by (simp add: open_bits_def find_snoc split: option.split)
qed

lemma claim_owner_fitting:
  assumes "distinct (map field_key fs)" and "owner_valid w" and f: "f \<in> set fs" "field_key f = owner_key w"
    and fit: "owner_offset w + owner_width w \<le> field_bits f"
  shows "claim_owner (open_dict fs ws) w = Inr d \<longleftrightarrow>
    (\<forall>i. covers (owner_key w) i w \<longrightarrow> find (covers (owner_key w) i) ws = None) \<and> d = open_dict fs (ws @ [w])"
proof -
  let ?bs = "open_bits ws f" and ?a = "nat (owner_offset w)" and ?b = "nat (owner_offset w + owner_width w)"
  have look: "map_of (open_dict fs ws) (owner_key w) = Some ?bs" using map_of_open_dict [OF assms(1) f(1)] f(2) by metis
  have b: "?b \<le> length ?bs" and len: "\<not> owner_offset w + owner_width w > int (length ?bs)" using fit by (simp_all add: open_bits_def)
  show ?thesis
  proof (cases "\<forall>i. ?a \<le> i \<and> i < ?b \<longrightarrow> ?bs ! i = None")
    case True
    have "dict_set (open_dict fs ws) (owner_key w) (open_bits (ws @ [w]) f) = open_dict fs (ws @ [w])"
      using dict_set_open_dict [OF assms(1) f(1) open_bits_other refl] f(2) by simp
    then have "claim_owner (open_dict fs ws) w = Inr (open_dict fs (ws @ [w]))"
      using claim_bits [OF b True] open_bits_snoc [OF assms(2) f(2) True] look len by (simp add: claim_owner_def)
    with True open_bits_free [OF assms(2) f(2) fit] show ?thesis by auto
  next
    case False
    with claim_bits_ok [OF b, of w ?a] have "\<not> is_ok (fold_res (claim_bit w) ?bs [?a..<?b])" by simp
    then have "claim_owner (open_dict fs ws) w \<noteq> Inr d" using look len by (auto simp: claim_owner_def is_ok_iff)
    with False open_bits_free [OF assms(2) f(2) fit] show ?thesis by auto
  qed
qed

lemma claim_owner_step:
  assumes "distinct (map field_key fs)" and "owner_valid w"
  shows "claim_owner (open_dict fs ws) w = Inr d \<longleftrightarrow>
    fits fs w \<and> (\<forall>i. covers (owner_key w) i w \<longrightarrow> find (covers (owner_key w) i) ws = None) \<and> d = open_dict fs (ws @ [w])"
proof (cases "\<exists>f \<in> set fs. field_key f = owner_key w")
  case False
  then have "map_of (open_dict fs ws) (owner_key w) = None" by (force simp: map_of_eq_None_iff open_dict_def)
  with False show ?thesis by (auto simp: claim_owner_def fits_def)
next
  case True
  then obtain f where f: "f \<in> set fs" "field_key f = owner_key w" by blast
  have look: "map_of (open_dict fs ws) (owner_key w) = Some (open_bits ws f)" using map_of_open_dict [OF assms(1) f(1)] f(2) by metis
  have unique: "\<And>g. g \<in> set fs \<Longrightarrow> field_key g = owner_key w \<Longrightarrow> g = f" using assms(1) f by (metis distinct_map inj_onD)
  have fit: "fits fs w \<longleftrightarrow> owner_offset w + owner_width w \<le> field_bits f" unfolding fits_def using f unique by metis
  show ?thesis
  proof (cases "fits fs w")
    case False
    then have "int (length (open_bits ws f)) < owner_offset w + owner_width w" using fit assms(2) by (simp add: open_bits_def owner_valid_def)
    then have "claim_owner (open_dict fs ws) w = Inl (ValueError ''owner exceeds input width'')" unfolding claim_owner_def look by simp
    with False show ?thesis by simp
  next
    case True
    with fit claim_owner_fitting [OF assms f, of ws d] show ?thesis by blast
  qed
qed

definition exclusive :: "input_owner list \<Rightarrow> bool" where
  "exclusive = sorted_wrt (\<lambda>v w. \<forall>k i. \<not> (covers k i v \<and> covers k i w))"

lemma exclusive_snoc:
  "exclusive (ws @ [w]) \<longleftrightarrow> exclusive ws \<and> (\<forall>i. covers (owner_key w) i w \<longrightarrow> find (covers (owner_key w) i) ws = None)"
  by (auto simp: exclusive_def sorted_wrt_append find_None_iff covers_def)

lemma claim_owners:
  assumes "distinct (map field_key fs)"
  shows "\<forall>w \<in> set ws. owner_valid w \<Longrightarrow>
    fold_res claim_owner (open_dict fs []) ws = Inr d \<longleftrightarrow> (\<forall>w \<in> set ws. fits fs w) \<and> exclusive ws \<and> d = open_dict fs ws"
proof (induction ws arbitrary: d rule: rev_induct)
  case (snoc w ws)
  have "fold_res claim_owner (open_dict fs []) (ws @ [w]) = Inr d \<longleftrightarrow>
      (\<forall>v \<in> set ws. fits fs v) \<and> exclusive ws \<and> claim_owner (open_dict fs ws) w = Inr d"
    unfolding fold_res_append using snoc.IH snoc.prems by simp
  with claim_owner_step [OF assms, of w ws d] snoc.prems show ?case by (auto simp: exclusive_snoc)
qed (auto simp: exclusive_def)

lemma compile_ownership_iff:
  assumes "\<forall>w \<in> set ws. owner_valid w"
  shows "compile_ownership fs ws = Inr m \<longleftrightarrow> distinct (map field_key fs) \<and> (\<forall>w \<in> set ws. fits fs w) \<and> exclusive ws
    \<and> (\<forall>f \<in> set fs. None \<notin> set (open_bits ws f)) \<and> m = map (\<lambda>f. (field_key f, map the (open_bits ws f))) fs"
proof (cases "distinct (map field_key fs)")
  case True
  have unclassified: "(\<exists>kv \<in> set (open_dict fs ws). None \<in> set (snd kv)) \<longleftrightarrow> (\<exists>f \<in> set fs. None \<in> set (open_bits ws f))"
    by (auto simp: open_dict_def)
  have "fold_res claim_owner (open_dict fs []) ws = Inr d \<longleftrightarrow> (\<forall>w \<in> set ws. fits fs w) \<and> exclusive ws \<and> d = open_dict fs ws" for d
    using claim_owners [OF True assms] .
  then show ?thesis
    using True unclassified by (auto simp: compile_ownership_def declare_fields open_dict_def comp_def)
qed (simp add: compile_ownership_def declare_fields)

lemma open_bits_total:
  "None \<notin> set (open_bits ws f) \<longleftrightarrow> (\<forall>i. 0 \<le> i \<and> i < field_bits f \<longrightarrow> (\<exists>w \<in> set ws. covers (field_key f) i w))" (is "_ = ?total")
proof
  assume all: "None \<notin> set (open_bits ws f)"
  show ?total
  proof (intro allI impI)
    fix i assume i: "0 \<le> i \<and> i < field_bits f"
    then have "nat i \<in> set [0..<nat (field_bits f)]" by simp
    then have "find (covers (field_key f) (int (nat i))) ws \<in> set (open_bits ws f)" unfolding open_bits_def set_map by (rule imageI)
    with all i show "\<exists>w \<in> set ws. covers (field_key f) i w" by (metis find_None_iff nat_0_le)
  qed
next
  assume ?total
  then show "None \<notin> set (open_bits ws f)" unfolding open_bits_def by (auto simp: find_None_iff dest!: sym [of None]) (metis of_nat_0_le_iff zless_nat_eq_int_zless)
qed

lemma owned_bit:
  assumes "exclusive ws" and "None \<notin> set (open_bits ws f)" and "i < nat (field_bits f)"
  shows "map the (open_bits ws f) ! i = w \<longleftrightarrow> w \<in> set ws \<and> covers (field_key f) (int i) w"
proof -
  have "find (covers (field_key f) (int i)) ws \<in> set (open_bits ws f)" using assms(3) by (auto simp: open_bits_def)
  then obtain v where v: "find (covers (field_key f) (int i)) ws = Some v" using assms(2) by (metis option.exhaust)
  then have "v \<in> set ws" "covers (field_key f) (int i) v" by (auto simp: find_Some_iff)
  moreover have "w = v" if "w \<in> set ws" "covers (field_key f) (int i) w"
  proof (rule ccontr)
    assume "w \<noteq> v"
    with that(1) \<open>v \<in> set ws\<close> obtain m n where "m < length ws" "n < length ws" "ws ! m = w" "ws ! n = v" "m \<noteq> n" by (metis in_set_conv_nth)
    with assms(1) that(2) \<open>covers (field_key f) (int i) v\<close> show False
      unfolding exclusive_def sorted_wrt_iff_nth_less by (metis linorder_neqE_nat)
  qed
  ultimately show ?thesis using v assms(3) by (auto simp: open_bits_def)
qed

lemma set_selected:
  assumes "0 \<le> off" and "1 \<le> w" and "off + w \<le> int (length bs)"
  shows "v \<in> set (selected_owners bs off w) \<longleftrightarrow> (\<exists>i. off \<le> int i \<and> int i < off + w \<and> bs ! i = v)"
proof
  assume "v \<in> set (selected_owners bs off w)"
  then obtain j where "j < nat w" "nat off + j < length bs" "bs ! (nat off + j) = v"
    by (auto simp: selected_owners_def in_set_conv_nth)
  with assms show "\<exists>i. off \<le> int i \<and> int i < off + w \<and> bs ! i = v" by (intro exI [of _ "nat off + j"]) auto
next
  assume "\<exists>i. off \<le> int i \<and> int i < off + w \<and> bs ! i = v"
  then obtain i where i: "off \<le> int i" "int i < off + w" "bs ! i = v" by blast
  then have "i - nat off < length (selected_owners bs off w)" "selected_owners bs off w ! (i - nat off) = v"
    using assms by (auto simp: selected_owners_def)
  then show "v \<in> set (selected_owners bs off w)" by (metis nth_mem)
qed

lemma selected_nonempty: "0 \<le> off \<Longrightarrow> 1 \<le> w \<Longrightarrow> off + w \<le> int (length bs) \<Longrightarrow> selected_owners bs off w \<noteq> []"
  by (auto simp: selected_owners_def)

lemma refuse_bound_ok: "refuse_bound ws = Inr () \<longleftrightarrow> (\<forall>v \<in> set ws. owner_kind v = ''source'')"
  by (induction ws) auto

lemma single_producer_iff: "ws \<noteq> [] \<Longrightarrow> single_producer ws msg = Inr r \<longleftrightarrow> (\<forall>v \<in> set ws. producer_ref v = r)"
proof -
  assume ne: "ws \<noteq> []"
  let ?ps = "remdups (map producer_ref ws)"
  have s: "set ?ps = producer_ref ` set ws" by simp
  show ?thesis
  proof (cases "length ?ps = 1")
    case True
    then obtain p where p: "?ps = [p]" by (metis One_nat_def length_0_conv length_Suc_conv)
    with s have "producer_ref ` set ws = {p}" by simp
    with True p ne show ?thesis by (auto simp: single_producer_def)
  next
    case False
    have "\<not> (\<forall>v \<in> set ws. producer_ref v = r)"
    proof
      assume "\<forall>v \<in> set ws. producer_ref v = r"
      then have "set ?ps = {r}" using s ne by (cases ws) auto
      then have "card (set ?ps) = 1" by simp
      with False show False by (metis distinct_card distinct_remdups)
    qed
    with False show ?thesis by (simp add: single_producer_def)
  qed
qed

lemma selected_all:
  assumes "exclusive ws" and "None \<notin> set (open_bits ws f)" and "0 \<le> off" and "1 \<le> w" and "off + w \<le> field_bits f"
  shows "(\<forall>v \<in> set (selected_owners (map the (open_bits ws f)) off w). P v)
    \<longleftrightarrow> (\<forall>i. off \<le> i \<and> i < off + w \<longrightarrow> (\<exists>v \<in> set ws. covers (field_key f) i v \<and> P v))" (is "?all \<longleftrightarrow> ?each")
proof
  let ?bs = "map the (open_bits ws f)"
  have r: "off + w \<le> int (length ?bs)" using assms(3-5) by (simp add: open_bits_def)
  have nth: "?bs ! i = v \<longleftrightarrow> v \<in> set ws \<and> covers (field_key f) (int i) v" if "int i < off + w" for i v
    using owned_bit [OF assms(1,2), of i v] that assms(5) by simp
  {
    assume all: ?all
    show ?each
    proof (intro allI impI)
      fix i assume i: "off \<le> i \<and> i < off + w"
      then have n: "int (nat i) = i" using assms(3) by simp
      with i have v: "?bs ! nat i \<in> set ws" "covers (field_key f) i (?bs ! nat i)" using nth [of "nat i" "?bs ! nat i"] by auto
      have "?bs ! nat i \<in> set (selected_owners ?bs off w)"
        unfolding set_selected [OF assms(3,4) r] using i n by metis
      with all v show "\<exists>v \<in> set ws. covers (field_key f) i v \<and> P v" by blast
    qed
  next
    assume ?each
    with nth set_selected [OF assms(3,4) r] show ?all by metis
  }
qed

lemma mutation_source_iff:
  assumes "\<forall>v \<in> set ws. owner_valid v" and "compile_ownership fs ws = Inr m"
  shows "mutation_source m c p off w dir = Inr r \<longleftrightarrow> dir \<in> set mutation_directions
    \<and> (\<exists>f \<in> set fs. field_key f = (c, p) \<and> 0 \<le> off \<and> 1 \<le> w \<and> off + w \<le> field_bits f
        \<and> (\<forall>i. off \<le> i \<and> i < off + w \<longrightarrow> (\<exists>v \<in> set ws. covers (c, p) i v \<and> owner_kind v = ''source'' \<and> producer_ref v = r)))"
proof -
  have ok: "distinct (map field_key fs)" "exclusive ws" "\<And>f. f \<in> set fs \<Longrightarrow> None \<notin> set (open_bits ws f)"
      and m: "m = map (\<lambda>f. (field_key f, map the (open_bits ws f))) fs"
    using compile_ownership_iff [OF assms(1), of fs m] assms(2) by auto
  show ?thesis
  proof (cases "\<exists>f \<in> set fs. field_key f = (c, p)")
    case False
    then have "map_of m (c, p) = None" unfolding m map_of_eq_None_iff by force
    with False show ?thesis by (auto simp: mutation_source_def)
  next
    case True
    then obtain f where f: "f \<in> set fs" "field_key f = (c, p)" by blast
    have unique: "g = f" if "g \<in> set fs" "field_key g = (c, p)" for g using ok(1) f that by (metis distinct_map inj_onD)
    let ?bs = "map the (open_bits ws f)"
    have look: "map_of m (c, p) = Some ?bs" unfolding m f(2) [symmetric] using ok(1) f(1) by (intro map_of_is_SomeI) (auto simp: comp_def)
    have len: "int (length ?bs) = max 0 (field_bits f)" by (simp add: open_bits_def)
    show ?thesis
    proof (cases "0 \<le> off \<and> 1 \<le> w \<and> off + w \<le> field_bits f")
      case False
      then have "off < 0 \<or> w < 1 \<or> off + w > int (length ?bs)" using len by auto
      with look False unique show ?thesis by (auto simp: mutation_source_def)
    next
      case range: True
      then have r: "0 \<le> off" "1 \<le> w" "off + w \<le> int (length ?bs)" using len by auto
      have "mutation_source m c p off w dir = Inr r \<longleftrightarrow> dir \<in> set mutation_directions
          \<and> (\<forall>v \<in> set (selected_owners ?bs off w). owner_kind v = ''source'' \<and> producer_ref v = r)"
        using r look refuse_bound_ok single_producer_iff [OF selected_nonempty [OF r]] by (auto simp: mutation_source_def)
      also have "\<dots> \<longleftrightarrow> dir \<in> set mutation_directions
          \<and> (\<forall>i. off \<le> i \<and> i < off + w \<longrightarrow> (\<exists>v \<in> set ws. covers (c, p) i v \<and> owner_kind v = ''source'' \<and> producer_ref v = r))"
        using selected_all [OF ok(2) ok(3) [OF f(1)], of off w] range f(2) by simp
      finally show ?thesis using range f unique by blast
    qed
  qed
qed

text \<open>C15: Compilation accepts exactly the exclusive and total assignments: it succeeds iff input fields are declared once,
  every owner lies inside a declared field, no bit has two owners and every bit has one. The map it returns gives
  each bit that owner, and a mutation is permitted exactly when the direction is known, the range lies in a
  declared field and all its bits belong to fuzzable sources with one producer, which it returns: a bound or fixed
  bit is never mutated.\<close>

theorem ownership_exact:
  assumes "\<forall>v \<in> set ws. make_input_owner v = Inr v"
  shows "(is_ok (compile_ownership fs ws) \<longleftrightarrow> distinct (map field_key fs) \<and> (\<forall>v \<in> set ws. fits fs v) \<and> exclusive ws
      \<and> (\<forall>f \<in> set fs. \<forall>i. 0 \<le> i \<and> i < field_bits f \<longrightarrow> (\<exists>v \<in> set ws. covers (field_key f) i v)))
    \<and> (\<forall>m. compile_ownership fs ws = Inr m \<longrightarrow>
        (\<forall>f \<in> set fs. \<exists>bs. map_of m (field_key f) = Some bs \<and> length bs = nat (field_bits f)
          \<and> (\<forall>i v. i < length bs \<longrightarrow> bs ! i = v \<longleftrightarrow> v \<in> set ws \<and> covers (field_key f) (int i) v))
      \<and> (\<forall>c p off w dir r. mutation_source m c p off w dir = Inr r \<longleftrightarrow> dir \<in> set mutation_directions
          \<and> (\<exists>f \<in> set fs. field_key f = (c, p) \<and> 0 \<le> off \<and> 1 \<le> w \<and> off + w \<le> field_bits f
            \<and> (\<forall>i. off \<le> i \<and> i < off + w \<longrightarrow> (\<exists>v \<in> set ws. covers (c, p) i v \<and> owner_kind v = ''source'' \<and> producer_ref v = r)))))"
proof -
  have valid: "\<forall>v \<in> set ws. owner_valid v" using assms by (auto simp: make_input_owner_def owner_valid_def split: if_splits)
  have "\<exists>bs. map_of m (field_key f) = Some bs \<and> length bs = nat (field_bits f)
      \<and> (\<forall>i v. i < length bs \<longrightarrow> bs ! i = v \<longleftrightarrow> v \<in> set ws \<and> covers (field_key f) (int i) v)"
    if m: "compile_ownership fs ws = Inr m" and f: "f \<in> set fs" for m f
  proof (intro exI conjI)
    have ok: "distinct (map field_key fs)" "exclusive ws" "None \<notin> set (open_bits ws f)"
        and m_eq: "m = map (\<lambda>f. (field_key f, map the (open_bits ws f))) fs"
      using compile_ownership_iff [OF valid, of fs m] m f by auto
    show "map_of m (field_key f) = Some (map the (open_bits ws f))"
      unfolding m_eq using ok(1) f by (intro map_of_is_SomeI) (auto simp: comp_def)
    show "\<forall>i v. i < length (map the (open_bits ws f)) \<longrightarrow> map the (open_bits ws f) ! i = v \<longleftrightarrow> v \<in> set ws \<and> covers (field_key f) (int i) v"
      using owned_bit [OF ok(2,3)] by (simp add: open_bits_def)
  qed (simp add: open_bits_def)
  moreover have "is_ok (compile_ownership fs ws) \<longleftrightarrow> distinct (map field_key fs) \<and> (\<forall>v \<in> set ws. fits fs v) \<and> exclusive ws
      \<and> (\<forall>f \<in> set fs. \<forall>i. 0 \<le> i \<and> i < field_bits f \<longrightarrow> (\<exists>v \<in> set ws. covers (field_key f) i v))"
    unfolding is_ok_iff compile_ownership_iff [OF valid] open_bits_total by blast
  ultimately show ?thesis using mutation_source_iff [OF valid] by blast
qed

definition example_owner :: "int \<Rightarrow> string \<Rightarrow> input_owner" where
  "example_owner off k = \<lparr>owner_component = ''ip'', owner_port = ''data'', owner_offset = off, owner_width = 4, owner_kind = k, producer_ref = k\<rparr>"

theorem ownership_exact_witness:
  "is_ok (compile_ownership [\<lparr>field_component = ''ip'', field_port = ''data'', field_bits = 8\<rparr>] [example_owner 4 ''source'', example_owner 0 ''bound''])"
proof -
  let ?ws = "[example_owner 4 ''source'', example_owner 0 ''bound'']"
  let ?f = "\<lparr>field_component = ''ip'', field_port = ''data'', field_bits = 8\<rparr>"
  have ok: "\<forall>v \<in> set ?ws. make_input_owner v = Inr v" by (simp add: make_input_owner_def example_owner_def owner_kinds_def)
  have "exclusive ?ws" by (auto simp: exclusive_def covers_def example_owner_def)
  moreover have "\<forall>v \<in> set ?ws. fits [?f] v" by (simp add: fits_def example_owner_def field_key_def owner_key_def)
  moreover have "\<exists>v \<in> set ?ws. covers (field_key ?f) i v" if "0 \<le> i \<and> i < 8" for i
    using that by (cases "i < 4") (auto simp: covers_def example_owner_def owner_key_def field_key_def)
  ultimately show ?thesis using ownership_exact [OF ok, of "[?f]"] by simp
qed

end
