(* ===== verification/Dependency.thy ===== *)
theory Dependency
  imports Genome Ownership
begin

text \<open>
  AND/OR dependency paths from a coverage target back to fuzzable sources
  (\<open>scenario/dependency.py\<close>): sources, rules, edges and paths with the checks of their
  constructors, the graph, the bounded enumerations \<open>paths_to\<close> and \<open>edge_paths_to\<close>, and
  \<open>path_identity\<close>, which authenticates one selected proof graph. A rule needs all of its
  prerequisites (AND); several rules with one target are alternatives (OR). A frozen set is a
  list of which only the elements count; wherever the code turns one into a tuple it sorts it.
\<close>

section \<open>Sources and bindings\<close>

definition RULE_KINDS :: "string list" where
  "RULE_KINDS = [''DATA_BINDING'', ''EVENT_ORDER'', ''ENV_PRECONDITION'', ''PERSISTENT_STATE_RULE'',
     ''BASELINE_GROUPING'', ''DMA_MASTER_TRANSFER'']"

definition EDGE_WORK_LIMIT :: int where
  "EDGE_WORK_LIMIT = 1000000"

definition edge_hash :: "json \<Rightarrow> string" where
  "edge_hash d = sha256_hex (string_bytes (json_dumps d))"

record fuzzable_source =
  src_id :: string
  src_component :: string
  src_port :: string
  src_offset :: int
  src_width :: int
  src_directions :: "string list"
  src_kind :: string
  src_address :: "int option"

definition make_fuzzable_source :: "fuzzable_source \<Rightarrow> fuzzable_source res" where
  "make_fuzzable_source s =
     (if src_kind s \<noteq> ''source'' \<and> src_kind s \<noteq> ''memory_image''
        then Inl (ValueError ''only fuzzable source nodes may be mutation sources'')
      else if src_kind s = ''memory_image'' \<and> (case src_address s of None \<Rightarrow> False | Some a \<Rightarrow> a < 0)
        then Inl (ValueError ''memory image source address is invalid'')
      else if src_kind s \<noteq> ''memory_image'' \<and> src_address s \<noteq> None
        then Inl (ValueError ''physical input source cannot name an image address'')
      else if src_id s = [] \<or> src_component s = [] \<or> src_port s = [] then Inl (ValueError ''source identity is required'')
      else if src_offset s < 0 \<or> src_width s < 1 then Inl (ValueError ''source bit range is invalid'')
      else if src_directions s = [] \<or> \<not> set (src_directions s) \<subseteq> set DIRECTIONS
        then Inl (ValueError ''source direction is invalid'')
      else Inr s)"

record source_binding =
  bind_id :: string
  bind_kind :: string
  bind_component :: string
  bind_port :: string
  bind_offset :: int
  bind_width :: int
  owner_ref :: string
  bind_address :: "int option"

definition make_source_binding :: "source_binding \<Rightarrow> source_binding res" where
  "make_source_binding b =
     (if bind_id b = [] \<or> bind_component b = [] \<or> bind_port b = [] \<or> owner_ref b = []
        then Inl (ValueError ''source binding identity is required'')
      else if bind_kind b \<noteq> ''source'' \<and> bind_kind b \<noteq> ''memory_image'' then Inl (ValueError ''source binding kind is invalid'')
      else if bind_offset b < 0 \<or> bind_width b < 1 then Inl (ValueError ''source binding range is invalid'')
      else if bind_kind b = ''memory_image''
        then (case bind_address b of
            Some a \<Rightarrow> if a < 0 then Inl (ValueError ''memory image binding address is required'') else Inr b
          | None \<Rightarrow> Inl (ValueError ''memory image binding address is required''))
      else if bind_address b \<noteq> None then Inl (ValueError ''input source binding cannot name image address'')
      else Inr b)"

definition make_source_bindings :: "source_binding list \<Rightarrow> source_binding list res" where
  "make_source_bindings bs = (if \<not> distinct (map bind_id bs) then Inl (ValueError ''duplicate source binding'') else Inr bs)"

section \<open>Rules, edges, paths and graphs\<close>

record dependency_rule =
  rule_target :: string
  prerequisites :: "string list"
  rule_kind :: string

definition make_dependency_rule :: "dependency_rule \<Rightarrow> dependency_rule res" where
  "make_dependency_rule r =
     (if rule_target r = [] \<or> prerequisites r = [] \<or> [] \<in> set (prerequisites r)
        then Inl (ValueError ''dependency rule needs a target and prerequisites'')
      else if rule_kind r \<notin> set RULE_KINDS then Inl (ValueError ''unknown dependency rule kind'')
      else Inr r)"

record dependency_edge =
  rule_index :: int
  prerequisite_index :: int
  prerequisite :: string
  edge_target :: string
  edge_kind :: string

definition make_dependency_edge :: "dependency_edge \<Rightarrow> dependency_edge res" where
  "make_dependency_edge e =
     (if rule_index e < 0 \<or> prerequisite_index e < 0 \<or> prerequisite e = [] \<or> edge_target e = []
         \<or> edge_kind e \<notin> set RULE_KINDS
      then Inl (ValueError ''invalid dependency edge'') else Inr e)"

definition edge_row :: "dependency_edge \<Rightarrow> json" where
  "edge_row e = JObj [(''rule_index'', JInt (rule_index e)), (''prerequisite_index'', JInt (prerequisite_index e)),
     (''prerequisite'', JStr (prerequisite e)), (''target'', JStr (edge_target e)), (''kind'', JStr (edge_kind e))]"

record dependency_path =
  path_target :: string
  source_ids :: "string list"
  path_edges :: "dependency_edge list"

text \<open>\<open>sources_frozen\<close> says whether the sources are a read-only mapping, and
  \<open>decoder_path_proofs\<close> is the attribute a decoder adds to its own copy of the graph.\<close>

record dependency_graph =
  graph_sources :: "(string, fuzzable_source) dict"
  graph_rules :: "(string, dependency_rule list) dict"
  ordered_rules :: "dependency_rule list"
  indexed_rules :: "(string, nat list) dict"
  sources_frozen :: bool
  decoder_path_proofs :: "(string \<times> dependency_path) list"

text \<open>\<open>d.setdefault(k, []).append(v)\<close>\<close>

definition dict_push :: "('k, 'v list) dict \<Rightarrow> 'k \<Rightarrow> 'v \<Rightarrow> ('k, 'v list) dict" where
  "dict_push d k v = dict_set d k (dict_get d k [] @ [v])"

definition group_rules :: "dependency_rule list \<Rightarrow> (string, dependency_rule list) dict" where
  "group_rules rs = foldl (\<lambda>d r. dict_push d (rule_target r) r) [] rs"

definition group_indices :: "dependency_rule list \<Rightarrow> (string, nat list) dict" where
  "group_indices rs = foldl (\<lambda>d (i, r). dict_push d (rule_target r) i) [] (List.enumerate 0 rs)"

definition make_graph :: "fuzzable_source list \<Rightarrow> dependency_rule list \<Rightarrow> dependency_graph res" where
  "make_graph ss rs =
     (let d = dict_set_all [] (map (\<lambda>s. (src_id s, s)) ss) in
      if length d \<noteq> length ss then Inl (ValueError ''duplicate source id'')
      else Inr \<lparr>graph_sources = d, graph_rules = group_rules rs, ordered_rules = rs, indexed_rules = group_indices rs,
                sources_frozen = False, decoder_path_proofs = []\<rparr>)"

section \<open>The graph document\<close>

text \<open>Equality of two dictionaries ignores their order.\<close>

definition dict_equal :: "('k, 'v) dict \<Rightarrow> ('k, 'v) dict \<Rightarrow> bool" where
  "dict_equal d e \<longleftrightarrow> length d = length e \<and> (\<forall>kv \<in> set d. map_of e (fst kv) = Some (snd kv))"

definition source_identity_ok :: "string \<times> fuzzable_source \<Rightarrow> bool" where
  "source_identity_ok ks = (case ks of (k, s) \<Rightarrow>
     \<not> (k \<noteq> src_id s \<or> k = [] \<or> src_component s = [] \<or> src_kind s = [] \<or> src_offset s < 0 \<or> src_width s < 1
        \<or> src_directions s = [] \<or> \<not> distinct (src_directions s) \<or> \<not> set (src_directions s) \<subseteq> set DIRECTIONS))"

definition source_row :: "bool \<Rightarrow> fuzzable_source \<Rightarrow> json" where
  "source_row address_bound s = JObj
     ([(''source_id'', JStr (src_id s)), (''component'', JStr (src_component s)), (''port'', JStr (src_port s)),
       (''bit_offset'', JInt (src_offset s)), (''width'', JInt (src_width s)),
       (''directions'', JList (map JStr (src_directions s))), (''kind'', JStr (src_kind s))]
      @ (if address_bound then [(''image_address'', case src_address s of None \<Rightarrow> JNull | Some a \<Rightarrow> JInt a)] else []))"

definition rule_row :: "nat \<times> dependency_rule \<Rightarrow> json" where
  "rule_row ir = (case ir of (i, r) \<Rightarrow> JObj [(''rule_index'', JInt (int i)), (''target'', JStr (rule_target r)),
     (''prerequisites'', JList (map JStr (prerequisites r))), (''kind'', JStr (rule_kind r))])"

definition edge_of :: "nat \<Rightarrow> dependency_rule \<Rightarrow> nat \<Rightarrow> string \<Rightarrow> dependency_edge" where
  "edge_of i r j c = \<lparr>rule_index = int i, prerequisite_index = int j, prerequisite = c, edge_target = rule_target r,
     edge_kind = rule_kind r\<rparr>"

definition rule_edges :: "nat \<times> dependency_rule \<Rightarrow> dependency_edge list res" where
  "rule_edges ir = (case ir of (i, r) \<Rightarrow>
     map_res (\<lambda>(j, c). make_dependency_edge (edge_of i r j c)) (List.enumerate 0 (prerequisites r)))"

definition edge_document :: "dependency_graph \<Rightarrow> json res" where
  "edge_document g =
     (if \<exists>r \<in> set (ordered_rules g). rule_target r = [] \<or> [] \<in> set (prerequisites r)
        then Inl (ValueError ''invalid edge graph rule identity'')
      else if \<not> dict_equal (graph_rules g) (group_rules (ordered_rules g))
        then Inl (ValueError ''edge graph rules changed after construction'')
      else
        (let address_bound = (\<exists>ks \<in> set (graph_sources g). src_address (snd ks) \<noteq> None) in
         if \<exists>ks \<in> set (graph_sources g). \<not> source_identity_ok ks
           then Inl (ValueError ''invalid edge graph source identity'')
         else res_bind (map_res rule_edges (List.enumerate 0 (ordered_rules g))) (\<lambda>es.
           Inr (JObj [(''schema_version'', JStr (if address_bound then ''dependency_edge_graph.v2'' else ''dependency_edge_graph.v1'')),
             (''sources'', JList (map (\<lambda>ks. source_row address_bound (snd ks)) (graph_sources g))),
             (''rules'', JList (map rule_row (List.enumerate 0 (ordered_rules g)))),
             (''edges'', JList (map edge_row (concat es)))]))))"

section \<open>Source sets by recursive expansion\<close>

definition is_source :: "dependency_graph \<Rightarrow> string \<Rightarrow> bool" where
  "is_source g node = dict_has (graph_sources g) node"

definition source_admits :: "dependency_graph \<Rightarrow> string \<Rightarrow> string \<Rightarrow> bool" where
  "source_admits g dir node = (case map_of (graph_sources g) node of None \<Rightarrow> False | Some s \<Rightarrow> dir \<in> set (src_directions s))"

text \<open>The inner loop of \<open>paths_to\<close>: combinations are appended one by one and the loop
  stops once the list has reached its cap.\<close>

fun add_combinations :: "int \<Rightarrow> 'a list \<Rightarrow> 'a list \<Rightarrow> 'a list" where
  "add_combinations cap alts [] = alts"
| "add_combinations cap alts (c # cs) =
     (let alts' = alts @ [c] in if int (length alts') \<ge> cap then alts' else add_combinations cap alts' cs)"

text \<open>A frozen set of names is kept in its sorted form.\<close>

definition name_union :: "string list list \<Rightarrow> string list" where
  "name_union xss = sort (remdups (concat xss))"

definition add_rule_paths :: "int \<Rightarrow> (string \<Rightarrow> string list list) \<Rightarrow> string list list \<Rightarrow> dependency_rule \<Rightarrow> string list list" where
  "add_rule_paths cap ex alts r =
     (let child_choices = map ex (prerequisites r) in
      if [] \<in> set child_choices then alts
      else add_combinations cap alts (map name_union (product_lists child_choices)))"

text \<open>The first argument is \<open>max_depth - depth\<close>.\<close>

fun expand :: "nat \<Rightarrow> dependency_graph \<Rightarrow> string \<Rightarrow> int \<Rightarrow> string list \<Rightarrow> string \<Rightarrow> string list list" where
  "expand 0 g dir cap seen node = (if is_source g node \<and> source_admits g dir node then [[node]] else [])"
| "expand (Suc n) g dir cap seen node =
     (if is_source g node then (if source_admits g dir node then [[node]] else [])
      else if node \<in> set seen then []
      else foldl (add_rule_paths cap (expand n g dir cap (node # seen))) [] (dict_get (graph_rules g) node []))"

definition paths_to :: "dependency_graph \<Rightarrow> string \<Rightarrow> string \<Rightarrow> int \<Rightarrow> int \<Rightarrow> dependency_path list res" where
  "paths_to g target dir max_depth max_paths =
     (if dir \<notin> set DIRECTIONS \<or> target = [] \<or> max_depth < 1 \<or> max_paths < 1
      then Inl (ValueError ''invalid dependency path request'')
      else (let sets = sort_key (\<lambda>s. (length s, s)) (remdups (expand (nat max_depth) g dir (max_paths * 4) [] target)) in
        Inr (map (\<lambda>s. \<lparr>path_target = target, source_ids = s, path_edges = []\<rparr>) (take (nat max_paths) sets))))"

section \<open>Proof graphs by lazy enumeration\<close>

text \<open>
  \<open>edge_paths_to\<close> is written with generators that share a work budget and a consumer that stops
  after \<open>max_paths\<close> results. A generator is modelled by its consumer: it calls \<open>k\<close> for every item it
  yields and goes on with the state the consumer leaves. The run of a piece ends normally (\<open>Go\<close>), because the
  consumer stopped (\<open>Halt\<close>), or with an exception (\<open>Fail\<close>).
\<close>

datatype 's gen = Go 's | Halt 's | Fail exc

fun gen_bind :: "'s gen \<Rightarrow> ('s \<Rightarrow> 's gen) \<Rightarrow> 's gen" where
  "gen_bind (Go s) f = f s"
| "gen_bind (Halt s) f = Halt s"
| "gen_bind (Fail e) f = Fail e"

fun gen_fold :: "('a \<Rightarrow> 's \<Rightarrow> 's gen) \<Rightarrow> 'a list \<Rightarrow> 's \<Rightarrow> 's gen" where
  "gen_fold f [] s = Go s"
| "gen_fold f (x # xs) s = gen_bind (f x s) (gen_fold f xs)"

definition spend :: "int \<Rightarrow> int \<Rightarrow> int res" where
  "spend amount remaining =
     (if remaining - amount < 0 then Inl (ValueError ''dependency edge path work limit exceeded'') else Inr (remaining - amount))"

record enumeration =
  budget_left :: int
  found :: "dependency_path list"

definition gen_spend :: "enumeration \<Rightarrow> enumeration gen" where
  "gen_spend st = (case spend 1 (budget_left st) of Inl e \<Rightarrow> Fail e | Inr b \<Rightarrow> Go (st\<lparr>budget_left := b\<rparr>))"

text \<open>Which nodes can be derived at all: a worklist over the rules whose prerequisites are still missing.
  Returned are the set of nodes and the budget left. The queue starts in dictionary order; the code takes
  the order of a set, on which neither the result nor the budget depends.\<close>

definition index_rule :: "dependency_graph \<Rightarrow> (nat, int) dict \<times> (string, nat list) dict \<times> int \<Rightarrow> nat \<times> dependency_rule
    \<Rightarrow> ((nat, int) dict \<times> (string, nat list) dict \<times> int) res" where
  "index_rule g acc ir = (case (acc, ir) of ((pending, reverse, b), (i, r)) \<Rightarrow>
     res_bind (spend 1 b) (\<lambda>b1.
       if is_source g (rule_target r) then Inr (pending, reverse, b1)
       else res_bind (fold_res (\<lambda>(rv, b) c. res_bind (spend 1 b) (\<lambda>b'. Inr (dict_push rv c i, b'))) (reverse, b1) (prerequisites r))
         (\<lambda>(reverse', b2). Inr (dict_set pending i (int (length (prerequisites r))), reverse', b2))))"

definition relax :: "dependency_graph \<Rightarrow> string list \<times> string list \<times> (nat, int) dict \<times> int \<Rightarrow> nat
    \<Rightarrow> (string list \<times> string list \<times> (nat, int) dict \<times> int) res" where
  "relax g acc i = (case acc of (queue, viable, pending, b) \<Rightarrow>
     res_bind (spend 1 b) (\<lambda>b1.
       let p = dict_get pending i 0 - 1; pending' = dict_set pending i p; reached = rule_target (ordered_rules g ! i) in
       if p = 0 \<and> reached \<notin> set viable then Inr (queue @ [reached], viable @ [reached], pending', b1)
       else Inr (queue, viable, pending', b1)))"

lemma spend_Inr [simp]: "spend a b = Inr b' \<longleftrightarrow> a \<le> b \<and> b' = b - a"
  by (auto simp: spend_def)

lemma relax_budget: "fold_res (relax g) (q, v, p, b) is = Inr (q', v', p', b') \<Longrightarrow> b' \<le> b"
  by (induction "is" arbitrary: q v p b)
    (fastforce simp: relax_def Let_def res_bind_def spend_def split: sum.splits if_splits)+

function viability :: "dependency_graph \<Rightarrow> (string, nat list) dict \<Rightarrow> string list \<Rightarrow> string list \<Rightarrow> (nat, int) dict \<Rightarrow> int
    \<Rightarrow> (string list \<times> int) res" where
  "viability g reverse [] viable pending b = Inr (viable, b)"
| "viability g reverse (node # queue) viable pending b =
     (case spend 1 b of
        Inl e \<Rightarrow> Inl e
      | Inr b1 \<Rightarrow>
          (case fold_res (relax g) (queue, viable, pending, b1) (dict_get reverse node []) of
             Inl e \<Rightarrow> Inl e
           | Inr (queue', viable', pending', b2) \<Rightarrow> viability g reverse queue' viable' pending' b2))"
  by pat_completeness auto
termination
  by (relation "measure (\<lambda>(g, rv, q, v, p, b). nat b + (if q = [] then 0 else 1))")
    (auto dest!: relax_budget)

text \<open>One rule: its prerequisites are walked left to right, each with the choices the earlier ones made.
  \<open>i\<close> and \<open>r\<close> are the rule, \<open>j\<close> the index of the first prerequisite still to walk.\<close>

type_synonym proof_item = "string list \<times> dependency_edge list \<times> (string, nat) dict"

fun walk_children :: "(string \<Rightarrow> (string, nat) dict \<Rightarrow> (proof_item \<Rightarrow> enumeration \<Rightarrow> enumeration gen) \<Rightarrow> enumeration \<Rightarrow> enumeration gen)
    \<Rightarrow> nat \<Rightarrow> dependency_rule \<Rightarrow> nat \<Rightarrow> string list \<Rightarrow> proof_item \<Rightarrow> (proof_item \<Rightarrow> enumeration \<Rightarrow> enumeration gen)
    \<Rightarrow> enumeration \<Rightarrow> enumeration gen" where
  "walk_children w i r j [] y k st = k y st"
| "walk_children w i r j (c # cs) y k st = (case y of (ss, es, choices) \<Rightarrow>
     gen_bind (gen_spend st)
       (w c choices (\<lambda>(ss', es', choices') st'.
          gen_bind
            (walk_children w i r (Suc j) cs
               (List.union ss' ss, List.insert (edge_of i r j c) (List.union es' es), choices') k st')
            gen_spend)))"

text \<open>The first argument is \<open>max_depth - depth\<close>.\<close>

fun walk :: "nat \<Rightarrow> dependency_graph \<Rightarrow> string list \<Rightarrow> string list \<Rightarrow> string \<Rightarrow> (string, nat) dict
    \<Rightarrow> (proof_item \<Rightarrow> enumeration \<Rightarrow> enumeration gen) \<Rightarrow> enumeration \<Rightarrow> enumeration gen" where
  "walk 0 g viable seen node choices k st =
     gen_bind (gen_spend st) (\<lambda>st. if node \<in> set viable \<and> is_source g node then k ([node], [], choices) st else Go st)"
| "walk (Suc n) g viable seen node choices k st =
     gen_bind (gen_spend st) (\<lambda>st.
       if node \<notin> set viable then Go st
       else if is_source g node then k ([node], [], choices) st
       else if node \<in> set seen then Go st
       else gen_fold (\<lambda>i st. gen_bind (gen_spend st) (\<lambda>st.
           if dict_has choices node \<and> map_of choices node \<noteq> Some i then Go st
           else (let r = ordered_rules g ! i in
             if \<not> set (prerequisites r) \<subseteq> set viable then Go st
             else walk_children (walk n g viable (node # seen)) i r 0 (prerequisites r)
               ([], [], dict_set choices node i) k st)))
         (dict_get (indexed_rules g) node []) st)"

definition edge_key :: "dependency_edge \<Rightarrow> int \<times> int" where
  "edge_key e = (rule_index e, prerequisite_index e)"

definition emit :: "string \<Rightarrow> int \<Rightarrow> proof_item \<Rightarrow> enumeration \<Rightarrow> enumeration gen" where
  "emit target max_paths y st = (case y of (ss, es, _) \<Rightarrow>
     (let p = \<lparr>path_target = target, source_ids = sort ss, path_edges = sort_key edge_key es\<rparr> in
      if p \<in> set (found st) then Go st
      else (let st' = st\<lparr>found := found st @ [p]\<rparr> in
        if int (length (found st')) = max_paths then Halt st' else Go st')))"

definition edge_paths_to :: "dependency_graph \<Rightarrow> string \<Rightarrow> string \<Rightarrow> int \<Rightarrow> int \<Rightarrow> dependency_path list res" where
  "edge_paths_to g target dir max_depth max_paths =
     (if target = [] \<or> dir \<notin> set DIRECTIONS \<or> \<not> (1 \<le> max_depth \<and> max_depth \<le> 128)
         \<or> \<not> (1 \<le> max_paths \<and> max_paths \<le> 4096)
      then Inl (ValueError ''invalid dependency edge path request'')
      else res_bind (spend (int (length (graph_sources g)))
          (min EDGE_WORK_LIMIT (max 4096 (max_paths * max_depth * 128)))) (\<lambda>b.
        res_bind (fold_res (\<lambda>b r. spend (1 + int (length (prerequisites r))) b) b (ordered_rules g)) (\<lambda>b.
        res_bind (edge_document g) (\<lambda>_.
        res_bind (fold_res (index_rule g) ([], [], b) (List.enumerate 0 (ordered_rules g))) (\<lambda>(pending, reverse, b).
        let sources = map fst (filter (\<lambda>ks. dir \<in> set (src_directions (snd ks))) (graph_sources g)) in
        res_bind (viability g reverse sources sources pending b) (\<lambda>(viable, b).
          case walk (nat max_depth) g viable [] target [] (emit target max_paths) \<lparr>budget_left = b, found = []\<rparr> of
            Go st \<Rightarrow> Inr (found st) | Halt st \<Rightarrow> Inr (found st) | Fail e \<Rightarrow> Inl e))))))"

section \<open>Authentication of a proof graph\<close>

text \<open>The rule each target was resolved by and the edges by index, or the first error.\<close>

definition select_edge :: "dependency_graph \<Rightarrow> (string, int) dict \<times> (int \<times> int, dependency_edge) dict \<Rightarrow> dependency_edge
    \<Rightarrow> ((string, int) dict \<times> (int \<times> int, dependency_edge) dict) res" where
  "select_edge g acc e = (case acc of (selected, by_key) \<Rightarrow>
     if rule_index e \<ge> int (length (ordered_rules g)) then Inl (ValueError ''dependency edge rule not in graph'')
     else (let i = nat (rule_index e); r = ordered_rules g ! i; j = nat (prerequisite_index e) in
       if prerequisite_index e \<ge> int (length (prerequisites r)) then Inl (ValueError ''dependency edge differs from graph'')
       else res_bind (make_dependency_edge (edge_of i r j (prerequisites r ! j))) (\<lambda>expected.
         if e \<noteq> expected then Inl (ValueError ''dependency edge differs from graph'')
         else (let selected' = (if dict_has selected (edge_target e) then selected else dict_set selected (edge_target e) (rule_index e)) in
           if map_of selected' (edge_target e) \<noteq> Some (rule_index e) then Inl (ValueError ''dependency path has inconsistent OR selections'')
           else Inr (selected', dict_set by_key (rule_index e, prerequisite_index e) e)))))"

record search =
  visited :: "string list"
  active :: "string list"
  used :: "dependency_edge list"
  leaves :: "string list"

definition child_edges :: "dependency_graph \<Rightarrow> (int \<times> int, dependency_edge) dict \<Rightarrow> int \<Rightarrow> dependency_edge list option" where
  "child_edges g by_key i =
     those (map (\<lambda>j. map_of by_key (i, int j)) [0..<length (prerequisites (ordered_rules g ! nat i))])"

text \<open>The depth-first search of \<open>path_identity\<close>; the head of the list is the top of the stack. The
  prerequisites of a node are pushed in reverse, so that the first is on top, above the node's exit mark.\<close>

function search_path :: "dependency_graph \<Rightarrow> string \<Rightarrow> (string, int) dict \<Rightarrow> (int \<times> int, dependency_edge) dict
    \<Rightarrow> (string \<times> bool) list \<Rightarrow> search \<Rightarrow> search res" where
  "search_path g dir selected by_key [] s = Inr s"
| "search_path g dir selected by_key ((node, exiting) # stack) s =
     (if exiting then
        (if node \<notin> set (active s) then Inl (KeyError (py_repr node))
         else search_path g dir selected by_key stack
           (s\<lparr>active := removeAll node (active s), visited := List.insert node (visited s)\<rparr>))
      else if node \<in> set (active s) then Inl (ValueError ''dependency selected path contains cycle'')
      else if node \<in> set (visited s) then search_path g dir selected by_key stack s
      else if is_source g node then
        (if \<not> source_admits g dir node then Inl (ValueError ''dependency source direction differs'')
         else search_path g dir selected by_key stack
           (s\<lparr>leaves := List.insert node (leaves s), visited := List.insert node (visited s)\<rparr>))
      else (case map_of selected node of
          None \<Rightarrow> Inl (ValueError ''dependency path has unresolved prerequisite'')
        | Some i \<Rightarrow>
            (case child_edges g by_key i of
               None \<Rightarrow> Inl (ValueError ''dependency path omits AND prerequisite edge'')
             | Some es \<Rightarrow>
                 search_path g dir selected by_key
                   (map (\<lambda>c. (c, False)) (prerequisites (ordered_rules g ! nat i)) @ (node, True) # stack)
                   (s\<lparr>active := List.insert node (active s), used := List.union es (used s)\<rparr>))))"
  by pat_completeness auto
termination
proof (relation "measures [\<lambda>(g, dir, sel, bk, stack, s). card (fst ` set sel - (set (active s) \<union> set (visited s))),
    \<lambda>(g, dir, sel, bk, stack, s). length stack]", goal_cases)
  case (2 g dir sel bk node exiting stack s)
  have "set (removeAll node (active s)) \<union> set (List.insert node (visited s)) = set (active s) \<union> set (visited s)"
    using 2 by auto
  then show ?case by simp
next
  case (5 g dir sel bk node exiting stack s i es)
  have "node \<in> fst ` set sel"
    using 5 by (metis image_eqI fst_conv map_of_SomeD)
  then have "card (fst ` set sel - (insert node (set (active s)) \<union> set (visited s))) < card (fst ` set sel - (set (active s) \<union> set (visited s)))"
    using 5 by (intro psubset_card_mono) auto
  then show ?case by simp
next
  case (4 g dir sel bk node exiting stack s)
  have "card (fst ` set sel - insert node (set (active s) \<union> set (visited s))) \<le> card (fst ` set sel - (set (active s) \<union> set (visited s)))"
    by (intro card_mono) auto
  then show ?case by (auto simp: le_less)
qed auto

definition path_identity :: "dependency_graph \<Rightarrow> dependency_path \<Rightarrow> string \<Rightarrow> string res" where
  "path_identity g p dir =
     res_bind (edge_document g) (\<lambda>graph_document.
       if path_target p = [] \<or> dir \<notin> set DIRECTIONS \<or> source_ids p = [] \<or> [] \<in> set (source_ids p)
          \<or> source_ids p \<noteq> sort (remdups (source_ids p))
       then Inl (ValueError ''invalid dependency edge path identity'')
       else if path_edges p \<noteq> sort_key edge_key (remdups (path_edges p))
       then Inl (ValueError ''dependency edge path is not canonical'')
       else res_bind (fold_res (select_edge g) ([], []) (path_edges p)) (\<lambda>(selected, by_key).
         res_bind (search_path g dir selected by_key [(path_target p, False)]
             \<lparr>visited = [], active = [], used = [], leaves = []\<rparr>) (\<lambda>s.
           if set (used s) \<noteq> set (path_edges p) \<or> sort (leaves s) \<noteq> source_ids p
           then Inl (ValueError ''dependency path has disconnected edge or incorrect sources'')
           else Inr (edge_hash (JObj [(''schema_version'', JStr ''dependency_edge_path_identity.v1''),
             (''graph'', graph_document), (''target'', JStr (path_target p)), (''direction'', JStr dir),
             (''source_ids'', JList (map JStr (source_ids p))), (''edges'', JList (map edge_row (path_edges p)))])))))"

section \<open>Trusted bindings of the sources\<close>

definition binding_agrees :: "source_binding \<Rightarrow> fuzzable_source \<Rightarrow> bool" where
  "binding_agrees b s \<longleftrightarrow>
     (bind_kind b, bind_component b, bind_port b, bind_offset b, bind_width b)
       = (src_kind s, src_component s, src_port s, src_offset s, src_width s)
     \<and> (src_address s \<noteq> None \<longrightarrow> bind_address b = src_address s)"

definition check_bound_image :: "fuzzable_source \<Rightarrow> source_binding \<Rightarrow> scenario_genome \<Rightarrow> unit res" where
  "check_bound_image s b g =
     (case filter (\<lambda>img. image_component img = src_component s \<and> image_id img = src_port s) (Genome.initial_images g) of
        [img] \<Rightarrow>
          if bind_address b \<noteq> Some (image_address img) then Inl (ValueError ''memory image binding address differs'')
          else res_bind (image_data img) (\<lambda>d.
            if src_offset s + src_width s > int (length d) * 8 then Inl (ValueError ''memory image binding exceeds initial image'')
            else Inr ())
      | _ \<Rightarrow> Inl (ValueError ''memory image binding requires unique initial image''))"

definition check_binding_owner :: "ownership_map \<Rightarrow> scenario_genome list \<Rightarrow> (string, scenario_genome list) dict option
    \<Rightarrow> string \<Rightarrow> fuzzable_source \<Rightarrow> source_binding \<Rightarrow> unit res" where
  "check_binding_owner ownership genomes image_genomes sid s b =
     (if src_kind s = ''source''
      then res_bind (mutation_source ownership (src_component s) (src_port s) (src_offset s) (src_width s) (hd (src_directions s)))
        (\<lambda>actual. check (actual = owner_ref b) (ValueError ''source binding owner does not match input owner''))
      else if owner_ref b \<noteq> ''initial_image:'' @ src_component s @ '':'' @ src_port s
      then Inl (ValueError ''memory image binding owner is invalid'')
      else (let relevant = (case image_genomes of None \<Rightarrow> genomes | Some d \<Rightarrow> dict_get d sid genomes) in
        if relevant = [] then Inl (ValueError ''memory image binding has no initial image'')
        else check_all (check_bound_image s b) relevant))"

type_synonym occupied_bits = "(string \<times> string \<times> string, (int \<times> int) list) dict"

definition bind_source :: "(string, source_binding) dict \<Rightarrow> ownership_map \<Rightarrow> scenario_genome list
    \<Rightarrow> (string, scenario_genome list) dict option \<Rightarrow> occupied_bits \<Rightarrow> string \<times> fuzzable_source \<Rightarrow> occupied_bits res" where
  "bind_source entries ownership genomes image_genomes occupied ks = (case ks of (sid, s) \<Rightarrow>
     (case map_of entries sid of
        None \<Rightarrow> Inl (KeyError (py_repr sid))
      | Some b \<Rightarrow>
          if \<not> binding_agrees b s then Inl (ValueError ''graph source disagrees with trusted binding'')
          else if src_width s > 8192 then Inl (ValueError ''source binding width exceeds decoder bound'')
          else res_bind (check_binding_owner ownership genomes image_genomes sid s b) (\<lambda>_.
            let k = (src_kind s, src_component s, src_port s); interval = (src_offset s, src_offset s + src_width s) in
            if \<exists>iv \<in> set (dict_get occupied k []). fst interval < snd iv \<and> fst iv < snd interval
            then Inl (ValueError ''multiple graph source bindings own one bit'')
            else Inr (dict_push occupied k interval))))"

definition validate_bindings :: "source_binding list \<Rightarrow> dependency_graph \<Rightarrow> ownership_map \<Rightarrow> scenario_genome list
    \<Rightarrow> (string, scenario_genome list) dict option \<Rightarrow> unit res" where
  "validate_bindings bs g ownership genomes image_genomes =
     (let entries = dict_set_all [] (map (\<lambda>b. (bind_id b, b)) bs) in
      if fst ` set entries \<noteq> fst ` set (graph_sources g) then Inl (ValueError ''graph source lacks trusted binding'')
      else res_bind (fold_res (bind_source entries ownership genomes image_genomes) [] (graph_sources g)) (\<lambda>_. Inr ()))"

section \<open>What the expansion finds\<close>

text \<open>A node can be derived within a height, following rules down to sources of the direction.\<close>

fun derivable :: "nat \<Rightarrow> dependency_graph \<Rightarrow> string \<Rightarrow> string \<Rightarrow> bool" where
  "derivable 0 g dir node = source_admits g dir node"
| "derivable (Suc n) g dir node =
     (if is_source g node then source_admits g dir node
      else \<exists>r \<in> set (dict_get (graph_rules g) node []). \<forall>c \<in> set (prerequisites r). derivable n g dir c)"

text \<open>A set of sources suffices for a node: some rule of the node has all its prerequisites from it.\<close>

inductive sufficient :: "dependency_graph \<Rightarrow> string set \<Rightarrow> string \<Rightarrow> bool" for g S where
  leaf: "is_source g v \<Longrightarrow> v \<in> S \<Longrightarrow> sufficient g S v"
| rule: "\<not> is_source g v \<Longrightarrow> r \<in> set (dict_get (graph_rules g) v []) \<Longrightarrow> \<forall>c \<in> set (prerequisites r). sufficient g S c \<Longrightarrow> sufficient g S v"

lemma sufficient_mono: "sufficient g S v \<Longrightarrow> S \<subseteq> T \<Longrightarrow> sufficient g T v"
  by (induction rule: sufficient.induct) (auto intro: sufficient.intros)

lemma add_combinations_set:
  "set alts \<subseteq> set (add_combinations cap alts cs) \<and> set (add_combinations cap alts cs) \<subseteq> set alts \<union> set cs"
proof (induction cs arbitrary: alts)
  case (Cons c cs)
  show ?case using Cons [of "alts @ [c]"] by (auto simp: Let_def)
qed simp

lemma add_combinations_nonempty: "cs \<noteq> [] \<Longrightarrow> add_combinations cap alts cs \<noteq> []"
proof (cases cs)
  case (Cons c cs')
  show ?thesis
    using add_combinations_set [of "alts @ [c]" cap cs'] by (auto simp: Cons Let_def)
qed simp

definition rule_combinations :: "(string \<Rightarrow> string list list) \<Rightarrow> dependency_rule \<Rightarrow> string list list" where
  "rule_combinations ex r = map name_union (product_lists (map ex (prerequisites r)))"

lemma product_lists_nonempty: "product_lists xss = [] \<longleftrightarrow> [] \<in> set xss"
  by (induction xss) (auto simp: concat_eq_Nil_conv)

lemma rule_combinations_empty: "rule_combinations ex r = [] \<longleftrightarrow> [] \<in> set (map ex (prerequisites r))"
  by (simp add: rule_combinations_def product_lists_nonempty)

lemma add_rule_paths_alt: "add_rule_paths cap ex alts r = add_combinations cap alts (rule_combinations ex r)"
  using rule_combinations_empty [of ex r]
  by (cases "rule_combinations ex r = []") (simp_all add: add_rule_paths_def rule_combinations_def [symmetric] Let_def)

lemma add_rules_set:
  "set alts \<subseteq> set (foldl (add_rule_paths cap ex) alts rs) \<and>
   set (foldl (add_rule_paths cap ex) alts rs) \<subseteq> set alts \<union> (\<Union>r \<in> set rs. set (rule_combinations ex r))"
proof (induction rs arbitrary: alts)
  case (Cons r rs)
  show ?case
    using Cons [of "add_rule_paths cap ex alts r"] add_combinations_set [of alts cap "rule_combinations ex r"]
    by (simp add: add_rule_paths_alt) blast
qed simp

lemma add_rules_nonempty:
  "foldl (add_rule_paths cap ex) alts rs \<noteq> [] \<longleftrightarrow> alts \<noteq> [] \<or> (\<exists>r \<in> set rs. \<forall>c \<in> set (prerequisites r). ex c \<noteq> [])"
proof (induction rs arbitrary: alts)
  case (Cons r rs)
  have "add_rule_paths cap ex alts r \<noteq> [] \<longleftrightarrow> alts \<noteq> [] \<or> (\<forall>c \<in> set (prerequisites r). ex c \<noteq> [])"
  proof (cases "rule_combinations ex r = []")
    case True
    then show ?thesis
      using rule_combinations_empty [of ex r] by (auto simp: add_rule_paths_alt)
  next
    case False
    then show ?thesis
      using rule_combinations_empty [of ex r] add_combinations_nonempty [OF False] by (force simp: add_rule_paths_alt)
  qed
  with Cons show ?case by auto
qed simp

lemma rule_combinations_sufficient:
  assumes "s \<in> set (rule_combinations ex r)"
    and "\<And>c t. c \<in> set (prerequisites r) \<Longrightarrow> t \<in> set (ex c) \<Longrightarrow> sufficient g (set t) c \<and> (\<forall>x \<in> set t. P x)"
  shows "\<forall>c \<in> set (prerequisites r). sufficient g (set s) c" and "\<forall>x \<in> set s. P x"
proof -
  obtain ts where ts: "list_all2 (\<lambda>t ys. t \<in> set ys) ts (map ex (prerequisites r))" "s = name_union ts"
    using assms(1) by (auto simp: rule_combinations_def product_lists_set)
  have s: "set s = \<Union> (set ` set ts)"
    by (simp add: ts(2) name_union_def)
  have len: "length ts = length (prerequisites r)" and nth: "\<And>i. i < length ts \<Longrightarrow> ts ! i \<in> set (ex (prerequisites r ! i))"
    using ts(1) by (auto simp: list_all2_conv_all_nth)
  have good: "sufficient g (set (ts ! i)) (prerequisites r ! i) \<and> (\<forall>x \<in> set (ts ! i). P x)" if "i < length ts" for i
    using assms(2) [OF _ nth [OF that]] that len by simp
  show "\<forall>c \<in> set (prerequisites r). sufficient g (set s) c"
  proof
    fix c assume "c \<in> set (prerequisites r)"
    then obtain i where "i < length ts" "c = prerequisites r ! i"
      by (auto simp: in_set_conv_nth len)
    then show "sufficient g (set s) c"
      using sufficient_mono [of g "set (ts ! i)" c "set s"] good [of i] nth_mem [of i ts] unfolding s by blast
  qed
  show "\<forall>x \<in> set s. P x"
    using good unfolding s by (metis UN_E in_set_conv_nth)
qed

lemma rule_combinations_sorted: "s \<in> set (rule_combinations ex r) \<Longrightarrow> sorted s \<and> distinct s"
  by (auto simp: rule_combinations_def name_union_def)

lemma source_admits_is_source: "source_admits g dir v \<Longrightarrow> is_source g v"
  by (auto simp: source_admits_def is_source_def dict_has_def split: option.splits)

lemma expand_sound:
  "s \<in> set (expand n g dir cap seen node) \<Longrightarrow>
   sufficient g (set s) node \<and> (\<forall>x \<in> set s. source_admits g dir x) \<and> sorted s \<and> distinct s"
proof (induction n arbitrary: seen node s)
  case 0
  then show ?case by (auto split: if_splits intro: sufficient.leaf)
next
  case (Suc n)
  show ?case
  proof (cases "is_source g node")
    case True
    with Suc.prems show ?thesis by (auto split: if_splits intro: sufficient.leaf)
  next
    case False
    let ?ex = "expand n g dir cap (node # seen)"
    obtain r where r: "r \<in> set (dict_get (graph_rules g) node [])" "s \<in> set (rule_combinations ?ex r)"
      using Suc.prems False add_rules_set [of "[]" cap ?ex "dict_get (graph_rules g) node []"] by (auto split: if_splits)
    note c = rule_combinations_sufficient [OF r(2), of g "source_admits g dir"]
    have "sufficient g (set s) node"
      by (rule sufficient.rule [OF False r(1)]) (use c(1) Suc.IH in blast)
    moreover have "\<forall>x \<in> set s. source_admits g dir x"
      using c(2) Suc.IH by blast
    ultimately show ?thesis
      using rule_combinations_sorted [OF r(2)] by simp
  qed
qed

lemma derivable_Suc: "derivable n g dir v \<Longrightarrow> derivable (Suc n) g dir v"
proof (induction n arbitrary: v)
  case 0
  then show ?case using source_admits_is_source by auto
next
  case (Suc n)
  show ?case
  proof (cases "is_source g v")
    case False
    with Suc.prems obtain r where "r \<in> set (dict_get (graph_rules g) v [])" "\<forall>c \<in> set (prerequisites r). derivable n g dir c" by auto
    then have "\<forall>c \<in> set (prerequisites r). derivable (Suc n) g dir c" using Suc.IH by blast
    with False \<open>r \<in> _\<close> show ?thesis unfolding derivable.simps(2) [of "Suc n"] if_not_P [OF False] by blast
  qed (use Suc.prems in auto)
qed

lemma derivable_mono: "m \<le> n \<Longrightarrow> derivable m g dir v \<Longrightarrow> derivable n g dir v"
  by (induction rule: dec_induct) (simp, blast intro: derivable_Suc)

lemma expand_derivable: "expand n g dir cap seen node \<noteq> [] \<Longrightarrow> derivable n g dir node"
proof (induction n arbitrary: seen node)
  case 0
  then show ?case by (auto split: if_splits)
next
  case (Suc n)
  show ?case
  proof (cases "is_source g node")
    case False
    with Suc.prems obtain r where "r \<in> set (dict_get (graph_rules g) node [])"
        "\<forall>c \<in> set (prerequisites r). expand n g dir cap (node # seen) c \<noteq> []"
      by (auto simp: add_rules_nonempty split: if_splits)
    with False Suc.IH show ?thesis by auto
  qed (use Suc.prems in \<open>auto split: if_splits\<close>)
qed

text \<open>The expansion refuses to visit a node twice on one branch; a derivation of least height never does.\<close>

lemma derivable_expand:
  assumes "derivable m g dir node" and "\<forall>k < m. \<not> derivable k g dir node" and "m \<le> n"
    and "\<forall>x \<in> set seen. \<not> derivable m g dir x"
  shows "expand n g dir cap seen node \<noteq> []"
  using assms
proof (induction n arbitrary: m seen node)
  case 0
  then show ?case using source_admits_is_source by auto
next
  case (Suc n)
  show ?case
  proof (cases "is_source g node")
    case True
    with Suc.prems(1) have "source_admits g dir node" by (cases m) auto
    with True show ?thesis by simp
  next
    case False
    with Suc.prems(1) obtain m' where m: "m = Suc m'"
      using source_admits_is_source by (cases m) auto
    obtain r where r: "r \<in> set (dict_get (graph_rules g) node [])" "\<forall>c \<in> set (prerequisites r). derivable m' g dir c"
      using Suc.prems(1) False by (auto simp: m)
    have "expand n g dir cap (node # seen) c \<noteq> []" if "c \<in> set (prerequisites r)" for c
    proof -
      have d: "derivable m' g dir c" using r(2) that by blast
      define k where "k = (LEAST k. derivable k g dir c)"
      have k: "derivable k g dir c" "\<forall>j < k. \<not> derivable j g dir c" "k \<le> m'"
        unfolding k_def using LeastI [of "\<lambda>k. derivable k g dir c", OF d] not_less_Least Least_le [of "\<lambda>k. derivable k g dir c", OF d]
        by blast+
      have "\<not> derivable k g dir node"
        using Suc.prems(2) k(3) by (simp add: m)
      moreover have "\<not> derivable k g dir x" if "x \<in> set seen" for x
        using Suc.prems(4) that derivable_mono [of k m] k(3) m by fastforce
      ultimately show ?thesis
        using Suc.IH [OF k(1,2), of "node # seen"] k(3) Suc.prems(3) m by auto
    qed
    moreover have "node \<notin> set seen"
      using Suc.prems(1,4) by blast
    ultimately show ?thesis
      using r(1) False by (auto simp: add_rules_nonempty)
  qed
qed

lemma expand_nonempty: "expand n g dir cap [] node \<noteq> [] \<longleftrightarrow> derivable n g dir node"
proof
  assume d: "derivable n g dir node"
  define m where "m = (LEAST k. derivable k g dir node)"
  have "derivable m g dir node" "\<forall>k < m. \<not> derivable k g dir node" "m \<le> n"
    unfolding m_def using LeastI [of "\<lambda>k. derivable k g dir node", OF d] not_less_Least Least_le [of "\<lambda>k. derivable k g dir node", OF d]
    by blast+
  then show "expand n g dir cap [] node \<noteq> []"
    by (rule derivable_expand) simp
qed (rule expand_derivable)

lemma sort_remdups_empty: "sort_key f (remdups xs) = [] \<longleftrightarrow> xs = []"
proof
  assume "sort_key f (remdups xs) = []"
  then have "set (sort_key f (remdups xs)) = {}" by (simp only: list.set)
  then show "xs = []" by (simp only: set_sort set_remdups set_empty)
qed simp

text \<open>C18: A request for source sets is answered exactly when a derivation exists: there is a path if and only if the
  target can be derived within the depth bound, however many alternatives the path limit cuts off. Every path is a sorted set
  of sources of the requested direction from which the rules give the target, and the paths come by increasing size.\<close>

theorem paths_to_exact:
  assumes "paths_to g target dir max_depth max_paths = Inr ps"
  shows "(ps \<noteq> []) = derivable (nat max_depth) g dir target \<and> int (length ps) \<le> max_paths \<and> distinct ps
    \<and> sorted (map (\<lambda>p. length (source_ids p)) ps)
    \<and> (\<forall>p \<in> set ps. path_target p = target \<and> sorted (source_ids p) \<and> distinct (source_ids p)
        \<and> (\<forall>x \<in> set (source_ids p). source_admits g dir x) \<and> sufficient g (set (source_ids p)) target)"
proof -
  let ?e = "expand (nat max_depth) g dir (max_paths * 4) [] target"
  let ?sets = "sort_key (\<lambda>s. (length s, s)) (remdups ?e)"
  let ?mk = "\<lambda>s. \<lparr>path_target = target, source_ids = s, path_edges = []\<rparr>"
  have mp: "1 \<le> max_paths" and ps: "ps = map ?mk (take (nat max_paths) ?sets)"
    using assms by (auto simp: paths_to_def Let_def split: if_splits)
  have "(ps \<noteq> []) = (?sets \<noteq> [])"
    using mp by (simp add: ps)
  also have "\<dots> = (?e \<noteq> [])"
    by (simp only: sort_remdups_empty)
  finally have a: "(ps \<noteq> []) = derivable (nat max_depth) g dir target"
    by (simp add: expand_nonempty)
  have b: "int (length ps) \<le> max_paths" using mp by (simp add: ps)
  have "inj_on ?mk X" for X by (auto intro: inj_onI)
  then have c: "distinct ps" by (simp add: ps distinct_map distinct_take)
  have "sorted (map (\<lambda>s. (length s, s)) ?sets)" by simp
  then have "sorted_wrt (\<lambda>s t. length s \<le> length t) ?sets"
    unfolding sorted_map by (rule sorted_wrt_mono_rel [rotated]) auto
  then have d: "sorted (map (\<lambda>p. length (source_ids p)) ps)"
    unfolding sorted_map ps by (simp add: sorted_wrt_map sorted_wrt_take)
  have "\<forall>p \<in> set ps. path_target p = target \<and> source_ids p \<in> set ?e"
    by (auto simp: ps dest!: in_set_takeD)
  then show ?thesis
    using a b c d expand_sound [of _ "nat max_depth" g dir "max_paths * 4" "[]" target] by blast
qed

definition example_source :: "string \<Rightarrow> fuzzable_source" where
  "example_source s = \<lparr>src_id = s, src_component = ''cpu'', src_port = s, src_offset = 0, src_width = 8,
     src_directions = [''CPU_TO_IP''], src_kind = ''source'', src_address = None\<rparr>"

definition example_rules :: "dependency_rule list" where
  "example_rules = [\<lparr>rule_target = ''t'', prerequisites = [''a'', ''s2''], rule_kind = ''DATA_BINDING''\<rparr>,
     \<lparr>rule_target = ''a'', prerequisites = [''s1''], rule_kind = ''EVENT_ORDER''\<rparr>,
     \<lparr>rule_target = ''a'', prerequisites = [''t''], rule_kind = ''EVENT_ORDER''\<rparr>]"

definition example_graph :: dependency_graph where
  "example_graph = (case make_graph [example_source ''s1'', example_source ''s2''] example_rules of Inr g \<Rightarrow> g)"

lemma example_graph_made: "make_graph [example_source ''s1'', example_source ''s2''] example_rules = Inr example_graph"
  by code_simp

lemma example_paths: "paths_to example_graph ''t'' ''CPU_TO_IP'' 16 64
    = Inr [\<lparr>path_target = ''t'', source_ids = [''s1'', ''s2''], path_edges = []\<rparr>]"
  by code_simp

theorem paths_to_exact_witness:
  "paths_to example_graph ''t'' ''CPU_TO_IP'' 16 64 = Inr [\<lparr>path_target = ''t'', source_ids = [''s1'', ''s2''], path_edges = []\<rparr>]
   \<and> derivable 16 example_graph ''CPU_TO_IP'' ''t'' \<and> sufficient example_graph {''s1'', ''s2''} ''t''"
  using paths_to_exact [OF example_paths] example_paths by simp

end
