(* ===== verification/Mutation.thy ===== *)
theory Mutation
  imports Dependency
begin

text \<open>
  Mutation of a testcase (\<open>scenario/mutation.py\<close>): the choice of an upstream path and source by weight, the
  authorization a decoder compiles for its own paths, and \<open>mutate_genome\<close>, which flips one bit of a
  declared source. Graph and ownership map are objects: an authorization names them by identity, so they
  are passed with a reference. \<open>replace\<close> builds a new record through its constructor.
\<close>

section \<open>Plans, authorizations and targets\<close>

record mutation_plan =
  plan_direction :: string
  plan_target :: string
  plan_path :: dependency_path
  focus_source :: string

record authorization =
  auth_plan :: mutation_plan
  auth_graph :: int
  auth_ownership :: int

definition ranges_overlap :: "fuzzable_source \<Rightarrow> fuzzable_source \<Rightarrow> bool" where
  "ranges_overlap c s \<longleftrightarrow> src_id c \<noteq> src_id s \<and> (src_kind c, src_component c, src_port c) = (src_kind s, src_component s, src_port s)
     \<and> src_offset c < src_offset s + src_width s \<and> src_offset s < src_offset c + src_width c"

definition compile_mutation_authorization :: "mutation_plan \<Rightarrow> int \<Rightarrow> dependency_graph \<Rightarrow> int \<Rightarrow> bool \<Rightarrow> ownership_map
    \<Rightarrow> authorization res" where
  "compile_mutation_authorization plan gref g oref bits_frozen ownership =
     (if \<not> sources_frozen g \<or> \<not> bits_frozen \<or> (plan_direction plan, plan_path plan) \<notin> set (decoder_path_proofs g)
      then Inl (ValueError ''compiled mutation requires immutable verified decoder paths'')
      else (case map_of (graph_sources g) (focus_source plan) of
          None \<Rightarrow> Inl (ValueError ''invalid compiled mutation source'')
        | Some s \<Rightarrow>
            if focus_source plan \<notin> set (source_ids (plan_path plan)) \<or> plan_target plan \<noteq> path_target (plan_path plan)
            then Inl (ValueError ''invalid compiled mutation source'')
            else res_bind (if src_kind s = ''source''
                then mutation_source ownership (src_component s) (src_port s) (src_offset s) (src_width s) (plan_direction plan)
                else Inr []) (\<lambda>_.
              if \<exists>ks \<in> set (graph_sources g). ranges_overlap (snd ks) s then Inl (ValueError ''graph source ownership overlap'')
              else Inr \<lparr>auth_plan = plan, auth_graph = gref, auth_ownership = oref\<rparr>)))"

definition GENOME_TARGET_KINDS :: "string list" where
  "GENOME_TARGET_KINDS = [''genome_action'', ''initial_image'']"

definition RUNTIME_TARGET_KINDS :: "string list" where
  "RUNTIME_TARGET_KINDS = [''committed_ram'', ''read_snapshot'', ''real_response'', ''ip_output'']"

record mutation_target =
  target_kind :: string
  target_identifier :: string

definition make_mutation_target :: "string \<Rightarrow> string \<Rightarrow> mutation_target res" where
  "make_mutation_target k i =
     (if k \<notin> set GENOME_TARGET_KINDS \<union> set RUNTIME_TARGET_KINDS then Inl (ValueError ''unknown mutation target kind'')
      else if k \<in> set RUNTIME_TARGET_KINDS \<and> i = [] then Inl (ValueError ''runtime mutation target needs an identifier'')
      else Inr \<lparr>target_kind = k, target_identifier = i\<rparr>)"

section \<open>Choice of a plan\<close>

text \<open>\<open>min(xs, key=f)\<close>: the first element with the least key.\<close>

fun py_min :: "('a \<Rightarrow> 'b::linorder) \<Rightarrow> 'a list \<Rightarrow> 'a res" where
  "py_min f [] = Inl (ValueError ''min() iterable argument is empty'')"
| "py_min f (x # xs) = Inr (foldl (\<lambda>b y. if f y < f b then y else b) x xs)"

text \<open>The default bounds of \<open>paths_to\<close>.\<close>

definition default_paths :: "dependency_graph \<Rightarrow> string \<Rightarrow> string \<Rightarrow> dependency_path list res" where
  "default_paths g target dir = paths_to g target dir 16 64"

definition target_candidates :: "dependency_graph \<Rightarrow> string \<Rightarrow> string \<times> int \<Rightarrow> (int \<times> dependency_path) list res" where
  "target_candidates g dir tw = (case tw of (t, w) \<Rightarrow>
     if w < 0 then Inl (ValueError ''target weight must be nonnegative integer'')
     else res_bind (default_paths g t dir) (\<lambda>ps. Inr (map (\<lambda>p. (w, p)) ps)))"

definition choose_mutation :: "dependency_graph \<Rightarrow> (string, int) dict \<Rightarrow> string \<Rightarrow> (string, int) dict option \<Rightarrow> mutation_plan res" where
  "choose_mutation g target_weights dir source_weights =
     res_bind (map_res (target_candidates g dir) target_weights) (\<lambda>cs.
       let candidates = concat cs in
       if candidates = [] then Inl (ValueError ''no reachable target has a fuzzable upstream source'')
       else res_bind (py_min (\<lambda>(w, p). (- w, length (source_ids p), path_target p, source_ids p)) candidates) (\<lambda>(w, p).
         let weights = (case source_weights of None \<Rightarrow> [] | Some d \<Rightarrow> d) in
         if \<exists>kv \<in> set weights. snd kv < 0 then Inl (ValueError ''source weight must be nonnegative integer'')
         else res_bind (py_min (\<lambda>s. (- dict_get weights s 0, s)) (source_ids p)) (\<lambda>focus.
           Inr \<lparr>plan_direction = dir, plan_target = path_target p, plan_path = p, focus_source = focus\<rparr>)))"

section \<open>Mutation of a genome\<close>

definition check_plan :: "bool \<Rightarrow> scenario_genome \<Rightarrow> mutation_plan \<Rightarrow> dependency_graph \<Rightarrow> unit res" where
  "check_plan compiled genome plan g =
     (let p = plan_path plan; disagrees = Inl (ValueError ''mutation plan disagrees with genome path'') in
      res_bind (if \<not> compiled \<and> path_edges p \<noteq> [] then path_identity g p (plan_direction plan) else Inr []) (\<lambda>_.
        if genome_direction genome \<noteq> plan_direction plan \<or> plan_target plan \<noteq> path_target p then disagrees
        else res_bind (if \<not> compiled \<and> path_edges p = [] then default_paths g (plan_target plan) (plan_direction plan) else Inr [p]) (\<lambda>ps.
          if p \<notin> set ps \<or> focus_source plan \<notin> set (source_ids p) then disagrees else Inr ())))"

definition resolve_target :: "fuzzable_source \<Rightarrow> string option \<Rightarrow> mutation_target option \<Rightarrow> string option res" where
  "resolve_target s aid target =
     (let t = (case target of Some t \<Rightarrow> t
        | None \<Rightarrow> if src_kind s = ''memory_image'' then \<lparr>target_kind = ''initial_image'', target_identifier = src_port s\<rparr>
            else \<lparr>target_kind = ''genome_action'', target_identifier = (case aid of None \<Rightarrow> [] | Some i \<Rightarrow> i)\<rparr>);
          mismatch = Inl (ValueError ''mutation target does not match upstream source'') in
      if src_kind s = ''memory_image'' \<and> (target_kind t \<noteq> ''initial_image'' \<or> target_identifier t \<noteq> src_port s) then mismatch
      else if src_kind s \<noteq> ''memory_image'' \<and> (target_kind t \<noteq> ''genome_action''
          \<or> target_identifier t \<noteq> [] \<and> aid \<noteq> None \<and> Some (target_identifier t) \<noteq> aid) then mismatch
      else Inr (if target_kind t = ''genome_action'' \<and> target_identifier t \<noteq> [] then Some (target_identifier t) else aid))"

definition covers_bit :: "fuzzable_source \<Rightarrow> int \<Rightarrow> fuzzable_source \<Rightarrow> bool" where
  "covers_bit s absolute_bit c \<longleftrightarrow> src_kind c = src_kind s \<and> src_component c = src_component s \<and> src_port c = src_port s
     \<and> src_offset c \<le> absolute_bit \<and> absolute_bit < src_offset c + src_width c"

definition bit_owners :: "dependency_graph \<Rightarrow> fuzzable_source \<Rightarrow> int \<Rightarrow> nat" where
  "bit_owners g s absolute_bit = length (filter (\<lambda>ks. covers_bit s absolute_bit (snd ks)) (graph_sources g))"

definition flip_byte :: "bytes \<Rightarrow> int \<Rightarrow> bytes" where
  "flip_byte d absolute_bit = d[nat (absolute_bit div 8) := (d ! nat (absolute_bit div 8)) XOR push_bit (nat (absolute_bit mod 8)) 1]"

fun flip_image :: "fuzzable_source \<Rightarrow> int \<Rightarrow> memory_image list \<Rightarrow> memory_image list res" where
  "flip_image s absolute_bit [] = Inl (ValueError ''genome has no image for selected upstream source'')"
| "flip_image s absolute_bit (img # imgs) =
     (if image_id img \<noteq> src_port s \<or> image_component img \<noteq> src_component s
      then res_bind (flip_image s absolute_bit imgs) (\<lambda>imgs'. Inr (img # imgs'))
      else res_bind (image_data img) (\<lambda>d.
        if src_offset s + src_width s > int (length d) * 8 then Inl (ValueError ''mutation bit is outside memory image'')
        else res_bind (make_memory_image (image_id img) (image_component img) (image_address img) (bytes_hex (flip_byte d absolute_bit)))
          (\<lambda>img'. Inr (img' # imgs))))"

definition selected_width :: "ownership_map \<Rightarrow> action \<Rightarrow> int res" where
  "selected_width ownership a = (case action_width a of Some w \<Rightarrow> Inr w | None \<Rightarrow> field_width ownership (component a) (port a))"

fun flip_action :: "ownership_map \<Rightarrow> fuzzable_source \<Rightarrow> string \<Rightarrow> int \<Rightarrow> string option \<Rightarrow> action list \<Rightarrow> action list res" where
  "flip_action ownership s dir absolute_bit aid [] = Inl (ValueError ''genome has no matching action for selected upstream source'')"
| "flip_action ownership s dir absolute_bit aid (a # as) =
     (if aid \<noteq> None \<and> aid \<noteq> Some (action_id a)
      then res_bind (flip_action ownership s dir absolute_bit aid as) (\<lambda>as'. Inr (a # as'))
      else res_bind (selected_width ownership a) (\<lambda>w.
        if component a = src_component s \<and> port a = src_port s \<and> direction a = dir
           \<and> bit_offset a \<le> absolute_bit \<and> absolute_bit < bit_offset a + w
        then res_bind (make_action (a\<lparr>action_value := action_value a XOR 2 ^ nat (absolute_bit - bit_offset a)\<rparr>)) (\<lambda>a'. Inr (a' # as))
        else res_bind (flip_action ownership s dir absolute_bit aid as) (\<lambda>as'. Inr (a # as'))))"

definition mutate_genome :: "scenario_genome \<Rightarrow> mutation_plan \<Rightarrow> int \<Rightarrow> dependency_graph \<Rightarrow> int \<Rightarrow> ownership_map \<Rightarrow> int
    \<Rightarrow> string option \<Rightarrow> mutation_target option \<Rightarrow> authorization option \<Rightarrow> scenario_genome res" where
  "mutate_genome genome plan gref g oref ownership bit_index aid target auth =
     (if (case target of None \<Rightarrow> False | Some t \<Rightarrow> target_kind t \<in> set RUNTIME_TARGET_KINDS)
      then Inl (ValueError ''runtime mutation target is immutable'')
      else if (case auth of None \<Rightarrow> False
          | Some c \<Rightarrow> auth_plan c \<noteq> plan \<or> auth_graph c \<noteq> gref \<or> auth_ownership c \<noteq> oref)
      then Inl (ValueError ''compiled mutation authorization differs'')
      else
        (let compiled = (auth \<noteq> None) in
         res_bind (check_plan compiled genome plan g) (\<lambda>_.
         case map_of (graph_sources g) (focus_source plan) of
           None \<Rightarrow> Inl (ValueError ''mutation focus is not a declared source'')
         | Some s \<Rightarrow>
             res_bind (resolve_target s aid target) (\<lambda>aid'.
             if \<not> (0 \<le> bit_index \<and> bit_index < src_width s) then Inl (ValueError ''mutation bit is outside source width'')
             else
               (let absolute_bit = src_offset s + bit_index in
                if \<not> compiled \<and> bit_owners g s absolute_bit \<noteq> 1 then Inl (ValueError ''graph source ownership overlap'')
                else if src_kind s = ''memory_image''
                then res_bind (flip_image s absolute_bit (initial_images genome)) (\<lambda>imgs.
                  make_genome (genome\<lparr>initial_images := imgs\<rparr>))
                else res_bind (if compiled then Inr []
                    else mutation_source ownership (src_component s) (src_port s) (src_offset s) (src_width s) (plan_direction plan)) (\<lambda>_.
                  res_bind (flip_action ownership s (plan_direction plan) absolute_bit aid' (actions genome)) (\<lambda>as.
                    make_genome (genome\<lparr>actions := as\<rparr>))))))))"

section \<open>A mutation flips one bit\<close>

definition genome_checks :: "scenario_genome \<Rightarrow> bool" where
  "genome_checks g \<longleftrightarrow> testcase g \<noteq> [] \<and> path_id g \<noteq> [] \<and> genome_direction g \<in> set DIRECTIONS
     \<and> schedule_order g \<noteq> [] \<and> [] \<notin> set (schedule_order g) \<and> distinct (schedule_order g)
     \<and> 1 \<le> max_steps g \<and> encoding_version g \<in> {2, 3} \<and> (reset_actions g \<noteq> [] \<longrightarrow> encoding_version g = 3)
     \<and> 0 \<le> quiesce_steps g \<and> quiesce_steps g \<le> 4096 \<and> (quiesce_steps g \<noteq> 0 \<longrightarrow> encoding_version g = 3)
     \<and> distinct (map action_id (actions g) @ map reset_id (reset_actions g)) \<and> distinct (map image_id (initial_images g))
     \<and> (\<forall>img \<in> set (initial_images g). image_component img \<in> set (schedule_order g))
     \<and> (\<forall>a \<in> set (actions g). check_action_order (schedule_order g) a = Inr ())
     \<and> (\<forall>r \<in> set (reset_actions g). check_reset_order (schedule_order g) r = Inr ())"

lemma make_genome_Inr: "make_genome g = Inr h \<longleftrightarrow> h = g \<and> genome_checks g"
proof (cases "genome_checks g")
  case True
  then have "make_genome g = Inr g"
    by (auto simp: genome_checks_def make_genome_def natural_def)
  with True show ?thesis by auto
next
  case False
  then have "make_genome g \<noteq> Inr h"
    by (auto simp: genome_checks_def make_genome_def natural_def check_def split: if_splits)
  with False show ?thesis by auto
qed

text \<open>A genome whose parts have passed their constructors.\<close>

definition genome_ok :: "scenario_genome \<Rightarrow> bool" where
  "genome_ok g \<longleftrightarrow> make_genome g = Inr g \<and> (\<forall>a \<in> set (actions g). make_action a = Inr a)
     \<and> (\<forall>img \<in> set (initial_images g). make_memory_image (image_id img) (image_component img) (image_address img) (data_hex img) = Inr img)
     \<and> (\<forall>r \<in> set (reset_actions g). make_reset_action r = Inr r)"

lemma genome_checks_actions:
  assumes "genome_checks g" "map action_id as = map action_id (actions g)"
    and "\<forall>a \<in> set as. check_action_order (schedule_order g) a = Inr ()"
  shows "genome_checks (g\<lparr>actions := as\<rparr>)"
  using assms by (simp add: genome_checks_def)

lemma genome_checks_images:
  assumes "genome_checks g" "map image_id imgs = map image_id (initial_images g)"
    and "\<forall>img \<in> set imgs. image_component img \<in> set (schedule_order g)"
  shows "genome_checks (g\<lparr>initial_images := imgs\<rparr>)"
  using assms by (simp add: genome_checks_def)

lemma make_action_Inr: "make_action a = Inr b \<Longrightarrow> b = a"
  by (auto simp: make_action_def split: if_splits)

lemma make_memory_image_Inr:
  "make_memory_image i c a h = Inr img \<Longrightarrow> img = \<lparr>image_id = i, image_component = c, image_address = a, data_hex = h\<rparr>
    \<and> (\<exists>bs. bytes_fromhex h = Some bs \<and> bytes_hex bs = h)"
  by (auto simp: make_memory_image_def split: if_splits option.splits)

lemma image_data_hex: "data_hex img = bytes_hex bs \<Longrightarrow> image_data img = Inr bs"
  by (simp add: image_data_def)

definition image_valid :: "memory_image \<Rightarrow> bool" where
  "image_valid img \<longleftrightarrow> make_memory_image (image_id img) (image_component img) (image_address img) (data_hex img) = Inr img"

lemma image_valid_data:
  assumes "image_valid img" "image_data img = Inr d"
  shows "bytes_hex d = data_hex img"
  using assms make_memory_image_Inr [of "image_id img" "image_component img" "image_address img" "data_hex img" img]
  by (auto simp: image_valid_def image_data_def)

lemma image_valid_bytes:
  "image_valid img \<Longrightarrow> bytes_hex d \<noteq> [] \<Longrightarrow> image_valid (img\<lparr>data_hex := bytes_hex d\<rparr>)"
  by (auto simp: image_valid_def make_memory_image_def split: if_splits option.splits)

subsection \<open>Bits of a byte string\<close>

definition data_bit :: "bytes \<Rightarrow> nat \<Rightarrow> bool" where
  "data_bit d i = bit (d ! (i div 8)) (i mod 8)"

lemma length_flip_byte [simp]: "length (flip_byte d b) = length d"
  by (simp add: flip_byte_def)

lemma data_bit_flip:
  assumes "0 \<le> b" "b < 8 * int (length d)" "i < 8 * length d"
  shows "data_bit (flip_byte d b) i = (data_bit d i \<noteq> (int i = b))"
proof -
  obtain n where n: "b = int n" using assms(1) nonneg_int_cases by blast
  have nb: "nat (b div 8) = n div 8" "nat (b mod 8) = n mod 8"
    by (simp_all add: n nat_div_distrib nat_mod_distrib)
  have "n < length d * 8" using assms(2) by (simp add: n)
  then have k: "nat (b div 8) < length d" unfolding nb by (rule less_mult_imp_div_less)
  have "i = n" if "i div 8 = n div 8" "i mod 8 = n mod 8"
  proof -
    have "i = i div 8 * 8 + i mod 8" by (rule div_mult_mod_eq [symmetric])
    also have "\<dots> = n div 8 * 8 + n mod 8" by (simp only: that)
    also have "\<dots> = n" by (rule div_mult_mod_eq)
    finally show ?thesis .
  qed
  then have e: "(int i = b) \<longleftrightarrow> i div 8 = nat (b div 8) \<and> i mod 8 = nat (b mod 8)"
    unfolding nb by (auto simp: n)
  show ?thesis
  proof (cases "i div 8 = nat (b div 8)")
    case True
    then have "data_bit (flip_byte d b) i = bit ((d ! (i div 8)) XOR push_bit (nat (b mod 8)) 1) (i mod 8)"
      using k by (simp add: data_bit_def flip_byte_def)
    also have "\<dots> = (data_bit d i \<noteq> bit (push_bit (nat (b mod 8)) (1 :: u8)) (i mod 8))"
      by (simp add: data_bit_def bit_xor_iff)
    also have "bit (push_bit (nat (b mod 8)) (1 :: u8)) (i mod 8) = (i mod 8 = nat (b mod 8))"
      by (auto simp: bit_exp_iff possible_bit_word)
    finally show ?thesis using True e by blast
  next
    case False
    with e show ?thesis by (simp add: data_bit_def flip_byte_def)
  qed
qed

lemma flip_byte_twice: "flip_byte (flip_byte d b) b = d"
proof (cases "nat (b div 8) < length d")
  case True
  have "(x XOR y) XOR y = x" for x y :: u8
    by (rule bit_eqI) (auto simp: bit_xor_iff)
  with True show ?thesis by (simp add: flip_byte_def)
qed (simp add: flip_byte_def list_update_beyond)

lemma xor_twice: "((x::int) XOR y) XOR y = x"
  by (rule bit_eqI) (auto simp: bit_xor_iff)


subsection \<open>The changed part\<close>

lemma flip_image_Inr:
  assumes "flip_image s b imgs = Inr imgs'"
  shows "\<exists>k d. k < length imgs \<and> image_id (imgs ! k) = src_port s \<and> image_component (imgs ! k) = src_component s \<and> image_data (imgs ! k) = Inr d
    \<and> src_offset s + src_width s \<le> int (length d) * 8 \<and> imgs' = imgs[k := (imgs ! k)\<lparr>data_hex := bytes_hex (flip_byte d b)\<rparr>]
    \<and> image_valid (imgs' ! k)"
  using assms
proof (induction imgs arbitrary: imgs')
  case (Cons img imgs)
  show ?case
  proof (cases "image_id img \<noteq> src_port s \<or> image_component img \<noteq> src_component s")
    case True
    then obtain imgs1 where i1: "flip_image s b imgs = Inr imgs1" "imgs' = img # imgs1" using Cons.prems by auto
    from Cons.IH [OF i1(1)] obtain k d where "k < length imgs" "image_id (imgs ! k) = src_port s" "image_component (imgs ! k) = src_component s"
        "image_data (imgs ! k) = Inr d" "src_offset s + src_width s \<le> int (length d) * 8"
        "imgs1 = imgs[k := (imgs ! k)\<lparr>data_hex := bytes_hex (flip_byte d b)\<rparr>]" "image_valid (imgs1 ! k)" by blast
    then show ?thesis by (intro exI [of _ "Suc k"] exI [of _ d]) (simp add: i1)
  next
    case False
    then obtain d img' where d: "image_data img = Inr d" "src_offset s + src_width s \<le> int (length d) * 8"
        "make_memory_image (image_id img) (image_component img) (image_address img) (bytes_hex (flip_byte d b)) = Inr img'" "imgs' = img' # imgs"
      using Cons.prems by (auto split: if_splits)
    have "img' = img\<lparr>data_hex := bytes_hex (flip_byte d b)\<rparr>" "image_valid img'"
      using d(3) make_memory_image_Inr [OF d(3)] by (auto simp: image_valid_def)
    then show ?thesis using False d by (intro exI [of _ 0] exI [of _ d]) simp
  qed
qed simp

lemma flip_image_back:
  assumes "flip_image s b imgs = Inr imgs'" "\<forall>img \<in> set imgs. image_valid img"
  shows "flip_image s b imgs' = Inr imgs"
  using assms
proof (induction imgs arbitrary: imgs')
  case (Cons img imgs)
  show ?case
  proof (cases "image_id img \<noteq> src_port s \<or> image_component img \<noteq> src_component s")
    case True
    with Cons show ?thesis by auto
  next
    case False
    then obtain d img' where d: "image_data img = Inr d" "src_offset s + src_width s \<le> int (length d) * 8"
        "make_memory_image (image_id img) (image_component img) (image_address img) (bytes_hex (flip_byte d b)) = Inr img'" "imgs' = img' # imgs"
      using Cons.prems(1) by (auto split: if_splits)
    have img': "img' = img\<lparr>data_hex := bytes_hex (flip_byte d b)\<rparr>"
      using make_memory_image_Inr [OF d(3)] by simp
    have v: "image_valid img" using Cons.prems(2) by simp
    then have h: "bytes_hex d = data_hex img" using d(1) by (rule image_valid_data)
    have "image_data img' = Inr (flip_byte d b)" by (rule image_data_hex) (simp add: img')
    then show ?thesis
      using False d(2) h v by (simp add: d(4)) (simp add: img' flip_byte_twice image_valid_def)
  qed
qed simp

lemma selected_width_value [simp]: "selected_width ownership (a\<lparr>action_value := v\<rparr>) = selected_width ownership a"
  by (cases "action_width a") (simp_all add: selected_width_def)

lemma flip_action_Inr:
  assumes "flip_action ownership s dir b aid as = Inr as'"
  shows "\<exists>k. k < length as \<and> component (as ! k) = src_component s \<and> port (as ! k) = src_port s \<and> direction (as ! k) = dir \<and> bit_offset (as ! k) \<le> b
    \<and> as' = as[k := (as ! k)\<lparr>action_value := action_value (as ! k) XOR 2 ^ nat (b - bit_offset (as ! k))\<rparr>] \<and> make_action (as' ! k) = Inr (as' ! k)"
  using assms
proof (induction as arbitrary: as')
  case (Cons a as)
  have later: ?case if "flip_action ownership s dir b aid as = Inr as1" "as' = a # as1" for as1
  proof -
    from Cons.IH [OF that(1)] obtain k where "k < length as" "component (as ! k) = src_component s" "port (as ! k) = src_port s" "direction (as ! k) = dir"
        "bit_offset (as ! k) \<le> b" "as1 = as[k := (as ! k)\<lparr>action_value := action_value (as ! k) XOR 2 ^ nat (b - bit_offset (as ! k))\<rparr>]"
        "make_action (as1 ! k) = Inr (as1 ! k)" by blast
    then show ?thesis by (intro exI [of _ "Suc k"]) (simp add: that)
  qed
  have now: ?case if "make_action (a\<lparr>action_value := action_value a XOR 2 ^ nat (b - bit_offset a)\<rparr>) = Inr a'" "as' = a' # as"
      "component a = src_component s" "port a = src_port s" "direction a = dir" "bit_offset a \<le> b" for a'
    using that make_action_Inr [OF that(1)] by (intro exI [of _ 0]) simp
  show ?case
    using Cons.prems later now by (auto split: if_splits)
qed simp

lemma flip_action_back:
  assumes "flip_action ownership s dir b aid as = Inr as'" "\<forall>a \<in> set as. make_action a = Inr a"
  shows "flip_action ownership s dir b aid as' = Inr as"
  using assms
proof (induction as arbitrary: as')
  case (Cons a as)
  show ?case
  proof (cases "aid \<noteq> None \<and> aid \<noteq> Some (action_id a)")
    case True
    then obtain as1 where "flip_action ownership s dir b aid as = Inr as1" "as' = a # as1" using Cons.prems(1) by auto
    with True Cons.IH Cons.prems(2) show ?thesis by simp
  next
    case aid: False
    then obtain w where w: "selected_width ownership a = Inr w"
      using Cons.prems(1) by (auto split: if_splits)
    show ?thesis
    proof (cases "component a = src_component s \<and> port a = src_port s \<and> direction a = dir \<and> bit_offset a \<le> b \<and> b < bit_offset a + w")
      case True
      let ?v = "action_value a XOR 2 ^ nat (b - bit_offset a)"
      obtain a' where a': "make_action (a\<lparr>action_value := ?v\<rparr>) = Inr a'" "as' = a' # as"
        using Cons.prems(1) aid w True by auto
      then have "as' = a\<lparr>action_value := ?v\<rparr> # as"
        using make_action_Inr [OF a'(1)] by simp
      moreover have "make_action a = Inr a" using Cons.prems(2) by simp
      ultimately show ?thesis using aid w True by (auto simp: w xor_twice)
    next
      case False
      then obtain as1 where "flip_action ownership s dir b aid as = Inr as1" "as' = a # as1" using Cons.prems(1) aid w by auto
      with False aid w Cons.IH Cons.prems(2) show ?thesis by auto
    qed
  qed
qed simp

lemma mutate_genome_Inr:
  assumes "mutate_genome g plan gref gr oref ownership b aid target auth = Inr g'"
  obtains s aid' where "map_of (graph_sources gr) (focus_source plan) = Some s" "check_plan (auth \<noteq> None) g plan gr = Inr ()"
    "resolve_target s aid target = Inr aid'" "0 \<le> b" "b < src_width s"
    "src_kind s = ''memory_image'' \<Longrightarrow> \<exists>imgs. flip_image s (src_offset s + b) (initial_images g) = Inr imgs \<and> g' = g\<lparr>initial_images := imgs\<rparr> \<and> genome_checks g'"
    "src_kind s \<noteq> ''memory_image'' \<Longrightarrow> \<exists>as. flip_action ownership s (plan_direction plan) (src_offset s + b) aid' (actions g) = Inr as
       \<and> g' = g\<lparr>actions := as\<rparr> \<and> genome_checks g'
       \<and> (auth = None \<longrightarrow> is_ok (mutation_source ownership (src_component s) (src_port s) (src_offset s) (src_width s) (plan_direction plan)))"
  using assms by (auto simp: mutate_genome_def make_genome_Inr is_ok_iff Let_def split: if_splits option.splits)

lemma check_plan_parts [simp]:
  "check_plan c (g\<lparr>initial_images := x\<rparr>) plan gr = check_plan c g plan gr"
  "check_plan c (g\<lparr>actions := y\<rparr>) plan gr = check_plan c g plan gr"
  by (simp_all add: check_plan_def)

lemma mutate_genome_back:
  assumes ok: "genome_ok g" and m: "mutate_genome g plan gref gr oref ownership b aid target auth = Inr g'"
  shows "mutate_genome g' plan gref gr oref ownership b aid target auth = Inr g"
proof -
  obtain s aid' where s: "map_of (graph_sources gr) (focus_source plan) = Some s" "resolve_target s aid target = Inr aid'"
    and img: "src_kind s = ''memory_image'' \<Longrightarrow> \<exists>imgs. flip_image s (src_offset s + b) (initial_images g) = Inr imgs \<and> g' = g\<lparr>initial_images := imgs\<rparr>"
    and act: "src_kind s \<noteq> ''memory_image'' \<Longrightarrow> \<exists>as. flip_action ownership s (plan_direction plan) (src_offset s + b) aid' (actions g) = Inr as \<and> g' = g\<lparr>actions := as\<rparr>"
    by (rule mutate_genome_Inr [OF m]) blast
  have g: "genome_checks g" using ok by (simp add: genome_ok_def make_genome_Inr)
  show ?thesis
  proof (cases "src_kind s = ''memory_image''")
    case True
    then obtain imgs where i: "flip_image s (src_offset s + b) (initial_images g) = Inr imgs" "g' = g\<lparr>initial_images := imgs\<rparr>" using img by blast
    have "flip_image s (src_offset s + b) imgs = Inr (initial_images g)"
      using flip_image_back [OF i(1)] ok by (auto simp: genome_ok_def image_valid_def)
    then show ?thesis
      using m s True g unfolding i(2) mutate_genome_def by (auto simp: make_genome_Inr Let_def split: if_splits option.splits)
  next
    case False
    then obtain as where a: "flip_action ownership s (plan_direction plan) (src_offset s + b) aid' (actions g) = Inr as" "g' = g\<lparr>actions := as\<rparr>" using act by blast
    have "flip_action ownership s (plan_direction plan) (src_offset s + b) aid' as = Inr (actions g)"
      using flip_action_back [OF a(1)] ok by (auto simp: genome_ok_def)
    then show ?thesis
      using m s False g unfolding a(2) mutate_genome_def by (auto simp: make_genome_Inr Let_def split: if_splits option.splits)
  qed
qed

lemma mutate_genome_ok:
  assumes ok: "genome_ok g" and m: "mutate_genome g plan gref gr oref ownership b aid target auth = Inr g'"
  shows "genome_ok g'"
proof -
  obtain s aid' where chk: "genome_checks g'"
    and img: "src_kind s = ''memory_image'' \<Longrightarrow> \<exists>imgs. flip_image s (src_offset s + b) (initial_images g) = Inr imgs \<and> g' = g\<lparr>initial_images := imgs\<rparr>"
    and act: "src_kind s \<noteq> ''memory_image'' \<Longrightarrow> \<exists>as. flip_action ownership s (plan_direction plan) (src_offset s + b) aid' (actions g) = Inr as \<and> g' = g\<lparr>actions := as\<rparr>"
    by (rule mutate_genome_Inr [OF m]) blast
  show ?thesis
  proof (cases "src_kind s = ''memory_image''")
    case True
    then obtain imgs where i: "flip_image s (src_offset s + b) (initial_images g) = Inr imgs" "g' = g\<lparr>initial_images := imgs\<rparr>" using img by blast
    from flip_image_Inr [OF i(1)] obtain k d where k: "k < length (initial_images g)" "image_valid (imgs ! k)"
        "imgs = (initial_images g)[k := (initial_images g ! k)\<lparr>data_hex := bytes_hex (flip_byte d (src_offset s + b))\<rparr>]" by blast
    have "image_valid x" if "x \<in> set imgs" for x
      using that ok k set_update_subset_insert [of "initial_images g" k] by (fastforce simp: genome_ok_def image_valid_def)
    then show ?thesis using ok chk by (simp add: genome_ok_def make_genome_Inr i(2) image_valid_def)
  next
    case False
    then obtain as where a: "flip_action ownership s (plan_direction plan) (src_offset s + b) aid' (actions g) = Inr as" "g' = g\<lparr>actions := as\<rparr>" using act by blast
    from flip_action_Inr [OF a(1)] obtain k v where k: "k < length (actions g)" "make_action (as ! k) = Inr (as ! k)" "as = (actions g)[k := v]" by blast
    have "make_action x = Inr x" if "x \<in> set as" for x
      using that ok k set_update_subset_insert [of "actions g" k v] by (fastforce simp: genome_ok_def)
    then show ?thesis using ok chk by (simp add: genome_ok_def make_genome_Inr a(2))
  qed
qed

text \<open>What a mutation changes, as a relation between the parts before and after.\<close>

definition image_bit_flipped :: "fuzzable_source \<Rightarrow> int \<Rightarrow> memory_image list \<Rightarrow> memory_image list \<Rightarrow> bool" where
  "image_bit_flipped s b imgs imgs' \<longleftrightarrow> (\<exists>k d d'. k < length imgs \<and> image_id (imgs ! k) = src_port s \<and> image_component (imgs ! k) = src_component s
     \<and> image_data (imgs ! k) = Inr d \<and> length d' = length d \<and> src_offset s + b < 8 * int (length d)
     \<and> (\<forall>i < 8 * length d. data_bit d' i = (data_bit d i \<noteq> (int i = src_offset s + b)))
     \<and> imgs' = imgs[k := (imgs ! k)\<lparr>data_hex := bytes_hex d'\<rparr>])"

definition action_bit_flipped :: "fuzzable_source \<Rightarrow> string \<Rightarrow> int \<Rightarrow> action list \<Rightarrow> action list \<Rightarrow> bool" where
  "action_bit_flipped s dir b as as' \<longleftrightarrow> (\<exists>k v. k < length as \<and> component (as ! k) = src_component s \<and> port (as ! k) = src_port s \<and> direction (as ! k) = dir
     \<and> (\<forall>i. bit v i = (bit (action_value (as ! k)) i \<noteq> (bit_offset (as ! k) + int i = src_offset s + b)))
     \<and> as' = as[k := (as ! k)\<lparr>action_value := v\<rparr>])"

lemma flip_image_bit:
  assumes "flip_image s (src_offset s + b) imgs = Inr imgs'" "0 \<le> b" "b < src_width s" "0 \<le> src_offset s"
  shows "image_bit_flipped s b imgs imgs'"
proof -
  from flip_image_Inr [OF assms(1)] obtain k d where k: "k < length imgs" "image_id (imgs ! k) = src_port s" "image_component (imgs ! k) = src_component s"
      "image_data (imgs ! k) = Inr d" "src_offset s + src_width s \<le> int (length d) * 8"
      "imgs' = imgs[k := (imgs ! k)\<lparr>data_hex := bytes_hex (flip_byte d (src_offset s + b))\<rparr>]" by blast
  have r: "0 \<le> src_offset s + b" "src_offset s + b < 8 * int (length d)" using k(5) assms(2-4) by linarith+
  have "\<forall>i < 8 * length d. data_bit (flip_byte d (src_offset s + b)) i = (data_bit d i \<noteq> (int i = src_offset s + b))"
    using data_bit_flip [OF r] by blast
  with k(1-4,6) r(2) length_flip_byte show ?thesis
    unfolding image_bit_flipped_def by blast
qed

lemma flip_action_bit:
  assumes "flip_action ownership s dir (src_offset s + b) aid as = Inr as'"
  shows "action_bit_flipped s dir b as as'"
proof -
  from flip_action_Inr [OF assms(1)] obtain k where k: "k < length as" "component (as ! k) = src_component s" "port (as ! k) = src_port s"
      "direction (as ! k) = dir" "bit_offset (as ! k) \<le> src_offset s + b"
      "as' = as[k := (as ! k)\<lparr>action_value := action_value (as ! k) XOR 2 ^ nat (src_offset s + b - bit_offset (as ! k))\<rparr>]" by blast
  have "\<forall>i. bit (action_value (as ! k) XOR 2 ^ nat (src_offset s + b - bit_offset (as ! k))) i
      = (bit (action_value (as ! k)) i \<noteq> (bit_offset (as ! k) + int i = src_offset s + b))"
    using k(5) by (auto simp: bit_xor_iff bit_exp_iff)
  with k(1-4,6) show ?thesis
    unfolding action_bit_flipped_def by blast
qed

text \<open>A mutation never leaves the type of genomes: from a genome whose parts have passed their constructors every
  accepted mutation gives such a genome again, so no constructor can reject the mutated parts later.\<close>

theorem mutate_wellformed:
  assumes "genome_ok g" and "mutate_genome g plan gref gr oref ownership b aid target auth = Inr g'"
  shows "genome_ok g'"
  using mutate_genome_ok [OF assms] .

text \<open>C20: Mutation is an involution: the same mutation applied to the mutated genome selects the same part again and restores
  the original genome, for every plan, bit, action, target and authorization.\<close>

theorem mutate_involution:
  assumes "genome_ok g" and "mutate_genome g plan gref gr oref ownership b aid target auth = Inr g'"
  shows "mutate_genome g' plan gref gr oref ownership b aid target auth = Inr g"
  using mutate_genome_back [OF assms] .

text \<open>C19: A mutation flips exactly one bit of the selected source. The source is the focus of the plan and lies on its path, the
  bit lies in the source, and the result differs from the genome in one bit of one memory image or of one action value at that
  position, everything else being equal; for an input source all bits of the source are fuzzable bits of one producer.\<close>

theorem mutate_one_bit:
  assumes "mutate_genome g plan gref gr oref ownership b aid target auth = Inr g'"
    and "\<forall>ks \<in> set (graph_sources gr). make_fuzzable_source (snd ks) = Inr (snd ks)"
  shows "\<exists>s. map_of (graph_sources gr) (focus_source plan) = Some s \<and> focus_source plan \<in> set (source_ids (plan_path plan))
    \<and> plan_direction plan = genome_direction g \<and> 0 \<le> b \<and> b < src_width s
    \<and> (if src_kind s = ''memory_image''
       then \<exists>imgs. image_bit_flipped s b (initial_images g) imgs \<and> g' = g\<lparr>initial_images := imgs\<rparr>
       else (auth = None \<longrightarrow> is_ok (mutation_source ownership (src_component s) (src_port s) (src_offset s) (src_width s) (plan_direction plan)))
         \<and> (\<exists>as. action_bit_flipped s (plan_direction plan) b (actions g) as \<and> g' = g\<lparr>actions := as\<rparr>))"
proof (rule mutate_genome_Inr [OF assms(1)], goal_cases)
  case (1 s aid')
  have plan: "focus_source plan \<in> set (source_ids (plan_path plan))" "plan_direction plan = genome_direction g"
    using 1(2) by (auto simp: check_plan_def Let_def split: if_splits)
  have off: "0 \<le> src_offset s"
    using assms(2) map_of_SomeD [OF 1(1)] by (fastforce simp: make_fuzzable_source_def split: if_splits)
  show ?case
  proof (cases "src_kind s = ''memory_image''")
    case True
    have "\<exists>imgs. image_bit_flipped s b (initial_images g) imgs \<and> g' = g\<lparr>initial_images := imgs\<rparr>"
      using 1(6) [OF True] flip_image_bit [OF _ 1(4,5) off] by blast
    with True show ?thesis using 1(1,4,5) plan by (intro exI [of _ s]) (simp only: if_True simp_thms)
  next
    case False
    have "\<exists>as. action_bit_flipped s (plan_direction plan) b (actions g) as \<and> g' = g\<lparr>actions := as\<rparr>"
      using 1(7) [OF False] flip_action_bit by blast
    with False show ?thesis using 1(1,4,5) 1(7) [OF False] plan by (intro exI [of _ s]) (simp only: if_False simp_thms, blast)
  qed
qed

section \<open>Chosen plans can be carried out\<close>

lemma py_min_least:
  assumes "py_min f xs = Inr x"
  shows "x \<in> set xs \<and> (\<forall>y \<in> set xs. f x \<le> f y)"
proof -
  have "foldl (\<lambda>b y. if f y < f b then y else b) z ys \<in> insert z (set ys) \<and> (\<forall>y \<in> insert z (set ys). f (foldl (\<lambda>b y. if f y < f b then y else b) z ys) \<le> f y)" for z ys
  proof (induction ys arbitrary: z)
    case (Cons y ys)
    show ?case using Cons [of "if f y < f z then y else z"] by (auto split: if_splits)
  qed simp
  from this [of "hd xs" "tl xs"] assms show ?thesis by (cases xs) auto
qed

lemma choose_mutation_Inr:
  assumes "choose_mutation g tw dir sw = Inr plan"
  obtains w ps where "(plan_target plan, w) \<in> set tw" "default_paths g (plan_target plan) dir = Inr ps" "plan_path plan \<in> set ps"
    "plan_direction plan = dir" "path_target (plan_path plan) = plan_target plan" "focus_source plan \<in> set (source_ids (plan_path plan))"
    "\<And>t w' ps'. (t, w') \<in> set tw \<Longrightarrow> default_paths g t dir = Inr ps' \<Longrightarrow> ps' \<noteq> [] \<Longrightarrow> w' \<le> w"
    "\<And>x. x \<in> set (source_ids (plan_path plan)) \<Longrightarrow> dict_get (case sw of None \<Rightarrow> [] | Some d \<Rightarrow> d) x 0 \<le> dict_get (case sw of None \<Rightarrow> [] | Some d \<Rightarrow> d) (focus_source plan) 0"
proof -
  let ?ws = "case sw of None \<Rightarrow> [] | Some d \<Rightarrow> d"
  obtain cs w p f where cs: "map_res (target_candidates g dir) tw = Inr cs"
      and p: "py_min (\<lambda>(w, p). (- w, length (source_ids p), path_target p, source_ids p)) (concat cs) = Inr (w, p)"
      and f: "py_min (\<lambda>s. (- dict_get ?ws s 0, s)) (source_ids p) = Inr f"
      and plan: "plan = \<lparr>plan_direction = dir, plan_target = path_target p, plan_path = p, focus_source = f\<rparr>"
    using assms by (auto simp: choose_mutation_def Let_def split: if_splits)
  have la: "list_all2 (\<lambda>x y. target_candidates g dir x = Inr y) tw cs"
    using cs by (simp add: map_res_Inr_iff)
  have "(w, p) \<in> set (concat cs)" using py_min_least [OF p] by blast
  then obtain xs where "xs \<in> set cs" "(w, p) \<in> set xs" by auto
  then obtain i where i: "i < length cs" "(w, p) \<in> set (cs ! i)" by (metis in_set_conv_nth)
  obtain t w1 where tw: "tw ! i = (t, w1)" by (cases "tw ! i")
  have il: "i < length tw" "target_candidates g dir (tw ! i) = Inr (cs ! i)"
    using la i(1) by (auto simp: list_all2_conv_all_nth)
  then obtain ps where ps: "default_paths g t dir = Inr ps" "cs ! i = map (\<lambda>p. (w1, p)) ps"
    by (auto simp: target_candidates_def tw split: if_splits)
  then have wp: "w1 = w" "p \<in> set ps" using i(2) by auto
  have pt: "path_target p = t"
    using ps(1) wp(2) by (auto simp: default_paths_def paths_to_def Let_def split: if_splits)
  have best: "w' \<le> w" if "(t', w') \<in> set tw" "default_paths g t' dir = Inr ps'" "ps' \<noteq> []" for t' w' ps'
  proof -
    obtain j where j: "j < length tw" "tw ! j = (t', w')" using \<open>(t', w') \<in> set tw\<close> by (metis in_set_conv_nth)
    then have "target_candidates g dir (t', w') = Inr (cs ! j)" "j < length cs"
      using la by (auto simp: list_all2_conv_all_nth)
    then have "cs ! j = map (\<lambda>p. (w', p)) ps'" "cs ! j \<in> set cs"
      using that(2) by (auto simp: target_candidates_def split: if_splits)
    then have "(w', hd ps') \<in> set (concat cs)"
      using that(3) by (auto intro!: bexI [of _ "cs ! j"])
    then have "(- w, length (source_ids p), path_target p, source_ids p) \<le> (- w', length (source_ids (hd ps')), path_target (hd ps'), source_ids (hd ps'))"
      using py_min_least [OF p] by fastforce
    then show ?thesis by (auto simp: less_eq_prod_def split: if_splits)
  qed
  have fl: "f \<in> set (source_ids p)" "\<And>x. x \<in> set (source_ids p) \<Longrightarrow> dict_get ?ws x 0 \<le> dict_get ?ws f 0"
    using py_min_least [OF f] by (auto simp: less_eq_prod_def)
  have "(plan_target plan, w) \<in> set tw" using tw il(1) nth_mem [of i tw] by (simp add: plan pt wp(1))
  then show thesis
    using that [of w ps] ps(1) wp(2) fl best by (simp add: plan pt)
qed


subsection \<open>Validated bindings own each bit once\<close>

abbreviation source_key :: "string \<times> fuzzable_source \<Rightarrow> string \<times> string \<times> string" where
  "source_key ks \<equiv> (src_kind (snd ks), src_component (snd ks), src_port (snd ks))"

abbreviation source_range :: "string \<times> fuzzable_source \<Rightarrow> int \<times> int" where
  "source_range ks \<equiv> (src_offset (snd ks), src_offset (snd ks) + src_width (snd ks))"

definition apart :: "string \<times> fuzzable_source \<Rightarrow> string \<times> fuzzable_source \<Rightarrow> bool" where
  "apart x y \<longleftrightarrow> source_key x = source_key y \<longrightarrow> \<not> (fst (source_range y) < snd (source_range x) \<and> fst (source_range x) < snd (source_range y))"

lemma dict_push_lookup: "dict_get (dict_push d k v) k' [] = (if k' = k then dict_get d k [] @ [v] else dict_get d k' [])"
  by (simp add: dict_push_def dict_get_set)

lemma bind_source_Inr:
  assumes "bind_source entries ownership genomes image_genomes occ (sid, s) = Inr occupied"
  shows "(\<exists>b. binding_agrees b s \<and> check_binding_owner ownership genomes image_genomes sid s b = Inr ()) \<and> src_width s \<le> 8192
    \<and> (\<forall>iv \<in> set (dict_get occ (source_key (sid, s)) []). \<not> (fst (source_range (sid, s)) < snd iv \<and> fst iv < snd (source_range (sid, s))))
    \<and> occupied = dict_push occ (source_key (sid, s)) (source_range (sid, s))"
  using assms by (auto simp: bind_source_def Let_def split: option.splits if_splits)

lemma sorted_wrt_clique:
  assumes "sorted_wrt R xs" "\<forall>x \<in> set xs. \<forall>y \<in> set xs. \<not> R x y"
  shows "length xs \<le> 1"
proof (rule ccontr)
  assume "\<not> length xs \<le> 1"
  then have "0 < length xs" "1 < length xs" by auto
  with assms show False by (metis nth_mem sorted_wrt_iff_nth_less zero_less_one)
qed

lemma bind_sources:
  assumes "fold_res (bind_source entries ownership genomes image_genomes) [] ks = Inr occupied"
  shows "(\<forall>k. set (dict_get occupied k []) = source_range ` {x \<in> set ks. source_key x = k}) \<and> sorted_wrt apart ks
    \<and> (\<forall>(sid, s) \<in> set ks. src_width s \<le> 8192 \<and> (\<exists>b. binding_agrees b s \<and> check_binding_owner ownership genomes image_genomes sid s b = Inr ()))"
  using assms
proof (induction ks arbitrary: occupied rule: rev_induct)
  case Nil
  then show ?case by (auto simp: dict_get_def)
next
  case (snoc x ks)
  obtain sid s where x: "x = (sid, s)" by (cases x)
  obtain occ b where o1: "fold_res (bind_source entries ownership genomes image_genomes) [] ks = Inr occ"
      and b: "binding_agrees b s" "check_binding_owner ownership genomes image_genomes sid s b = Inr ()" "src_width s \<le> 8192"
      and fr: "\<forall>iv \<in> set (dict_get occ (source_key x) []). \<not> (fst (source_range x) < snd iv \<and> fst iv < snd (source_range x))"
      and occ: "occupied = dict_push occ (source_key x) (source_range x)"
  proof -
    obtain occ where o1: "fold_res (bind_source entries ownership genomes image_genomes) [] ks = Inr occ"
        "bind_source entries ownership genomes image_genomes occ (sid, s) = Inr occupied"
      using snoc.prems by (auto simp: fold_res_append x)
    from bind_source_Inr [OF o1(2)] obtain b where "binding_agrees b s" "check_binding_owner ownership genomes image_genomes sid s b = Inr ()" by blast
    with bind_source_Inr [OF o1(2)] show thesis
      by (intro that [OF o1(1), unfolded x]) blast+
  qed
  note ih = snoc.IH [OF o1]
  have "\<forall>y \<in> set ks. apart y x"
    using fr ih unfolding apart_def by fastforce
  moreover have "\<forall>k. set (dict_get occupied k []) = source_range ` {y \<in> set (ks @ [x]). source_key y = k}"
    using ih unfolding occ dict_push_lookup by auto
  ultimately show ?case
    using ih b by (auto simp: sorted_wrt_append x)
qed

lemma bit_owned_once:
  assumes "sorted_wrt apart (graph_sources g)" "(sid, s) \<in> set (graph_sources g)" "covers_bit s b s"
  shows "bit_owners g s b = 1"
proof -
  let ?f = "filter (\<lambda>ks. covers_bit s b (snd ks)) (graph_sources g)"
  have "sorted_wrt apart ?f" using assms(1) by (rule sorted_wrt_filter)
  moreover have "\<not> apart x y" if "x \<in> set ?f" "y \<in> set ?f" for x y
    using that by (auto simp: covers_bit_def apart_def)
  moreover have "(sid, s) \<in> set ?f" using assms(2,3) by simp
  ultimately have "length ?f \<le> 1" "0 < length ?f"
    using sorted_wrt_clique [of apart ?f] by (blast, metis length_pos_if_in_set)
  then show ?thesis unfolding bit_owners_def by linarith
qed

lemma flip_action_ok:
  assumes "\<forall>a \<in> set as. is_ok (selected_width ownership a) \<and> make_action a = Inr a"
    and "\<exists>a \<in> set as. component a = src_component s \<and> port a = src_port s \<and> direction a = dir \<and> bit_offset a \<le> b
      \<and> (\<exists>w. selected_width ownership a = Inr w \<and> b < bit_offset a + w)"
  shows "\<exists>as'. flip_action ownership s dir b None as = Inr as'"
  using assms
proof (induction as)
  case (Cons a as)
  have v: "make_action (a\<lparr>action_value := action_value a XOR 2 ^ n\<rparr>) = Inr (a\<lparr>action_value := action_value a XOR 2 ^ n\<rparr>)" for n
    using Cons.prems(1) by (auto simp: make_action_def natural_def check_def split: if_splits option.splits)
  obtain w where w: "selected_width ownership a = Inr w" using Cons.prems(1) by (auto simp: is_ok_iff)
  show ?case
  proof (cases "component a = src_component s \<and> port a = src_port s \<and> direction a = dir \<and> bit_offset a \<le> b \<and> b < bit_offset a + w")
    case True
    then show ?thesis by (simp add: w v)
  next
    case False
    then have "\<exists>as'. flip_action ownership s dir b None as = Inr as'"
      using Cons w by auto
    with False show ?thesis by (auto simp: w)
  qed
qed simp

lemma flip_image_ok:
  assumes "\<forall>img \<in> set imgs. image_valid img"
    and "\<forall>img \<in> set imgs. image_id img = src_port s \<longrightarrow> image_component img = src_component s
      \<longrightarrow> (\<exists>d. image_data img = Inr d \<and> d \<noteq> [] \<and> src_offset s + src_width s \<le> int (length d) * 8)"
    and "\<exists>img \<in> set imgs. image_id img = src_port s \<and> image_component img = src_component s"
  shows "\<exists>imgs'. flip_image s b imgs = Inr imgs'"
  using assms
proof (induction imgs)
  case (Cons img imgs)
  show ?case
  proof (cases "image_id img \<noteq> src_port s \<or> image_component img \<noteq> src_component s")
    case True
    with Cons show ?thesis by auto
  next
    case False
    then obtain d where d: "image_data img = Inr d" "d \<noteq> []" "src_offset s + src_width s \<le> int (length d) * 8" using Cons.prems(2) by auto
    have "bytes_hex (flip_byte d b) \<noteq> []"
      using d(2) by (metis length_0_conv length_bytes_hex length_flip_byte mult_eq_0_iff zero_neq_numeral)
    then have "image_valid (img\<lparr>data_hex := bytes_hex (flip_byte d b)\<rparr>)"
      using Cons.prems(1) by (intro image_valid_bytes) auto
    with False d show ?thesis by (simp add: image_valid_def)
  qed
qed simp

lemma bound_image_flips:
  assumes "check_bound_image s bd g = Inr ()" "\<forall>img \<in> set (initial_images g). image_valid img" "0 \<le> src_offset s" "0 < src_width s"
  shows "\<exists>imgs. flip_image s b (initial_images g) = Inr imgs"
proof -
  obtain img d where img: "filter (\<lambda>img. image_component img = src_component s \<and> image_id img = src_port s) (initial_images g) = [img]"
      "image_data img = Inr d" "src_offset s + src_width s \<le> int (length d) * 8"
    using assms(1) by (auto simp: check_bound_image_def split: list.splits if_splits)
  have "{x \<in> set (initial_images g). image_component x = src_component s \<and> image_id x = src_port s} = {img}"
    using arg_cong [OF img(1), of set] by simp
  then have m: "x \<in> set (initial_images g) \<and> image_component x = src_component s \<and> image_id x = src_port s \<longleftrightarrow> x = img" for x
    by blast
  have d: "d \<noteq> []" using img(3) assms(3,4) by auto
  show ?thesis
  proof (rule flip_image_ok [OF assms(2)])
    show "\<exists>x \<in> set (initial_images g). image_id x = src_port s \<and> image_component x = src_component s"
      using m [of img] by blast
    show "\<forall>x \<in> set (initial_images g). image_id x = src_port s \<longrightarrow> image_component x = src_component s
        \<longrightarrow> (\<exists>d. image_data x = Inr d \<and> d \<noteq> [] \<and> src_offset s + src_width s \<le> int (length d) * 8)"
      using m img(2,3) d by metis
  qed
qed

lemma mutation_source_direction:
  "dir \<in> set mutation_directions \<Longrightarrow> is_ok (mutation_source m c p off w dir') \<Longrightarrow> is_ok (mutation_source m c p off w dir)"
  by (auto simp: mutation_source_def split: if_splits)

lemma check_chosen_plan:
  assumes "choose_mutation gr tw dir sw = Inr plan" "genome_direction g = dir"
  shows "check_plan False g plan gr = Inr ()"
proof (rule choose_mutation_Inr [OF assms(1)])
  fix w ps
  assume p: "default_paths gr (plan_target plan) dir = Inr ps" "plan_path plan \<in> set ps" "plan_direction plan = dir"
    "path_target (plan_path plan) = plan_target plan" "focus_source plan \<in> set (source_ids (plan_path plan))"
  have "path_edges (plan_path plan) = []"
    using p(1,2) by (auto simp: default_paths_def paths_to_def Let_def split: if_splits)
  with p assms(2) show ?thesis by (simp add: check_plan_def Let_def)
qed

lemma check_action_order_value [simp]: "check_action_order order (a\<lparr>action_value := v\<rparr>) = check_action_order order a"
  by (simp add: check_action_order_def)

lemma flipped_checks:
  assumes "genome_checks g" "flip_action ownership s dir b aid (actions g) = Inr as"
  shows "genome_checks (g\<lparr>actions := as\<rparr>)"
proof -
  obtain k v where k: "k < length (actions g)" "as = (actions g)[k := (actions g ! k)\<lparr>action_value := v\<rparr>]"
    using flip_action_Inr [OF assms(2)] by blast
  have "map action_id as = map action_id (actions g)"
    using k by (simp add: map_update list_update_same_conv)
  moreover have "check_action_order (schedule_order g) a = Inr ()" if "a \<in> set as" for a
  proof -
    have c: "\<forall>a \<in> set (actions g). check_action_order (schedule_order g) a = Inr ()" using assms(1) by (simp add: genome_checks_def)
    then have "check_action_order (schedule_order g) ((actions g ! k)\<lparr>action_value := v\<rparr>) = Inr ()"
      using nth_mem [OF k(1)] by simp
    with c that k(2) show ?thesis by (metis set_update_subset_insert insertE subsetD)
  qed
  ultimately show ?thesis using genome_checks_actions [OF assms(1)] by blast
qed

lemma flipped_image_checks:
  assumes "genome_checks g" "flip_image s b (initial_images g) = Inr imgs"
  shows "genome_checks (g\<lparr>initial_images := imgs\<rparr>)"
proof -
  obtain k h where k: "k < length (initial_images g)" "imgs = (initial_images g)[k := (initial_images g ! k)\<lparr>data_hex := h\<rparr>]"
    using flip_image_Inr [OF assms(2)] by blast
  have "map image_id imgs = map image_id (initial_images g)"
    using k by (simp add: map_update list_update_same_conv)
  moreover have "image_component img \<in> set (schedule_order g)" if "img \<in> set imgs" for img
  proof -
    have c: "\<forall>img \<in> set (initial_images g). image_component img \<in> set (schedule_order g)" using assms(1) by (simp add: genome_checks_def)
    then have "image_component ((initial_images g ! k)\<lparr>data_hex := h\<rparr>) \<in> set (schedule_order g)"
      using k(1) nth_mem by fastforce
    with c that k(2) show ?thesis by (metis set_update_subset_insert insertE subsetD)
  qed
  ultimately show ?thesis using genome_checks_images [OF assms(1)] by blast
qed

text \<open>When every check of a mutation holds, it is carried out.\<close>

lemma mutate_genome_succeeds:
  assumes g: "genome_ok g" and chk: "check_plan False g plan gr = Inr ()"
    and s: "map_of (graph_sources gr) (focus_source plan) = Some s" "0 \<le> b" "b < src_width s" "0 \<le> src_offset s"
    and one: "bit_owners gr s (src_offset s + b) = 1"
    and tgt: "\<forall>t. target = Some t \<longrightarrow> target_kind t \<notin> set RUNTIME_TARGET_KINDS" "resolve_target s aid target = Inr aid'"
    and img: "src_kind s = ''memory_image'' \<Longrightarrow> \<exists>bd. check_bound_image s bd g = Inr ()"
    and act: "src_kind s \<noteq> ''memory_image'' \<Longrightarrow> is_ok (mutation_source ownership (src_component s) (src_port s) (src_offset s) (src_width s) (plan_direction plan))
      \<and> (\<exists>as. flip_action ownership s (plan_direction plan) (src_offset s + b) aid' (actions g) = Inr as)"
  shows "\<exists>g'. mutate_genome g plan gref gr oref ownership b aid target None = Inr g'"
proof -
  have gc: "genome_checks g" and valid: "\<forall>img \<in> set (initial_images g). image_valid img"
    using g by (auto simp: genome_ok_def make_genome_Inr image_valid_def)
  have rt: "\<not> (case target of None \<Rightarrow> False | Some t \<Rightarrow> target_kind t \<in> set RUNTIME_TARGET_KINDS)"
    using tgt(1) by (auto split: option.splits)
  show ?thesis
  proof (cases "src_kind s = ''memory_image''")
    case True
    obtain imgs where "flip_image s (src_offset s + b) (initial_images g) = Inr imgs"
      using img [OF True] bound_image_flips [OF _ valid s(4)] s(2,3) by (metis le_less_trans)
    with flipped_image_checks [OF gc] s one chk True tgt(2) rt show ?thesis
      by (auto simp: mutate_genome_def make_genome_Inr)
  next
    case False
    with act flipped_checks [OF gc] s one chk tgt(2) rt show ?thesis
      by (auto simp: mutate_genome_def make_genome_Inr is_ok_iff)
  qed
qed

text \<open>A chosen plan can always be carried out. When the trusted bindings of the graph have been validated for the genome, every
  bit of the focus source of a chosen plan can be mutated, if the genome has the bound image or an action that covers the bit: no check of \<open>mutate_genome\<close>
  (plan, target, bit ownership, ownership map, constructors) refuses it.\<close>

theorem chosen_plan_mutates:
  assumes bindings: "validate_bindings bs gr ownership genomes None = Inr ()"
    and sources: "\<forall>ks \<in> set (graph_sources gr). make_fuzzable_source (snd ks) = Inr (snd ks)"
    and plan: "choose_mutation gr tw dir sw = Inr plan"
    and g: "g \<in> set genomes" "genome_ok g" "genome_direction g = dir"
    and s: "map_of (graph_sources gr) (focus_source plan) = Some s" "0 \<le> b" "b < src_width s"
    and acts: "src_kind s = ''source'' \<Longrightarrow> (\<forall>a \<in> set (actions g). is_ok (selected_width ownership a)) \<and> (\<exists>a \<in> set (actions g). component a = src_component s \<and> port a = src_port s
      \<and> direction a = dir \<and> bit_offset a \<le> src_offset s + b \<and> (\<exists>w. selected_width ownership a = Inr w \<and> src_offset s + b < bit_offset a + w))"
  shows "\<exists>g'. mutate_genome g plan gref gr oref ownership b None None None = Inr g'"
proof -
  have mem: "(focus_source plan, s) \<in> set (graph_sources gr)" by (rule map_of_SomeD [OF s(1)])
  have sv: "src_kind s = ''source'' \<or> src_kind s = ''memory_image''" "0 \<le> src_offset s"
    using sources mem by (fastforce simp: make_fuzzable_source_def split: if_splits)+
  obtain entries occ where "fold_res (bind_source entries ownership genomes None) [] (graph_sources gr) = Inr occ"
    using bindings by (auto simp: validate_bindings_def Let_def split: if_splits)
  note bind = bind_sources [OF this]
  obtain bd where own: "check_binding_owner ownership genomes None (focus_source plan) s bd = Inr ()" using bind mem by blast
  have "covers_bit s (src_offset s + b) s" using s(2,3) by (simp add: covers_bit_def)
  then have one: "bit_owners gr s (src_offset s + b) = 1" using bit_owned_once [OF _ mem] bind by blast
  have chk: "check_plan False g plan gr = Inr ()" by (rule check_chosen_plan [OF plan g(3)])
  have dir: "plan_direction plan = dir" "dir \<in> set mutation_directions"
    by (rule choose_mutation_Inr [OF plan], assumption)
      (rule choose_mutation_Inr [OF plan], auto simp: default_paths_def paths_to_def DIRECTIONS_def mutation_directions_def split: if_splits)
  have img: "check_bound_image s bd g = Inr ()" if "src_kind s = ''memory_image''"
    using own that g(1) by (auto simp: check_binding_owner_def Let_def split: if_splits)
  have act: "is_ok (mutation_source ownership (src_component s) (src_port s) (src_offset s) (src_width s) (plan_direction plan))
      \<and> (\<exists>as. flip_action ownership s (plan_direction plan) (src_offset s + b) None (actions g) = Inr as)" if "src_kind s \<noteq> ''memory_image''"
  proof
    have src: "src_kind s = ''source''" using sv(1) that by blast
    show "is_ok (mutation_source ownership (src_component s) (src_port s) (src_offset s) (src_width s) (plan_direction plan))"
      using own src dir mutation_source_direction [of dir ownership "src_component s" "src_port s" "src_offset s" "src_width s" "hd (src_directions s)"]
      by (auto simp: check_binding_owner_def)
    show "\<exists>as. flip_action ownership s (plan_direction plan) (src_offset s + b) None (actions g) = Inr as"
      using acts [OF src] g(2) by (intro flip_action_ok) (auto simp: genome_ok_def dir(1))
  qed
  show ?thesis
    by (rule mutate_genome_succeeds [OF g(2) chk s sv(2) one _ _ _ act]) (auto simp: resolve_target_def intro: img)
qed

section \<open>A concrete mutation\<close>

definition example_field :: "string \<Rightarrow> input_field" where
  "example_field p = \<lparr>field_component = ''cpu'', field_port = p, field_bits = 8\<rparr>"

definition example_input :: "string \<Rightarrow> input_owner" where
  "example_input p = \<lparr>owner_component = ''cpu'', owner_port = p, owner_offset = 0, owner_width = 8, owner_kind = ''source'', producer_ref = p\<rparr>"

definition example_map :: ownership_map where
  "example_map = (case compile_ownership [example_field ''s1'', example_field ''s2''] [example_input ''s1'', example_input ''s2''] of Inr m \<Rightarrow> m)"

definition example_binding :: "string \<Rightarrow> source_binding" where
  "example_binding p = \<lparr>bind_id = p, bind_kind = ''source'', bind_component = ''cpu'', bind_port = p, bind_offset = 0, bind_width = 8,
     owner_ref = p, bind_address = None\<rparr>"

definition example_action :: action where
  "example_action = \<lparr>action_id = ''a1'', component = ''cpu'', port = ''s1'', action_value = 5, direction = ''CPU_TO_IP'',
     trig = \<lparr>kind = ''START'', source_component = [], source_port = [], trigger_mask = 0, trigger_value = 0, occurrence = 1\<rparr>,
     delay_component = [], delay_ticks = 0, bit_offset = 0, action_width = None\<rparr>"

definition example_genome :: scenario_genome where
  "example_genome = \<lparr>testcase = ''case'', genome_direction = ''CPU_TO_IP'', path_id = ''path'', schedule_order = [''cpu''], max_steps = 10,
     actions = [example_action], initial_images = [], encoding_version = 2, reset_actions = [], quiesce_steps = 0\<rparr>"

definition example_plan :: mutation_plan where
  "example_plan = (case choose_mutation example_graph [(''t'', 1)] ''CPU_TO_IP'' None of Inr p \<Rightarrow> p)"

lemma example_genome_ok: "genome_ok example_genome"
  by code_simp

lemma example_mutation:
  "mutate_genome example_genome example_plan 0 example_graph 0 example_map 1 None None None
   = Inr (example_genome\<lparr>actions := [example_action\<lparr>action_value := 7\<rparr>]\<rparr>)"
  by code_simp

lemma example_sources: "\<forall>ks \<in> set (graph_sources example_graph). make_fuzzable_source (snd ks) = Inr (snd ks)"
  by code_simp

lemma example_chosen: "choose_mutation example_graph [(''t'', 1)] ''CPU_TO_IP'' None = Inr example_plan"
  by code_simp

lemma example_validated: "validate_bindings [example_binding ''s1'', example_binding ''s2''] example_graph example_map [example_genome] None = Inr ()"
  by code_simp

theorem mutate_wellformed_witness: "genome_ok (example_genome\<lparr>actions := [example_action\<lparr>action_value := 7\<rparr>]\<rparr>)"
  using mutate_wellformed [OF example_genome_ok example_mutation] .

theorem mutate_involution_witness:
  "mutate_genome (example_genome\<lparr>actions := [example_action\<lparr>action_value := 7\<rparr>]\<rparr>) example_plan 0 example_graph 0 example_map 1 None None None
   = Inr example_genome"
  using mutate_involution [OF example_genome_ok example_mutation] .

theorem mutate_one_bit_witness:
  "mutate_genome example_genome example_plan 0 example_graph 0 example_map 1 None None None = Inr (example_genome\<lparr>actions := [example_action\<lparr>action_value := 7\<rparr>]\<rparr>)
   \<and> (\<exists>s. map_of (graph_sources example_graph) (focus_source example_plan) = Some s \<and> focus_source example_plan \<in> set (source_ids (plan_path example_plan)) \<and> 1 < src_width s)"
  using example_mutation mutate_one_bit [OF example_mutation example_sources] by blast

theorem chosen_plan_mutates_witness: "\<exists>g'. mutate_genome example_genome example_plan 0 example_graph 0 example_map 3 None None None = Inr g'"
proof -
  have s: "map_of (graph_sources example_graph) (focus_source example_plan) = Some (example_source ''s1'')" by code_simp
  have b: "(0::int) \<le> 3" "3 < src_width (example_source ''s1'')" by (simp_all add: example_source_def)
  have w: "selected_width example_map example_action = Inr 8" by code_simp
  have a: "component example_action = src_component (example_source ''s1'') \<and> port example_action = src_port (example_source ''s1'') \<and> direction example_action = ''CPU_TO_IP''
      \<and> bit_offset example_action \<le> src_offset (example_source ''s1'') + 3 \<and> src_offset (example_source ''s1'') + 3 < bit_offset example_action + 8" by code_simp
  have g: "actions example_genome = [example_action]" "genome_direction example_genome = ''CPU_TO_IP''" by (simp_all add: example_genome_def)
  show ?thesis
    by (rule chosen_plan_mutates [OF example_validated example_sources example_chosen _ example_genome_ok g(2) s b]) (use w a in \<open>simp_all add: g(1)\<close>)
qed

end
