(* ===== verification/Dependency_Proofs.thy ===== *)
theory Dependency_Proofs
  imports Dependency
begin

text \<open>
  What the proof graphs of \<open>scenario/dependency.py\<close> are: \<open>path_identity\<close> accepts exactly the
  selections of edges that ground their target in sources, and \<open>edge_paths_to\<close> returns only such.
\<close>

section \<open>What authentication accepts\<close>

text \<open>An edge of the graph is one prerequisite of one rule. A selection of edges resolves every target by one rule.\<close>

definition graph_edge :: "dependency_graph \<Rightarrow> dependency_edge \<Rightarrow> bool" where
  "graph_edge g e \<longleftrightarrow> (\<exists>i j. i < length (ordered_rules g) \<and> j < length (prerequisites (ordered_rules g ! i))
     \<and> e = edge_of i (ordered_rules g ! i) j (prerequisites (ordered_rules g ! i) ! j))"

definition selection :: "dependency_graph \<Rightarrow> dependency_edge set \<Rightarrow> bool" where
  "selection g E \<longleftrightarrow> (\<forall>e \<in> E. graph_edge g e) \<and> (\<forall>e \<in> E. \<forall>e' \<in> E. edge_target e = edge_target e' \<longrightarrow> rule_index e = rule_index e')"

text \<open>A node is expanded by a rule whose edges are all selected; it is grounded when its expansion ends in
  sources of the direction; it is reached when a chain of selected edges leads to it.\<close>

definition expanded_by :: "dependency_graph \<Rightarrow> dependency_edge set \<Rightarrow> string \<Rightarrow> nat \<Rightarrow> bool" where
  "expanded_by g E v i \<longleftrightarrow> \<not> is_source g v \<and> i < length (ordered_rules g) \<and> rule_target (ordered_rules g ! i) = v
     \<and> prerequisites (ordered_rules g ! i) \<noteq> []
     \<and> (\<forall>j < length (prerequisites (ordered_rules g ! i)). edge_of i (ordered_rules g ! i) j (prerequisites (ordered_rules g ! i) ! j) \<in> E)"

inductive grounded :: "dependency_graph \<Rightarrow> string \<Rightarrow> dependency_edge set \<Rightarrow> string \<Rightarrow> bool" for g dir E where
  source: "source_admits g dir v \<Longrightarrow> grounded g dir E v"
| rule: "expanded_by g E v i \<Longrightarrow> \<forall>c \<in> set (prerequisites (ordered_rules g ! i)). grounded g dir E c \<Longrightarrow> grounded g dir E v"

inductive reached :: "dependency_edge set \<Rightarrow> string \<Rightarrow> string \<Rightarrow> bool" for E t where
  start: "reached E t t"
| edge: "reached E t v \<Longrightarrow> e \<in> E \<Longrightarrow> edge_target e = v \<Longrightarrow> reached E t (prerequisite e)"

definition proof_path :: "dependency_graph \<Rightarrow> string \<Rightarrow> dependency_path \<Rightarrow> bool" where
  "proof_path g dir p \<longleftrightarrow>
     path_target p \<noteq> [] \<and> dir \<in> set DIRECTIONS \<and> source_ids p \<noteq> [] \<and> [] \<notin> set (source_ids p)
     \<and> sorted (source_ids p) \<and> distinct (source_ids p)
     \<and> distinct (path_edges p) \<and> sorted (map edge_key (path_edges p))
     \<and> selection g (set (path_edges p)) \<and> grounded g dir (set (path_edges p)) (path_target p)
     \<and> (\<forall>e \<in> set (path_edges p). reached (set (path_edges p)) (path_target p) (edge_target e) \<and> \<not> is_source g (edge_target e))
     \<and> set (source_ids p) = {v. reached (set (path_edges p)) (path_target p) v \<and> is_source g v}"

abbreviation child_rel :: "dependency_edge set \<Rightarrow> (string \<times> string) set" where
  "child_rel E \<equiv> (\<lambda>e. (prerequisite e, edge_target e)) ` E"

lemma edge_of_simps [simp]:
  "rule_index (edge_of i r j c) = int i" "prerequisite_index (edge_of i r j c) = int j" "prerequisite (edge_of i r j c) = c"
  "edge_target (edge_of i r j c) = rule_target r" "edge_kind (edge_of i r j c) = rule_kind r"
  by (simp_all add: edge_of_def)

lemma graph_edge_key: "graph_edge g e \<Longrightarrow> graph_edge g e' \<Longrightarrow> edge_key e = edge_key e' \<Longrightarrow> e = e'"
  by (auto simp: graph_edge_def edge_key_def)

text \<open>The edges of an expanded node are exactly those of its rule.\<close>

lemma expanded_edge:
  assumes "selection g E" "expanded_by g E v i" "e \<in> E" "edge_target e = v"
  shows "\<exists>j < length (prerequisites (ordered_rules g ! i)). e = edge_of i (ordered_rules g ! i) j (prerequisites (ordered_rules g ! i) ! j)"
proof -
  have "edge_of i (ordered_rules g ! i) 0 (prerequisites (ordered_rules g ! i) ! 0) \<in> E"
    using assms(2) by (auto simp: expanded_by_def)
  moreover have "edge_target (edge_of i (ordered_rules g ! i) 0 (prerequisites (ordered_rules g ! i) ! 0)) = v"
    using assms(2) by (simp add: expanded_by_def)
  ultimately have "rule_index e = int i"
    using assms(1,3,4) unfolding selection_def by fastforce
  then show ?thesis
    using assms(1,3) unfolding selection_def graph_edge_def by fastforce
qed

lemma expanded_children:
  assumes "selection g E" "expanded_by g E v i"
  shows "prerequisite ` {e \<in> E. edge_target e = v} = set (prerequisites (ordered_rules g ! i))"
proof
  show "prerequisite ` {e \<in> E. edge_target e = v} \<subseteq> set (prerequisites (ordered_rules g ! i))"
    using expanded_edge [OF assms] by fastforce
  show "set (prerequisites (ordered_rules g ! i)) \<subseteq> prerequisite ` {e \<in> E. edge_target e = v}"
  proof
    fix c assume "c \<in> set (prerequisites (ordered_rules g ! i))"
    then obtain j where "j < length (prerequisites (ordered_rules g ! i))" "c = prerequisites (ordered_rules g ! i) ! j"
      by (metis in_set_conv_nth)
    with assms(2) show "c \<in> prerequisite ` {e \<in> E. edge_target e = v}"
      by (intro image_eqI [of _ _ "edge_of i (ordered_rules g ! i) j c"]) (auto simp: expanded_by_def)
  qed
qed

lemma grounded_source: "grounded g dir E v \<Longrightarrow> is_source g v \<Longrightarrow> source_admits g dir v"
  by (auto simp: expanded_by_def elim: grounded.cases)

lemma grounded_expanded: "grounded g dir E v \<Longrightarrow> \<not> is_source g v \<Longrightarrow> \<exists>i. expanded_by g E v i"
  by (auto elim: grounded.cases dest: source_admits_is_source)

lemma grounded_reached:
  assumes "reached E t v" "grounded g dir E t" "selection g E" "\<forall>e \<in> E. \<not> is_source g (edge_target e)"
  shows "grounded g dir E v"
  using assms
proof (induction rule: reached.induct)
  case (edge v e)
  then have "\<not> is_source g v" "grounded g dir E v" by auto
  then obtain i where i: "expanded_by g E v i" "\<forall>c \<in> set (prerequisites (ordered_rules g ! i)). grounded g dir E c"
    by (auto elim: grounded.cases dest: source_admits_is_source)
  have "prerequisite e \<in> prerequisite ` {e \<in> E. edge_target e = v}"
    using edge.hyps by simp
  then have "prerequisite e \<in> set (prerequisites (ordered_rules g ! i))"
    unfolding expanded_children [OF edge.prems(2) i(1)] .
  with i(2) show ?case by (rule bspec)
qed

text \<open>Below a grounded node the selected edges form no cycle.\<close>

lemma grounded_acc:
  assumes "grounded g dir E v" "selection g E" "\<forall>e \<in> E. \<not> is_source g (edge_target e)"
  shows "v \<in> Wellfounded.acc (child_rel E)"
  using assms
proof (induction rule: grounded.induct)
  case (source v)
  then have "is_source g v" by (simp add: source_admits_is_source)
  with source.prems(2) have "\<nexists>c. (c, v) \<in> child_rel E" by auto
  then show ?case by (metis accI)
next
  case (rule v i)
  show ?case
  proof (rule accI)
    fix c assume "(c, v) \<in> child_rel E"
    then have "c \<in> set (prerequisites (ordered_rules g ! i))"
      using expanded_children [OF rule.prems(1) rule.hyps(1)] by auto
    with rule show "c \<in> Wellfounded.acc (child_rel E)" by blast
  qed
qed

lemma acc_acyclic: "v \<in> Wellfounded.acc R \<Longrightarrow> (v, v) \<notin> R\<^sup>+"
proof (induction rule: acc.induct)
  case (accI v)
  show ?case
  proof
    assume "(v, v) \<in> R\<^sup>+"
    then obtain w where w: "(w, v) \<in> R" "(v, w) \<in> R\<^sup>*"
      by (meson tranclD2)
    then have "(w, w) \<in> R\<^sup>+"
      by (meson r_into_trancl' trancl_rtrancl_trancl)
    with accI w(1) show False by blast
  qed
qed

text \<open>The tables built from the edges of a path.\<close>

definition tables :: "dependency_edge set \<Rightarrow> (string, int) dict \<Rightarrow> (int \<times> int, dependency_edge) dict \<Rightarrow> bool" where
  "tables E selected by_key \<longleftrightarrow>
     (\<forall>v i. map_of selected v = Some i \<longleftrightarrow> (\<exists>e \<in> E. edge_target e = v \<and> rule_index e = i))
     \<and> (\<forall>k e. map_of by_key k = Some e \<longleftrightarrow> e \<in> E \<and> edge_key e = k)"

lemma select_edge_Inr:
  assumes "\<And>e. graph_edge g e \<Longrightarrow> make_dependency_edge e = Inr e"
  shows "select_edge g (sel, bk) e = Inr acc \<longleftrightarrow>
    graph_edge g e \<and> (\<forall>i. map_of sel (edge_target e) = Some i \<longrightarrow> i = rule_index e)
    \<and> acc = (if dict_has sel (edge_target e) then sel else dict_set sel (edge_target e) (rule_index e), dict_set bk (edge_key e) e)"
    (is "?l = ?r")
proof -
  let ?i = "nat (rule_index e)" let ?r = "ordered_rules g ! ?i" let ?j = "nat (prerequisite_index e)"
  let ?x = "edge_of ?i ?r ?j (prerequisites ?r ! ?j)"
  have ge: "graph_edge g e \<longleftrightarrow> rule_index e < int (length (ordered_rules g)) \<and> prerequisite_index e < int (length (prerequisites ?r)) \<and> e = ?x"
    (is "_ \<longleftrightarrow> ?c")
  proof
    assume "graph_edge g e"
    then show ?c by (auto simp: graph_edge_def)
  next
    assume c: ?c
    then have "0 \<le> rule_index e" "0 \<le> prerequisite_index e"
      by (metis edge_of_simps(1) of_nat_0_le_iff, metis edge_of_simps(2) of_nat_0_le_iff)
    with c have "?i < length (ordered_rules g)" "?j < length (prerequisites ?r)" by auto
    with c show "graph_edge g e" unfolding graph_edge_def by blast
  qed
  show ?thesis
  proof (cases "graph_edge g e")
    case True
    then have "e = ?x" "make_dependency_edge ?x = Inr e" "\<not> rule_index e \<ge> int (length (ordered_rules g))"
        "\<not> prerequisite_index e \<ge> int (length (prerequisites ?r))"
      using assms [OF True] ge by auto
    then have "select_edge g (sel, bk) e =
       (let selected' = (if dict_has sel (edge_target e) then sel else dict_set sel (edge_target e) (rule_index e)) in
           if map_of selected' (edge_target e) \<noteq> Some (rule_index e) then Inl (ValueError ''dependency path has inconsistent OR selections'')
           else Inr (selected', dict_set bk (rule_index e, prerequisite_index e) e))"
      by (simp add: select_edge_def Let_def)
    with True show ?thesis
      by (auto simp: Let_def edge_key_def dict_has_def map_of_dict_set split: if_splits)
  next
    case False
    have "select_edge g (sel, bk) e \<noteq> Inr acc"
    proof
      assume "select_edge g (sel, bk) e = Inr acc"
      then have "rule_index e < int (length (ordered_rules g)) \<and> prerequisite_index e < int (length (prerequisites ?r)) \<and> e = ?x"
        by (auto simp: select_edge_def Let_def make_dependency_edge_def split: if_splits)
      with False ge show False by blast
    qed
    with False show ?thesis by blast
  qed
qed

lemma selection_insert:
  "selection g (insert e E) \<longleftrightarrow> selection g E \<and> graph_edge g e \<and> (\<forall>e' \<in> E. edge_target e' = edge_target e \<longrightarrow> rule_index e' = rule_index e)"
  unfolding selection_def by (simp only: ball_simps(7)) (blast intro: sym)

lemma tables_insert:
  assumes "tables E sel bk" "selection g (insert e E)"
  shows "tables (insert e E) (if dict_has sel (edge_target e) then sel else dict_set sel (edge_target e) (rule_index e)) (dict_set bk (edge_key e) e)"
    (is "tables _ ?sel ?bk")
proof -
  have s: "map_of ?sel v = Some i \<longleftrightarrow> (\<exists>e' \<in> insert e E. edge_target e' = v \<and> rule_index e' = i)" for v i
  proof (cases "v = edge_target e")
    case True
    have "map_of ?sel v = Some (rule_index e)"
      using assms True unfolding tables_def selection_insert dict_has_def by (auto simp: map_of_dict_set)
    with True assms(2) show ?thesis unfolding selection_insert by auto
  next
    case False
    then show ?thesis using assms(1) by (auto simp: tables_def map_of_dict_set)
  qed
  have "map_of ?bk k = Some e' \<longleftrightarrow> e' \<in> insert e E \<and> edge_key e' = k" for k e'
  proof (cases "k = edge_key e")
    case True
    have "e' = e" if "e' \<in> E" "edge_key e' = edge_key e"
      using that assms(2) graph_edge_key unfolding selection_def by blast
    with True show ?thesis by (auto simp: map_of_dict_set)
  next
    case False
    then show ?thesis using assms(1) by (auto simp: tables_def map_of_dict_set)
  qed
  with s show ?thesis unfolding tables_def by blast
qed

lemma select_edges:
  assumes "\<And>e. graph_edge g e \<Longrightarrow> make_dependency_edge e = Inr e"
  shows "selection g (set es) \<Longrightarrow> \<exists>sel bk. fold_res (select_edge g) ([], []) es = Inr (sel, bk) \<and> tables (set es) sel bk"
    and "fold_res (select_edge g) ([], []) es = Inr (sel, bk) \<Longrightarrow> selection g (set es) \<and> tables (set es) sel bk"
proof (induction es arbitrary: sel bk rule: rev_induct)
  case Nil
  {
    case 1
    show ?case by (simp add: tables_def)
  next
    case 2
    then show ?case by (simp add: selection_def tables_def)
  }
next
  case (snoc e es)
  {
    case 1
    then have sel: "selection g (insert e (set es))" by simp
    then obtain sel bk where t: "fold_res (select_edge g) ([], []) es = Inr (sel, bk)" "tables (set es) sel bk"
      using snoc.IH(1) by (auto simp: selection_insert)
    have "\<forall>i. map_of sel (edge_target e) = Some i \<longrightarrow> i = rule_index e"
      using t(2) sel by (auto simp: tables_def selection_insert)
    with sel have "\<exists>acc. select_edge g (sel, bk) e = Inr acc"
      by (auto simp: select_edge_Inr [OF assms] selection_insert)
    with t tables_insert [OF t(2) sel] show ?case
      by (auto simp: fold_res_append select_edge_Inr [OF assms])
  next
    case 2
    then obtain sel' bk' where t: "fold_res (select_edge g) ([], []) es = Inr (sel', bk')" "select_edge g (sel', bk') e = Inr (sel, bk)"
      by (auto simp: fold_res_append)
    then have s: "selection g (set es)" "tables (set es) sel' bk'"
      using snoc.IH(2) by blast+
    then have "selection g (insert e (set es))"
      using t(2) by (fastforce simp: select_edge_Inr [OF assms] selection_insert tables_def)
    with tables_insert [OF s(2) this] t(2) show ?case
      by (auto simp: select_edge_Inr [OF assms])
  }
qed

lemma edge_document_edges:
  assumes "edge_document g = Inr d" "graph_edge g e"
  shows "make_dependency_edge e = Inr e"
proof -
  obtain i j where ij: "i < length (ordered_rules g)" "j < length (prerequisites (ordered_rules g ! i))"
      "e = edge_of i (ordered_rules g ! i) j (prerequisites (ordered_rules g ! i) ! j)"
    using assms(2) by (auto simp: graph_edge_def)
  obtain es where "map_res rule_edges (List.enumerate 0 (ordered_rules g)) = Inr es"
    using assms(1) by (auto simp: edge_document_def Let_def split: if_splits)
  then have "is_ok (rule_edges (i, ordered_rules g ! i))"
    using map_res_all_ok [of rule_edges "List.enumerate 0 (ordered_rules g)"] ij(1)
    by (auto simp: in_set_enumerate_eq)
  moreover have "(j, prerequisites (ordered_rules g ! i) ! j) \<in> set (List.enumerate 0 (prerequisites (ordered_rules g ! i)))"
    using ij(2) by (simp add: in_set_enumerate_eq)
  ultimately have "is_ok (make_dependency_edge e)"
    using map_res_all_ok [of "\<lambda>(j, c). make_dependency_edge (edge_of i (ordered_rules g ! i) j c)"
      "List.enumerate 0 (prerequisites (ordered_rules g ! i))"] unfolding rule_edges_def ij(3) is_ok_iff by fastforce
  then show ?thesis
    by (auto simp: make_dependency_edge_def split: if_splits)
qed

lemma those_eq_Some: "those xs = Some ys \<longleftrightarrow> xs = map Some ys"
  by (induction xs arbitrary: ys) (auto split: option.splits simp: Cons_eq_map_conv)

text \<open>The edges the search collects for a node are those of its rule.\<close>

lemma child_edges_expanded:
  assumes "selection g E" "tables E sel bk" "map_of sel v = Some i" "\<not> is_source g v"
  shows "child_edges g bk i = Some es \<longleftrightarrow> expanded_by g E v (nat i) \<and> es = map (\<lambda>j. edge_of (nat i) (ordered_rules g ! nat i) j (prerequisites (ordered_rules g ! nat i) ! j)) [0..<length (prerequisites (ordered_rules g ! nat i))]"
proof -
  let ?r = "ordered_rules g ! nat i"
  let ?e = "\<lambda>j. edge_of (nat i) ?r j (prerequisites ?r ! j)"
  obtain e where e: "e \<in> E" "edge_target e = v" "rule_index e = i"
    using assms(2,3) by (auto simp: tables_def)
  obtain i' j where ij: "i' < length (ordered_rules g)" "j < length (prerequisites (ordered_rules g ! i'))"
      "e = edge_of i' (ordered_rules g ! i') j (prerequisites (ordered_rules g ! i') ! j)"
    using assms(1) e(1) unfolding selection_def graph_edge_def by blast
  then have g: "i = int (nat i)" "nat i < length (ordered_rules g)" "rule_target ?r = v" "prerequisites ?r \<noteq> []"
    using e by auto
  have k: "map_of bk (i, int j) = Some e' \<longleftrightarrow> ?e j \<in> E \<and> e' = ?e j" if "j < length (prerequisites ?r)" for j e'
  proof -
    have "graph_edge g (?e j)" "edge_key (?e j) = (i, int j)"
      using that g by (auto simp: graph_edge_def edge_key_def)
    then have "e'' = ?e j" if "e'' \<in> E" "edge_key e'' = (i, int j)" for e''
      using that assms(1) graph_edge_key unfolding selection_def by metis
    then show ?thesis
      using assms(2) \<open>edge_key (?e j) = (i, int j)\<close> unfolding tables_def by metis
  qed
  have "child_edges g bk i = Some es \<longleftrightarrow> map (\<lambda>j. map_of bk (i, int j)) [0..<length (prerequisites ?r)] = map Some es"
    by (simp only: child_edges_def those_eq_Some)
  also have "\<dots> \<longleftrightarrow> length es = length (prerequisites ?r) \<and> (\<forall>j < length (prerequisites ?r). map_of bk (i, int j) = Some (es ! j))"
    unfolding list_eq_iff_nth_eq by (simp cong: conj_cong) metis
  also have "\<dots> \<longleftrightarrow> (\<forall>j < length (prerequisites ?r). ?e j \<in> E) \<and> es = map ?e [0..<length (prerequisites ?r)]"
  proof -
    have "(\<forall>j < length (prerequisites ?r). map_of bk (i, int j) = Some (es ! j)) = (\<forall>j < length (prerequisites ?r). ?e j \<in> E \<and> es ! j = ?e j)"
      using k by blast
    moreover have "es = map ?e [0..<length (prerequisites ?r)] \<longleftrightarrow> length es = length (prerequisites ?r) \<and> (\<forall>j < length (prerequisites ?r). es ! j = ?e j)"
      unfolding list_eq_iff_nth_eq [of es] by (simp cong: conj_cong)
    ultimately show ?thesis by blast
  qed
  finally show ?thesis
    using g assms(4) by (simp add: expanded_by_def)
qed

section \<open>The search of the selected graph\<close>

definition marked :: "(string \<times> bool) list \<Rightarrow> string list" where
  "marked stack = map fst (filter snd stack)"

definition mark_ok :: "dependency_graph \<Rightarrow> dependency_edge set \<Rightarrow> string set \<Rightarrow> string set \<Rightarrow> string \<Rightarrow> bool" where
  "mark_ok g E vis pre n \<longleftrightarrow> (\<exists>i. expanded_by g E n i) \<and> prerequisite ` {e \<in> E. edge_target e = n} \<subseteq> vis \<union> pre
     \<and> (\<forall>x \<in> pre. (x, n) \<in> (child_rel E)\<^sup>+)"

definition marks_ok :: "dependency_graph \<Rightarrow> dependency_edge set \<Rightarrow> string set \<Rightarrow> (string \<times> bool) list \<Rightarrow> bool" where
  "marks_ok g E vis stack \<longleftrightarrow> (\<forall>pre n post. stack = pre @ (n, True) # post \<longrightarrow> mark_ok g E vis (fst ` set pre) n)"

definition closed_nodes :: "dependency_graph \<Rightarrow> string \<Rightarrow> dependency_edge set \<Rightarrow> string set \<Rightarrow> bool" where
  "closed_nodes g dir E vis \<longleftrightarrow> (\<forall>v \<in> vis. grounded g dir E v)
     \<and> (\<forall>e \<in> E. edge_target e \<in> vis \<longrightarrow> \<not> is_source g (edge_target e) \<longrightarrow> prerequisite e \<in> vis)"

definition entered :: "dependency_graph \<Rightarrow> dependency_edge set \<Rightarrow> string set \<Rightarrow> dependency_edge set" where
  "entered g E nodes = {e \<in> E. edge_target e \<in> nodes \<and> \<not> is_source g (edge_target e)}"

text \<open>Between two steps of the search: visited nodes are grounded and closed under the selected edges, the
  active nodes are those with an exit mark on the stack, everything above an exit mark is a descendant of the
  marked node and no child of it is missing, and the collected edges and leaves are those of the nodes entered so far.\<close>

definition search_inv :: "dependency_graph \<Rightarrow> string \<Rightarrow> dependency_edge set \<Rightarrow> string \<Rightarrow> (string \<times> bool) list \<Rightarrow> search \<Rightarrow> bool" where
  "search_inv g dir E t stack s \<longleftrightarrow>
     closed_nodes g dir E (set (visited s)) \<and> marks_ok g E (set (visited s)) stack
     \<and> set (active s) = set (marked stack) \<and> distinct (marked stack)
     \<and> t \<in> set (visited s) \<union> fst ` set stack
     \<and> (\<forall>v \<in> set (visited s) \<union> fst ` set stack. reached E t v)
     \<and> set (leaves s) = {v \<in> set (visited s). is_source g v} \<and> distinct (leaves s)
     \<and> set (used s) = entered g E (set (active s) \<union> set (visited s))"

lemma marked_simps [simp]:
  "marked [] = []" "marked ((n, True) # st) = n # marked st" "marked ((n, False) # st) = marked st"
  "marked (map (\<lambda>c. (c, False)) cs @ st) = marked st"
  by (auto simp: marked_def filter_map comp_def)

lemma push_split:
  "map (\<lambda>c. (c, False)) cs @ (v, True) # st = pre @ (n, True) # post \<Longrightarrow>
   pre = map (\<lambda>c. (c, False)) cs \<and> n = v \<and> post = st \<or> (\<exists>pre'. pre = map (\<lambda>c. (c, False)) cs @ (v, True) # pre' \<and> st = pre' @ (n, True) # post)"
proof (induction cs arbitrary: pre)
  case Nil
  then show ?case by (cases pre) auto
next
  case (Cons c cs)
  then show ?case by (cases pre) auto
qed

lemma marks_ok_pop:
  assumes "marks_ok g E vis ((v, b) # st)" "v \<in> vis'" "vis \<subseteq> vis'"
  shows "marks_ok g E vis' st"
  unfolding marks_ok_def
proof (intro allI impI)
  fix pre n post assume "st = pre @ (n, True) # post"
  then have "(v, b) # st = ((v, b) # pre) @ (n, True) # post" by simp
  then have "mark_ok g E vis (fst ` set ((v, b) # pre)) n"
    using assms(1) unfolding marks_ok_def by blast
  with assms(2,3) show "mark_ok g E vis' (fst ` set pre) n"
    by (auto simp: mark_ok_def)
qed

lemma marks_ok_top:
  assumes "marks_ok g E vis ((v, True) # st)"
  shows "mark_ok g E vis {} v"
proof -
  have "(v, True) # st = [] @ (v, True) # st" by simp
  then show ?thesis using assms unfolding marks_ok_def by fastforce
qed

lemma search_inv_exit:
  assumes inv: "search_inv g dir E t ((v, True) # st) s" and "selection g E"
  shows "search_inv g dir E t st (s\<lparr>active := removeAll v (active s), visited := List.insert v (visited s)\<rparr>)"
proof -
  have m: "marks_ok g E (set (visited s)) ((v, True) # st)" and cl: "closed_nodes g dir E (set (visited s))"
    using inv by (simp_all add: search_inv_def)
  obtain i where i: "expanded_by g E v i" and c: "prerequisite ` {e \<in> E. edge_target e = v} \<subseteq> set (visited s)"
    using marks_ok_top [OF m] by (auto simp: mark_ok_def)
  have "\<forall>c \<in> set (prerequisites (ordered_rules g ! i)). grounded g dir E c"
    using cl c expanded_children [OF assms(2) i] unfolding closed_nodes_def by blast
  then have "grounded g dir E v" by (rule grounded.rule [OF i])
  with cl c have "closed_nodes g dir E (insert v (set (visited s)))"
    unfolding closed_nodes_def by blast
  moreover have "marks_ok g E (insert v (set (visited s))) st"
    by (rule marks_ok_pop [OF m]) auto
  moreover have "\<not> is_source g v" using i by (simp add: expanded_by_def)
  moreover have "insert v (set (active s)) = set (active s)" using inv by (auto simp: search_inv_def)
  ultimately show ?thesis
    using inv by (auto simp: search_inv_def)
qed

lemma search_inv_visited:
  assumes inv: "search_inv g dir E t ((v, False) # st) s" and "v \<in> set (visited s)"
  shows "search_inv g dir E t st s"
proof -
  have "marks_ok g E (set (visited s)) st"
    using inv assms(2) by (auto simp: search_inv_def intro: marks_ok_pop)
  with inv assms(2) show ?thesis by (auto simp: search_inv_def)
qed

lemma search_inv_source:
  assumes inv: "search_inv g dir E t ((v, False) # st) s" and "source_admits g dir v"
  shows "search_inv g dir E t st (s\<lparr>leaves := List.insert v (leaves s), visited := List.insert v (visited s)\<rparr>)"
proof -
  have v: "is_source g v" "grounded g dir E v"
    using assms(2) by (auto intro: source_admits_is_source grounded.source)
  have "closed_nodes g dir E (insert v (set (visited s)))"
    using inv v unfolding search_inv_def closed_nodes_def by blast
  moreover have "marks_ok g E (insert v (set (visited s))) st"
    using inv by (auto simp: search_inv_def intro: marks_ok_pop)
  moreover have "entered g E (set (active s) \<union> insert v (set (visited s))) = entered g E (set (active s) \<union> set (visited s))"
    using v(1) by (auto simp: entered_def)
  ultimately show ?thesis
    using inv v(1) by (auto simp: search_inv_def)
qed

lemma search_inv_expand:
  assumes inv: "search_inv g dir E t ((v, False) # st) s" and "selection g E" and ex: "expanded_by g E v i"
    and "v \<notin> set (active s)" and "v \<notin> set (visited s)" and es: "set es = {e \<in> E. edge_target e = v}"
  shows "search_inv g dir E t (map (\<lambda>c. (c, False)) (prerequisites (ordered_rules g ! i)) @ (v, True) # st)
    (s\<lparr>active := List.insert v (active s), used := List.union es (used s)\<rparr>)"
proof -
  let ?cs = "prerequisites (ordered_rules g ! i)" and ?vis = "set (visited s)"
  have kids: "prerequisite ` {e \<in> E. edge_target e = v} = set ?cs"
    by (rule expanded_children [OF assms(2) ex])
  have m: "marks_ok g E ?vis ((v, False) # st)" using inv by (simp add: search_inv_def)
  have rel: "(c, v) \<in> child_rel E" if "c \<in> set ?cs" for c
  proof -
    from that obtain e where "e \<in> E" "edge_target e = v" "prerequisite e = c"
      unfolding kids [symmetric] by blast
    then show ?thesis by (intro image_eqI [of _ _ e]) auto
  qed
  have "mark_ok g E ?vis (fst ` set pre) n"
    if split: "map (\<lambda>c. (c, False)) ?cs @ (v, True) # st = pre @ (n, True) # post" for pre n post
    using push_split [OF split]
  proof (elim disjE conjE exE)
    assume "pre = map (\<lambda>c. (c, False)) ?cs" "n = v"
    then show ?thesis using ex kids rel by (auto simp: mark_ok_def image_image)
  next
    fix pre' assume pre: "pre = map (\<lambda>c. (c, False)) ?cs @ (v, True) # pre'" and "st = pre' @ (n, True) # post"
    then have "(v, False) # st = ((v, False) # pre') @ (n, True) # post" by simp
    then have "mark_ok g E ?vis (fst ` set ((v, False) # pre')) n"
      using m unfolding marks_ok_def by blast
    moreover have "(c, n) \<in> (child_rel E)\<^sup>+" if "c \<in> set ?cs" "(v, n) \<in> (child_rel E)\<^sup>+" for c
      using rel [OF that(1)] that(2) by (rule trancl_into_trancl2)
    ultimately show ?thesis
      by (auto simp: mark_ok_def pre image_image image_Un)
  qed
  then have "marks_ok g E ?vis (map (\<lambda>c. (c, False)) ?cs @ (v, True) # st)"
    unfolding marks_ok_def by blast
  moreover have "\<forall>c \<in> set ?cs. reached E t c"
  proof -
    have "reached E t v" using inv by (auto simp: search_inv_def)
    then show ?thesis unfolding kids [symmetric] by (auto intro: reached.edge)
  qed
  moreover have "set es \<union> entered g E (set (active s) \<union> ?vis) = entered g E (insert v (set (active s)) \<union> ?vis)"
    using ex unfolding es entered_def expanded_by_def by blast
  ultimately show ?thesis
    using inv assms(4,5) by (auto simp: search_inv_def image_image image_Un)
qed

lemma child_edges_set:
  assumes "selection g E" "tables E sel bk" "map_of sel v = Some i" "\<not> is_source g v" "child_edges g bk i = Some es"
  shows "expanded_by g E v (nat i)" "set es = {e \<in> E. edge_target e = v}"
proof -
  show ex: "expanded_by g E v (nat i)"
    using child_edges_expanded [OF assms(1-4)] assms(5) by blast
  have es: "es = map (\<lambda>j. edge_of (nat i) (ordered_rules g ! nat i) j (prerequisites (ordered_rules g ! nat i) ! j)) [0..<length (prerequisites (ordered_rules g ! nat i))]"
    using child_edges_expanded [OF assms(1-4)] assms(5) by blast
  show "set es = {e \<in> E. edge_target e = v}"
  proof
    show "set es \<subseteq> {e \<in> E. edge_target e = v}" using ex by (auto simp: es expanded_by_def)
    show "{e \<in> E. edge_target e = v} \<subseteq> set es" using expanded_edge [OF assms(1) ex] by (fastforce simp: es)
  qed
qed

lemma search_path_sound:
  assumes "selection g E" "tables E sel bk"
  shows "search_path g dir sel bk stack s = Inr s' \<Longrightarrow> search_inv g dir E t stack s \<Longrightarrow> search_inv g dir E t [] s'"
  using assms
proof (induction g dir sel bk stack s rule: search_path.induct)
  case (2 g dir sel bk v b st s)
  show ?case
  proof (cases b)
    case True
    then have "search_path g dir sel bk st (s\<lparr>active := removeAll v (active s), visited := List.insert v (visited s)\<rparr>) = Inr s'" "v \<in> set (active s)"
      using "2.prems"(1) by (auto split: if_splits)
    with True "2.IH"(1) "2.prems" search_inv_exit [of g dir E t v st s] show ?thesis by simp
  next
    case nb: False
    then have na: "v \<notin> set (active s)" using "2.prems"(1) by (auto split: if_splits)
    consider (vis) "v \<in> set (visited s)" | (src) "v \<notin> set (visited s)" "is_source g v" | (node) "v \<notin> set (visited s)" "\<not> is_source g v"
      by blast
    then show ?thesis
    proof cases
      case vis
      with nb na "2.prems" "2.IH"(2) search_inv_visited [of g dir E t v st s] show ?thesis by (auto split: if_splits)
    next
      case src
      with nb na "2.prems"(1) have "source_admits g dir v" by (auto split: if_splits)
      with src nb na "2.prems" "2.IH"(3) search_inv_source [of g dir E t v st s] show ?thesis by (auto split: if_splits)
    next
      case node
      then obtain i es where i: "map_of sel v = Some i" "child_edges g bk i = Some es"
          "search_path g dir sel bk (map (\<lambda>c. (c, False)) (prerequisites (ordered_rules g ! nat i)) @ (v, True) # st)
            (s\<lparr>active := List.insert v (active s), used := List.union es (used s)\<rparr>) = Inr s'"
        using "2.prems"(1) nb na by (auto split: if_splits option.splits)
      note ce = child_edges_set [OF "2.prems"(3,4) i(1) node(2) i(2)]
      have "search_inv g dir E t ((v, False) # st) s" using "2.prems"(2) nb by simp
      then have "search_inv g dir E t (map (\<lambda>c. (c, False)) (prerequisites (ordered_rules g ! nat i)) @ (v, True) # st)
            (s\<lparr>active := List.insert v (active s), used := List.union es (used s)\<rparr>)"
        by (rule search_inv_expand [OF _ "2.prems"(3) ce(1) na node(1) ce(2)])
      with i nb na node "2.IH"(4) "2.prems"(3,4) show ?thesis by blast
    qed
  qed
qed simp

text \<open>On a selection without cycles whose nodes are all grounded the search ends without an error.\<close>

lemma search_path_total:
  assumes "selection g E" "tables E sel bk" "grounded g dir E t" "\<forall>e \<in> E. \<not> is_source g (edge_target e)"
  shows "search_inv g dir E t stack s \<Longrightarrow> \<exists>s'. search_path g dir sel bk stack s = Inr s'"
  using assms
proof (induction g dir sel bk stack s rule: search_path.induct)
  case (2 g dir sel bk v b st s)
  have inv: "search_inv g dir E t ((v, b) # st) s" by (rule "2.prems"(1))
  have "reached E t v" using inv by (auto simp: search_inv_def)
  then have gr: "grounded g dir E v" by (rule grounded_reached [OF _ "2.prems"(4,2,5)])
  show ?case
  proof (cases b)
    case True
    then have "v \<in> set (active s)" using inv by (auto simp: search_inv_def)
    with True inv "2.IH"(1) "2.prems" search_inv_exit [of g dir E t v st s] show ?thesis by auto
  next
    case nb: False
    have na: "v \<notin> set (active s)"
    proof
      assume "v \<in> set (active s)"
      then have "(v, True) \<in> set st" using inv nb by (auto simp: search_inv_def marked_def)
      then obtain pre post where "st = pre @ (v, True) # post" by (meson split_list)
      then have "(v, b) # st = ((v, b) # pre) @ (v, True) # post" by simp
      then have "mark_ok g E (set (visited s)) (fst ` set ((v, b) # pre)) v"
        using inv unfolding search_inv_def marks_ok_def by blast
      then have "(v, v) \<in> (child_rel E)\<^sup>+" by (simp add: mark_ok_def)
      with acc_acyclic [OF grounded_acc [OF gr "2.prems"(2,5)]] show False by blast
    qed
    consider (vis) "v \<in> set (visited s)" | (src) "v \<notin> set (visited s)" "is_source g v" | (node) "v \<notin> set (visited s)" "\<not> is_source g v"
      by blast
    then show ?thesis
    proof cases
      case vis
      with nb na inv "2.prems" "2.IH"(2) search_inv_visited [of g dir E t v st s] show ?thesis by auto
    next
      case src
      then have "source_admits g dir v" using grounded_source [OF gr] by blast
      with src nb na inv "2.prems" "2.IH"(3) search_inv_source [of g dir E t v st s] show ?thesis by auto
    next
      case node
      obtain i where ex: "expanded_by g E v i" using grounded_expanded [OF gr node(2)] by blast
      then obtain e where "e \<in> E" "edge_target e = v" "rule_index e = int i"
        unfolding expanded_by_def by (metis edge_of_simps(1,4) length_greater_0_conv)
      then have i: "map_of sel v = Some (int i)" using "2.prems"(3) by (auto simp: tables_def)
      then obtain es where es: "child_edges g bk (int i) = Some es"
        using child_edges_expanded [OF "2.prems"(2,3) i node(2)] ex by auto
      note ce = child_edges_set [OF "2.prems"(2,3) i node(2) es]
      have "search_inv g dir E t (map (\<lambda>c. (c, False)) (prerequisites (ordered_rules g ! nat (int i))) @ (v, True) # st)
            (s\<lparr>active := List.insert v (active s), used := List.union es (used s)\<rparr>)"
        using inv nb by (intro search_inv_expand [OF _ "2.prems"(2) ce(1) na node(1) ce(2)]) simp
      then have "\<exists>s'. search_path g dir sel bk (map (\<lambda>c. (c, False)) (prerequisites (ordered_rules g ! nat (int i))) @ (v, True) # st)
            (s\<lparr>active := List.insert v (active s), used := List.union es (used s)\<rparr>) = Inr s'"
        using "2.IH"(4) [OF nb na node i es] "2.prems"(2-) by blast
      then show ?thesis
        using i es nb na node by simp
    qed
  qed
qed simp

lemma search_inv_start: "search_inv g dir E t [(t, False)] \<lparr>visited = [], active = [], used = [], leaves = []\<rparr>"
  by (auto simp: search_inv_def closed_nodes_def marks_ok_def entered_def marked_def Cons_eq_append_conv intro: reached.start)

text \<open>What a completed search has found.\<close>

lemma search_inv_end:
  assumes "search_inv g dir E t [] s"
  shows "grounded g dir E t" "set (used s) = entered g E (set (visited s))"
    "\<forall>e \<in> E. \<not> is_source g (edge_target e) \<Longrightarrow> {v. reached E t v} = set (visited s)"
    "set (leaves s) = {v \<in> set (visited s). is_source g v}" "distinct (leaves s)"
proof -
  have cl: "closed_nodes g dir E (set (visited s))" and t: "t \<in> set (visited s)" and r: "\<forall>v \<in> set (visited s). reached E t v"
    using assms by (auto simp: search_inv_def)
  show "grounded g dir E t" using cl t by (simp add: closed_nodes_def)
  show "set (used s) = entered g E (set (visited s))" "set (leaves s) = {v \<in> set (visited s). is_source g v}" "distinct (leaves s)"
    using assms by (simp_all add: search_inv_def)
  assume E: "\<forall>e \<in> E. \<not> is_source g (edge_target e)"
  have "reached E t v \<Longrightarrow> v \<in> set (visited s)" for v
  proof (induction rule: reached.induct)
    case (edge v e)
    then have "\<not> is_source g (edge_target e)" using E by blast
    with edge cl show ?case by (auto simp: closed_nodes_def)
  qed (rule t)
  with r show "{v. reached E t v} = set (visited s)" by blast
qed


lemma sort_key_remdups_id: "xs = sort_key f (remdups xs) \<longleftrightarrow> sorted (map f xs) \<and> distinct xs"
proof
  assume "xs = sort_key f (remdups xs)"
  moreover have "sorted (map f (sort_key f (remdups xs)))" "distinct (sort_key f (remdups xs))" by simp_all
  ultimately show "sorted (map f xs) \<and> distinct xs" by metis
qed (simp add: sort_key_id_if_sorted distinct_remdups_id)

lemma path_checks:
  "\<not> (path_target p = [] \<or> dir \<notin> set DIRECTIONS \<or> source_ids p = [] \<or> [] \<in> set (source_ids p) \<or> source_ids p \<noteq> sort (remdups (source_ids p)))
   \<longleftrightarrow> path_target p \<noteq> [] \<and> dir \<in> set DIRECTIONS \<and> source_ids p \<noteq> [] \<and> [] \<notin> set (source_ids p) \<and> sorted (source_ids p) \<and> distinct (source_ids p)"
  using sort_key_remdups_id [of "source_ids p" "\<lambda>x. x"] by auto

lemma path_identity_ok:
  assumes "edge_document g = Inr d"
  shows "is_ok (path_identity g p dir) \<longleftrightarrow>
    (path_target p \<noteq> [] \<and> dir \<in> set DIRECTIONS \<and> source_ids p \<noteq> [] \<and> [] \<notin> set (source_ids p) \<and> sorted (source_ids p) \<and> distinct (source_ids p))
    \<and> path_edges p = sort_key edge_key (remdups (path_edges p))
    \<and> (\<exists>sel bk s. fold_res (select_edge g) ([], []) (path_edges p) = Inr (sel, bk)
        \<and> search_path g dir sel bk [(path_target p, False)] \<lparr>visited = [], active = [], used = [], leaves = []\<rparr> = Inr s
        \<and> set (used s) = set (path_edges p) \<and> sort (leaves s) = source_ids p)"
    (is "_ \<longleftrightarrow> ?chk \<and> ?canon \<and> ?run")
proof (cases "?chk \<and> ?canon")
  case True
  have "is_ok (path_identity g p dir) \<longleftrightarrow> ?run"
    using True path_checks [of p dir]
    by (auto simp: path_identity_def assms is_ok_iff simp del: search_path.simps split: if_splits)
  with True show ?thesis by blast
next
  case False
  have "\<not> is_ok (path_identity g p dir)"
  proof (cases ?chk)
    case True
    note c = path_checks [of p dir, THEN iffD2, OF True]
    from True False have "path_edges p \<noteq> sort_key edge_key (remdups (path_edges p))" by blast
    then show ?thesis
      unfolding path_identity_def assms res_bind_simps if_not_P [OF c] by simp
  next
    case chk: False
    then have "path_target p = [] \<or> dir \<notin> set DIRECTIONS \<or> source_ids p = [] \<or> [] \<in> set (source_ids p) \<or> source_ids p \<noteq> sort (remdups (source_ids p))"
      unfolding path_checks [of p dir, symmetric] by blast
    then show ?thesis
      unfolding path_identity_def assms res_bind_simps by simp
  qed
  with False show ?thesis by blast
qed

lemma path_identity_iff:
  "is_ok (path_identity g p dir) \<longleftrightarrow> is_ok (edge_document g) \<and> proof_path g dir p"
proof (cases "edge_document g")
  case (Inl e)
  then show ?thesis by (simp add: path_identity_def)
next
  case doc: (Inr d)
  let ?E = "set (path_edges p)" and ?t = "path_target p"
  let ?s0 = "\<lparr>visited = [], active = [], used = [], leaves = []\<rparr>"
  note edges = select_edges [of g, OF edge_document_edges [OF doc], simplified]
  have fwd: "proof_path g dir p" if acc: "is_ok (path_identity g p dir)"
  proof -
    obtain sel bk s where pc: "?t \<noteq> [] \<and> dir \<in> set DIRECTIONS \<and> source_ids p \<noteq> [] \<and> [] \<notin> set (source_ids p) \<and> sorted (source_ids p) \<and> distinct (source_ids p)"
        and canon: "path_edges p = sort_key edge_key (remdups (path_edges p))"
        and tab: "fold_res (select_edge g) ([], []) (path_edges p) = Inr (sel, bk)"
        and srch: "search_path g dir sel bk [(?t, False)] ?s0 = Inr s"
        and fin: "set (used s) = ?E" "sort (leaves s) = source_ids p"
      using acc unfolding path_identity_ok [OF doc] by blast
    note st = edges(2) [OF tab]
    have inv: "search_inv g dir ?E ?t [] s"
      using search_path_sound [OF _ _ srch search_inv_start] st by blast
    note e = search_inv_end [OF inv]
    have ent: "entered g ?E (set (visited s)) = ?E" using e(2) fin(1) by simp
    then have ns: "\<forall>e \<in> ?E. \<not> is_source g (edge_target e)" "\<forall>e \<in> ?E. edge_target e \<in> set (visited s)"
      unfolding entered_def by blast+
    moreover have "set (source_ids p) = set (leaves s)" by (simp flip: fin(2))
    ultimately show ?thesis
      using pc canon st e(1,4) e(3) [OF ns(1)] unfolding proof_path_def sort_key_remdups_id by blast
  qed
  have bwd: "is_ok (path_identity g p dir)" if pp: "proof_path g dir p"
  proof -
    have ns: "\<forall>e \<in> ?E. \<not> is_source g (edge_target e)" and r: "\<forall>e \<in> ?E. reached ?E ?t (edge_target e)"
      using pp by (auto simp: proof_path_def)
    obtain sel bk where tab: "fold_res (select_edge g) ([], []) (path_edges p) = Inr (sel, bk)" "tables ?E sel bk"
      using edges(1) pp unfolding proof_path_def by blast
    obtain s where srch: "search_path g dir sel bk [(?t, False)] ?s0 = Inr s"
      using search_path_total [OF _ tab(2) _ ns search_inv_start] pp unfolding proof_path_def by blast
    have inv: "search_inv g dir ?E ?t [] s"
      using search_path_sound [OF _ tab(2) srch search_inv_start] pp unfolding proof_path_def by blast
    note e = search_inv_end [OF inv]
    have "set (used s) = ?E"
      using e(2) e(3) [OF ns] ns r unfolding entered_def by blast
    moreover have "sort (leaves s) = source_ids p"
      using pp e(4,5) e(3) [OF ns] by (intro sorted_distinct_set_unique) (auto simp: proof_path_def)
    moreover have "path_edges p = sort_key edge_key (remdups (path_edges p))"
      using pp by (simp only: sort_key_remdups_id proof_path_def)
    ultimately show ?thesis
      using pp tab(1) srch unfolding path_identity_ok [OF doc] proof_path_def by blast
  qed
  show ?thesis using fwd bwd by (auto simp: doc)
qed

text \<open>C16: Authentication accepts exactly the proof graphs. For a graph with a valid document a path is accepted if and
  only if it is canonical, its edges are edges of the graph that resolve every node by one rule, the target is grounded in
  sources of the direction (so the selection has no cycle and omits no prerequisite), every edge is reached from the target, and the listed
  sources are exactly the sources reached.\<close>

theorem path_identity_exact:
  "is_ok (path_identity g p dir) \<longleftrightarrow> is_ok (edge_document g) \<and> proof_path g dir p"
  by (rule path_identity_iff)

section \<open>Enumerated proof graphs are authentic\<close>

text \<open>A piece of a generator keeps an invariant \<open>I\<close> of the enumeration that does not depend on the budget, and ends in \<open>H\<close> when the consumer stops.\<close>

fun gen_ok :: "('s \<Rightarrow> bool) \<Rightarrow> ('s \<Rightarrow> bool) \<Rightarrow> 's gen \<Rightarrow> bool" where
  "gen_ok I H (Go s) = I s"
| "gen_ok I H (Halt s) = H s"
| "gen_ok I H (Fail e) = True"

definition budget_free :: "(enumeration \<Rightarrow> bool) \<Rightarrow> bool" where
  "budget_free I \<longleftrightarrow> (\<forall>s b. I s \<longrightarrow> I (s\<lparr>budget_left := b\<rparr>))"

lemma gen_ok_bind: "gen_ok I H r \<Longrightarrow> (\<And>s. I s \<Longrightarrow> gen_ok I H (f s)) \<Longrightarrow> gen_ok I H (gen_bind r f)"
  by (cases r) auto

lemma gen_ok_spend: "budget_free I \<Longrightarrow> I s \<Longrightarrow> gen_ok I H (gen_spend s)"
  by (auto simp: gen_spend_def budget_free_def split: sum.splits)

lemma gen_ok_fold: "(\<And>x s. x \<in> set xs \<Longrightarrow> I s \<Longrightarrow> gen_ok I H (f x s)) \<Longrightarrow> I s \<Longrightarrow> gen_ok I H (gen_fold f xs s)"
  by (induction xs arbitrary: s) (auto intro!: gen_ok_bind)

text \<open>What a generator yields for a node: a selection that agrees with the choices, grounds the node
  and reaches all its edges and sources from it.\<close>

definition edges_ok :: "dependency_graph \<Rightarrow> string \<Rightarrow> proof_item \<Rightarrow> bool" where
  "edges_ok g node y = (case y of (ss, es, ch) \<Rightarrow>
     distinct ss \<and> distinct es
     \<and> (\<forall>e \<in> set es. graph_edge g e \<and> \<not> is_source g (edge_target e) \<and> map_of ch (edge_target e) = Some (nat (rule_index e))
          \<and> reached (set es) node (edge_target e))
     \<and> set ss = {x \<in> insert node (prerequisite ` set es). is_source g x})"

definition item_ok :: "dependency_graph \<Rightarrow> string \<Rightarrow> string \<Rightarrow> (string, nat) dict \<Rightarrow> proof_item \<Rightarrow> bool" where
  "item_ok g dir node ch y = (case y of (ss, es, ch') \<Rightarrow>
     map_of ch \<subseteq>\<^sub>m map_of ch' \<and> edges_ok g node y \<and> grounded g dir (set es) node)"

text \<open>The state of a rule after its first prerequisites.\<close>

definition part_ok :: "dependency_graph \<Rightarrow> string \<Rightarrow> string \<Rightarrow> (string, nat) dict \<Rightarrow> nat \<Rightarrow> nat \<Rightarrow> proof_item \<Rightarrow> bool" where
  "part_ok g dir node ch i j y = (case y of (ss, es, ch') \<Rightarrow>
     map_of ch \<subseteq>\<^sub>m map_of ch' \<and> map_of ch' node = Some i \<and> edges_ok g node y
     \<and> (\<forall>k < j. edge_of i (ordered_rules g ! i) k (prerequisites (ordered_rules g ! i) ! k) \<in> set es
          \<and> grounded g dir (set es) (prerequisites (ordered_rules g ! i) ! k)))"

lemma reached_mono: "reached E t v \<Longrightarrow> E \<subseteq> F \<Longrightarrow> reached F t v"
  by (induction rule: reached.induct) (auto intro: reached.intros)

lemma reached_trans: "reached E c v \<Longrightarrow> reached E t c \<Longrightarrow> reached E t v"
  by (induction rule: reached.induct) (auto intro: reached.intros)

lemma expanded_mono: "expanded_by g E v i \<Longrightarrow> E \<subseteq> F \<Longrightarrow> expanded_by g F v i"
  by (auto simp: expanded_by_def)

lemma grounded_mono: "grounded g dir E v \<Longrightarrow> E \<subseteq> F \<Longrightarrow> grounded g dir F v"
  by (induction rule: grounded.induct) (auto intro: grounded.intros expanded_mono)

lemma reached_nodes:
  assumes "\<forall>e \<in> E. reached E t (edge_target e)"
  shows "{v. reached E t v} = insert t (prerequisite ` E)"
proof
  show "insert t (prerequisite ` E) \<subseteq> {v. reached E t v}"
    using assms by (auto intro: reached.intros)
  have "reached E t v \<Longrightarrow> v \<in> insert t (prerequisite ` E)" for v
    by (induction rule: reached.induct) auto
  then show "{v. reached E t v} \<subseteq> insert t (prerequisite ` E)" by blast
qed

lemma part_ok_step:
  assumes part: "part_ok g dir node ch i j (ss, es, ch1)" and it: "item_ok g dir c ch1 (ss', es', ch2)"
    and c: "j < length (prerequisites (ordered_rules g ! i))" "c = prerequisites (ordered_rules g ! i) ! j"
    and rule: "i < length (ordered_rules g)" "rule_target (ordered_rules g ! i) = node" "\<not> is_source g node"
  shows "part_ok g dir node ch i (Suc j)
    (List.union ss' ss, List.insert (edge_of i (ordered_rules g ! i) j c) (List.union es' es), ch2)"
proof -
  let ?e = "edge_of i (ordered_rules g ! i) j c"
  let ?E = "insert ?e (set es' \<union> set es)"
  have le: "map_of ch1 \<subseteq>\<^sub>m map_of ch2" using it by (simp add: item_ok_def)
  have ext: "map_of ch2 v = Some k" if "map_of ch1 v = Some k" for v k
    using le that by (metis domI map_le_def)
  have p: "map_of ch \<subseteq>\<^sub>m map_of ch1" "map_of ch1 node = Some i" "edges_ok g node (ss, es, ch1)"
    using part by (auto simp: part_ok_def)
  have q: "edges_ok g c (ss', es', ch2)" "grounded g dir (set es') c"
    using it by (auto simp: item_ok_def)
  have es: "\<forall>x \<in> set es. graph_edge g x \<and> \<not> is_source g (edge_target x) \<and> map_of ch1 (edge_target x) = Some (nat (rule_index x)) \<and> reached (set es) node (edge_target x)"
    and es': "\<forall>x \<in> set es'. graph_edge g x \<and> \<not> is_source g (edge_target x) \<and> map_of ch2 (edge_target x) = Some (nat (rule_index x)) \<and> reached (set es') c (edge_target x)"
    using p(3) q(1) unfolding edges_ok_def by blast+
  have e: "graph_edge g ?e" using c rule(1) by (auto simp: graph_edge_def)
  have rc: "reached ?E node c"
    using reached.edge [of ?E node node ?e] rule(2) by (simp add: reached.start)
  have "graph_edge g x \<and> \<not> is_source g (edge_target x) \<and> map_of ch2 (edge_target x) = Some (nat (rule_index x)) \<and> reached ?E node (edge_target x)"
    if x: "x \<in> ?E" for x
  proof -
    consider "x = ?e" | "x \<in> set es'" | "x \<in> set es" using x by auto
    then show ?thesis
    proof cases
      case 1
      then show ?thesis using e rule p(2) ext by (auto intro: reached.start)
    next
      case 2
      then have "reached (set es') c (edge_target x)" using es' by blast
      then have "reached ?E c (edge_target x)" by (rule reached_mono) blast
      then have "reached ?E node (edge_target x)" by (rule reached_trans [OF _ rc])
      with 2 es' show ?thesis by blast
    next
      case 3
      then have "reached (set es) node (edge_target x)" using es by blast
      then have "reached ?E node (edge_target x)" by (rule reached_mono) blast
      with 3 es ext show ?thesis by blast
    qed
  qed
  moreover have "set ss' \<union> set ss = {x \<in> insert node (prerequisite ` ?E). is_source g x}"
    using p(3) q(1) by (auto simp: edges_ok_def)
  moreover have "distinct (List.union ss' ss)" "distinct (List.insert ?e (List.union es' es))"
    using p(3) q(1) by (simp_all add: edges_ok_def)
  moreover have "set (List.insert ?e (List.union es' es)) = ?E" "set (List.union ss' ss) = set ss' \<union> set ss" by simp_all
  ultimately have eo: "edges_ok g node (List.union ss' ss, List.insert ?e (List.union es' es), ch2)"
    unfolding edges_ok_def by (simp only: prod.case) blast
  have "edge_of i (ordered_rules g ! i) k (prerequisites (ordered_rules g ! i) ! k) \<in> ?E
      \<and> grounded g dir ?E (prerequisites (ordered_rules g ! i) ! k)" if "k < Suc j" for k
  proof (cases "k = j")
    case True
    then show ?thesis using c q(2) grounded_mono [of g dir "set es'" c ?E] by auto
  next
    case False
    with that have "k < j" by simp
    then show ?thesis using part grounded_mono [of g dir "set es" _ ?E] by (auto simp: part_ok_def)
  qed
  then show ?thesis
    using eo p(1) le ext [OF p(2)] by (auto simp: part_ok_def intro: map_le_trans)
qed

lemma part_ok_item:
  assumes "part_ok g dir node ch i (length (prerequisites (ordered_rules g ! i))) y"
    and rule: "i < length (ordered_rules g)" "rule_target (ordered_rules g ! i) = node" "\<not> is_source g node"
      "prerequisites (ordered_rules g ! i) \<noteq> []"
  shows "item_ok g dir node ch y"
proof -
  obtain ss es ch' where y: "y = (ss, es, ch')" by (cases y)
  have "expanded_by g (set es) node i" "\<forall>c \<in> set (prerequisites (ordered_rules g ! i)). grounded g dir (set es) c"
    using assms by (auto simp: part_ok_def y expanded_by_def in_set_conv_nth)
  then have "grounded g dir (set es) node" by (rule grounded.rule)
  with assms(1) show ?thesis by (simp add: part_ok_def item_ok_def y)
qed


text \<open>Walking keeps every invariant that the consumer keeps on good items.\<close>

lemma walk_children_ok:
  assumes I: "budget_free I"
    and w: "\<And>c ch k st. (\<And>y s. item_ok g dir c ch y \<Longrightarrow> I s \<Longrightarrow> gen_ok I H (k y s)) \<Longrightarrow> I st \<Longrightarrow> gen_ok I H (w c ch k st)"
    and rule: "i < length (ordered_rules g)" "rule_target (ordered_rules g ! i) = node" "\<not> is_source g node"
      "prerequisites (ordered_rules g ! i) \<noteq> []"
    and k: "\<And>y s. item_ok g dir node ch y \<Longrightarrow> I s \<Longrightarrow> gen_ok I H (k y s)"
  shows "part_ok g dir node ch i j y \<Longrightarrow> cs = drop j (prerequisites (ordered_rules g ! i)) \<Longrightarrow> j \<le> length (prerequisites (ordered_rules g ! i))
    \<Longrightarrow> I st \<Longrightarrow> gen_ok I H (walk_children w i (ordered_rules g ! i) j cs y k st)"
proof (induction cs arbitrary: j y st)
  case Nil
  then have "j = length (prerequisites (ordered_rules g ! i))" by simp
  with Nil k part_ok_item [OF _ rule] show ?case by auto
next
  case (Cons c cs)
  then have j: "j < length (prerequisites (ordered_rules g ! i))" by (metis drop_all leI list.distinct(1))
  with Cons.prems(2) have c: "c = prerequisites (ordered_rules g ! i) ! j" "cs = drop (Suc j) (prerequisites (ordered_rules g ! i))"
    by (metis Cons_nth_drop_Suc list.inject)+
  obtain ss es ch1 where y: "y = (ss, es, ch1)" by (cases y)
  have "gen_ok I H (w c ch1 (\<lambda>(ss', es', choices') st'.
          gen_bind (walk_children w i (ordered_rules g ! i) (Suc j) cs
               (List.union ss' ss, List.insert (edge_of i (ordered_rules g ! i) j c) (List.union es' es), choices') k st') gen_spend) s)" if "I s" for s
  proof (rule w [OF _ that])
    fix y' s' assume y': "item_ok g dir c ch1 y'" and s': "I s'"
    obtain ss' es' ch2 where e: "y' = (ss', es', ch2)" by (cases y')
    have "part_ok g dir node ch i (Suc j) (List.union ss' ss, List.insert (edge_of i (ordered_rules g ! i) j c) (List.union es' es), ch2)"
      using part_ok_step [OF _ _ j c(1) rule(1-3)] Cons.prems(1) y' unfolding y e by blast
    then show "gen_ok I H ((\<lambda>(ss', es', choices') st'.
          gen_bind (walk_children w i (ordered_rules g ! i) (Suc j) cs
               (List.union ss' ss, List.insert (edge_of i (ordered_rules g ! i) j c) (List.union es' es), choices') k st') gen_spend) y' s')"
      using Cons.IH j c(2) s' gen_ok_spend [OF I] unfolding e by (auto intro!: gen_ok_bind)
  qed
  then show ?case
    using Cons.prems(4) gen_ok_spend [OF I] unfolding y by (auto intro!: gen_ok_bind)
qed

definition indexed_ok :: "dependency_graph \<Rightarrow> bool" where
  "indexed_ok g \<longleftrightarrow> (\<forall>v. \<forall>i \<in> set (dict_get (indexed_rules g) v []). i < length (ordered_rules g) \<and> rule_target (ordered_rules g ! i) = v)
     \<and> (\<forall>r \<in> set (ordered_rules g). prerequisites r \<noteq> [])"

lemma item_ok_source:
  "source_admits g dir node \<Longrightarrow> item_ok g dir node ch ([node], [], ch)"
  by (auto simp: item_ok_def edges_ok_def source_admits_is_source intro: grounded.source)

lemma part_ok_start:
  assumes "\<not> is_source g node" "\<not> (dict_has ch node \<and> map_of ch node \<noteq> Some i)"
  shows "part_ok g dir node ch i 0 ([], [], dict_set ch node i)"
  using assms by (auto simp: part_ok_def edges_ok_def map_of_dict_set map_le_def dict_has_def)

lemma walk_ok:
  assumes I: "budget_free I" and ix: "indexed_ok g"
    and viable: "\<And>v. v \<in> set viable \<Longrightarrow> is_source g v \<Longrightarrow> source_admits g dir v"
  shows "(\<And>y s. item_ok g dir node ch y \<Longrightarrow> I s \<Longrightarrow> gen_ok I H (k y s)) \<Longrightarrow> I st \<Longrightarrow> gen_ok I H (walk n g viable seen node ch k st)"
proof (induction n arbitrary: seen node ch k st)
  case 0
  then show ?case
    using gen_ok_spend [OF I] item_ok_source viable by (auto intro!: gen_ok_bind)
next
  case (Suc n)
  have rule: "gen_ok I H (gen_bind (gen_spend s) (\<lambda>st.
           if dict_has ch node \<and> map_of ch node \<noteq> Some i then Go st
           else (let r = ordered_rules g ! i in
             if \<not> set (prerequisites r) \<subseteq> set viable then Go st
             else walk_children (walk n g viable (node # seen)) i r 0 (prerequisites r) ([], [], dict_set ch node i) k st)))"
    if "\<not> is_source g node" "i \<in> set (dict_get (indexed_rules g) node [])" "I s" for i s
  proof -
    have r: "i < length (ordered_rules g)" "rule_target (ordered_rules g ! i) = node" "prerequisites (ordered_rules g ! i) \<noteq> []"
      using ix that(2) by (auto simp: indexed_ok_def)
    have "gen_ok I H (walk_children (walk n g viable (node # seen)) i (ordered_rules g ! i) 0 (prerequisites (ordered_rules g ! i))
        ([], [], dict_set ch node i) k st)" if "\<not> (dict_has ch node \<and> map_of ch node \<noteq> Some i)" "I st" for st
      by (rule walk_children_ok [OF I Suc.IH r(1,2) \<open>\<not> is_source g node\<close> r(3) Suc.prems(1) part_ok_start [OF \<open>\<not> is_source g node\<close> that(1)] _ _ that(2)]) auto
    then show ?thesis
      using gen_ok_spend [OF I that(3)] by (auto intro!: gen_ok_bind simp: Let_def)
  qed
  show ?case
    unfolding walk.simps(2)
  proof (rule gen_ok_bind [OF gen_ok_spend [OF I Suc.prems(2)]])
    fix s assume "I s"
    consider "node \<notin> set viable" | "node \<in> set viable" "is_source g node" | "node \<in> set viable" "\<not> is_source g node" by blast
    then show "gen_ok I H (if node \<notin> set viable then Go s
       else if is_source g node then k ([node], [], ch) s
       else if node \<in> set seen then Go s
       else gen_fold (\<lambda>i st. gen_bind (gen_spend st) (\<lambda>st.
           if dict_has ch node \<and> map_of ch node \<noteq> Some i then Go st
           else (let r = ordered_rules g ! i in
             if \<not> set (prerequisites r) \<subseteq> set viable then Go st
             else walk_children (walk n g viable (node # seen)) i r 0 (prerequisites r)
               ([], [], dict_set ch node i) k st)))
         (dict_get (indexed_rules g) node []) s)"
    proof cases
      case 2
      then show ?thesis using Suc.prems(1) [OF item_ok_source [OF viable]] \<open>I s\<close> by simp
    next
      case 3
      have "gen_ok I H (gen_fold (\<lambda>i st. gen_bind (gen_spend st) (\<lambda>st.
           if dict_has ch node \<and> map_of ch node \<noteq> Some i then Go st
           else (let r = ordered_rules g ! i in
             if \<not> set (prerequisites r) \<subseteq> set viable then Go st
             else walk_children (walk n g viable (node # seen)) i r 0 (prerequisites r)
               ([], [], dict_set ch node i) k st)))
         (dict_get (indexed_rules g) node []) s)"
        using rule [OF 3(2)] \<open>I s\<close> by (intro gen_ok_fold)
      with 3 \<open>I s\<close> show ?thesis by simp
    qed (use \<open>I s\<close> in simp)
  qed
qed

definition reverse_ok :: "dependency_graph \<Rightarrow> (string, nat list) dict \<Rightarrow> bool" where
  "reverse_ok g rv \<longleftrightarrow> (\<forall>c. \<forall>i \<in> set (dict_get rv c []). \<not> is_source g (rule_target (ordered_rules g ! i)))"

lemma dict_push_get: "dict_get (dict_push d k v) k' [] = (if k' = k then dict_get d k [] @ [v] else dict_get d k' [])"
  by (simp add: dict_push_def dict_get_set)

lemma index_children_ok:
  assumes "reverse_ok g rv" "\<not> is_source g (rule_target (ordered_rules g ! i))"
    and "fold_res (\<lambda>(rv, b) c. res_bind (spend 1 b) (\<lambda>b'. Inr (dict_push rv c i, b'))) (rv, b) cs = Inr (rv', b')"
  shows "reverse_ok g rv'"
  using assms(1,3)
proof (induction cs arbitrary: rv b)
  case (Cons c cs)
  have "reverse_ok g (dict_push rv c i)"
    using Cons.prems(1) assms(2) by (auto simp: reverse_ok_def dict_push_get split: if_splits)
  with Cons show ?case by auto
qed simp

lemma index_rules_ok:
  assumes "reverse_ok g rv" "\<forall>(i, r) \<in> set irs. ordered_rules g ! i = r"
    and "fold_res (index_rule g) (p, rv, b) irs = Inr (p', rv', b')"
  shows "reverse_ok g rv'"
  using assms
proof (induction irs arbitrary: p rv b)
  case (Cons ir irs)
  obtain i r where ir: "ir = (i, r)" by (cases ir)
  obtain p1 rv1 b1 where st: "index_rule g (p, rv, b) (i, r) = Inr (p1, rv1, b1)"
      "fold_res (index_rule g) (p1, rv1, b1) irs = Inr (p', rv', b')"
    using Cons.prems(3) by (auto simp: ir)
  have "reverse_ok g rv1"
    using st(1) Cons.prems(1,2) by (auto simp: index_rule_def ir split: if_splits dest: index_children_ok)
  then show ?case using Cons.IH st(2) Cons.prems(2) by simp
qed simp

lemma relax_ok:
  assumes "\<forall>v \<in> set viable. is_source g v \<longrightarrow> source_admits g dir v" "\<forall>i \<in> set js. \<not> is_source g (rule_target (ordered_rules g ! i))"
    and "fold_res (relax g) (q, viable, p, b) js = Inr (q', viable', p', b')"
  shows "\<forall>v \<in> set viable'. is_source g v \<longrightarrow> source_admits g dir v"
  using assms
proof (induction js arbitrary: q viable p b)
  case (Cons i js)
  obtain q1 v1 p1 b1 where st: "relax g (q, viable, p, b) i = Inr (q1, v1, p1, b1)"
      "fold_res (relax g) (q1, v1, p1, b1) js = Inr (q', viable', p', b')"
    using Cons.prems(3) by auto
  have "\<forall>v \<in> set v1. is_source g v \<longrightarrow> source_admits g dir v"
    using st(1) Cons.prems(1,2) by (auto simp: relax_def Let_def split: if_splits)
  then show ?case using Cons.IH st(2) Cons.prems(2) by simp
qed simp

lemma viability_ok:
  assumes "reverse_ok g rv" "\<forall>v \<in> set viable. is_source g v \<longrightarrow> source_admits g dir v"
    and "viability g rv q viable p b = Inr (viable', b')"
  shows "\<forall>v \<in> set viable'. is_source g v \<longrightarrow> source_admits g dir v"
  using assms
proof (induction g rv q viable p b rule: viability.induct)
  case (2 g rv node q viable p b)
  obtain b1 q2 v2 p2 b2 where st: "spend 1 b = Inr b1" "fold_res (relax g) (q, viable, p, b1) (dict_get rv node []) = Inr (q2, v2, p2, b2)"
      "viability g rv q2 v2 p2 b2 = Inr (viable', b')"
    using "2.prems"(3) by (auto simp del: spend_Inr split: sum.splits)
  have "\<forall>v \<in> set v2. is_source g v \<longrightarrow> source_admits g dir v"
    using relax_ok [OF "2.prems"(2) _ st(2)] "2.prems"(1) by (simp add: reverse_ok_def)
  with "2.IH" [OF st(1,2)] "2.prems"(1) st(3) show ?case by blast
qed simp

lemma group_indices_iff: "i \<in> set (dict_get (group_indices rs) v []) \<longleftrightarrow> i < length rs \<and> rule_target (rs ! i) = v"
proof (induction rs rule: rev_induct)
  case (snoc r rs)
  have "group_indices (rs @ [r]) = dict_push (group_indices rs) (rule_target r) (length rs)"
    by (simp add: group_indices_def enumerate_append_eq)
  with snoc show ?case by (auto simp: dict_push_get nth_append less_Suc_eq)
qed (simp add: group_indices_def dict_get_def)

lemma make_graph_indexed:
  assumes "make_graph ss rs = Inr g" "\<forall>r \<in> set rs. make_dependency_rule r = Inr r"
  shows "indexed_ok g"
proof -
  have "indexed_rules g = group_indices rs" "ordered_rules g = rs"
    using assms(1) by (auto simp: make_graph_def Let_def split: if_splits)
  moreover have "prerequisites r \<noteq> []" if "r \<in> set rs" for r
    using assms(2) that by (force simp: make_dependency_rule_def split: if_splits)
  ultimately show ?thesis by (auto simp: indexed_ok_def group_indices_iff)
qed

text \<open>An item for the target becomes an authentic path.\<close>

lemma item_proof_path:
  assumes "item_ok g dir target ch (ss, es, ch')" "target \<noteq> []" "dir \<in> set DIRECTIONS" "\<forall>ks \<in> set (graph_sources g). fst ks \<noteq> []"
  shows "proof_path g dir \<lparr>path_target = target, source_ids = sort ss, path_edges = sort_key edge_key es\<rparr>"
proof -
  let ?E = "set es"
  have gr: "grounded g dir ?E target" and ok: "edges_ok g target (ss, es, ch')" using assms(1) by (auto simp: item_ok_def)
  have e: "\<forall>e \<in> ?E. graph_edge g e \<and> \<not> is_source g (edge_target e) \<and> map_of ch' (edge_target e) = Some (nat (rule_index e)) \<and> reached ?E target (edge_target e)"
    and ss: "set ss = {x \<in> insert target (prerequisite ` ?E). is_source g x}" and d: "distinct ss" "distinct es"
    using ok by (simp_all add: edges_ok_def)
  have nodes: "{v. reached ?E target v} = insert target (prerequisite ` ?E)"
    using e by (intro reached_nodes) blast
  have idx: "int (nat (rule_index e)) = rule_index e" if "e \<in> ?E" for e
    using e that by (auto simp: graph_edge_def)
  have "selection g ?E"
    unfolding selection_def using e idx by (metis option.inject)
  moreover have src: "set ss = {v. reached ?E target v \<and> is_source g v}"
    using ss nodes by blast
  moreover have "[] \<notin> set ss"
    using ss assms(4) by (auto simp: is_source_def dict_has_keys)
  moreover have "ss \<noteq> []"
  proof -
    have "grounded g dir ?E v \<Longrightarrow> reached ?E target v \<Longrightarrow> \<exists>x. reached ?E target x \<and> is_source g x" for v
    proof (induction rule: grounded.induct)
      case (rule v i)
      then have "edge_of i (ordered_rules g ! i) 0 (prerequisites (ordered_rules g ! i) ! 0) \<in> ?E" "prerequisites (ordered_rules g ! i) \<noteq> []"
          "rule_target (ordered_rules g ! i) = v"
        by (auto simp: expanded_by_def)
      then have "reached ?E target (prerequisites (ordered_rules g ! i) ! 0)"
        using reached.edge [OF rule.prems] by fastforce
      then show ?case using rule.IH \<open>prerequisites (ordered_rules g ! i) \<noteq> []\<close> by (meson length_greater_0_conv nth_mem)
    qed (auto dest: source_admits_is_source)
    from this [OF gr reached.start] have "set ss \<noteq> {}" unfolding src by blast
    then show ?thesis by simp
  qed
  moreover have "sort ss = [] \<longleftrightarrow> ss = []" using length_sort [of "\<lambda>x. x" ss] by (metis length_0_conv)
  ultimately show ?thesis
    using assms(2,3) d e gr unfolding proof_path_def by simp
qed


lemma edge_paths_identified:
  assumes "make_graph ss rs = Inr g" and "\<forall>r \<in> set rs. make_dependency_rule r = Inr r"
    and "edge_paths_to g target dir max_depth max_paths = Inr ps"
  shows "int (length ps) \<le> max_paths \<and> distinct ps \<and> (\<forall>p \<in> set ps. path_target p = target \<and> is_ok (path_identity g p dir))"
proof -
  let ?src = "map fst (filter (\<lambda>ks. dir \<in> set (src_directions (snd ks))) (graph_sources g))"
  obtain d b0 pend rv b1 viable b where req: "target \<noteq> []" "dir \<in> set DIRECTIONS" "1 \<le> max_paths" and doc: "edge_document g = Inr d"
      and ix: "fold_res (index_rule g) ([], [], b0) (List.enumerate 0 (ordered_rules g)) = Inr (pend, rv, b1)"
      and vi: "viability g rv ?src ?src pend b1 = Inr (viable, b)"
      and run: "(case walk (nat max_depth) g viable [] target [] (emit target max_paths) \<lparr>budget_left = b, found = []\<rparr> of
            Go st \<Rightarrow> Inr (found st) | Halt st \<Rightarrow> Inr (found st) | Fail e \<Rightarrow> Inl e) = Inr ps"
    using assms(3) by (auto simp: edge_paths_to_def Let_def simp del: spend_Inr split: if_splits)
  have ids: "\<forall>ks \<in> set (graph_sources g). fst ks \<noteq> []"
    using doc by (auto simp: edge_document_def Let_def source_identity_ok_def split: if_splits)
  have "dict_wf (graph_sources g)"
    using assms(1) by (auto simp: make_graph_def Let_def split: if_splits)
  then have "\<forall>v \<in> set ?src. is_source g v \<longrightarrow> source_admits g dir v"
    by (auto simp: source_admits_def)
  moreover have "reverse_ok g rv"
    by (rule index_rules_ok [OF _ _ ix]) (auto simp: reverse_ok_def dict_get_def in_set_enumerate_eq)
  ultimately have via: "\<And>v. v \<in> set viable \<Longrightarrow> is_source g v \<Longrightarrow> source_admits g dir v"
    using viability_ok [OF _ _ vi] by blast
  let ?H = "\<lambda>st. int (length (found st)) \<le> max_paths \<and> distinct (found st) \<and> (\<forall>p \<in> set (found st). path_target p = target \<and> proof_path g dir p)"
  let ?I = "\<lambda>st. ?H st \<and> int (length (found st)) < max_paths"
  have k: "gen_ok ?I ?H (emit target max_paths y st)" if "item_ok g dir target [] y" "?I st" for y st
  proof -
    obtain ss es ch where y: "y = (ss, es, ch)" by (cases y)
    show ?thesis
      using item_proof_path [OF _ req(1,2) ids] that by (auto simp: y emit_def Let_def)
  qed
  have "gen_ok ?I ?H (walk (nat max_depth) g viable [] target [] (emit target max_paths) \<lparr>budget_left = b, found = []\<rparr>)"
    by (rule walk_ok [OF _ make_graph_indexed [OF assms(1,2)] via k]) (use req in \<open>auto simp: budget_free_def\<close>)
  then show ?thesis
    using run doc by (auto simp: path_identity_iff split: gen.splits)
qed

text \<open>C17: Every proof graph that the enumeration returns is authenticated: for a graph built from validated rules and any
  depth, path and work bounds, each returned path is for the requested target and \<open>path_identity\<close> accepts it; there are at
  most \<open>max_paths\<close> of them and no two are equal.\<close>

theorem edge_paths_authentic:
  assumes "make_graph ss rs = Inr g" and "\<forall>r \<in> set rs. make_dependency_rule r = Inr r"
    and "edge_paths_to g target dir max_depth max_paths = Inr ps"
  shows "int (length ps) \<le> max_paths \<and> distinct ps \<and> (\<forall>p \<in> set ps. path_target p = target \<and> is_ok (path_identity g p dir))"
  by (rule edge_paths_identified [OF assms])

lemma example_edge_paths: "\<exists>p. edge_paths_to example_graph ''t'' ''CPU_TO_IP'' 16 64 = Inr [p] \<and> source_ids p = [''s1'', ''s2''] \<and> length (path_edges p) = 3"
proof -
  have "(case edge_paths_to example_graph ''t'' ''CPU_TO_IP'' 16 64 of Inr [p] \<Rightarrow> source_ids p = [''s1'', ''s2''] \<and> length (path_edges p) = 3 | _ \<Rightarrow> False)"
    by code_simp
  then show ?thesis by (auto split: sum.splits list.splits)
qed

theorem edge_paths_authentic_witness:
  "\<exists>p. edge_paths_to example_graph ''t'' ''CPU_TO_IP'' 16 64 = Inr [p] \<and> source_ids p = [''s1'', ''s2''] \<and> is_ok (path_identity example_graph p ''CPU_TO_IP'')"
proof -
  have "\<forall>r \<in> set example_rules. make_dependency_rule r = Inr r" by code_simp
  note auth = edge_paths_authentic [OF example_graph_made this]
  obtain p where "edge_paths_to example_graph ''t'' ''CPU_TO_IP'' 16 64 = Inr [p]" "source_ids p = [''s1'', ''s2'']"
    using example_edge_paths by blast
  with auth [OF this(1)] show ?thesis by simp
qed

end
