(* ===== verification/Viability.thy ===== *)
theory Viability
  imports Dependency_Proofs
begin

text \<open>
  The reachability pass of \<open>edge_paths_to\<close> (\<open>scenario/dependency.py\<close>): the index of the rules by prerequisite, the worklist over it,
  the work the pass needs and the nodes it finds. The definitions are those of \<open>index_rule\<close>, \<open>relax\<close> and \<open>viability\<close> in the theory
  \<open>Dependency\<close>; the proof keeps the counters of the rules, the visited nodes and the remaining work in one invariant.
\<close>

section \<open>The index of the rules\<close>

text \<open>The rules that can derive a node: the target of the others is a source, which is terminal.\<close>

definition deriving :: "dependency_graph \<Rightarrow> nat set" where
  "deriving g = {i. i < length (ordered_rules g) \<and> \<not> is_source g (rule_target (ordered_rules g ! i))}"

definition indexed :: "dependency_graph \<Rightarrow> nat \<Rightarrow> (nat, int) dict \<Rightarrow> (string, nat list) dict \<Rightarrow> bool" where
  "indexed g n pending reverse \<longleftrightarrow>
     (\<forall>i. dict_get pending i 0 = (if i < n \<and> i \<in> deriving g then int (length (prerequisites (ordered_rules g ! i))) else 0))
     \<and> (\<forall>c i. count_list (dict_get reverse c []) i
         = (if i < n \<and> i \<in> deriving g then count_list (prerequisites (ordered_rules g ! i)) c else 0))"

lemma index_children:
  assumes "fold_res (\<lambda>(rv, b) c. res_bind (spend 1 b) (\<lambda>b'. Inr (dict_push rv c i, b'))) (rv, b) cs = Inr (rv', b')"
  shows "count_list (dict_get rv' c []) j = count_list (dict_get rv c []) j + (if j = i then count_list cs c else 0)"
  using assms
proof (induction cs arbitrary: rv b)
  case (Cons d cs)
  then have "count_list (dict_get rv' c []) j = count_list (dict_get (dict_push rv d i) c []) j + (if j = i then count_list cs c else 0)" by auto
  then show ?case by (simp add: dict_push_get)
qed simp

lemma index_rule_indexed:
  assumes "indexed g n p rv" "n < length (ordered_rules g)" "index_rule g (p, rv, b) (n, ordered_rules g ! n) = Inr (p', rv', b')"
  shows "indexed g (Suc n) p' rv'"
proof (cases "n \<in> deriving g")
  case False
  then have "is_source g (rule_target (ordered_rules g ! n))" using assms(2) by (simp add: deriving_def)
  then have "p' = p" "rv' = rv" using assms(3) by (simp_all add: index_rule_def)
  then show ?thesis using assms(1) False by (auto simp: indexed_def less_Suc_eq)
next
  case True
  let ?cs = "prerequisites (ordered_rules g ! n)"
  obtain b1 b2 where st: "fold_res (\<lambda>(rv, b) c. res_bind (spend 1 b) (\<lambda>b'. Inr (dict_push rv c n, b'))) (rv, b1) ?cs = Inr (rv', b2)"
      and p': "p' = dict_set p n (int (length ?cs))"
    using assms(3) True by (auto simp: index_rule_def deriving_def)
  show ?thesis
    using assms(1) True by (auto simp: indexed_def less_Suc_eq p' dict_get_set index_children [OF st])
qed

lemma index_rules_indexed:
  assumes "fold_res (index_rule g) ([], [], b0) (List.enumerate 0 (ordered_rules g)) = Inr (pending, reverse, b)"
  shows "indexed g (length (ordered_rules g)) pending reverse"
proof -
  let ?rs = "List.enumerate 0 (ordered_rules g)"
  have "fold_res (index_rule g) ([], [], b0) (take n ?rs) = Inr (p, rv, b') \<Longrightarrow> indexed g n p rv" if "n \<le> length (ordered_rules g)" for n p rv b'
    using that
  proof (induction n arbitrary: p rv b')
    case 0
    then show ?case by (simp add: indexed_def dict_get_def)
  next
    case (Suc n)
    have "take (Suc n) ?rs = take n ?rs @ [(n, ordered_rules g ! n)]"
      using Suc.prems by (simp add: take_Suc_conv_app_nth nth_enumerate_eq)
    then obtain p1 rv1 b1 where "fold_res (index_rule g) ([], [], b0) (take n ?rs) = Inr (p1, rv1, b1)"
        "index_rule g (p1, rv1, b1) (n, ordered_rules g ! n) = Inr (p, rv, b')"
      using Suc.prems(1) by (auto simp: fold_res_append)
    with Suc index_rule_indexed show ?case by (meson Suc_leD Suc_le_lessD)
  qed
  from this [of "length (ordered_rules g)"] assms show ?thesis by simp
qed

section \<open>The worklist computes the derivable nodes\<close>

inductive viable_node :: "dependency_graph \<Rightarrow> string \<Rightarrow> string \<Rightarrow> bool" for g dir where
  leaf: "source_admits g dir v \<Longrightarrow> viable_node g dir v"
| rule: "i \<in> deriving g \<Longrightarrow> v = rule_target (ordered_rules g ! i) \<Longrightarrow> \<forall>c \<in> set (prerequisites (ordered_rules g ! i)). viable_node g dir c
    \<Longrightarrow> viable_node g dir v"

text \<open>The state of the worklist when the rules \<open>js\<close> of the popped node have still to be visited; \<open>popped\<close> are the nodes popped so far.\<close>

definition worklist :: "dependency_graph \<Rightarrow> string \<Rightarrow> string set \<Rightarrow> nat list \<Rightarrow> string list \<times> string list \<times> (nat, int) dict \<times> int \<Rightarrow> bool" where
  "worklist g dir popped js st = (case st of (q, V, P, b) \<Rightarrow>
     distinct q \<and> set V = popped \<union> set q \<and> popped \<inter> set q = {}
     \<and> (\<forall>v. source_admits g dir v \<longrightarrow> v \<in> set V) \<and> (\<forall>v \<in> set V. viable_node g dir v)
     \<and> (\<forall>i \<in> deriving g. dict_get P i 0 = int (length (filter (\<lambda>c. c \<notin> popped) (prerequisites (ordered_rules g ! i)))) + int (count_list js i)
         \<and> (dict_get P i 0 = 0 \<longrightarrow> rule_target (ordered_rules g ! i) \<in> set V)))"

text \<open>The work that is left: queued nodes, nodes that may still be queued, and prerequisites that were not counted yet.\<close>

definition rule_targets :: "dependency_graph \<Rightarrow> string set" where
  "rule_targets g = (\<lambda>i. rule_target (ordered_rules g ! i)) ` deriving g"

definition work_left :: "dependency_graph \<Rightarrow> string list \<times> string list \<times> (nat, int) dict \<times> int \<Rightarrow> int" where
  "work_left g st = (case st of (q, V, P, b) \<Rightarrow> int (length q) + int (card (rule_targets g - set V)) + (\<Sum>i \<in> deriving g. dict_get P i 0))"

lemma finite_deriving [simp]: "finite (deriving g)"
  by (simp add: deriving_def)

lemma finite_rule_targets [simp]: "finite (rule_targets g)"
  by (simp add: rule_targets_def)

lemma relax_work:
  assumes w: "worklist g dir popped (i # js) (q, V, P, b)" and i: "i \<in> deriving g" and b: "1 \<le> b"
  shows "\<exists>q' V' P'. relax g (q, V, P, b) i = Inr (q', V', P', b - 1) \<and> worklist g dir popped js (q', V', P', b - 1)
    \<and> work_left g (q', V', P', b - 1) = work_left g (q, V, P, b) - 1"
proof -
  let ?r = "ordered_rules g ! i"
  define P' where "P' = dict_set P i (dict_get P i 0 - 1)"
  have P': "dict_get P' k 0 = (if k = i then dict_get P i 0 - 1 else dict_get P k 0)" for k
    by (simp add: P'_def dict_get_set)
  have sum: "(\<Sum>k \<in> deriving g. dict_get P' k 0) = (\<Sum>k \<in> deriving g. dict_get P k 0) - 1"
    using i by (simp add: P' sum.remove [of _ i])
  have pend: "dict_get P i 0 - 1 = int (length (filter (\<lambda>c. c \<notin> popped) (prerequisites ?r))) + int (count_list js i)"
    using w i by (auto simp: worklist_def)
  show ?thesis
  proof (cases "dict_get P i 0 - 1 = 0 \<and> rule_target ?r \<notin> set V")
    case True
    let ?t = "rule_target ?r"
    have "length (filter (\<lambda>c. c \<notin> popped) (prerequisites ?r)) = 0" using pend True by linarith
    then have "\<forall>c \<in> set (prerequisites ?r). c \<in> popped" by (simp add: filter_empty_conv)
    then have via: "viable_node g dir ?t" using w i by (intro viable_node.rule [OF i refl]) (auto simp: worklist_def)
    have "?t \<in> rule_targets g - set V" using i True by (simp add: rule_targets_def)
    moreover have "rule_targets g - set (V @ [?t]) = (rule_targets g - set V) - {?t}" by auto
    ultimately have card: "card (rule_targets g - set V) = Suc (card (rule_targets g - set (V @ [?t])))"
      by (metis card_Suc_Diff1 finite_Diff finite_rule_targets)
    have "relax g (q, V, P, b) i = Inr (q @ [?t], V @ [?t], P', b - 1)"
      using True b by (simp add: relax_def Let_def P'_def spend_def)
    moreover have "worklist g dir popped js (q @ [?t], V @ [?t], P', b - 1)"
      using w via True by (auto simp: worklist_def P')
    moreover have "work_left g (q @ [?t], V @ [?t], P', b - 1) = work_left g (q, V, P, b) - 1"
      using card sum by (simp add: work_left_def)
    ultimately show ?thesis by blast
  next
    case False
    have "relax g (q, V, P, b) i = Inr (q, V, P', b - 1)"
      using False b by (auto simp: relax_def Let_def P'_def spend_def)
    moreover have "worklist g dir popped js (q, V, P', b - 1)"
      using w False by (auto simp: worklist_def P')
    moreover have "work_left g (q, V, P', b - 1) = work_left g (q, V, P, b) - 1"
      using sum by (simp add: work_left_def)
    ultimately show ?thesis by blast
  qed
qed

lemma work_left_bounds:
  assumes "worklist g dir popped js (q, V, P, b)"
  shows "int (length q) \<le> work_left g (q, V, P, b)" "i \<in> deriving g \<Longrightarrow> i \<in> set js \<Longrightarrow> 1 \<le> work_left g (q, V, P, b)"
proof -
  have P: "\<forall>i \<in> deriving g. 0 \<le> dict_get P i 0 \<and> int (count_list js i) \<le> dict_get P i 0" using assms by (auto simp: worklist_def)
  then have "0 \<le> (\<Sum>i \<in> deriving g. dict_get P i 0)" by (intro sum_nonneg) blast
  then show "int (length q) \<le> work_left g (q, V, P, b)" by (simp add: work_left_def)
  assume i: "i \<in> deriving g" "i \<in> set js"
  have "dict_get P i 0 \<le> (\<Sum>i \<in> deriving g. dict_get P i 0)" using P i(1) by (intro member_le_sum) auto
  moreover have "1 \<le> count_list js i" using i(2) by (metis One_nat_def Suc_leI count_list_0_iff gr0I)
  ultimately show "1 \<le> work_left g (q, V, P, b)" using P i(1) by (fastforce simp: work_left_def)
qed

lemma relax_all_work:
  assumes "worklist g dir popped js (q, V, P, b)" "set js \<subseteq> deriving g" "work_left g (q, V, P, b) \<le> b"
  shows "\<exists>q' V' P' b'. fold_res (relax g) (q, V, P, b) js = Inr (q', V', P', b') \<and> worklist g dir popped [] (q', V', P', b')
    \<and> b' - work_left g (q', V', P', b') = b - work_left g (q, V, P, b)"
  using assms
proof (induction js arbitrary: q V P b)
  case (Cons i js)
  have i: "i \<in> deriving g" using Cons.prems(2) by simp
  then have "1 \<le> b" using work_left_bounds(2) [OF Cons.prems(1)] Cons.prems(3) by fastforce
  from relax_work [OF Cons.prems(1) i this] obtain q' V' P' where r: "relax g (q, V, P, b) i = Inr (q', V', P', b - 1)"
      "worklist g dir popped js (q', V', P', b - 1)" "work_left g (q', V', P', b - 1) = work_left g (q, V, P, b) - 1" by blast
  from Cons.IH [OF r(2)] Cons.prems(2,3) r(1,3) show ?case by fastforce
qed auto

lemma worklist_pop:
  assumes w: "worklist g dir popped [] (node # q, V, P, b)" and ix: "\<forall>i \<in> deriving g. count_list js i = count_list (prerequisites (ordered_rules g ! i)) node"
  shows "worklist g dir (insert node popped) js (q, V, P, b')"
proof -
  have n: "node \<notin> popped" using w by (auto simp: worklist_def)
  have "length (filter (\<lambda>c. c \<notin> popped) cs) = length (filter (\<lambda>c. c \<notin> insert node popped) cs) + count_list cs node" for cs
    using n by (induction cs) auto
  with w ix show ?thesis by (auto simp: worklist_def)
qed

lemma viability_exact_aux:
  assumes ix: "\<forall>c i. count_list (dict_get reverse c []) i = (if i \<in> deriving g then count_list (prerequisites (ordered_rules g ! i)) c else 0)"
    and "worklist g dir popped [] (q, V, P, b)" "work_left g (q, V, P, b) \<le> b"
  shows "\<exists>V' b'. viability g reverse q V P b = Inr (V', b') \<and> (\<forall>v. v \<in> set V' \<longleftrightarrow> viable_node g dir v) \<and> b - work_left g (q, V, P, b) \<le> b'"
  using assms
proof (induction g reverse q V P b arbitrary: popped rule: viability.induct)
  case (1 g reverse V P b)
  have "v \<in> set V" if "viable_node g dir v" for v
    using that "1.prems"(2)
  proof (induction rule: viable_node.induct)
    case (rule i v)
    then have "filter (\<lambda>c. c \<notin> popped) (prerequisites (ordered_rules g ! i)) = []" by (auto simp: worklist_def filter_empty_conv)
    with rule show ?case by (auto simp: worklist_def)
  qed (auto simp: worklist_def)
  with "1.prems"(2) show ?case using work_left_bounds(1) [OF "1.prems"(2)] by (auto simp: worklist_def)
next
  case (2 g reverse node q V P b)
  let ?js = "dict_get reverse node []"
  have js: "set ?js \<subseteq> deriving g" using "2.prems"(1) by (metis count_list_0_iff subsetI)
  have w: "worklist g dir (insert node popped) ?js (q, V, P, b - 1)"
    using worklist_pop [OF "2.prems"(2)] "2.prems"(1) by simp
  have wl: "work_left g (q, V, P, b - 1) = work_left g (node # q, V, P, b) - 1" by (simp add: work_left_def)
  have b: "1 \<le> b" using work_left_bounds(1) [OF "2.prems"(2)] "2.prems"(3) by simp
  have sp: "spend 1 b = Inr (b - 1)" using b by simp
  obtain q' V' P' b' where r: "fold_res (relax g) (q, V, P, b - 1) ?js = Inr (q', V', P', b')" "worklist g dir (insert node popped) [] (q', V', P', b')"
      "b' - work_left g (q', V', P', b') = b - work_left g (node # q, V, P, b)"
    using relax_all_work [OF w js] wl "2.prems"(3) by fastforce
  have "\<exists>V'' b''. viability g reverse q' V' P' b' = Inr (V'', b'') \<and> (\<forall>v. v \<in> set V'' \<longleftrightarrow> viable_node g dir v) \<and> b' - work_left g (q', V', P', b') \<le> b''"
    using "2.prems"(3) r(3) by (intro "2.IH" [OF sp r(1) refl refl refl "2.prems"(1) r(2)]) simp
  then show ?case using sp r(1,3) by (simp del: spend_Inr)
qed

lemma group_rules_member: "r \<in> set (dict_get (group_rules rs) v []) \<longleftrightarrow> r \<in> set rs \<and> rule_target r = v"
proof (induction rs rule: rev_induct)
  case (snoc x rs)
  have "group_rules (rs @ [x]) = dict_push (group_rules rs) (rule_target x) x" by (simp add: group_rules_def)
  with snoc show ?case by (auto simp: dict_push_get)
qed (simp add: group_rules_def dict_get_def)

lemma viable_derivable:
  assumes "make_graph ss rs = Inr g"
  shows "viable_node g dir v \<longleftrightarrow> (\<exists>n. derivable n g dir v)"
proof
  have g: "graph_rules g = group_rules rs" "ordered_rules g = rs" using assms by (auto simp: make_graph_def Let_def split: if_splits)
  show "\<exists>n. derivable n g dir v" if "viable_node g dir v"
    using that
  proof (induction rule: viable_node.induct)
    case (leaf v)
    then have "derivable 0 g dir v" by simp
    then show ?case ..
  next
    case (rule i v)
    let ?r = "ordered_rules g ! i"
    obtain f where f: "\<forall>c \<in> set (prerequisites ?r). derivable (f c) g dir c" using rule(3) by metis
    define m where "m = Max (insert 0 (f ` set (prerequisites ?r)))"
    have "f c \<le> m" if "c \<in> set (prerequisites ?r)" for c using that by (simp add: m_def)
    then have "\<forall>c \<in> set (prerequisites ?r). derivable m g dir c"
      using f derivable_mono by blast
    moreover have "?r \<in> set (dict_get (graph_rules g) v [])" "\<not> is_source g v"
      using rule(1,2) by (auto simp: g group_rules_member deriving_def)
    ultimately have "derivable (Suc m) g dir v" by auto
    then show ?case ..
  qed
  have "derivable n g dir v \<Longrightarrow> viable_node g dir v" for n
  proof (induction n arbitrary: v)
    case (Suc n)
    show ?case
    proof (cases "is_source g v")
      case False
      then obtain r where r: "r \<in> set rs" "rule_target r = v" "\<forall>c \<in> set (prerequisites r). viable_node g dir c"
        using Suc by (auto simp: g group_rules_member)
      then obtain i where "i < length rs" "rs ! i = r" by (auto simp: in_set_conv_nth)
      with r False show ?thesis by (intro viable_node.rule [of i]) (auto simp: deriving_def g)
    qed (use Suc in \<open>auto intro: viable_node.leaf\<close>)
  qed (auto intro: viable_node.leaf)
  then show "viable_node g dir v" if "\<exists>n. derivable n g dir v" using that by blast
qed

text \<open>C21: The reachability pass of \<open>edge_paths_to\<close> ends, with the right answer and in linear work. On a graph of validated rules the worklist returns
  exactly the nodes that can be derived from sources of the direction, by a derivation of any depth, cycles included. It visits each node and each prerequisite once:
  a budget of one unit for every source, rule and prerequisite of the graph is always enough, so that the work limit is never reported below it, and no more than that is spent.\<close>

theorem viability_exact:
  assumes g: "make_graph ss rs = Inr g" and rules: "\<forall>r \<in> set rs. make_dependency_rule r = Inr r"
    and ix: "fold_res (index_rule g) ([], [], b0) (List.enumerate 0 rs) = Inr (pending, reverse, b)"
    and sources: "sources = map fst (filter (\<lambda>ks. dir \<in> set (src_directions (snd ks))) (graph_sources g))"
    and budget: "int (length sources + length rs + (\<Sum>r\<leftarrow>rs. length (prerequisites r))) \<le> b"
  shows "\<exists>viable b'. viability g reverse sources sources pending b = Inr (viable, b')
    \<and> (\<forall>v. v \<in> set viable \<longleftrightarrow> (\<exists>n. derivable n g dir v))
    \<and> b - int (length sources + length rs + (\<Sum>r\<leftarrow>rs. length (prerequisites r))) \<le> b'"
proof -
  have ors: "ordered_rules g = rs" and wf: "dict_wf (graph_sources g)" using g by (auto simp: make_graph_def Let_def split: if_splits)
  have i: "indexed g (length rs) pending reverse" using index_rules_indexed [of g b0] ix by (simp add: ors)
  have drv: "\<And>k. k \<in> deriving g \<Longrightarrow> k < length rs" by (simp add: deriving_def ors)
  have src: "v \<in> set sources \<longleftrightarrow> source_admits g dir v" for v
  proof -
    have "v \<in> set sources \<longleftrightarrow> (\<exists>s. map_of (graph_sources g) v = Some s \<and> dir \<in> set (src_directions s))"
      using map_of_eq_Some_iff [OF wf] by (force simp: sources)
    then show ?thesis by (simp add: source_admits_def split: option.split)
  qed
  have ne: "prerequisites (rs ! k) \<noteq> []" if "k \<in> deriving g" for k
    using rules drv [OF that] by (auto simp: make_dependency_rule_def split: if_splits dest!: bspec [OF _ nth_mem])
  have ds: "distinct sources" using wf by (simp add: sources distinct_map_filter)
  have w: "worklist g dir {} [] (sources, sources, pending, b)"
    using i drv ne ds by (auto simp: worklist_def indexed_def src ors intro: viable_node.leaf)
  have "(\<Sum>k \<in> deriving g. dict_get pending k 0) = (\<Sum>k \<in> deriving g. int (length (prerequisites (rs ! k))))"
    using i drv by (intro sum.cong) (auto simp: indexed_def ors)
  also have "\<dots> \<le> (\<Sum>k < length rs. int (length (prerequisites (rs ! k))))"
    using drv by (intro sum_mono2) auto
  also have "\<dots> = int (\<Sum>r\<leftarrow>rs. length (prerequisites r))"
    by (simp add: sum_list_sum_nth atLeast0LessThan)
  finally have "(\<Sum>k \<in> deriving g. dict_get pending k 0) \<le> int (\<Sum>r\<leftarrow>rs. length (prerequisites r))" .
  moreover have "card (rule_targets g - set sources) \<le> length rs"
  proof -
    have "card (rule_targets g - set sources) \<le> card (rule_targets g)" by (simp add: card_mono)
    also have "\<dots> \<le> card (deriving g)" by (simp add: rule_targets_def card_image_le)
    also have "\<dots> \<le> card {..<length rs}" using drv by (intro card_mono) auto
    finally show ?thesis by simp
  qed
  ultimately have wl: "work_left g (sources, sources, pending, b) \<le> int (length sources + length rs + (\<Sum>r\<leftarrow>rs. length (prerequisites r)))"
    by (simp add: work_left_def)
  have "\<forall>c k. count_list (dict_get reverse c []) k = (if k \<in> deriving g then count_list (prerequisites (ordered_rules g ! k)) c else 0)"
    using i drv by (auto simp: indexed_def ors)
  from viability_exact_aux [OF this w] budget wl show ?thesis
    unfolding viable_derivable [OF g] by fastforce
qed

theorem viability_exact_witness:
  "\<exists>pending reverse b viable b'. fold_res (index_rule example_graph) ([], [], 100) (List.enumerate 0 example_rules) = Inr (pending, reverse, b)
     \<and> viability example_graph reverse [''s1'', ''s2''] [''s1'', ''s2''] pending b = Inr (viable, b')
     \<and> (\<forall>v. v \<in> set viable \<longleftrightarrow> (\<exists>n. derivable n example_graph ''CPU_TO_IP'' v))"
proof -
  have r: "\<forall>r \<in> set example_rules. make_dependency_rule r = Inr r" by code_simp
  obtain pending reverse b where ix: "fold_res (index_rule example_graph) ([], [], 100) (List.enumerate 0 example_rules) = Inr (pending, reverse, b)"
      and b: "b = 93"
  proof -
    have "(case fold_res (index_rule example_graph) ([], [], 100) (List.enumerate 0 example_rules) of Inl e \<Rightarrow> False | Inr (p, r, b) \<Rightarrow> b = 93)" by code_simp
    then show thesis using that by (auto split: sum.splits)
  qed
  have s: "[''s1'', ''s2''] = map fst (filter (\<lambda>ks. ''CPU_TO_IP'' \<in> set (src_directions (snd ks))) (graph_sources example_graph))" by code_simp
  have "int (length [''s1'', ''s2''] + length example_rules + (\<Sum>r\<leftarrow>example_rules. length (prerequisites r))) \<le> b"
    by (simp add: example_rules_def b)
  from viability_exact [OF example_graph_made r ix s this] ix show ?thesis by blast
qed

end
