(* ===== verification/Rfuzz.thy ===== *)
theory Rfuzz
  imports Mutation Viability
begin

text \<open>
  The record decoder (\<open>scenario/rfuzz_decoder.py\<close>): raw eight-byte records select a template, a path, a source, a bit
  and an action, and become one testcase. Of the runtime contract, which another module defines, the decoder reads the digest of the graph it was made for.
  The decoder mutates through its own graph and ownership objects only, which therefore have one reference each.
\<close>

section \<open>Decoders\<close>

definition RECORD_BYTES :: nat where
  "RECORD_BYTES = 8"

record decoder_template =
  target_id :: string
  template_genome :: scenario_genome

definition make_decoder_template :: "string \<Rightarrow> scenario_genome \<Rightarrow> decoder_template res" where
  "make_decoder_template t g =
     (if t = [] then Inl (ValueError ''decoder template requires a target and genome'') else Inr \<lparr>target_id = t, template_genome = g\<rparr>)"

record decoder =
  dec_graph :: dependency_graph
  dec_ownership :: ownership_map
  templates :: "decoder_template list"
  max_records :: int
  max_delay_ticks :: int
  dec_bindings :: "source_binding list option"
  runtime_contract :: "string option"
  paths_by_key :: "(string \<times> string, dependency_path list) dict"
  path_lookup :: "(string, string \<times> dependency_path) dict"
  path_ids :: "(string \<times> dependency_path, string) dict"
  mutation_authorizations :: "(string \<times> dependency_path \<times> string, authorization) dict"
  trusted_for_search :: bool

text \<open>The decoder's own immutable copy of the graph.\<close>

definition freeze_graph :: "dependency_graph \<Rightarrow> dependency_graph res" where
  "freeze_graph g =
     (let g' = \<lparr>graph_sources = graph_sources g, graph_rules = group_rules (ordered_rules g), ordered_rules = ordered_rules g,
                indexed_rules = group_indices (ordered_rules g), sources_frozen = True, decoder_path_proofs = []\<rparr> in
      res_bind (edge_document g') (\<lambda>_. Inr g'))"

text \<open>\<open>dict.fromkeys\<close>: the first occurrence of every element.\<close>

definition dict_fromkeys :: "'a list \<Rightarrow> 'a list" where
  "dict_fromkeys xs = rev (remdups (rev xs))"

type_synonym path_tables = "(string \<times> string, dependency_path list) dict \<times> (string, string \<times> dependency_path) dict \<times> (string \<times> dependency_path, string) dict"

definition register_path :: "dependency_graph \<Rightarrow> string \<Rightarrow> (string, string \<times> dependency_path) dict \<times> (string \<times> dependency_path, string) dict
    \<Rightarrow> dependency_path \<Rightarrow> ((string, string \<times> dependency_path) dict \<times> (string \<times> dependency_path, string) dict) res" where
  "register_path g dir acc p = (case acc of (lookup, ids) \<Rightarrow>
     res_bind (path_identity g p dir) (\<lambda>i. Inr (dict_set lookup i (dir, p), dict_set ids (dir, p) i)))"

definition register_template_target :: "dependency_graph \<Rightarrow> path_tables \<Rightarrow> string \<times> string \<Rightarrow> path_tables res" where
  "register_template_target g acc dt = (case (acc, dt) of ((paths, lookup, ids), (dir, target)) \<Rightarrow>
     res_bind (edge_paths_to g target dir 16 64) (\<lambda>selected.
       if selected = [] then Inl (ValueError ''template target lacks a reachable upstream path'')
       else res_bind (fold_res (register_path g dir) (lookup, ids) selected) (\<lambda>(lookup', ids').
         Inr (dict_set paths (dir, target) selected, lookup', ids'))))"

definition initialize_runtime_paths :: "decoder \<Rightarrow> string \<Rightarrow> (string \<times> string) list \<Rightarrow> decoder res" where
  "initialize_runtime_paths d contract targets =
     res_bind (freeze_graph (dec_graph d)) (\<lambda>g.
     res_bind (edge_document g) (\<lambda>doc.
       if contract \<noteq> edge_hash doc then Inl (ValueError ''runtime contract graph digest differs'')
       else res_bind (fold_res (register_template_target g) ([], [], []) (dict_fromkeys targets)) (\<lambda>(paths, lookup, ids).
         Inr (d\<lparr>runtime_contract := Some contract, dec_graph := g\<lparr>decoder_path_proofs := map fst ids\<rparr>,
                paths_by_key := paths, path_lookup := lookup, path_ids := ids\<rparr>))))"

definition runtime_paths :: "decoder \<Rightarrow> (string \<times> dependency_path) list" where
  "runtime_paths d = (if runtime_contract d \<noteq> None then map snd (path_lookup d) else [])"

definition paths_for :: "decoder \<Rightarrow> string \<Rightarrow> string \<Rightarrow> dependency_path list res" where
  "paths_for d t dir =
     (if runtime_contract d = None then default_paths (dec_graph d) t dir else Inr (dict_get (paths_by_key d) (dir, t) []))"

definition resolve_path_id :: "decoder \<Rightarrow> string \<Rightarrow> (string \<times> dependency_path) res" where
  "resolve_path_id d i =
     (if runtime_contract d = None then Inl (ValueError ''unknown runtime path identity'')
      else (case map_of (path_lookup d) i of None \<Rightarrow> Inl (ValueError ''unknown runtime path identity'') | Some p \<Rightarrow> Inr p))"

definition path_identifier :: "decoder \<Rightarrow> dependency_path \<Rightarrow> string \<Rightarrow> string res" where
  "path_identifier d p dir = (case map_of (path_ids d) (dir, p) of None \<Rightarrow> Inl (ValueError ''unknown runtime path'') | Some i \<Rightarrow> Inr i)"

definition path_mapping_document :: "decoder \<Rightarrow> json" where
  "path_mapping_document d = JList (map (\<lambda>(i, dir, p). JObj [(''direction'', JStr dir), (''path_id'', JStr i), (''target'', JStr (path_target p)),
     (''source_ids'', JList (map JStr (source_ids p))), (''edges'', JList (map edge_row (path_edges p)))]) (path_lookup d))"

text \<open>The templates that can mutate each image source.\<close>

definition image_source_genomes :: "decoder \<Rightarrow> (string, scenario_genome list) dict res" where
  "image_source_genomes d =
     res_bind (map_res (\<lambda>t. res_bind (paths_for d (target_id t) (genome_direction (template_genome t)))
         (\<lambda>ps. Inr (template_genome t, concat (map source_ids ps)))) (templates d)) (\<lambda>reach.
       Inr (map (\<lambda>ks. (fst ks, map fst (filter (\<lambda>gs. fst ks \<in> set (snd gs)) reach)))
         (filter (\<lambda>ks. src_kind (snd ks) = ''memory_image'') (graph_sources (dec_graph d)))))"

definition validate_decoder_bindings :: "decoder \<Rightarrow> unit res" where
  "validate_decoder_bindings d = (case dec_bindings d of
     None \<Rightarrow> Inr ()
   | Some bs \<Rightarrow> res_bind (image_source_genomes d) (\<lambda>imgs.
       validate_bindings bs (dec_graph d) (dec_ownership d) (map template_genome (templates d)) (Some imgs)))"

definition check_template_path :: "decoder \<Rightarrow> decoder_template \<Rightarrow> unit res" where
  "check_template_path d t = res_bind (paths_for d (target_id t) (genome_direction (template_genome t))) (\<lambda>ps.
     check (ps \<noteq> []) (ValueError ''template target lacks a reachable upstream path''))"

definition authorize :: "decoder \<Rightarrow> (string \<times> dependency_path \<times> string, authorization) dict \<Rightarrow> string \<times> dependency_path \<times> string
    \<Rightarrow> (string \<times> dependency_path \<times> string, authorization) dict res" where
  "authorize d acc k = (case k of (dir, p, sid) \<Rightarrow>
     res_bind (compile_mutation_authorization \<lparr>plan_direction = dir, plan_target = path_target p, plan_path = p, focus_source = sid\<rparr>
         0 (dec_graph d) 0 True (dec_ownership d)) (\<lambda>c. Inr (dict_set acc k c)))"

definition make_decoder :: "dependency_graph \<Rightarrow> ownership_map \<Rightarrow> decoder_template list \<Rightarrow> int \<Rightarrow> int \<Rightarrow> source_binding list option
    \<Rightarrow> string option \<Rightarrow> decoder res" where
  "make_decoder g ownership ts mr md bs contract =
     (if \<not> (1 \<le> length ts \<and> length ts \<le> 256) then Inl (ValueError ''decoder requires 1..256 templates'')
      else if \<not> (1 \<le> mr \<and> mr \<le> 200) \<or> md < 0 then Inl (ValueError ''decoder limits are invalid'')
      else
        (let d0 = \<lparr>dec_graph = g, dec_ownership = ownership, templates = ts, max_records = mr, max_delay_ticks = md, dec_bindings = bs,
                   runtime_contract = None, paths_by_key = [], path_lookup = [], path_ids = [], mutation_authorizations = [],
                   trusted_for_search = (bs \<noteq> None)\<rparr> in
         res_bind (case contract of None \<Rightarrow> Inr d0
           | Some c \<Rightarrow> initialize_runtime_paths d0 c (map (\<lambda>t. (genome_direction (template_genome t), target_id t)) ts)) (\<lambda>d.
         res_bind (validate_decoder_bindings d) (\<lambda>_.
         res_bind (check_all (check_template_path d) ts) (\<lambda>_.
         res_bind (fold_res (authorize d) [] (concat (map (\<lambda>(dir, p). map (\<lambda>sid. (dir, p, sid)) (source_ids p)) (runtime_paths d)))) (\<lambda>auths.
           Inr (d\<lparr>mutation_authorizations := auths\<rparr>)))))))"

section \<open>Decoding\<close>

definition action_choices :: "ownership_map \<Rightarrow> scenario_genome \<Rightarrow> fuzzable_source \<Rightarrow> int \<Rightarrow> string list res" where
  "action_choices ownership g s absolute =
     res_bind (map_res (\<lambda>a.
         if component a = src_component s \<and> port a = src_port s \<and> direction a = genome_direction g \<and> bit_offset a \<le> absolute
         then res_bind (case action_width a of Some w \<Rightarrow> (if w = 0 then field_width ownership (component a) (port a) else Inr w)
               | None \<Rightarrow> field_width ownership (component a) (port a))
           (\<lambda>w. Inr (if absolute < bit_offset a + w then [action_id a] else []))
         else Inr []) (actions g)) (\<lambda>ids. Inr (concat ids))"

definition bit_choice :: "ownership_map \<Rightarrow> scenario_genome \<Rightarrow> fuzzable_source \<Rightarrow> (int \<times> string list) list \<Rightarrow> int \<Rightarrow> (int \<times> string list) list res" where
  "bit_choice ownership g s acc index =
     (let absolute = src_offset s + index in
      res_bind (action_choices ownership g s absolute) (\<lambda>ids.
        if ids = [] then Inr acc
        else res_bind (mutation_source ownership (src_component s) (src_port s) absolute 1 (genome_direction g)) (\<lambda>_.
          Inr (acc @ [(index, ids)]))))"

definition choices :: "decoder \<Rightarrow> scenario_genome \<Rightarrow> fuzzable_source \<Rightarrow> (int \<times> string list) list res" where
  "choices d g s =
     (if src_width s > 8192 then Inl (ValueError ''source width exceeds decoder bound'')
      else if src_kind s = ''memory_image''
      then (case find (\<lambda>img. image_id img = src_port s \<and> image_component img = src_component s) (initial_images g) of
          None \<Rightarrow> Inr []
        | Some img \<Rightarrow> res_bind (image_data img) (\<lambda>data.
            Inr (map (\<lambda>i. (i, [])) (filter (\<lambda>i. src_offset s + i < int (length data) * 8) [0..src_width s - 1]))))
      else fold_res (bit_choice (dec_ownership d) g s) [] [0..src_width s - 1])"

definition delay_action :: "int \<Rightarrow> int \<Rightarrow> string \<Rightarrow> action \<Rightarrow> action res" where
  "delay_action max_delay extra aid a =
     (if action_id a = aid then make_action (a\<lparr>delay_ticks := min max_delay (delay_ticks a + extra)\<rparr>) else Inr a)"

definition record_byte :: "bytes \<Rightarrow> nat \<Rightarrow> nat" where
  "record_byte r i = unat (r ! i)"

text \<open>One record: no operation, a mutation, or a longer delay of the selected action.\<close>

definition decode_record :: "decoder \<Rightarrow> dependency_path \<Rightarrow> scenario_genome \<Rightarrow> bytes \<Rightarrow> scenario_genome res" where
  "decode_record d p g r =
     (let opcode = record_byte r 5 mod 3 in
      if opcode = 0 then Inr g
      else res_bind (map_res (\<lambda>sid. case map_of (graph_sources (dec_graph d)) sid of None \<Rightarrow> Inl (KeyError (py_repr sid)) | Some s \<Rightarrow> Inr s)
          (source_ids p)) (\<lambda>sources.
        let s = sources ! (record_byte r 2 mod length sources) in
        res_bind (choices d g s) (\<lambda>cs.
          if cs = [] then Inl (ValueError ''selected upstream source has no mutable genome field'')
          else
            (let selector = record_byte r 3 + 256 * record_byte r 7;
                 (bit_index, ids) = cs ! (selector mod length cs);
                 aid = (if ids = [] then None else Some (ids ! (record_byte r 4 mod length ids))) in
             if opcode = 1
             then mutate_genome g \<lparr>plan_direction = genome_direction g, plan_target = path_target p, plan_path = p, focus_source = src_id s\<rparr>
                 0 (dec_graph d) 0 (dec_ownership d) bit_index aid
                 (Some (if src_kind s = ''memory_image'' then \<lparr>target_kind = ''initial_image'', target_identifier = src_port s\<rparr>
                    else \<lparr>target_kind = ''genome_action'', target_identifier = (case aid of None \<Rightarrow> [] | Some i \<Rightarrow> i)\<rparr>))
                 (map_of (mutation_authorizations d) (genome_direction g, p, src_id s))
             else (case aid of
                 Some i \<Rightarrow> if src_kind s = ''source''
                   then res_bind (map_res (delay_action (max_delay_ticks d) (int (record_byte r 6)) i) (actions g)) (\<lambda>as.
                     make_genome (g\<lparr>actions := as\<rparr>))
                   else Inr g
               | None \<Rightarrow> Inr g)))))"

definition path_name :: "decoder \<Rightarrow> string \<Rightarrow> dependency_path \<Rightarrow> string \<Rightarrow> string res" where
  "path_name d t p dir =
     (if runtime_contract d \<noteq> None then path_identifier d p dir else Inr (t @ '':'' @ join '','' (source_ids p)))"

definition decode :: "decoder \<Rightarrow> bytes list \<Rightarrow> scenario_genome res" where
  "decode d records =
     res_bind (if runtime_contract d = None then validate_decoder_bindings d else Inr ()) (\<lambda>_.
       if \<not> (1 \<le> length records \<and> int (length records) \<le> max_records d) \<or> (\<exists>r \<in> set records. length r \<noteq> RECORD_BYTES)
       then Inl (ValueError ''RFuzz testcase needs 1..max_records eight bytes records'')
       else
         (let r0 = records ! 0; selected = templates d ! (record_byte r0 0 mod length (templates d)) in
          res_bind (paths_for d (target_id selected) (genome_direction (template_genome selected))) (\<lambda>paths.
            let p = paths ! (record_byte r0 1 mod length paths) in
            res_bind (fold_res (decode_record d p) (template_genome selected) records) (\<lambda>g.
              res_bind (path_name d (target_id selected) p (genome_direction g)) (\<lambda>name.
                make_genome (g\<lparr>testcase := ''rfuzz-'' @ take 24 (sha256_hex (concat records)), path_id := name\<rparr>))))))"

section \<open>Decoding changes values, delays and image bytes only\<close>

definition action_shape :: "action \<Rightarrow> action" where
  "action_shape a = a\<lparr>action_value := 0, delay_ticks := 0\<rparr>"

definition image_shape :: "memory_image \<Rightarrow> string \<times> string \<times> int \<times> nat" where
  "image_shape img = (image_id img, image_component img, image_address img, length (data_hex img))"

text \<open>Everything of a genome but action values, action delays, the bytes of its images and its names.\<close>

definition shape :: "scenario_genome \<Rightarrow> scenario_genome \<times> action list \<times> (string \<times> string \<times> int \<times> nat) list" where
  "shape g = (g\<lparr>testcase := [], path_id := [], actions := [], initial_images := []\<rparr>, map action_shape (actions g), map image_shape (initial_images g))"

lemma shape_direction: "shape g = shape h \<Longrightarrow> genome_direction g = genome_direction h"
  by (auto simp: shape_def dest: arg_cong [of _ _ genome_direction])

lemma list_map_update: "k < length xs \<Longrightarrow> f y = f (xs ! k) \<Longrightarrow> map f (xs[k := y]) = map f xs"
  by (simp add: map_update list_update_same_conv)

lemma mutate_shape:
  assumes ok: "genome_ok g" and m: "mutate_genome g plan gref gr oref ownership b aid target auth = Inr g'"
  shows "shape g' = shape g"
proof -
  obtain s aid' where
    img: "src_kind s = ''memory_image'' \<Longrightarrow> \<exists>imgs. flip_image s (src_offset s + b) (initial_images g) = Inr imgs \<and> g' = g\<lparr>initial_images := imgs\<rparr>"
    and act: "src_kind s \<noteq> ''memory_image'' \<Longrightarrow> \<exists>as. flip_action ownership s (plan_direction plan) (src_offset s + b) aid' (actions g) = Inr as \<and> g' = g\<lparr>actions := as\<rparr>"
    by (rule mutate_genome_Inr [OF m]) blast
  show ?thesis
  proof (cases "src_kind s = ''memory_image''")
    case True
    then obtain imgs where i: "flip_image s (src_offset s + b) (initial_images g) = Inr imgs" "g' = g\<lparr>initial_images := imgs\<rparr>" using img by blast
    from flip_image_Inr [OF i(1)] obtain k d where k: "k < length (initial_images g)" "image_data (initial_images g ! k) = Inr d"
        "imgs = (initial_images g)[k := (initial_images g ! k)\<lparr>data_hex := bytes_hex (flip_byte d (src_offset s + b))\<rparr>]" by blast
    have "image_valid (initial_images g ! k)" using ok k(1) by (simp add: genome_ok_def image_valid_def)
    then have "length (data_hex (initial_images g ! k)) = 2 * length d"
      using image_valid_data [OF _ k(2)] by (metis length_bytes_hex)
    then have "map image_shape imgs = map image_shape (initial_images g)"
      unfolding k(3) by (intro list_map_update [OF k(1)]) (simp add: image_shape_def)
    then show ?thesis by (simp add: shape_def i(2))
  next
    case False
    then obtain as where a: "flip_action ownership s (plan_direction plan) (src_offset s + b) aid' (actions g) = Inr as" "g' = g\<lparr>actions := as\<rparr>" using act by blast
    from flip_action_Inr [OF a(1)] obtain k v where k: "k < length (actions g)" "as = (actions g)[k := (actions g ! k)\<lparr>action_value := v\<rparr>]" by blast
    have "map action_shape as = map action_shape (actions g)"
      unfolding k(2) by (intro list_map_update [OF k(1)]) (simp add: action_shape_def)
    then show ?thesis by (simp add: shape_def a(2))
  qed
qed

lemma delay_action_ok:
  assumes "make_action a = Inr a" "0 \<le> max_delay" "0 \<le> extra"
  shows "\<exists>a'. delay_action max_delay extra i a = Inr a' \<and> make_action a' = Inr a' \<and> action_shape a' = action_shape a
    \<and> (\<forall>order. check_action_order order a' = check_action_order order a)"
  using assms by (auto simp: delay_action_def make_action_def natural_def check_def action_shape_def check_action_order_def split: if_splits option.splits)

lemma map_res_list_all2: "\<forall>x \<in> set xs. \<exists>y. f x = Inr y \<and> P x y \<Longrightarrow> \<exists>ys. map_res f xs = Inr ys \<and> list_all2 P xs ys"
  by (induction xs) auto

lemma delay_ok:
  assumes ok: "genome_ok g" and "0 \<le> max_delay" "0 \<le> extra"
  shows "\<exists>g'. res_bind (map_res (delay_action max_delay extra i) (actions g)) (\<lambda>as. make_genome (g\<lparr>actions := as\<rparr>)) = Inr g' \<and> genome_ok g' \<and> shape g' = shape g"
proof -
  let ?P = "\<lambda>a a'. make_action a' = Inr a' \<and> action_shape a' = action_shape a \<and> (\<forall>order. check_action_order order a' = check_action_order order a)"
  have "\<forall>a \<in> set (actions g). \<exists>a'. delay_action max_delay extra i a = Inr a' \<and> ?P a a'"
    using ok delay_action_ok [OF _ assms(2,3)] by (auto simp: genome_ok_def)
  then obtain as where as: "map_res (delay_action max_delay extra i) (actions g) = Inr as" "list_all2 ?P (actions g) as"
    using map_res_list_all2 [of "actions g" "delay_action max_delay extra i" ?P] by blast
  have sh: "map action_shape as = map action_shape (actions g)"
    using as(2) by (induction rule: list_all2_induct) auto
  have "map action_id x = map action_id (map action_shape x)" for x
    by (simp add: action_shape_def)
  with sh have ids: "map action_id as = map action_id (actions g)" by metis
  have gc: "\<forall>a \<in> set (actions g). check_action_order (schedule_order g) a = Inr ()"
    using ok by (simp add: genome_ok_def make_genome_Inr genome_checks_def)
  have v: "\<forall>a \<in> set as. make_action a = Inr a" and c: "\<forall>a \<in> set as. check_action_order (schedule_order g) a = Inr ()"
    using as(2) gc by (induction rule: list_all2_induct) auto
  have "genome_checks (g\<lparr>actions := as\<rparr>)"
    using genome_checks_actions [OF _ ids c] ok by (simp add: genome_ok_def make_genome_Inr)
  with as(1) v ok sh show ?thesis
    by (auto simp: make_genome_Inr genome_ok_def shape_def)
qed

section \<open>Validated decoders\<close>

text \<open>A decoder with trusted bindings and no runtime contract.\<close>

lemma make_decoder_legacy:
  assumes "make_decoder g ownership ts mr md (Some bs) None = Inr d"
  shows "dec_graph d = g" "dec_ownership d = ownership" "templates d = ts" "max_records d = mr" "max_delay_ticks d = md" "0 \<le> md" "ts \<noteq> []"
    "runtime_contract d = None" "mutation_authorizations d = []" "validate_decoder_bindings d = Inr ()"
    "\<forall>t \<in> set ts. \<exists>ps. default_paths g (target_id t) (genome_direction (template_genome t)) = Inr ps \<and> ps \<noteq> []"
proof -
  let ?d = "\<lparr>dec_graph = g, dec_ownership = ownership, templates = ts, max_records = mr, max_delay_ticks = md, dec_bindings = Some bs,
                   runtime_contract = None, paths_by_key = [], path_lookup = [], path_ids = [], mutation_authorizations = [],
                   trusted_for_search = True\<rparr>"
  have lim: "0 \<le> md" "1 \<le> length ts" and v: "validate_decoder_bindings ?d = Inr ()" and c: "\<forall>t \<in> set ts. check_template_path ?d t = Inr ()"
      and d: "d = ?d"
    using assms by (auto simp: make_decoder_def Let_def runtime_paths_def split: if_splits)
  show "dec_graph d = g" "dec_ownership d = ownership" "templates d = ts" "max_records d = mr" "max_delay_ticks d = md" "0 \<le> md" "ts \<noteq> []"
    "runtime_contract d = None" "mutation_authorizations d = []" "validate_decoder_bindings d = Inr ()"
    using lim v by (auto simp: d)
  show "\<forall>t \<in> set ts. \<exists>ps. default_paths g (target_id t) (genome_direction (template_genome t)) = Inr ps \<and> ps \<noteq> []"
    using c by (fastforce simp: check_template_path_def paths_for_def check_def split: if_splits)
qed

lemma make_graph_ids: "make_graph ss rs = Inr g \<Longrightarrow> map_of (graph_sources g) k = Some s \<Longrightarrow> src_id s = k"
proof -
  assume g: "make_graph ss rs = Inr g" and s: "map_of (graph_sources g) k = Some s"
  have "set (graph_sources g) \<subseteq> set (map (\<lambda>s. (src_id s, s)) ss)"
    using g dict_set_all_subset by (fastforce simp: make_graph_def Let_def split: if_splits)
  with map_of_SomeD [OF s] show ?thesis by auto
qed

text \<open>A permitted range stays permitted bit by bit.\<close>

lemma mutation_source_bit:
  assumes "is_ok (mutation_source m c p off w dir)" "off \<le> a" "a < off + w" "dir' \<in> set mutation_directions"
  shows "is_ok (mutation_source m c p a 1 dir')"
proof -
  obtain own where bs: "map_of m (c, p) = Some own" "0 \<le> off" "1 \<le> w" "off + w \<le> int (length own)"
      "refuse_bound (selected_owners own off w) = Inr ()" 
    using assms(1) by (auto simp: mutation_source_def is_ok_iff split: if_splits option.splits)
  have one: "selected_owners own a 1 = [own ! nat a]"
    using bs(2,4) assms(2,3) by (simp add: selected_owners_def take_Suc_conv_app_nth hd_drop_conv_nth take_Suc)
  have "own ! nat a = selected_owners own off w ! nat (a - off)"
    using bs(2,4) assms(2,3) by (simp add: selected_owners_def nat_add_distrib [symmetric])
  moreover have "nat (a - off) < length (selected_owners own off w)"
    using bs(2,3,4) assms(2,3) by (auto simp: selected_owners_def min_def)
  ultimately have "own ! nat a \<in> set (selected_owners own off w)" by (metis nth_mem)
  then have "owner_kind (own ! nat a) = ''source''" using bs(5) by (auto simp: refuse_bound_ok)
  with bs(1,2,4) assms(2-4) show ?thesis
    by (simp add: mutation_source_def one single_producer_def)
qed

lemma mutation_source_declared: "is_ok (mutation_source m c p off w dir) \<Longrightarrow> is_ok (field_width m c p)"
  by (auto simp: mutation_source_def field_width_def split: if_splits option.splits)

lemma image_source_genomes_member:
  assumes "image_source_genomes d = Inr imgs" "dict_wf (graph_sources (dec_graph d))"
    and "(sid, s) \<in> set (graph_sources (dec_graph d))" "src_kind s = ''memory_image''"
    and "t \<in> set (templates d)" "paths_for d (target_id t) (genome_direction (template_genome t)) = Inr ps" "p \<in> set ps" "sid \<in> set (source_ids p)"
  shows "template_genome t \<in> set (dict_get imgs sid genomes)"
proof -
  let ?f = "\<lambda>t. res_bind (paths_for d (target_id t) (genome_direction (template_genome t))) (\<lambda>ps. Inr (template_genome t, concat (map source_ids ps)))"
  let ?srcs = "filter (\<lambda>ks. src_kind (snd ks) = ''memory_image'') (graph_sources (dec_graph d))"
  obtain reach where r: "map_res ?f (templates d) = Inr reach"
      "imgs = map (\<lambda>ks. (fst ks, map fst (filter (\<lambda>gs. fst ks \<in> set (snd gs)) reach))) ?srcs"
    using assms(1) by (auto simp: image_source_genomes_def)
  have "list_all2 (\<lambda>x y. ?f x = Inr y) (templates d) reach" using r(1) by (simp add: map_res_Inr_iff)
  moreover obtain i where "i < length (templates d)" "t = templates d ! i" using assms(5) by (auto simp: in_set_conv_nth)
  ultimately have "reach ! i \<in> set reach" "?f t = Inr (reach ! i)" by (simp_all only: list_all2_conv_all_nth nth_mem)
  then have mem: "(template_genome t, concat (map source_ids ps)) \<in> set reach" using assms(6) by simp
  have "map fst imgs = map fst ?srcs" by (simp add: r(2))
  then have "dict_wf imgs" using assms(2) by (simp add: distinct_map_filter)
  moreover have "(sid, map fst (filter (\<lambda>gs. sid \<in> set (snd gs)) reach)) \<in> set imgs"
    using assms(3,4) by (force simp: r(2))
  ultimately have "dict_get imgs sid genomes = map fst (filter (\<lambda>gs. sid \<in> set (snd gs)) reach)"
    by (simp add: dict_get_def)
  moreover have "sid \<in> set (concat (map source_ids ps))" using assms(7,8) by auto
  ultimately show ?thesis using mem by force
qed

lemma filter_singleton_shape:
  assumes "map f xs = map f ys" "filter (P \<circ> f) xs = [x]"
  shows "\<exists>y. filter (P \<circ> f) ys = [y] \<and> f y = f x"
proof -
  have "map f (filter (P \<circ> f) ys) = map f (filter (P \<circ> f) xs)"
    using assms(1) by (metis filter_map)
  with assms(2) show ?thesis by auto
qed

lemma image_valid_length: "image_valid img \<Longrightarrow> \<exists>d. image_data img = Inr d \<and> length (data_hex img) = 2 * length d"
  using make_memory_image_Inr [of "image_id img" "image_component img" "image_address img" "data_hex img" img]
  by (auto simp: image_valid_def image_data_def) (metis length_bytes_hex)

lemma check_bound_image_shape:
  assumes "check_bound_image s b g = Inr ()" "map image_shape (initial_images h) = map image_shape (initial_images g)"
    and "\<forall>img \<in> set (initial_images g). image_valid img" "\<forall>img \<in> set (initial_images h). image_valid img"
  shows "check_bound_image s b h = Inr ()"
proof -
  let ?P = "\<lambda>(i, c, _, _). c = src_component s \<and> i = src_port s"
  have P: "(\<lambda>img. image_component img = src_component s \<and> image_id img = src_port s) = ?P \<circ> image_shape"
    by (simp add: image_shape_def comp_def)
  obtain img d where img: "filter (?P \<circ> image_shape) (initial_images g) = [img]" "bind_address b = Some (image_address img)"
      "image_data img = Inr d" "src_offset s + src_width s \<le> int (length d) * 8"
    using assms(1) unfolding check_bound_image_def P by (auto split: list.splits if_splits)
  obtain img' where img': "filter (?P \<circ> image_shape) (initial_images h) = [img']" "image_shape img' = image_shape img"
    using filter_singleton_shape [OF assms(2) [symmetric] img(1)] by blast
  have "img \<in> set (initial_images g)" "img' \<in> set (initial_images h)"
    using filter_is_subset [of "?P \<circ> image_shape" "initial_images g"] filter_is_subset [of "?P \<circ> image_shape" "initial_images h"]
    unfolding img(1) img'(1) by simp_all
  with assms(3,4) have "image_valid img" "image_valid img'" by blast+
  then obtain d' where "image_data img' = Inr d'" "length d' = length d"
    using image_valid_length [of img] image_valid_length [of img'] img(3) img'(2) by (auto simp: image_shape_def)
  with img(2,4) img' show ?thesis
    unfolding check_bound_image_def P by (simp add: image_shape_def)
qed

section \<open>Choices of a validated source\<close>

definition source_ready :: "ownership_map \<Rightarrow> scenario_genome \<Rightarrow> fuzzable_source \<Rightarrow> bool" where
  "source_ready ownership g s \<longleftrightarrow> 0 \<le> src_offset s \<and> 1 \<le> src_width s \<and> src_width s \<le> 8192
     \<and> (if src_kind s = ''memory_image'' then \<exists>b. check_bound_image s b g = Inr ()
        else src_kind s = ''source'' \<and> (\<exists>dir. is_ok (mutation_source ownership (src_component s) (src_port s) (src_offset s) (src_width s) dir)))"

definition covering :: "ownership_map \<Rightarrow> scenario_genome \<Rightarrow> fuzzable_source \<Rightarrow> int \<Rightarrow> string \<Rightarrow> bool" where
  "covering ownership g s ab x \<longleftrightarrow> (\<exists>a \<in> set (actions g). action_id a = x \<and> component a = src_component s \<and> port a = src_port s
     \<and> direction a = genome_direction g \<and> bit_offset a \<le> ab \<and> (\<exists>w. selected_width ownership a = Inr w \<and> ab < bit_offset a + w))"

lemma choice_width:
  "make_action a = Inr a \<Longrightarrow> (case action_width a of Some w \<Rightarrow> (if w = 0 then field_width ownership (component a) (port a) else Inr w)
     | None \<Rightarrow> field_width ownership (component a) (port a)) = selected_width ownership a"
  by (auto simp: selected_width_def make_action_def natural_def check_def split: option.splits if_splits)

lemma action_choices_ok:
  assumes "\<forall>a \<in> set (actions g). make_action a = Inr a" "is_ok (field_width ownership (src_component s) (src_port s))"
  shows "\<exists>ids. action_choices ownership g s ab = Inr ids \<and> (\<forall>x \<in> set ids. covering ownership g s ab x)"
proof -
  let ?f = "\<lambda>a. if component a = src_component s \<and> port a = src_port s \<and> direction a = genome_direction g \<and> bit_offset a \<le> ab
         then res_bind (case action_width a of Some w \<Rightarrow> (if w = 0 then field_width ownership (component a) (port a) else Inr w)
               | None \<Rightarrow> field_width ownership (component a) (port a))
           (\<lambda>w. Inr (if ab < bit_offset a + w then [action_id a] else []))
         else Inr []"
  have "\<exists>ids. ?f a = Inr ids \<and> (\<forall>x \<in> set ids. covering ownership g s ab x)" if a: "a \<in> set (actions g)" for a
  proof (cases "component a = src_component s \<and> port a = src_port s \<and> direction a = genome_direction g \<and> bit_offset a \<le> ab")
    case True
    then have "is_ok (selected_width ownership a)"
      using assms(2) by (auto simp: selected_width_def split: option.splits)
    then obtain w where w: "selected_width ownership a = Inr w" by (auto simp: is_ok_iff)
    have "make_action a = Inr a" using assms(1) a by blast
    then have "?f a = Inr (if ab < bit_offset a + w then [action_id a] else [])"
      using True by (simp add: choice_width w)
    moreover have "\<forall>x \<in> set (if ab < bit_offset a + w then [action_id a] else []). covering ownership g s ab x"
      using True a w by (auto simp: covering_def)
    ultimately show ?thesis by blast
  qed auto
  then have "\<forall>a \<in> set (actions g). \<exists>ids. ?f a = Inr ids \<and> (\<forall>x \<in> set ids. covering ownership g s ab x)" ..
  from map_res_list_all2 [OF this]
  obtain idss where i: "map_res ?f (actions g) = Inr idss" "list_all2 (\<lambda>a ids. \<forall>x \<in> set ids. covering ownership g s ab x) (actions g) idss"
    by blast
  have "\<forall>ids \<in> set idss. \<forall>x \<in> set ids. covering ownership g s ab x"
    using i(2) by (auto simp: list_all2_conv_all_nth in_set_conv_nth [of _ idss])
  with i(1) show ?thesis by (auto simp: action_choices_def)
qed

definition choice_ok :: "ownership_map \<Rightarrow> scenario_genome \<Rightarrow> fuzzable_source \<Rightarrow> int \<times> string list \<Rightarrow> bool" where
  "choice_ok ownership g s c = (case c of (i, ids) \<Rightarrow> 0 \<le> i \<and> i < src_width s
     \<and> (if src_kind s = ''memory_image'' then ids = [] else ids \<noteq> [] \<and> (\<forall>x \<in> set ids. covering ownership g s (src_offset s + i) x)))"

lemma bit_choices_ok:
  assumes "\<forall>a \<in> set (actions g). make_action a = Inr a" "genome_direction g \<in> set mutation_directions" "src_kind s \<noteq> ''memory_image''"
    and own: "is_ok (mutation_source ownership (src_component s) (src_port s) (src_offset s) (src_width s) dir)"
  shows "\<forall>i \<in> set is. 0 \<le> i \<and> i < src_width s \<Longrightarrow> \<forall>c \<in> set acc. choice_ok ownership g s c
    \<Longrightarrow> \<exists>cs. fold_res (bit_choice ownership g s) acc is = Inr cs \<and> (\<forall>c \<in> set cs. choice_ok ownership g s c)"
proof (induction "is" arbitrary: acc)
  case (Cons i "is")
  obtain ids where ids: "action_choices ownership g s (src_offset s + i) = Inr ids" "\<forall>x \<in> set ids. covering ownership g s (src_offset s + i) x"
    using action_choices_ok [OF assms(1) mutation_source_declared [OF own]] by blast
  have "is_ok (mutation_source ownership (src_component s) (src_port s) (src_offset s + i) 1 (genome_direction g))"
    using Cons.prems(1) by (intro mutation_source_bit [OF own _ _ assms(2)]) auto
  then have bc: "bit_choice ownership g s acc i = Inr (if ids = [] then acc else acc @ [(i, ids)])"
    using ids(1) by (auto simp: bit_choice_def is_ok_iff)
  have "choice_ok ownership g s (i, ids)" if "ids \<noteq> []"
    using that ids(2) Cons.prems(1) assms(3) by (simp add: choice_ok_def)
  then have "\<forall>c \<in> set (if ids = [] then acc else acc @ [(i, ids)]). choice_ok ownership g s c"
    using Cons.prems(2) by auto
  with Cons.IH Cons.prems(1) bc show ?case by simp
qed simp

lemma choices_ok:
  assumes "genome_ok g" "source_ready (dec_ownership d) g s"
  shows "\<exists>cs. choices d g s = Inr cs \<and> (\<forall>c \<in> set cs. choice_ok (dec_ownership d) g s c)"
proof -
  have w: "\<not> src_width s > 8192" using assms(2) by (simp add: source_ready_def)
  have dir: "genome_direction g \<in> set mutation_directions"
    using assms(1) by (simp add: genome_ok_def make_genome_Inr genome_checks_def DIRECTIONS_def mutation_directions_def)
  show ?thesis
  proof (cases "src_kind s = ''memory_image''")
    case True
    show ?thesis
    proof (cases "find (\<lambda>img. image_id img = src_port s \<and> image_component img = src_component s) (initial_images g)")
      case None
      with True w show ?thesis by (simp add: choices_def)
    next
      case (Some img)
      then have "img \<in> set (initial_images g)" by (auto simp: find_Some_iff)
      then obtain data where "image_data img = Inr data"
        using assms(1) image_valid_length by (fastforce simp: genome_ok_def image_valid_def)
      with Some True w show ?thesis by (auto simp: choices_def choice_ok_def)
    qed
  next
    case False
    then obtain dir' where "is_ok (mutation_source (dec_ownership d) (src_component s) (src_port s) (src_offset s) (src_width s) dir')"
      using assms(2) by (auto simp: source_ready_def)
    from bit_choices_ok [OF _ dir False this, of "[0..src_width s - 1]" "[]"] False w show ?thesis
      using assms(1) by (simp add: choices_def genome_ok_def)
  qed
qed

section \<open>Every record can be decoded\<close>

lemma flip_action_named:
  assumes "\<forall>a \<in> set as. make_action a = Inr a" "distinct (map action_id as)" "a \<in> set as"
    and a: "component a = src_component s" "port a = src_port s" "direction a = dir" "bit_offset a \<le> b" "selected_width ownership a = Inr w" "b < bit_offset a + w"
  shows "\<exists>as'. flip_action ownership s dir b (Some (action_id a)) as = Inr as'"
  using assms(1-3)
proof (induction as)
  case (Cons x as)
  show ?case
  proof (cases "x = a")
    case True
    have "make_action (a\<lparr>action_value := action_value a XOR 2 ^ n\<rparr>) = Inr (a\<lparr>action_value := action_value a XOR 2 ^ n\<rparr>)" for n
      using Cons.prems(1) True by (auto simp: make_action_def natural_def check_def split: if_splits option.splits)
    with True a show ?thesis by simp
  next
    case False
    then have "a \<in> set as" "action_id x \<noteq> action_id a" using Cons.prems(2,3) by auto
    with Cons show ?thesis by auto
  qed
qed simp

text \<open>The facts about a decoder on which every record relies: an authorization is the one compiled for its plan, sources have their own name and do not overlap.\<close>

definition path_plan :: "string \<Rightarrow> dependency_path \<Rightarrow> string \<Rightarrow> mutation_plan" where
  "path_plan dir p sid = \<lparr>plan_direction = dir, plan_target = path_target p, plan_path = p, focus_source = sid\<rparr>"

definition auths_ok :: "(string \<times> dependency_path \<times> string, authorization) dict \<Rightarrow> bool" where
  "auths_ok as \<longleftrightarrow> (\<forall>dir p sid c. map_of as (dir, p, sid) = Some c \<longrightarrow> c = \<lparr>auth_plan = path_plan dir p sid, auth_graph = 0, auth_ownership = 0\<rparr>)"

definition decoder_sound :: "decoder \<Rightarrow> bool" where
  "decoder_sound d \<longleftrightarrow> auths_ok (mutation_authorizations d) \<and> 0 \<le> max_delay_ticks d
     \<and> (\<forall>k s. map_of (graph_sources (dec_graph d)) k = Some s \<longrightarrow> src_id s = k) \<and> sorted_wrt apart (graph_sources (dec_graph d))"

text \<open>A path the check of a plan accepts.\<close>

definition path_admitted :: "dependency_graph \<Rightarrow> string \<Rightarrow> dependency_path \<Rightarrow> bool" where
  "path_admitted gr dir p \<longleftrightarrow> (if path_edges p = [] then \<exists>ps. default_paths gr (path_target p) dir = Inr ps \<and> p \<in> set ps else is_ok (path_identity gr p dir))"

text \<open>An authorization only skips checks.\<close>

lemma mutate_authorized:
  assumes "mutate_genome g plan gref gr oref ownership b aid target None = Inr g'" "auth_plan c = plan" "auth_graph c = gref" "auth_ownership c = oref"
  shows "mutate_genome g plan gref gr oref ownership b aid target (Some c) = Inr g'"
proof -
  have "check_plan True g plan gr = Inr ()" if "check_plan False g plan gr = Inr ()"
    using that by (auto simp: check_plan_def Let_def split: if_splits)
  then show ?thesis using assms by (auto simp: mutate_genome_def Let_def split: if_splits option.splits)
qed

lemma source_ready_shape:
  assumes "source_ready ownership g s" "shape h = shape g" "genome_ok g" "genome_ok h"
  shows "source_ready ownership h s"
proof -
  have "map image_shape (initial_images h) = map image_shape (initial_images g)" using assms(2) by (simp add: shape_def)
  then have "check_bound_image s b h = Inr ()" if "check_bound_image s b g = Inr ()" for b
    using check_bound_image_shape [OF that] assms(3,4) by (simp add: genome_ok_def image_valid_def)
  with assms(1) show ?thesis by (auto simp: source_ready_def split: if_splits)
qed

lemma covering_flip:
  assumes "genome_ok g" "covering ownership g s ab x"
  shows "x \<noteq> [] \<and> (\<exists>as. flip_action ownership s (genome_direction g) ab (Some x) (actions g) = Inr as)"
proof -
  obtain a w where a: "a \<in> set (actions g)" "action_id a = x" "component a = src_component s" "port a = src_port s" "direction a = genome_direction g"
      "bit_offset a \<le> ab" "selected_width ownership a = Inr w" "ab < bit_offset a + w" using assms(2) by (auto simp: covering_def)
  have v: "\<forall>a \<in> set (actions g). make_action a = Inr a" "distinct (map action_id (actions g))"
    using assms(1) by (auto simp: genome_ok_def make_genome_Inr genome_checks_def)
  then have "x \<noteq> []" using a(1,2) by (force simp: make_action_def split: if_splits)
  with flip_action_named [OF v a(1,3-8)] a(2) show ?thesis by blast
qed

lemma choice_mutates:
  assumes d: "decoder_sound d" and g: "genome_ok g" and ps: "path_admitted (dec_graph d) (genome_direction g) p"
    and s: "map_of (graph_sources (dec_graph d)) sid = Some s" "sid \<in> set (source_ids p)" "source_ready (dec_ownership d) g s"
    and c: "choice_ok (dec_ownership d) g s (b, ids)"
    and aid: "aid = (if ids = [] then None else Some (ids ! (n mod length ids)))"
  shows "\<exists>g'. mutate_genome g \<lparr>plan_direction = genome_direction g, plan_target = path_target p, plan_path = p, focus_source = src_id s\<rparr>
       0 (dec_graph d) 0 (dec_ownership d) b aid
       (Some (if src_kind s = ''memory_image'' then \<lparr>target_kind = ''initial_image'', target_identifier = src_port s\<rparr>
          else \<lparr>target_kind = ''genome_action'', target_identifier = (case aid of None \<Rightarrow> [] | Some i \<Rightarrow> i)\<rparr>)) None = Inr g'"
    (is "\<exists>g'. mutate_genome g ?plan 0 ?gr 0 ?own b aid ?t None = Inr g'")
proof -
  have id: "src_id s = sid" using d s(1) by (auto simp: decoder_sound_def)
  have chk: "check_plan False g ?plan ?gr = Inr ()"
    using ps s(2) by (auto simp: check_plan_def Let_def id path_admitted_def is_ok_iff split: if_splits)
  have r: "0 \<le> b" "b < src_width s" "0 \<le> src_offset s" using c s(3) by (auto simp: choice_ok_def source_ready_def)
  have one: "bit_owners ?gr s (src_offset s + b) = 1"
    using bit_owned_once [OF _ map_of_SomeD [OF s(1)]] d r by (simp add: decoder_sound_def covers_bit_def)
  have dir: "genome_direction g \<in> set mutation_directions"
    using g by (simp add: genome_ok_def make_genome_Inr genome_checks_def DIRECTIONS_def mutation_directions_def)
  have src: "map_of (graph_sources ?gr) (focus_source ?plan) = Some s" using s(1) id by simp
  show ?thesis
  proof (cases "src_kind s = ''memory_image''")
    case True
    then have "aid = None" using c aid by (simp add: choice_ok_def)
    then show ?thesis
      using True s(3) by (intro mutate_genome_succeeds [OF g chk src r one, of _ _ None]) (auto simp: RUNTIME_TARGET_KINDS_def resolve_target_def source_ready_def)
  next
    case False
    then have "ids \<noteq> []" and cov: "\<forall>x \<in> set ids. covering ?own g s (src_offset s + b) x" using c by (auto simp: choice_ok_def)
    then obtain x where x: "aid = Some x" "x \<in> set ids" using aid by (metis length_greater_0_conv mod_less_divisor nth_mem)
    note fl = covering_flip [OF g bspec [OF cov x(2)]]
    have own: "is_ok (mutation_source ?own (src_component s) (src_port s) (src_offset s) (src_width s) (genome_direction g))"
      using False s(3) mutation_source_direction [OF dir] by (auto simp: source_ready_def)
    show ?thesis
      using False x fl own by (intro mutate_genome_succeeds [OF g chk src r one, of _ _ "Some x"]) (auto simp: RUNTIME_TARGET_KINDS_def resolve_target_def)
  qed
qed

abbreviation no_mutable_field :: exc where
  "no_mutable_field \<equiv> ValueError ''selected upstream source has no mutable genome field''"

lemma decode_record_ok:
  assumes d: "decoder_sound d" and g: "genome_ok g" and ps: "path_admitted (dec_graph d) (genome_direction g) p"
    and ne: "source_ids p \<noteq> []"
    and src: "\<forall>sid \<in> set (source_ids p). \<exists>s. map_of (graph_sources (dec_graph d)) sid = Some s \<and> source_ready (dec_ownership d) g s"
  shows "decode_record d p g r = Inl no_mutable_field \<or> (\<exists>g'. decode_record d p g r = Inr g' \<and> genome_ok g' \<and> shape g' = shape g)"
proof (cases "record_byte r 5 mod 3 = 0")
  case True
  then show ?thesis using g by (simp add: decode_record_def)
next
  case False
  let ?f = "\<lambda>sid. case map_of (graph_sources (dec_graph d)) sid of None \<Rightarrow> Inl (KeyError (py_repr sid)) | Some s \<Rightarrow> Inr s"
  let ?P = "\<lambda>sid s. map_of (graph_sources (dec_graph d)) sid = Some s \<and> source_ready (dec_ownership d) g s"
  have "\<forall>sid \<in> set (source_ids p). \<exists>s. ?f sid = Inr s \<and> ?P sid s"
    using src by force
  from map_res_list_all2 [OF this] obtain sources where so: "map_res ?f (source_ids p) = Inr sources" "list_all2 ?P (source_ids p) sources" by blast
  define k where "k = record_byte r 2 mod length sources"
  have "length sources = length (source_ids p)" using so(2) by (simp add: list_all2_lengthD)
  then have k: "k < length (source_ids p)" using ne by (simp add: k_def)
  define s where "s = sources ! k"
  have s: "map_of (graph_sources (dec_graph d)) (source_ids p ! k) = Some s" "source_ids p ! k \<in> set (source_ids p)" "source_ready (dec_ownership d) g s"
    using so(2) k by (auto simp: list_all2_conv_all_nth s_def)
  have se: "sources ! (record_byte r 2 mod length sources) = s" by (simp add: s_def k_def)
  obtain cs where cs: "choices d g s = Inr cs" "\<forall>c \<in> set cs. choice_ok (dec_ownership d) g s c"
    using choices_ok [OF g s(3)] by blast
  show ?thesis
  proof (cases "cs = []")
    case True
    then show ?thesis
      using False so(1) cs(1) by (simp add: decode_record_def Let_def se)
  next
    case ne: False
    define c where "c = cs ! ((record_byte r 3 + 256 * record_byte r 7) mod length cs)"
    obtain b ids where bi: "c = (b, ids)" by (cases c)
    have ce: "cs ! ((record_byte r 3 + 256 * record_byte r 7) mod length cs) = (b, ids)" using bi by (simp add: c_def)
    have "c \<in> set cs" using ne by (simp add: c_def)
    then have co: "choice_ok (dec_ownership d) g s (b, ids)" using cs(2) bi by blast
    define aid where "aid = (if ids = [] then None else Some (ids ! (record_byte r 4 mod length ids)))"
    show ?thesis
    proof (cases "record_byte r 5 mod 3 = 1")
      case True
      obtain g' where m0: "mutate_genome g \<lparr>plan_direction = genome_direction g, plan_target = path_target p, plan_path = p, focus_source = src_id s\<rparr>
          0 (dec_graph d) 0 (dec_ownership d) b aid
          (Some (if src_kind s = ''memory_image'' then \<lparr>target_kind = ''initial_image'', target_identifier = src_port s\<rparr>
            else \<lparr>target_kind = ''genome_action'', target_identifier = (case aid of None \<Rightarrow> [] | Some i \<Rightarrow> i)\<rparr>)) None = Inr g'"
        using choice_mutates [OF d g ps s co aid_def] by blast
      define auth where "auth = map_of (mutation_authorizations d) (genome_direction g, p, src_id s)"
      have m: "mutate_genome g \<lparr>plan_direction = genome_direction g, plan_target = path_target p, plan_path = p, focus_source = src_id s\<rparr>
          0 (dec_graph d) 0 (dec_ownership d) b aid
          (Some (if src_kind s = ''memory_image'' then \<lparr>target_kind = ''initial_image'', target_identifier = src_port s\<rparr>
            else \<lparr>target_kind = ''genome_action'', target_identifier = (case aid of None \<Rightarrow> [] | Some i \<Rightarrow> i)\<rparr>)) auth = Inr g'"
      proof (cases auth)
        case (Some c)
        then have "c = \<lparr>auth_plan = path_plan (genome_direction g) p (src_id s), auth_graph = 0, auth_ownership = 0\<rparr>"
          using d by (auto simp: auth_def decoder_sound_def auths_ok_def)
        then show ?thesis using mutate_authorized [OF m0] by (simp add: Some path_plan_def)
      qed (use m0 in simp)
      have "decode_record d p g r = Inr g'"
        using True False ne so(1) cs(1) m
        by (cases "src_kind s = ''memory_image''") (simp_all add: decode_record_def Let_def se ce flip: aid_def auth_def)
      with mutate_genome_ok [OF g m] mutate_shape [OF g m] show ?thesis by blast
    next
      case op: False
      have "decode_record d p g r = (case aid of
                 Some i \<Rightarrow> if src_kind s = ''source''
                   then res_bind (map_res (delay_action (max_delay_ticks d) (int (record_byte r 6)) i) (actions g)) (\<lambda>as.
                     make_genome (g\<lparr>actions := as\<rparr>))
                   else Inr g
               | None \<Rightarrow> Inr g)"
        using op False ne so(1) cs(1)
        by (simp add: decode_record_def Let_def se ce flip: aid_def split: option.split)
      then show ?thesis
        using delay_ok [OF g, of "max_delay_ticks d" "int (record_byte r 6)"] d g by (auto simp: decoder_sound_def split: option.splits)
    qed
  qed
qed

lemma decode_records_ok:
  assumes d: "decoder_sound d" and ps: "path_admitted (dec_graph d) dir p" and ne: "source_ids p \<noteq> []"
  shows "genome_ok g \<Longrightarrow> \<forall>sid \<in> set (source_ids p). \<exists>s. map_of (graph_sources (dec_graph d)) sid = Some s \<and> source_ready (dec_ownership d) g s
    \<Longrightarrow> genome_direction g = dir \<Longrightarrow>
    fold_res (decode_record d p) g rs = Inl no_mutable_field \<or> (\<exists>g'. fold_res (decode_record d p) g rs = Inr g' \<and> genome_ok g' \<and> shape g' = shape g)"
proof (induction rs arbitrary: g)
  case (Cons r rs)
  have "path_admitted (dec_graph d) (genome_direction g) p" using ps Cons.prems(3) by simp
  from decode_record_ok [OF d Cons.prems(1) this ne Cons.prems(2), of r] show ?case
  proof
    assume "\<exists>g'. decode_record d p g r = Inr g' \<and> genome_ok g' \<and> shape g' = shape g"
    then obtain g' where g': "decode_record d p g r = Inr g'" "genome_ok g'" "shape g' = shape g" by blast
    have dir: "genome_direction g' = genome_direction g" by (rule shape_direction [OF g'(3)])
    have "\<forall>sid \<in> set (source_ids p). \<exists>s. map_of (graph_sources (dec_graph d)) sid = Some s \<and> source_ready (dec_ownership d) g' s"
      using Cons.prems(2) source_ready_shape [OF _ g'(3) Cons.prems(1) g'(2)] by blast
    from Cons.IH [OF g'(2) this] Cons.prems(3) dir g'(1,3) show ?thesis by auto
  qed simp
qed simp

text \<open>Paths of the expansion have sources, all of them declared.\<close>

lemma sufficient_nonempty:
  assumes "sufficient g S v" "\<forall>v. \<forall>r \<in> set (dict_get (graph_rules g) v []). prerequisites r \<noteq> []"
  shows "S \<noteq> {}"
  using assms
proof (induction rule: sufficient.induct)
  case (rule v r)
  then have "prerequisites r \<noteq> []" by blast
  then obtain c where "c \<in> set (prerequisites r)" by (meson hd_in_set)
  with rule show ?case by blast
qed auto

lemma default_paths_sound:
  assumes "default_paths g t dir = Inr ps" "p \<in> set ps"
  shows "path_target p = t \<and> path_edges p = [] \<and> sufficient g (set (source_ids p)) t \<and> (\<forall>x \<in> set (source_ids p). is_source g x)"
proof -
  have "path_target p = t \<and> path_edges p = [] \<and> source_ids p \<in> set (expand 16 g dir 256 [] t)"
    using assms by (auto simp: default_paths_def paths_to_def Let_def split: if_splits dest!: in_set_takeD)
  with expand_sound show ?thesis using source_admits_is_source by blast
qed

lemma make_graph_rules:
  assumes "make_graph ss rs = Inr g" "\<forall>r \<in> set rs. make_dependency_rule r = Inr r"
  shows "\<forall>v. \<forall>r \<in> set (dict_get (graph_rules g) v []). prerequisites r \<noteq> []"
proof (intro allI ballI)
  fix v r
  assume "r \<in> set (dict_get (graph_rules g) v [])"
  moreover have "graph_rules g = group_rules rs" using assms(1) by (auto simp: make_graph_def Let_def split: if_splits)
  ultimately have "make_dependency_rule r = Inr r" using assms(2) by (simp add: group_rules_member)
  then show "prerequisites r \<noteq> []" by (auto simp: make_dependency_rule_def split: if_splits)
qed

subsection \<open>Paths of a runtime contract\<close>

text \<open>What a proof graph is does not depend on the attribute a decoder adds to its graph.\<close>

lemma grounded_same:
  assumes "grounded g dir E v" "graph_sources g' = graph_sources g" "ordered_rules g' = ordered_rules g"
  shows "grounded g' dir E v"
  using assms(1)
proof (induction rule: grounded.induct)
  case (source v)
  then show ?case using assms(2) by (intro grounded.source) (simp add: source_admits_def)
next
  case (rule v i)
  have "expanded_by g' E v i" using rule(1) assms(2,3) by (simp add: expanded_by_def is_source_def)
  then show ?case using rule(2) assms(3) by (intro grounded.rule) auto
qed

lemma identity_same:
  assumes "path_identity g p dir = Inr i" "graph_sources g' = graph_sources g" "ordered_rules g' = ordered_rules g" "graph_rules g' = graph_rules g"
  shows "is_ok (path_identity g' p dir)" "proof_path g' dir p"
proof -
  have ok: "is_ok (edge_document g)" "proof_path g dir p" using path_identity_iff [of g p dir] assms(1) by (simp_all add: is_ok_iff)
  have "edge_document g' = edge_document g" using assms(2-4) by (simp add: edge_document_def Let_def)
  moreover have "selection g' E = selection g E" for E using assms(3) by (simp add: selection_def graph_edge_def)
  ultimately show "proof_path g' dir p" using ok(2) grounded_same [of g dir _ _ g'] assms(2,3) by (auto simp: proof_path_def is_source_def)
  then show "is_ok (path_identity g' p dir)" using path_identity_iff [of g' p dir] ok(1) \<open>edge_document g' = edge_document g\<close> by simp
qed

text \<open>A proof graph without edges is a target that is itself a source.\<close>

lemma proof_path_empty:
  assumes "proof_path g dir p" "path_edges p = []"
  shows "\<exists>ps. default_paths g (path_target p) dir = Inr ps \<and> p \<in> set ps"
proof -
  let ?t = "path_target p"
  have "grounded g dir {} ?t" using assms by (simp add: proof_path_def)
  then have adm: "source_admits g dir ?t" by (cases rule: grounded.cases) (auto simp: expanded_by_def)
  have "reached {} ?t v \<longleftrightarrow> v = ?t" for v by (auto elim: reached.cases intro: reached.start)
  then have "set (source_ids p) = {?t}" using assms source_admits_is_source [OF adm] by (auto simp: proof_path_def)
  moreover have "distinct (source_ids p)" using assms(1) by (simp add: proof_path_def)
  ultimately have ids: "source_ids p = [?t]"
    by (metis distinct_card length_0_conv length_Suc_conv list.set_intros(1) card_1_singleton_iff singletonD One_nat_def)
  have ex: "expand n g dir cap [] ?t = [[?t]]" for n cap using adm source_admits_is_source [OF adm] by (cases n) simp_all
  have "p = \<lparr>path_target = ?t, source_ids = [?t], path_edges = []\<rparr>" using ids assms(2) by simp
  moreover have "?t \<noteq> []" "dir \<in> set DIRECTIONS" using assms(1) by (simp_all add: proof_path_def)
  ultimately show ?thesis by (simp add: default_paths_def paths_to_def Let_def ex)
qed

lemma proof_path_admitted: "is_ok (path_identity g p dir) \<Longrightarrow> path_admitted g dir p"
  using path_identity_iff [of g p dir] proof_path_empty by (auto simp: path_admitted_def)

lemma identity_nonempty: "path_identity g p dir = Inr i \<Longrightarrow> i \<noteq> []"
proof -
  assume "path_identity g p dir = Inr i"
  then obtain doc where "i = edge_hash doc" by (auto simp: path_identity_def simp del: search_path.simps split: if_splits)
  then have "length i = 64" by (simp add: edge_hash_def)
  then show ?thesis by auto
qed

text \<open>The tables of registered paths.\<close>

definition tables_ok :: "dependency_graph \<Rightarrow> path_tables \<Rightarrow> bool" where
  "tables_ok g t = (case t of (paths, lookup, ids) \<Rightarrow>
     (\<forall>dir p i. map_of ids (dir, p) = Some i \<longrightarrow> path_identity g p dir = Inr i)
     \<and> (\<forall>dir t ps. map_of paths (dir, t) = Some ps \<longrightarrow> (\<forall>p \<in> set ps. map_of ids (dir, p) \<noteq> None)))"

lemma register_paths:
  "fold_res (register_path g dir) (lookup, ids) ps = Inr (lookup', ids')
    \<Longrightarrow> \<forall>dir p i. map_of ids (dir, p) = Some i \<longrightarrow> path_identity g p dir = Inr i
    \<Longrightarrow> (\<forall>dir p i. map_of ids' (dir, p) = Some i \<longrightarrow> path_identity g p dir = Inr i)
      \<and> (\<forall>k. map_of ids k \<noteq> None \<longrightarrow> map_of ids' k \<noteq> None) \<and> (\<forall>p \<in> set ps. map_of ids' (dir, p) \<noteq> None)"
proof (induction ps arbitrary: lookup ids)
  case (Cons p ps)
  obtain acc where acc: "register_path g dir (lookup, ids) p = Inr acc" "fold_res (register_path g dir) acc ps = Inr (lookup', ids')"
    using Cons.prems(1) by auto
  then obtain i where i: "path_identity g p dir = Inr i" "acc = (dict_set lookup i (dir, p), dict_set ids (dir, p) i)"
    by (auto simp: register_path_def)
  note rest = acc(2) [unfolded i(2)]
  have "\<forall>dir' p' i'. map_of (dict_set ids (dir, p) i) (dir', p') = Some i' \<longrightarrow> path_identity g p' dir' = Inr i'"
    using Cons.prems(2) i(1) by (auto simp: dict_simps)
  note ih = Cons.IH [OF rest this]
  have "map_of (dict_set ids (dir, p) i) (dir, p) \<noteq> None" "\<And>k. map_of ids k \<noteq> None \<Longrightarrow> map_of (dict_set ids (dir, p) i) k \<noteq> None"
    by (simp_all add: dict_simps)
  with ih show ?case by (metis set_ConsD)
qed simp

lemma register_targets:
  "fold_res (register_template_target g) t dts = Inr t' \<Longrightarrow> tables_ok g t \<Longrightarrow> tables_ok g t'"
proof (induction dts arbitrary: t)
  case (Cons dt dts)
  obtain t1 where t1: "register_template_target g t dt = Inr t1" "fold_res (register_template_target g) t1 dts = Inr t'"
    using Cons.prems(1) by auto
  obtain paths lookup ids dir target where s: "t = (paths, lookup, ids)" "dt = (dir, target)" by (metis prod.collapse)
  obtain sel lookup' ids' where reg: "fold_res (register_path g dir) (lookup, ids) sel = Inr (lookup', ids')"
      "t1 = (dict_set paths (dir, target) sel, lookup', ids')"
    using t1(1) by (auto simp: register_template_target_def s split: if_splits)
  note rp = register_paths [OF reg(1)]
  have "tables_ok g t1"
    using Cons.prems(2) rp by (fastforce simp: tables_ok_def s reg(2) dict_simps)
  then show ?case using Cons.IH t1(2) by blast
qed simp

lemma authorize_ok:
  "fold_res (authorize d) as ks = Inr as' \<Longrightarrow> auths_ok as \<Longrightarrow> auths_ok as'"
proof (induction ks arbitrary: as)
  case (Cons k ks)
  obtain dir p sid where k: "k = (dir, p, sid)" by (metis prod.collapse)
  obtain acc where acc: "authorize d as k = Inr acc" "fold_res (authorize d) acc ks = Inr as'"
    using Cons.prems(1) by auto
  then obtain c where c: "compile_mutation_authorization (path_plan dir p sid) 0 (dec_graph d) 0 True (dec_ownership d) = Inr c" "acc = dict_set as k c"
    by (auto simp: authorize_def k path_plan_def)
  have "c = \<lparr>auth_plan = path_plan dir p sid, auth_graph = 0, auth_ownership = 0\<rparr>"
    using c(1) by (auto simp: compile_mutation_authorization_def split: if_splits option.splits)
  then have "auths_ok (dict_set as k c)" using Cons.prems(2) by (auto simp: auths_ok_def k dict_simps)
  with Cons.IH acc(2) c(2) show ?case by blast
qed simp

text \<open>A registered path, whatever its digest.\<close>

definition path_usable :: "decoder \<Rightarrow> string \<Rightarrow> string \<Rightarrow> dependency_path \<Rightarrow> bool" where
  "path_usable d t dir p \<longleftrightarrow> path_admitted (dec_graph d) dir p \<and> source_ids p \<noteq> [] \<and> (\<forall>sid \<in> set (source_ids p). is_source (dec_graph d) sid)
     \<and> (\<exists>name. path_name d t p dir = Inr name \<and> name \<noteq> [])"

lemma runtime_paths_usable:
  assumes "initialize_runtime_paths d0 contract targets = Inr d" "paths_for d t dir = Inr ps" "p \<in> set ps"
  shows "path_usable d t dir p"
proof -
  obtain g paths lookup ids where g: "freeze_graph (dec_graph d0) = Inr g"
      and tab: "fold_res (register_template_target g) ([], [], []) (dict_fromkeys targets) = Inr (paths, lookup, ids)"
      and d: "d = d0\<lparr>runtime_contract := Some contract, dec_graph := g\<lparr>decoder_path_proofs := map fst ids\<rparr>, paths_by_key := paths, path_lookup := lookup, path_ids := ids\<rparr>"
    using assms(1) by (auto simp: initialize_runtime_paths_def split: if_splits)
  have ok: "tables_ok g (paths, lookup, ids)" by (rule register_targets [OF tab]) (simp add: tables_ok_def)
  have "p \<in> set (dict_get paths (dir, t) [])" using assms(2,3) by (simp add: paths_for_def d)
  then obtain qs where "map_of paths (dir, t) = Some qs" "p \<in> set qs" by (cases "map_of paths (dir, t)") (auto simp: dict_get_def)
  then obtain i where i: "map_of ids (dir, p) = Some i" "path_identity g p dir = Inr i" using ok by (force simp: tables_ok_def)
  note same = identity_same [OF i(2), of "dec_graph d"]
  have gr: "is_ok (path_identity (dec_graph d) p dir)" "proof_path (dec_graph d) dir p" using same by (simp_all add: d)
  have "path_name d t p dir = Inr i" using i(1) by (simp add: path_name_def path_identifier_def d)
  then show ?thesis
    using gr proof_path_admitted [OF gr(1)] identity_nonempty [OF i(2)] by (auto simp: path_usable_def proof_path_def)
qed

subsection \<open>What construction establishes\<close>

lemma initialize_frame:
  assumes "initialize_runtime_paths d0 contract targets = Inr d"
  shows "graph_sources (dec_graph d) = graph_sources (dec_graph d0)" "dec_ownership d = dec_ownership d0" "templates d = templates d0" "max_records d = max_records d0"
    "max_delay_ticks d = max_delay_ticks d0" "dec_bindings d = dec_bindings d0" "mutation_authorizations d = mutation_authorizations d0"
  using assms by (auto simp: initialize_runtime_paths_def freeze_graph_def Let_def split: if_splits)

lemma default_paths_usable:
  assumes "make_graph ss rs = Inr (dec_graph d)" "\<forall>r \<in> set rs. make_dependency_rule r = Inr r" "runtime_contract d = None"
    and "paths_for d t dir = Inr ps" "p \<in> set ps"
  shows "path_usable d t dir p"
proof -
  have ps: "default_paths (dec_graph d) t dir = Inr ps" using assms(3,4) by (simp add: paths_for_def)
  note path = default_paths_sound [OF ps assms(5)]
  have "source_ids p \<noteq> []" using path sufficient_nonempty [OF _ make_graph_rules [OF assms(1,2)], of "set (source_ids p)"] by auto
  then show ?thesis using path ps assms(3,5) by (auto simp: path_usable_def path_admitted_def path_name_def)
qed

lemma decoder_parts_same:
  "paths_for (d\<lparr>mutation_authorizations := as\<rparr>) = paths_for d" "path_usable (d\<lparr>mutation_authorizations := as\<rparr>) = path_usable d"
  "validate_decoder_bindings (d\<lparr>mutation_authorizations := as\<rparr>) = validate_decoder_bindings d"
proof -
  show pf: "paths_for (d\<lparr>mutation_authorizations := as\<rparr>) = paths_for d" by (intro ext) (simp add: paths_for_def)
  show "path_usable (d\<lparr>mutation_authorizations := as\<rparr>) = path_usable d"
    by (intro ext) (simp add: path_usable_def path_name_def path_identifier_def)
  show "validate_decoder_bindings (d\<lparr>mutation_authorizations := as\<rparr>) = validate_decoder_bindings d"
  proof -
    have "image_source_genomes (d\<lparr>mutation_authorizations := as\<rparr>) = image_source_genomes d" by (simp add: image_source_genomes_def pf)
    then show ?thesis by (simp add: validate_decoder_bindings_def split: option.split)
  qed
qed

lemma make_decoder_facts:
  assumes g: "make_graph ss rs = Inr g" "\<forall>r \<in> set rs. make_dependency_rule r = Inr r"
    and d: "make_decoder g ownership ts mr md (Some bs) contract = Inr d"
  shows "graph_sources (dec_graph d) = graph_sources g" "dec_ownership d = ownership" "templates d = ts" "max_records d = mr" "max_delay_ticks d = md" "0 \<le> md" "ts \<noteq> []"
    "dec_bindings d = Some bs" "auths_ok (mutation_authorizations d)" "validate_decoder_bindings d = Inr ()"
    "\<And>t. t \<in> set ts \<Longrightarrow> \<exists>ps. paths_for d (target_id t) (genome_direction (template_genome t)) = Inr ps \<and> ps \<noteq> []"
    "\<And>t dir ps p. paths_for d t dir = Inr ps \<Longrightarrow> p \<in> set ps \<Longrightarrow> path_usable d t dir p"
proof -
  define d0 where "d0 = \<lparr>dec_graph = g, dec_ownership = ownership, templates = ts, max_records = mr, max_delay_ticks = md, dec_bindings = Some bs,
                   runtime_contract = None, paths_by_key = [], path_lookup = [], path_ids = [], mutation_authorizations = [], trusted_for_search = True\<rparr>"
  obtain d1 as where lim: "0 \<le> md" "1 \<le> length ts"
      and d1: "(case contract of None \<Rightarrow> Inr d0 | Some c \<Rightarrow> initialize_runtime_paths d0 c (map (\<lambda>t. (genome_direction (template_genome t), target_id t)) ts)) = Inr d1"
      and v: "validate_decoder_bindings d1 = Inr ()" and c: "\<forall>t \<in> set ts. check_template_path d1 t = Inr ()"
      and au: "fold_res (authorize d1) [] (concat (map (\<lambda>(dir, p). map (\<lambda>sid. (dir, p, sid)) (source_ids p)) (runtime_paths d1))) = Inr as"
      and dd: "d = d1\<lparr>mutation_authorizations := as\<rparr>"
    using d by (auto simp: make_decoder_def Let_def simp flip: d0_def split: if_splits)
  have fr: "graph_sources (dec_graph d1) = graph_sources g" "dec_ownership d1 = ownership" "templates d1 = ts" "max_records d1 = mr" "max_delay_ticks d1 = md" "dec_bindings d1 = Some bs"
    using d1 initialize_frame [of d0 _ _ d1] by (auto simp: d0_def split: option.splits)
  then show "graph_sources (dec_graph d) = graph_sources g" "dec_ownership d = ownership" "templates d = ts" "max_records d = mr" "max_delay_ticks d = md" "0 \<le> md" "ts \<noteq> []"
    "dec_bindings d = Some bs" using lim by (auto simp: dd)
  show "auths_ok (mutation_authorizations d)" using authorize_ok [OF au] by (simp add: dd auths_ok_def)
  show "validate_decoder_bindings d = Inr ()" using v by (simp add: dd decoder_parts_same)
  show "\<exists>ps. paths_for d (target_id t) (genome_direction (template_genome t)) = Inr ps \<and> ps \<noteq> []" if "t \<in> set ts" for t
    using c that by (fastforce simp: dd decoder_parts_same check_template_path_def check_def split: if_splits)
  show "path_usable d t dir p" if p: "paths_for d t dir = Inr ps" "p \<in> set ps" for t dir ps p
  proof (cases contract)
    case None
    then have "dec_graph d1 = g" "runtime_contract d1 = None" using d1 by (auto simp: d0_def)
    then show ?thesis using default_paths_usable [of ss rs d1 t dir ps p] g p by (simp add: dd decoder_parts_same)
  next
    case (Some c)
    then show ?thesis using runtime_paths_usable [of d0 c _ d1 t dir ps p] d1 p by (simp add: dd decoder_parts_same)
  qed
qed

text \<open>Construction makes every source of a selected path ready in the template it was selected for.\<close>

lemma decoder_ready:
  assumes g: "make_graph ss rs = Inr g" "\<forall>r \<in> set rs. make_dependency_rule r = Inr r" and srcs: "\<forall>ks \<in> set (graph_sources g). make_fuzzable_source (snd ks) = Inr (snd ks)"
    and d: "make_decoder g ownership ts mr md (Some bs) contract = Inr d"
    and t: "t \<in> set ts" "paths_for d (target_id t) (genome_direction (template_genome t)) = Inr ps" "p \<in> set ps"
  shows "decoder_sound d" "\<forall>sid \<in> set (source_ids p). \<exists>s. map_of (graph_sources g) sid = Some s \<and> source_ready ownership (template_genome t) s"
proof -
  note dl = make_decoder_facts [OF g d]
  have wf: "dict_wf (graph_sources g)" using g(1) by (auto simp: make_graph_def Let_def split: if_splits)
  obtain imgs entries occ where im: "image_source_genomes d = Inr imgs"
      and fo: "fold_res (bind_source entries ownership (map template_genome ts) (Some imgs)) [] (graph_sources g) = Inr occ"
    using dl(10) by (auto simp: validate_decoder_bindings_def validate_bindings_def Let_def dl(1-3,8) split: if_splits)
  note bind = bind_sources [OF fo]
  show "decoder_sound d"
    using bind make_graph_ids [OF g(1)] dl(5,6,9) by (simp add: decoder_sound_def dl(1))
  show "\<forall>sid \<in> set (source_ids p). \<exists>s. map_of (graph_sources g) sid = Some s \<and> source_ready ownership (template_genome t) s"
  proof
    fix sid
    assume sid: "sid \<in> set (source_ids p)"
    then have "dict_has (graph_sources g) sid" using dl(12) [OF t(2,3)] by (auto simp: path_usable_def is_source_def dl(1))
    then obtain s where s: "map_of (graph_sources g) sid = Some s" by (auto simp: dict_has_def)
    have mem: "(sid, s) \<in> set (graph_sources g)" by (rule map_of_SomeD [OF s])
    have sv: "src_kind s = ''source'' \<or> src_kind s = ''memory_image''" "0 \<le> src_offset s" "1 \<le> src_width s"
      using srcs mem by (fastforce simp: make_fuzzable_source_def split: if_splits)+
    obtain bd where own: "src_width s \<le> 8192" "check_binding_owner ownership (map template_genome ts) (Some imgs) sid s bd = Inr ()"
      using bind mem by blast
    have "check_bound_image s bd (template_genome t) = Inr ()" if k: "src_kind s = ''memory_image''"
    proof -
      have "template_genome t \<in> set (dict_get imgs sid (map template_genome ts))"
        using image_source_genomes_member [OF im, of sid s t ps p] wf mem k t sid by (simp add: dl(1,3))
      then show ?thesis using own(2) k by (auto simp: check_binding_owner_def Let_def split: if_splits)
    qed
    moreover have "is_ok (mutation_source ownership (src_component s) (src_port s) (src_offset s) (src_width s) (hd (src_directions s)))"
      if "src_kind s = ''source''" using own(2) that by (auto simp: check_binding_owner_def)
    ultimately have "source_ready ownership (template_genome t) s"
      using sv own(1) by (auto simp: source_ready_def)
    with s show "\<exists>s. map_of (graph_sources g) sid = Some s \<and> source_ready ownership (template_genome t) s" by blast
  qed
qed

lemma rename_ok:
  assumes "genome_ok g" "tc \<noteq> []" "pid \<noteq> []"
  shows "make_genome (g\<lparr>testcase := tc, path_id := pid\<rparr>) = Inr (g\<lparr>testcase := tc, path_id := pid\<rparr>)"
    "genome_ok (g\<lparr>testcase := tc, path_id := pid\<rparr>)" "shape (g\<lparr>testcase := tc, path_id := pid\<rparr>) = shape g"
  using assms by (simp_all add: genome_ok_def make_genome_Inr genome_checks_def shape_def)

text \<open>C22: Every stream of records decodes. A decoder that was constructed with trusted bindings over a validated graph, with or without a runtime contract, and whose templates are valid
  genomes, turns any stream of 1 to \<open>max_records\<close> eight-byte records, whatever their bytes, into a valid genome that differs from the selected template
  in action values, action delays, image bytes and names only, or reports that a selected source has no field to mutate. No other error is possible: every
  index the bytes select exists, and no check of the mutation, of its authorization, of the ownership map or of the constructors refuses the selected change.\<close>

theorem decode_total:
  assumes g: "make_graph ss rs = Inr g" "\<forall>r \<in> set rs. make_dependency_rule r = Inr r"
    and srcs: "\<forall>ks \<in> set (graph_sources g). make_fuzzable_source (snd ks) = Inr (snd ks)"
    and d: "make_decoder g ownership ts mr md (Some bs) contract = Inr d"
    and ok: "\<forall>t \<in> set ts. genome_ok (template_genome t)"
    and recs: "1 \<le> length records" "int (length records) \<le> mr" "\<forall>r \<in> set records. length r = RECORD_BYTES"
  shows "decode d records = Inl (ValueError ''selected upstream source has no mutable genome field'')
    \<or> (\<exists>h. decode d records = Inr h \<and> genome_ok h \<and> shape h = shape (template_genome (ts ! (record_byte (records ! 0) 0 mod length ts))))"
proof -
  note dl = make_decoder_facts [OF g d]
  define t where "t = ts ! (record_byte (records ! 0) 0 mod length ts)"
  let ?dir = "genome_direction (template_genome t)"
  have t: "t \<in> set ts" using dl(7) by (simp add: t_def)
  then obtain ps where ps: "paths_for d (target_id t) ?dir = Inr ps" "ps \<noteq> []" using dl(11) by blast
  define p where "p = ps ! (record_byte (records ! 0) 1 mod length ps)"
  have p: "p \<in> set ps" using ps(2) by (simp add: p_def)
  note ready = decoder_ready [OF g srcs d t ps(1) p]
  obtain name where use: "path_admitted (dec_graph d) ?dir p" "source_ids p \<noteq> []" "path_name d (target_id t) p ?dir = Inr name" "name \<noteq> []"
    using dl(12) [OF ps(1) p] by (auto simp: path_usable_def)
  let ?fin = "\<lambda>h. h\<lparr>testcase := ''rfuzz-'' @ take 24 (sha256_hex (concat records)), path_id := name\<rparr>"
  let ?run = "fold_res (decode_record d p) (template_genome t) records"
  have dec: "decode d records = res_bind ?run (\<lambda>h. res_bind (path_name d (target_id t) p (genome_direction h)) (\<lambda>name.
      make_genome (h\<lparr>testcase := ''rfuzz-'' @ take 24 (sha256_hex (concat records)), path_id := name\<rparr>)))"
    using recs ps dl(10) by (simp add: decode_def Let_def dl(3,4) p_def flip: t_def)
  have "?run = Inl no_mutable_field \<or> (\<exists>h. ?run = Inr h \<and> genome_ok h \<and> shape h = shape (template_genome t))"
    using ready(2) ok t by (intro decode_records_ok [OF ready(1) use(1,2)]) (simp_all add: dl(1,2))
  then show ?thesis
  proof
    assume "?run = Inl no_mutable_field"
    then show ?thesis by (simp add: dec)
  next
    assume "\<exists>h. ?run = Inr h \<and> genome_ok h \<and> shape h = shape (template_genome t)"
    then obtain h where h: "?run = Inr h" "genome_ok h" "shape h = shape (template_genome t)" by blast
    have "decode d records = Inr (?fin h)" using rename_ok(1) [OF h(2)] use(3,4) shape_direction [OF h(3)] by (simp add: dec h(1))
    moreover have "genome_ok (?fin h)" "shape (?fin h) = shape (template_genome t)" using rename_ok(2,3) [OF h(2)] h(3) use(4) by simp_all
    ultimately show ?thesis by (auto simp: t_def)
  qed
qed

definition example_templates :: "decoder_template list" where
  "example_templates = [\<lparr>target_id = ''t'', template_genome = example_genome\<rparr>]"

definition example_decoder :: decoder where
  "example_decoder = (case make_decoder example_graph example_map example_templates 200 64 (Some [example_binding ''s1'', example_binding ''s2'']) None of Inr d \<Rightarrow> d)"

lemma example_decoder_made: "make_decoder example_graph example_map example_templates 200 64 (Some [example_binding ''s1'', example_binding ''s2'']) None = Inr example_decoder"
  by code_simp

text \<open>A record that flips bit 0 of the first source, and one that delays its action by 9 ticks.\<close>

definition example_records :: "bytes list" where
  "example_records = [[0, 0, 0, 0, 0, 1, 0, 0], [0, 0, 0, 0, 0, 2, 9, 0]]"

lemma example_rules_made: "\<forall>r \<in> set example_rules. make_dependency_rule r = Inr r"
  by code_simp

lemma example_records_fold: "fold_res (decode_record example_decoder \<lparr>path_target = ''t'', source_ids = [''s1'', ''s2''], path_edges = []\<rparr>) example_genome example_records
  = Inr (example_genome\<lparr>actions := [example_action\<lparr>action_value := 4, delay_ticks := 9 + delay_ticks example_action\<rparr>]\<rparr>)"
  by code_simp

lemma example_records_ok: "genome_ok (example_genome\<lparr>actions := [example_action\<lparr>action_value := 4, delay_ticks := 9 + delay_ticks example_action\<rparr>]\<rparr>)"
  by code_simp

text \<open>The same decoder with a runtime contract: the digest of its frozen graph.\<close>

definition example_frozen :: dependency_graph where
  "example_frozen = (case freeze_graph example_graph of Inr g \<Rightarrow> g)"

definition example_proof :: dependency_path where
  "example_proof = (case edge_paths_to example_frozen ''t'' ''CPU_TO_IP'' 16 64 of Inr ps \<Rightarrow> hd ps)"

definition example_runtime_graph :: dependency_graph where
  "example_runtime_graph = example_frozen\<lparr>decoder_path_proofs := [(''CPU_TO_IP'', example_proof)]\<rparr>"

lemma example_frozen_ok: "freeze_graph example_graph = Inr example_frozen" "edge_paths_to example_frozen ''t'' ''CPU_TO_IP'' 16 64 = Inr [example_proof]"
    "source_ids example_proof = [''s1'', ''s2'']" "is_ok (edge_document example_frozen)"
    "dict_fromkeys [(''CPU_TO_IP'', ''t'')] = [(''CPU_TO_IP'', ''t'')]" "filter (\<lambda>ks. src_kind (snd ks) = ''memory_image'') (graph_sources example_runtime_graph) = []"
  by code_simp+

lemma example_runtime_bound: "validate_bindings [example_binding ''s1'', example_binding ''s2''] example_runtime_graph example_map [example_genome] (Some []) = Inr ()"
  by code_simp

lemma example_runtime_authorized: "\<forall>sid \<in> {''s1'', ''s2''}. is_ok (compile_mutation_authorization \<lparr>plan_direction = ''CPU_TO_IP'', plan_target = path_target example_proof, plan_path = example_proof, focus_source = sid\<rparr>
     0 example_runtime_graph 0 True example_map)"
  by code_simp


lemma example_proof_named: "\<exists>i. path_identity example_frozen example_proof ''CPU_TO_IP'' = Inr i"
proof -
  have "edge_paths_to example_graph ''t'' ''CPU_TO_IP'' 16 64 = Inr [example_proof]" by code_simp
  from edge_paths_identified [OF example_graph_made example_rules_made this] obtain i where "path_identity example_graph example_proof ''CPU_TO_IP'' = Inr i"
    by (auto simp: is_ok_iff)
  moreover have "graph_sources example_frozen = graph_sources example_graph" "ordered_rules example_frozen = ordered_rules example_graph" "graph_rules example_frozen = graph_rules example_graph"
    by code_simp+
  ultimately show ?thesis using identity_same(1) [of example_graph example_proof _ i example_frozen] by (simp add: is_ok_iff)
qed

lemma example_runtime_made:
  "\<exists>c d. make_decoder example_graph example_map example_templates 200 64 (Some [example_binding ''s1'', example_binding ''s2'']) (Some c) = Inr d"
proof -
  let ?bs = "[example_binding ''s1'', example_binding ''s2'']" and ?k = "(''CPU_TO_IP'', example_proof)"
  obtain doc where doc: "edge_document example_frozen = Inr doc" using example_frozen_ok(4) by (auto simp: is_ok_iff)
  obtain i where i: "path_identity example_frozen example_proof ''CPU_TO_IP'' = Inr i" using example_proof_named by blast
  let ?d0 = "\<lparr>dec_graph = example_graph, dec_ownership = example_map, templates = example_templates, max_records = 200, max_delay_ticks = 64, dec_bindings = Some ?bs,
     runtime_contract = None, paths_by_key = [], path_lookup = [], path_ids = [], mutation_authorizations = [], trusted_for_search = True\<rparr>"
  define d1 where "d1 = ?d0\<lparr>runtime_contract := Some (edge_hash doc), dec_graph := example_runtime_graph, paths_by_key := [((''CPU_TO_IP'', ''t''), [example_proof])],
     path_lookup := [(i, ?k)], path_ids := [(?k, i)]\<rparr>"
  have init: "initialize_runtime_paths ?d0 (edge_hash doc) [(''CPU_TO_IP'', ''t'')] = Inr d1"
    using example_frozen_ok(1,2,5) doc i
    by (simp add: initialize_runtime_paths_def register_template_target_def register_path_def d1_def example_runtime_graph_def)
  have pf: "paths_for d1 ''t'' ''CPU_TO_IP'' = Inr [example_proof]" by (simp add: paths_for_def d1_def dict_get_def)
  have dir: "genome_direction example_genome = ''CPU_TO_IP''" by (simp add: example_genome_def)
  have "image_source_genomes d1 = Inr []"
    using pf example_frozen_ok(6) by (simp add: image_source_genomes_def d1_def example_templates_def dir)
  then have v: "validate_decoder_bindings d1 = Inr ()" using example_runtime_bound by (simp add: validate_decoder_bindings_def d1_def example_templates_def)
  have ch: "check_all (check_template_path d1) example_templates = Inr ()" using pf by (simp add: check_template_path_def example_templates_def dir check_def)
  have rp: "runtime_paths d1 = [?k]" by (simp add: runtime_paths_def d1_def)
  have "dec_graph d1 = example_runtime_graph" "dec_ownership d1 = example_map" by (simp_all add: d1_def)
  then obtain as where "fold_res (authorize d1) [] [(''CPU_TO_IP'', example_proof, ''s1''), (''CPU_TO_IP'', example_proof, ''s2'')] = Inr as"
    using example_runtime_authorized by (auto simp: authorize_def is_ok_iff)
  then show ?thesis
    using init v ch rp example_frozen_ok(3)
    by (intro exI [of _ "edge_hash doc"]) (auto simp: make_decoder_def Let_def example_templates_def dir)
qed

theorem decode_total_witness:
  "(\<exists>h. decode example_decoder example_records = Inr h \<and> genome_ok h \<and> shape h = shape example_genome)
   \<and> (\<exists>c d. make_decoder example_graph example_map example_templates 200 64 (Some [example_binding ''s1'', example_binding ''s2'']) (Some c) = Inr d
       \<and> (decode d example_records = Inl (ValueError ''selected upstream source has no mutable genome field'')
          \<or> (\<exists>h. decode d example_records = Inr h \<and> genome_ok h \<and> shape h = shape example_genome)))"
proof -
  have 1: "\<forall>t \<in> set example_templates. genome_ok (template_genome t)" using example_genome_ok by (simp add: example_templates_def)
  have 2: "1 \<le> length example_records" "int (length example_records) \<le> 200" "\<forall>r \<in> set example_records. length r = RECORD_BYTES"
    by (simp_all add: example_records_def RECORD_BYTES_def)
  have 3: "template_genome (example_templates ! (record_byte (example_records ! 0) 0 mod length example_templates)) = example_genome"
    by (simp add: example_templates_def)
  note dl = make_decoder_legacy [OF example_decoder_made]
  have "default_paths example_graph ''t'' (genome_direction example_genome) = Inr [\<lparr>path_target = ''t'', source_ids = [''s1'', ''s2''], path_edges = []\<rparr>]"
    using example_paths by (simp add: default_paths_def example_genome_def)
  then have "decode example_decoder example_records \<noteq> Inl no_mutable_field"
    using example_records_fold 2 dl rename_ok(1) [OF example_records_ok] by (simp add: decode_def Let_def paths_for_def path_name_def example_templates_def)
  then have "\<exists>h. decode example_decoder example_records = Inr h \<and> genome_ok h \<and> shape h = shape example_genome"
    using decode_total [OF example_graph_made example_rules_made example_sources example_decoder_made 1 2] unfolding 3 by blast
  moreover obtain c d where rt: "make_decoder example_graph example_map example_templates 200 64 (Some [example_binding ''s1'', example_binding ''s2'']) (Some c) = Inr d"
    using example_runtime_made by blast
  note decode_total [OF example_graph_made example_rules_made example_sources rt 1 2, unfolded 3]
  ultimately show ?thesis using rt by blast
qed

end
