(* ===== verification/Scheduler.thy ===== *)
theory Scheduler
  imports Ownership Genome
begin

text \<open>
  The scheduler of one testcase (\<open>scenario/scheduler.py\<close>): local steps in a fixed cyclic order, and source changes and resets that
  are released when their trigger was observed and their delay has passed. The runner it drives owns the sessions and the event log; it is a record
  of operations over a state of its own, which the scheduler only reaches through them. Every statement returns the state it left also when it raised,
  since the scheduler reports what had fired before a failure.
\<close>

section \<open>Statements that raise and keep what they wrote\<close>

text \<open>A statement returns whether it raised and the state it left, in both cases.\<close>

type_synonym 's stmt = "'s \<Rightarrow> unit res \<times> 's"

definition and_then :: "'s stmt \<Rightarrow> 's stmt \<Rightarrow> 's stmt" where
  "and_then f h s = (case f s of (Inl e, s') \<Rightarrow> (Inl e, s') | (Inr _, s') \<Rightarrow> h s')"

fun each :: "('x \<Rightarrow> 's stmt) \<Rightarrow> 'x list \<Rightarrow> 's stmt" where
  "each f [] s = (Inr (), s)"
| "each f (x # xs) s = and_then (f x) (each f xs) s"

section \<open>The runner as the scheduler sees it\<close>

record event =
  event_component :: "string option"
  event_kind :: "string option"
  event_outputs :: "(string, json) dict option"
  event_id :: int

record quiesce_result =
  quiesce_status :: string
  quiesced_steps :: int
  pending_responses :: "(string, int) dict"
  uncertain_transactions :: "string list"

text \<open>The operations of a \<open>ScenarioRunner\<close> that the scheduler calls, over a state \<open>'r\<close>; \<open>sessions\<close> are the local harnesses,
  each with whether it can be reset.\<close>

record 'r runner =
  sessions :: "(string \<times> bool) list"
  runner_ownership :: ownership_map
  local_ticks :: "'r \<Rightarrow> string \<Rightarrow> int res"
  command_epoch :: "'r \<Rightarrow> int"
  event_count :: "'r \<Rightarrow> int"
  events_since :: "int \<Rightarrow> 'r \<Rightarrow> event list res"
  failure_status :: "'r \<Rightarrow> string option"
  preload_image :: "memory_image \<Rightarrow> 'r stmt"
  begin_test :: "string \<Rightarrow> 'r stmt"
  inject_source :: "action \<Rightarrow> 'r stmt"
  reset_all :: "string \<Rightarrow> 'r stmt"
  runner_step :: "string \<Rightarrow> 'r \<Rightarrow> (string, json) dict res \<times> 'r"
  quiesce :: "int \<Rightarrow> 'r \<Rightarrow> quiesce_result res \<times> 'r"
  finalize :: "'r stmt"

section \<open>The scheduler\<close>

record consumption_cursor =
  cursor_kind :: string
  cursor_event :: "int option"
  cursor_epoch :: int
  cursor_occurrence :: int
  cursor_component :: string
  cursor_port :: string

record scheduler_result =
  run_status :: string
  run_steps :: int
  fired_actions :: "string list"
  pending_actions :: "string list"
  fired_resets :: "string list"
  pending_resets :: "string list"
  run_quiesce :: "quiesce_result option"
  cursor_records :: "(string \<times> consumption_cursor) list"

text \<open>The bookkeeping of one kind of action: when a selected action is due, which have fired, how often the predicate
  of each was entered and whether it held at the last observation.\<close>

record action_table =
  due :: "(string, int) dict"
  fired :: "string list"
  counts :: "(string, int) dict"
  previous_match :: "(string, bool) dict"

record 'r scheduler =
  source_table :: action_table
  reset_table :: action_table
  selected_cursors :: "(string, consumption_cursor) dict"
  consumed_cursors :: "(string, consumption_cursor) dict"
  sched_steps :: int
  last_event_count :: int
  sched_quiesce :: "quiesce_result option"
  runner_state :: 'r

definition on_runner :: "'r stmt \<Rightarrow> 'r scheduler stmt" where
  "on_runner f s = (case f (runner_state s) of (o', r) \<Rightarrow> (o', s\<lparr>runner_state := r\<rparr>))"

definition action_clock :: "action \<Rightarrow> string" where
  "action_clock a = (if delay_component a = [] then component a else delay_component a)"

definition reset_clock :: "string \<Rightarrow> reset_action \<Rightarrow> string" where
  "reset_clock otherwise a = (if reset_delay_component a = [] then otherwise else reset_delay_component a)"

definition empty_table :: "string list \<Rightarrow> action_table" where
  "empty_table ids = \<lparr>due = [], fired = [], counts = dict_set_all [] (map (\<lambda>i. (i, 0)) ids),
     previous_match = dict_set_all [] (map (\<lambda>i. (i, False)) ids)\<rparr>"

text \<open>Actions that start with the testcase are due after their delay.\<close>

definition start_cursor :: "'r runner \<Rightarrow> 'r \<Rightarrow> consumption_cursor" where
  "start_cursor ops r = \<lparr>cursor_kind = ''START'', cursor_event = None, cursor_epoch = command_epoch ops r, cursor_occurrence = 0,
     cursor_component = [], cursor_port = []\<rparr>"

definition start_action :: "'r runner \<Rightarrow> action \<Rightarrow> 'r scheduler stmt" where
  "start_action ops a s =
     (if kind (trig a) \<noteq> ''START'' then (Inr (), s)
      else (case local_ticks ops (runner_state s) (action_clock a) of
          Inl e \<Rightarrow> (Inl e, s)
        | Inr now \<Rightarrow> (Inr (), s\<lparr>source_table := (source_table s)\<lparr>due := dict_set (due (source_table s)) (action_id a) (now + delay_ticks a)\<rparr>,
            selected_cursors := dict_set (selected_cursors s) (action_id a) (start_cursor ops (runner_state s))\<rparr>)))"

definition start_reset :: "'r runner \<Rightarrow> scenario_genome \<Rightarrow> reset_action \<Rightarrow> 'r scheduler stmt" where
  "start_reset ops g a s =
     (if kind (reset_trigger a) \<noteq> ''START'' then (Inr (), s)
      else (case local_ticks ops (runner_state s) (reset_clock (schedule_order g ! 0) a) of
          Inl e \<Rightarrow> (Inl e, s)
        | Inr now \<Rightarrow> (Inr (), s\<lparr>reset_table := (reset_table s)\<lparr>due := dict_set (due (reset_table s)) (reset_id a) (now + reset_delay_ticks a)\<rparr>,
            selected_cursors := dict_set (selected_cursors s) (reset_id a) (start_cursor ops (runner_state s))\<rparr>)))"

text \<open>What is due is carried out: resets first, then source changes.\<close>

definition consume_cursor :: "string \<Rightarrow> 'r scheduler stmt" where
  "consume_cursor i s = (case map_of (selected_cursors s) i of
     None \<Rightarrow> (Inl (KeyError (py_repr i)), s)
   | Some c \<Rightarrow> (Inr (), s\<lparr>consumed_cursors := dict_set (consumed_cursors s) i c\<rparr>))"

definition forget_matches :: "action_table \<Rightarrow> action_table" where
  "forget_matches t = t\<lparr>previous_match := map (\<lambda>(i, _). (i, False)) (previous_match t)\<rparr>"

definition release_reset :: "'r runner \<Rightarrow> scenario_genome \<Rightarrow> reset_action \<Rightarrow> 'r scheduler stmt" where
  "release_reset ops g a s = (case map_of (due (reset_table s)) (reset_id a) of
     None \<Rightarrow> (Inr (), s)
   | Some at \<Rightarrow> (case local_ticks ops (runner_state s) (reset_clock (schedule_order g ! 0) a) of
       Inl e \<Rightarrow> (Inl e, s)
     | Inr now \<Rightarrow> if now < at then (Inr (), s)
         else and_then (on_runner (reset_all ops (policy a)))
          (and_then (\<lambda>s. (Inr (), s\<lparr>reset_table := (reset_table s)\<lparr>fired := List.insert (reset_id a) (fired (reset_table s))\<rparr>\<rparr>))
          (and_then (consume_cursor (reset_id a))
            (\<lambda>s. (Inr (), s\<lparr>source_table := forget_matches (source_table s),
               reset_table := forget_matches ((reset_table s)\<lparr>due := dict_del (due (reset_table s)) (reset_id a)\<rparr>)\<rparr>)))) s))"

definition release_action :: "'r runner \<Rightarrow> action \<Rightarrow> 'r scheduler stmt" where
  "release_action ops a s = (case map_of (due (source_table s)) (action_id a) of
     None \<Rightarrow> (Inr (), s)
   | Some at \<Rightarrow> (case local_ticks ops (runner_state s) (action_clock a) of
       Inl e \<Rightarrow> (Inl e, s)
     | Inr now \<Rightarrow> if now < at then (Inr (), s)
         else and_then (on_runner (inject_source ops a))
          (and_then (\<lambda>s. (Inr (), s\<lparr>source_table := (source_table s)\<lparr>fired := List.insert (action_id a) (fired (source_table s))\<rparr>\<rparr>))
          (and_then (consume_cursor (action_id a))
            (\<lambda>s. (Inr (), s\<lparr>source_table := (source_table s)\<lparr>due := dict_del (due (source_table s)) (action_id a)\<rparr>\<rparr>)))) s))"

definition release_due :: "'r runner \<Rightarrow> scenario_genome \<Rightarrow> 'r scheduler stmt" where
  "release_due ops g = and_then (each (release_reset ops g) (reset_actions g)) (each (release_action ops) (actions g))"

section \<open>Observed outputs\<close>

text \<open>\<open>int(text, 16)\<close>: white space around, a sign, a prefix, digits with single underscores between them.\<close>

definition is_space :: "char \<Rightarrow> bool" where
  "is_space c = (of_char c \<in> {9, 10, 11, 12, 13, 28, 29, 30, 31, 32, 133, 160 :: nat})"

definition strip :: "string \<Rightarrow> string" where
  "strip s = rev (dropWhile is_space (rev (dropWhile is_space s)))"

fun hex_digits :: "int \<Rightarrow> string \<Rightarrow> int option" where
  "hex_digits acc [] = None"
| "hex_digits acc (c # cs) = (case hex_value c of
     None \<Rightarrow> None
   | Some v \<Rightarrow> (case cs of
         [] \<Rightarrow> Some (16 * acc + int v)
       | d # ds \<Rightarrow> if d = CHR ''_'' then hex_digits (16 * acc + int v) ds else hex_digits (16 * acc + int v) (d # ds)))"

definition unsigned_hex :: "string \<Rightarrow> int option" where
  "unsigned_hex s = (if take 2 s = ''0x'' \<or> take 2 s = ''0X''
     then (if take 1 (drop 2 s) = ''_'' then hex_digits 0 (drop 3 s) else hex_digits 0 (drop 2 s)) else hex_digits 0 s)"

definition int_base16 :: "string \<Rightarrow> int option" where
  "int_base16 s = (let t = strip s in
     if take 1 t = ''-'' then map_option uminus (unsigned_hex (drop 1 t))
     else if take 1 t = ''+'' then unsigned_hex (drop 1 t) else unsigned_hex t)"

text \<open>The outputs of one local tick, with the aliases the triggers use.\<close>

definition sample_outputs :: "(string, json) dict \<Rightarrow> (string, json) dict res" where
  "sample_outputs outs =
     (let o1 = (case map_of outs ''interrupt'' of None \<Rightarrow> outs | Some v \<Rightarrow> dict_set outs ''irq'' v) in
      case map_of o1 ''gpio_padcfg'' of
        Some (JStr t) \<Rightarrow> (case int_base16 t of
            None \<Rightarrow> Inl (ValueError (''invalid literal for int() with base 16: '' @ py_repr t))
          | Some v \<Rightarrow> Inr (dict_set o1 ''gpio_padcfg'' (JInt v)))
      | _ \<Rightarrow> Inr o1)"

definition is_sample :: "event \<Rightarrow> bool" where
  "is_sample ev \<longleftrightarrow> event_kind ev = Some ''local_tick_sample''"

definition is_step_event :: "string \<Rightarrow> event \<Rightarrow> bool" where
  "is_step_event c ev \<longleftrightarrow> event_component ev = Some c \<and> event_kind ev = None \<and> event_outputs ev \<noteq> None"

text \<open>An observation is the component, the event and the outputs.\<close>

type_synonym observation = "string \<times> int \<times> (string, json) dict"

definition sample_component :: "event \<Rightarrow> string res" where
  "sample_component ev = (case event_component ev of None \<Rightarrow> Inl (KeyError ''component'') | Some c \<Rightarrow> Inr c)"

definition observation_of :: "string \<Rightarrow> string list \<Rightarrow> event \<Rightarrow> observation list res" where
  "observation_of c sampled ev =
     (if is_sample ev
      then res_bind (case event_outputs ev of None \<Rightarrow> Inl (KeyError ''outputs'') | Some outs \<Rightarrow> sample_outputs outs) (\<lambda>outs.
        res_bind (sample_component ev) (\<lambda>sc. Inr [(sc, event_id ev, outs)]))
      else if is_step_event c ev \<and> c \<notin> set sampled
      then (case event_outputs ev of None \<Rightarrow> Inr [] | Some outs \<Rightarrow> Inr [(c, event_id ev, outs)])
      else Inr [])"

definition observations :: "string \<Rightarrow> event list \<Rightarrow> observation list res" where
  "observations c window =
     res_bind (map_res sample_component (filter is_sample window)) (\<lambda>sampled.
     res_bind (map_res (observation_of c sampled) window) (\<lambda>obs. Inr (concat obs)))"

definition trigger_matches :: "trigger \<Rightarrow> (string, json) dict \<Rightarrow> bool" where
  "trigger_matches t outs = (case map_of outs (source_port t) of
     Some (JInt v) \<Rightarrow> v \<ge> 0 \<and> v AND trigger_mask t = trigger_value t
   | _ \<Rightarrow> False)"

text \<open>One action and one observation: entering the predicate counts, and the occurrence that was asked for selects the action.\<close>

definition observe_entry :: "'r runner \<Rightarrow> 'r \<Rightarrow> int \<Rightarrow> observation \<Rightarrow> string \<Rightarrow> trigger \<Rightarrow> string \<Rightarrow> int
    \<Rightarrow> action_table \<times> (string, consumption_cursor) dict \<Rightarrow> unit res \<times> action_table \<times> (string, consumption_cursor) dict" where
  "observe_entry ops r epoch ob i t clock delay tc = (case (tc, ob) of ((tbl, cursors), (sc, eid, outs)) \<Rightarrow>
     if i \<in> set (fired tbl) \<or> dict_has (due tbl) i \<or> kind t \<noteq> ''AFTER_OUTPUT'' \<or> source_component t \<noteq> sc then (Inr (), tbl, cursors)
     else
       (let matched = trigger_matches t outs;
            now_matched = (\<lambda>tbl. tbl\<lparr>previous_match := dict_set (previous_match tbl) i matched\<rparr>) in
        if matched \<and> \<not> dict_get (previous_match tbl) i False
        then
          (let n = dict_get (counts tbl) i 0 + 1; tbl1 = tbl\<lparr>counts := dict_set (counts tbl) i n\<rparr> in
           if n = occurrence t
           then (case local_ticks ops r clock of
               Inl e \<Rightarrow> (Inl e, tbl1, cursors)
             | Inr now \<Rightarrow> (Inr (), now_matched (tbl1\<lparr>due := dict_set (due tbl1) i (now + delay)\<rparr>),
                 dict_set cursors i \<lparr>cursor_kind = ''AFTER_OUTPUT'', cursor_event = Some eid, cursor_epoch = epoch, cursor_occurrence = n,
                   cursor_component = sc, cursor_port = source_port t\<rparr>))
           else (Inr (), now_matched tbl1, cursors))
        else (Inr (), now_matched tbl, cursors)))"

definition observe_action :: "'r runner \<Rightarrow> int \<Rightarrow> observation \<Rightarrow> action \<Rightarrow> 'r scheduler stmt" where
  "observe_action ops epoch ob a s =
     (case observe_entry ops (runner_state s) epoch ob (action_id a) (trig a) (action_clock a) (delay_ticks a) (source_table s, selected_cursors s) of
        (o', tbl, cursors) \<Rightarrow> (o', s\<lparr>source_table := tbl, selected_cursors := cursors\<rparr>))"

definition observe_reset :: "'r runner \<Rightarrow> int \<Rightarrow> observation \<Rightarrow> reset_action \<Rightarrow> 'r scheduler stmt" where
  "observe_reset ops epoch ob a s =
     (case observe_entry ops (runner_state s) epoch ob (reset_id a) (reset_trigger a) (reset_clock (fst ob) a) (reset_delay_ticks a)
         (reset_table s, selected_cursors s) of
        (o', tbl, cursors) \<Rightarrow> (o', s\<lparr>reset_table := tbl, selected_cursors := cursors\<rparr>))"

definition observe_event :: "'r runner \<Rightarrow> scenario_genome \<Rightarrow> int \<Rightarrow> observation \<Rightarrow> 'r scheduler stmt" where
  "observe_event ops g epoch ob = and_then (each (observe_action ops epoch ob) (actions g)) (each (observe_reset ops epoch ob) (reset_actions g))"

text \<open>Two output dictionaries are equal whatever their order; \<open>True\<close> equals 1.\<close>

definition plain_value :: "json \<Rightarrow> json" where
  "plain_value v = (case v of JBool b \<Rightarrow> JInt (of_bool b) | _ \<Rightarrow> v)"

definition outputs_equal :: "(string, json) dict \<Rightarrow> (string, json) dict \<Rightarrow> bool" where
  "outputs_equal d e \<longleftrightarrow> length d = length e \<and> (\<forall>kv \<in> set d. map_option plain_value (map_of e (fst kv)) = Some (plain_value (snd kv)))"

definition observe_step :: "'r runner \<Rightarrow> scenario_genome \<Rightarrow> string \<Rightarrow> (string, json) dict \<Rightarrow> 'r scheduler stmt" where
  "observe_step ops g c outs s =
     (case events_since ops (last_event_count s) (runner_state s) of
        Inl e \<Rightarrow> (Inl e, s)
      | Inr window \<Rightarrow>
          (case filter (is_step_event c) window of
             [ev] \<Rightarrow>
               if \<not> outputs_equal (case event_outputs ev of None \<Rightarrow> [] | Some d \<Rightarrow> d) outs
               then (Inl (RuntimeError ''observed output has no unique source step event''), s)
               else (case observations c window of
                   Inl e \<Rightarrow> (Inl e, s)
                 | Inr obs \<Rightarrow>
                     and_then (each (observe_event ops g (command_epoch ops (runner_state s))) obs)
                      (and_then (release_due ops g)
                        (\<lambda>s. (Inr (), s\<lparr>last_event_count := event_count ops (runner_state s)\<rparr>))) (s\<lparr>sched_steps := sched_steps s + 1\<rparr>))
           | _ \<Rightarrow> (Inl (RuntimeError ''observed output has no unique source step event''), s)))"

section \<open>A run\<close>

definition step_and_observe :: "'r runner \<Rightarrow> scenario_genome \<Rightarrow> string \<Rightarrow> 'r scheduler stmt" where
  "step_and_observe ops g c s = (case runner_step ops c (runner_state s) of
     (Inl e, r) \<Rightarrow> (Inl e, s\<lparr>runner_state := r\<rparr>)
   | (Inr outs, r) \<Rightarrow> observe_step ops g c outs (s\<lparr>runner_state := r\<rparr>))"

definition scheduled :: "scenario_genome \<Rightarrow> nat \<Rightarrow> string" where
  "scheduled g i = schedule_order g ! (i mod length (schedule_order g))"

text \<open>\<open>ScenarioRunner.step_batch\<close> with the scheduler's callback.\<close>

definition step_batch :: "'r runner \<Rightarrow> scenario_genome \<Rightarrow> string list \<Rightarrow> 'r scheduler stmt" where
  "step_batch ops g schedule s =
     (if schedule = [] then (Inl (ValueError ''step_batch requires a nonempty component tuple''), s)
      else if \<exists>c \<in> set schedule. c \<notin> fst ` set (sessions ops) then (Inl (ValueError ''step_batch references unknown local harness''), s)
      else each (step_and_observe ops g) schedule s)"

text \<open>The loop over batches. Sizes are positive, which \<open>run\<close> has checked; the test for a size of zero makes the function total.\<close>

function run_batches :: "'r runner \<Rightarrow> scenario_genome \<Rightarrow> nat list \<Rightarrow> nat \<Rightarrow> nat \<Rightarrow> 'r scheduler stmt" where
  "run_batches ops g sizes offset index s =
     (let n = min (sizes ! (index mod length sizes)) (nat (max_steps g) - offset) in
      if n = 0 then (Inr (), s)
      else and_then (step_batch ops g (map (\<lambda>k. scheduled g (offset + k)) [0..<n])) (run_batches ops g sizes (offset + n) (Suc index)) s)"
  by pat_completeness auto
termination
  by (relation "measure (\<lambda>(ops, g, sizes, offset, index, s). nat (max_steps g) - offset)") auto

definition run_loop :: "'r runner \<Rightarrow> scenario_genome \<Rightarrow> int list option \<Rightarrow> 'r scheduler stmt" where
  "run_loop ops g batch_sizes s = (case batch_sizes of
     None \<Rightarrow> each (\<lambda>i. step_and_observe ops g (scheduled g i)) [0..<nat (max_steps g)] s
   | Some sizes \<Rightarrow> run_batches ops g (map nat sizes) 0 0 s)"

definition run_quiesce_steps :: "'r runner \<Rightarrow> scenario_genome \<Rightarrow> 'r scheduler stmt" where
  "run_quiesce_steps ops g s =
     (if quiesce_steps g = 0 then (Inr (), s)
      else (case quiesce ops (quiesce_steps g) (runner_state s) of
          (Inl e, r) \<Rightarrow> (Inl e, s\<lparr>runner_state := r\<rparr>)
        | (Inr q, r) \<Rightarrow> (Inr (), s\<lparr>runner_state := r, sched_quiesce := Some q\<rparr>)))"

definition run_body :: "'r runner \<Rightarrow> scenario_genome \<Rightarrow> int list option \<Rightarrow> 'r scheduler stmt" where
  "run_body ops g batch_sizes =
     and_then (on_runner (begin_test ops (testcase g)))
      (and_then (release_due ops g)
      (and_then (\<lambda>s. (Inr (), s\<lparr>last_event_count := event_count ops (runner_state s)\<rparr>))
      (and_then (run_loop ops g batch_sizes) (run_quiesce_steps ops g))))"

definition check_source_action :: "'r runner \<Rightarrow> scenario_genome \<Rightarrow> action \<Rightarrow> unit res" where
  "check_source_action ops g a =
     (if direction a \<noteq> genome_direction g then Inl (ValueError ''action direction disagrees with genome'')
      else res_bind (field_width (runner_ownership ops) (component a) (port a)) (\<lambda>fw.
        let w = (case action_width a of None \<Rightarrow> fw | Some w \<Rightarrow> w) in
        res_bind (mutation_source (runner_ownership ops) (component a) (port a) (bit_offset a) w (direction a)) (\<lambda>_.
          check (\<not> action_value a \<ge> 2 ^ nat w) (ValueError ''action value exceeds selected source width''))))"

definition check_run :: "'r runner \<Rightarrow> scenario_genome \<Rightarrow> int list option \<Rightarrow> unit res" where
  "check_run ops g batch_sizes =
     (if (case batch_sizes of None \<Rightarrow> False | Some sizes \<Rightarrow> sizes = [] \<or> (\<exists>n \<in> set sizes. n \<le> 0))
      then Inl (ValueError ''batch_sizes must be a nonempty tuple of positive integers'')
      else if set (schedule_order g) \<noteq> fst ` set (sessions ops) then Inl (ValueError ''schedule_order must contain every local harness'')
      else res_bind (check_all (check_source_action ops g) (actions g)) (\<lambda>_.
        if reset_actions g = [] then Inr ()
        else check_all (\<lambda>(c, can_reset). check can_reset (ValueError (''local harness '' @ c @ '' cannot reset''))) (sessions ops)))"

definition new_scheduler :: "scenario_genome \<Rightarrow> 'r \<Rightarrow> 'r scheduler" where
  "new_scheduler g r = \<lparr>source_table = empty_table (map action_id (actions g)), reset_table = empty_table (map reset_id (reset_actions g)),
     selected_cursors = [], consumed_cursors = [], sched_steps = 0, last_event_count = 0, sched_quiesce = None, runner_state = r\<rparr>"

text \<open>An empty status counts as none.\<close>

definition status_or :: "string option \<Rightarrow> string option \<Rightarrow> string option" where
  "status_or a b = (case a of Some (c # cs) \<Rightarrow> a | _ \<Rightarrow> b)"

definition finish_run :: "'r runner \<Rightarrow> scenario_genome \<Rightarrow> unit res \<times> 'r scheduler \<Rightarrow> scheduler_result res \<times> 'r scheduler" where
  "finish_run ops g os = (case os of (o', s) \<Rightarrow>
     (let failure = (if is_ok o' then None else status_or (failure_status ops (runner_state s)) (Some ''environment_error'')) in
      case on_runner (finalize ops) s of
        (Inl e, s') \<Rightarrow> (Inl e, s')
      | (Inr _, s') \<Rightarrow>
          (let status = status_or (failure_status ops (runner_state s')) failure;
               complete = length (fired (source_table s')) = length (actions g) \<and> length (fired (reset_table s')) = length (reset_actions g);
               st = (if complete then ''complete'' else ''path_incomplete'');
               st1 = (case sched_quiesce s' of Some q \<Rightarrow> if quiesce_status q \<noteq> ''drained'' then quiesce_status q else st | None \<Rightarrow> st);
               ids = map action_id (actions g); rids = map reset_id (reset_actions g) in
           (Inr \<lparr>run_status = (case status of Some x \<Rightarrow> x | None \<Rightarrow> st1), run_steps = sched_steps s',
              fired_actions = filter (\<lambda>i. i \<in> set (fired (source_table s'))) ids,
              pending_actions = filter (\<lambda>i. i \<notin> set (fired (source_table s'))) ids,
              fired_resets = filter (\<lambda>i. i \<in> set (fired (reset_table s'))) rids,
              pending_resets = filter (\<lambda>i. i \<notin> set (fired (reset_table s'))) rids,
              run_quiesce = sched_quiesce s',
              cursor_records = concat (map (\<lambda>i. case map_of (consumed_cursors s') i of None \<Rightarrow> [] | Some c \<Rightarrow> [(i, c)]) (ids @ rids))\<rparr>, s'))))"

definition prepare_run :: "'r runner \<Rightarrow> scenario_genome \<Rightarrow> 'r scheduler stmt" where
  "prepare_run ops g =
     and_then (\<lambda>s. on_runner (each (preload_image ops) (initial_images g)) s)
      (and_then (each (start_action ops) (actions g)) (each (start_reset ops g) (reset_actions g)))"

definition run_scheduler :: "'r runner \<Rightarrow> scenario_genome \<Rightarrow> int list option \<Rightarrow> 'r \<Rightarrow> scheduler_result res \<times> 'r" where
  "run_scheduler ops g batch_sizes r = (case check_run ops g batch_sizes of
     Inl e \<Rightarrow> (Inl e, r)
   | Inr _ \<Rightarrow> (case prepare_run ops g (new_scheduler g r) of
       (Inl e, s) \<Rightarrow> (Inl e, runner_state s)
     | (Inr _, s) \<Rightarrow> (case finish_run ops g (run_body ops g batch_sizes s) of (res, s') \<Rightarrow> (res, runner_state s'))))"

section \<open>Batches are a transport\<close>

lemma and_then_assoc: "and_then (and_then f h) k = and_then f (and_then h k)"
  by (rule ext) (simp add: and_then_def split: prod.splits sum.splits)

lemma each_Cons: "each f (x # xs) = and_then (f x) (each f xs)"
  by (simp add: fun_eq_iff)

lemma each_append: "each f (xs @ ys) = and_then (each f xs) (each f ys)"
proof (induction xs)
  case Nil
  then show ?case by (simp add: and_then_def fun_eq_iff)
next
  case (Cons x xs)
  show ?case by (simp only: append_Cons each_Cons Cons.IH and_then_assoc)
qed

lemma each_map: "each f (map h xs) = each (\<lambda>x. f (h x)) xs"
proof (induction xs)
  case (Cons x xs)
  then show ?case by (simp only: list.map each_Cons)
qed (simp add: fun_eq_iff)

lemma scheduled_member: "schedule_order g \<noteq> [] \<Longrightarrow> scheduled g i \<in> set (schedule_order g)"
  by (simp add: scheduled_def)

declare run_batches.simps [simp del]

lemma run_batches_each:
  assumes "\<forall>n \<in> set sizes. 0 < n" "sizes \<noteq> []" "schedule_order g \<noteq> []" "set (schedule_order g) = fst ` set (sessions ops)"
  shows "run_batches ops g sizes offset index s = each (\<lambda>i. step_and_observe ops g (scheduled g i)) [offset..<nat (max_steps g)] s"
  using assms
proof (induction ops g sizes offset index s rule: run_batches.induct)
  case (1 ops g sizes offset index s)
  let ?f = "\<lambda>i. step_and_observe ops g (scheduled g i)"
  define n where "n = min (sizes ! (index mod length sizes)) (nat (max_steps g) - offset)"
  show ?case
  proof (cases "n = 0")
    case True
    have "0 < sizes ! (index mod length sizes)" using "1.prems"(1,2) by simp
    then have "nat (max_steps g) \<le> offset" using True by (simp add: n_def min_def split: if_splits)
    with True show ?thesis by (subst run_batches.simps) (simp add: Let_def flip: n_def)
  next
    case False
    have "n \<le> nat (max_steps g) - offset" by (simp add: n_def)
    then have split: "[offset..<nat (max_steps g)] = [offset..<offset + n] @ [offset + n..<nat (max_steps g)]"
      using False upt_add_eq_append [of offset "offset + n" "nat (max_steps g) - (offset + n)"] by simp
    have mem: "scheduled g k \<in> fst ` set (sessions ops)" for k
      using scheduled_member [OF "1.prems"(3)] "1.prems"(4) by simp
    have upt: "map (\<lambda>k. offset + k) [0..<n] = [offset..<offset + n]" by (rule nth_equalityI) simp_all
    have sb: "step_batch ops g (map (\<lambda>k. scheduled g (offset + k)) [0..<n]) = each ?f [offset..<offset + n]"
      using False mem by (simp add: fun_eq_iff step_batch_def each_map flip: upt)
    have rb: "run_batches ops g sizes (offset + n) (Suc index) = each ?f [offset + n..<nat (max_steps g)]"
      using "1.IH" [OF n_def False] "1.prems" by (simp add: fun_eq_iff)
    have "run_batches ops g sizes offset index s
        = and_then (step_batch ops g (map (\<lambda>k. scheduled g (offset + k)) [0..<n])) (run_batches ops g sizes (offset + n) (Suc index)) s"
      using False by (simp add: run_batches.simps [of ops g sizes offset] Let_def flip: n_def)
    then show ?thesis by (simp only: sb rb split each_append)
  qed
qed

lemma run_scheduler_batches:
  assumes "make_genome g = Inr g" "sizes \<noteq> []" "\<forall>n \<in> set sizes. 0 < n"
  shows "run_scheduler ops g (Some sizes) r = run_scheduler ops g None r"
proof (cases "check_run ops g None")
  case (Inl e)
  then have "check_run ops g (Some sizes) = Inl e" using assms(2,3) by (auto simp: check_run_def)
  with Inl show ?thesis by (simp add: run_scheduler_def)
next
  case (Inr u)
  then have c: "check_run ops g (Some sizes) = Inr u" using assms(2,3) by (auto simp: check_run_def)
  have order: "set (schedule_order g) = fst ` set (sessions ops)" using Inr by (auto simp: check_run_def split: if_splits)
  have ne: "schedule_order g \<noteq> []" using assms(1) by (auto simp: make_genome_def split: if_splits)
  have "run_loop ops g (Some sizes) = run_loop ops g None"
    using run_batches_each [of "map nat sizes" g ops 0 0] assms(2,3) order ne by (auto simp: run_loop_def fun_eq_iff)
  then have "run_body ops g (Some sizes) = run_body ops g None" by (simp add: run_body_def)
  then show ?thesis by (simp only: run_scheduler_def c Inr)
qed

text \<open>C26: How the steps of a testcase are grouped into batches does not matter. For every runner and every nonempty tuple of positive batch sizes, a run in
  batches makes the same calls in the same order as a run step by step: it leaves the same runner state and returns the same result, or raises the same error.
  Reactions to an output happen inside a batch, before its next step.\<close>

theorem scheduler_batches:
  assumes "make_genome g = Inr g" "sizes \<noteq> []" "\<forall>n \<in> set sizes. 0 < n"
  shows "run_scheduler ops g (Some sizes) r = run_scheduler ops g None r"
  by (rule run_scheduler_batches [OF assms])

section \<open>Triples\<close>

text \<open>Started where \<open>P\<close> holds, a statement ends where \<open>Q\<close> holds, or raises where \<open>E\<close> holds.\<close>

definition triple :: "('s \<Rightarrow> bool) \<Rightarrow> 's stmt \<Rightarrow> ('s \<Rightarrow> bool) \<Rightarrow> ('s \<Rightarrow> bool) \<Rightarrow> bool" where
  "triple P f Q E \<longleftrightarrow> (\<forall>s. P s \<longrightarrow> (case f s of (Inl _, s') \<Rightarrow> E s' | (Inr _, s') \<Rightarrow> Q s'))"

lemma triple_then: "triple P f Q E \<Longrightarrow> triple Q h R E \<Longrightarrow> triple P (and_then f h) R E"
  by (fastforce simp: triple_def and_then_def split: prod.splits sum.splits)

lemma triple_conseq: "triple P f Q E \<Longrightarrow> (\<And>s. P' s \<Longrightarrow> P s) \<Longrightarrow> (\<And>s. Q s \<Longrightarrow> Q' s) \<Longrightarrow> (\<And>s. E s \<Longrightarrow> E' s) \<Longrightarrow> triple P' f Q' E'"
  by (fastforce simp: triple_def split: prod.splits sum.splits)

lemma triple_each: "(\<And>x. x \<in> set xs \<Longrightarrow> triple P (f x) P E) \<Longrightarrow> triple P (each f xs) P E"
proof (induction xs)
  case (Cons x xs)
  then show ?case unfolding each_Cons by (intro triple_then [of _ _ P]) auto
qed (simp add: triple_def)

lemma triple_upt: "(\<And>i. m \<le> i \<Longrightarrow> i < n \<Longrightarrow> triple (P i) (f i) (P (Suc i)) E) \<Longrightarrow> m \<le> n \<Longrightarrow> triple (P m) (each f [m..<n]) (P n) E"
proof (induction "n - m" arbitrary: m)
  case (Suc k)
  then have "[m..<n] = m # [Suc m..<n]" by (simp add: upt_conv_Cons)
  moreover have "triple (P (Suc m)) (each f [Suc m..<n]) (P n) E" using Suc by simp
  ultimately show ?case using Suc.prems(1) [of m] Suc.hyps(2) by (simp only: each_Cons) (rule triple_then, auto)
qed (simp add: triple_def)

lemma triple_runner: "(\<And>s. P s \<Longrightarrow> case f (runner_state s) of (Inl _, r) \<Rightarrow> E (s\<lparr>runner_state := r\<rparr>) | (Inr _, r) \<Rightarrow> Q (s\<lparr>runner_state := r\<rparr>))
    \<Longrightarrow> triple P (on_runner f) Q E"
  by (fastforce simp: triple_def on_runner_def split: prod.splits sum.splits)

section \<open>What a run asks of the runner\<close>

datatype call = Inject string | Reset string | Step string

definition injections :: "call list \<Rightarrow> string list" where
  "injections log = concat (map (\<lambda>c. case c of Inject i \<Rightarrow> [i] | _ \<Rightarrow> []) log)"

definition resets :: "call list \<Rightarrow> string list" where
  "resets log = concat (map (\<lambda>c. case c of Reset p \<Rightarrow> [p] | _ \<Rightarrow> []) log)"

definition stepped :: "call list \<Rightarrow> string list" where
  "stepped log = concat (map (\<lambda>c. case c of Step c \<Rightarrow> [c] | _ \<Rightarrow> []) log)"

lemma log_simps:
  "injections [] = []" "injections (l @ m) = injections l @ injections m" "injections [Inject i] = [i]" "injections [Reset p] = []" "injections [Step c] = []"
  "resets [] = []" "resets (l @ m) = resets l @ resets m" "resets [Inject i] = []" "resets [Reset p] = [p]" "resets [Step c] = []"
  "stepped [] = []" "stepped (l @ m) = stepped l @ stepped m" "stepped [Inject i] = []" "stepped [Reset p] = []" "stepped [Step c] = [c]"
  by (simp_all add: injections_def resets_def stepped_def)

lemma dict_del_keys: "fst ` set (dict_del d k) = fst ` set d - {k}"
  by (auto simp: AList.delete_eq)

definition table_ok :: "string list \<Rightarrow> action_table \<Rightarrow> bool" where
  "table_ok ids t \<longleftrightarrow> distinct (fired t) \<and> set (fired t) \<subseteq> set ids \<and> fst ` set (due t) \<inter> set (fired t) = {}"

text \<open>While nothing has raised: every fired action was injected once, nothing due has fired, and the components were stepped in their order.\<close>

definition once :: "('r \<Rightarrow> call list) \<Rightarrow> scenario_genome \<Rightarrow> nat \<Rightarrow> nat \<Rightarrow> 'r scheduler \<Rightarrow> bool" where
  "once log g n k s \<longleftrightarrow> (let l = log (runner_state s) in
     distinct (injections l) \<and> set (injections l) = set (fired (source_table s)) \<and> length (resets l) = length (fired (reset_table s))
     \<and> table_ok (map action_id (actions g)) (source_table s) \<and> table_ok (map reset_id (reset_actions g)) (reset_table s)
     \<and> stepped l = map (scheduled g) [0..<n] \<and> sched_steps s = int k)"

text \<open>After an exception one call may have been made whose effect was not recorded.\<close>

definition stopped :: "('r \<Rightarrow> call list) \<Rightarrow> scenario_genome \<Rightarrow> 'r scheduler \<Rightarrow> bool" where
  "stopped log g s \<longleftrightarrow> (let l = log (runner_state s) in
     distinct (injections l) \<and> set (fired (source_table s)) \<subseteq> set (injections l) \<and> set (injections l) \<subseteq> set (map action_id (actions g))
     \<and> card (set (injections l) - set (fired (source_table s))) \<le> 1 \<and> length (resets l) \<le> length (reset_actions g)
     \<and> distinct (fired (reset_table s)) \<and> length (fired (reset_table s)) \<le> length (resets l)
     \<and> (\<exists>n \<le> nat (max_steps g). stepped l = map (scheduled g) [0..<n] \<and> 0 \<le> sched_steps s \<and> sched_steps s \<le> int n))"

lemma once_stopped:
  assumes "once log g n k s" "k \<le> n" "n \<le> nat (max_steps g)"
  shows "stopped log g s"
proof -
  have "length (fired (reset_table s)) = card (set (fired (reset_table s)))"
    using assms(1) by (simp add: once_def table_ok_def Let_def distinct_card)
  also have "\<dots> \<le> card (set (map reset_id (reset_actions g)))"
    using assms(1) by (intro card_mono) (auto simp: once_def table_ok_def Let_def)
  also have "\<dots> \<le> length (reset_actions g)" using card_length [of "map reset_id (reset_actions g)"] by simp
  finally show ?thesis using assms by (auto simp: once_def stopped_def table_ok_def Let_def)
qed

definition once_only :: "scenario_genome \<Rightarrow> scheduler_result \<Rightarrow> call list \<Rightarrow> bool" where
  "once_only g res l \<longleftrightarrow> distinct (injections l) \<and> set (fired_actions res) \<subseteq> set (injections l) \<and> set (injections l) \<subseteq> set (map action_id (actions g))
     \<and> card (set (injections l) - set (fired_actions res)) \<le> 1 \<and> length (fired_resets res) \<le> length (resets l) \<and> length (resets l) \<le> length (reset_actions g)
     \<and> (\<exists>n \<le> nat (max_steps g). stepped l = map (scheduled g) [0..<n] \<and> 0 \<le> run_steps res \<and> run_steps res \<le> int n)"

lemma release_action_cases:
  obtains (skip) "release_action ops a s = (Inr (), s)" | (tick) e where "release_action ops a s = (Inl e, s)"
    | (due) at now where "map_of (due (source_table s)) (action_id a) = Some at" "local_ticks ops (runner_state s) (action_clock a) = Inr now" "\<not> now < at"
proof (cases "map_of (due (source_table s)) (action_id a)")
  case None
  then show thesis using skip by (simp add: release_action_def)
next
  case at: (Some at)
  show thesis
  proof (cases "local_ticks ops (runner_state s) (action_clock a)")
    case (Inl e)
    then show thesis using at tick by (simp add: release_action_def)
  next
    case (Inr now)
    then show thesis using at skip due by (cases "now < at") (simp_all add: release_action_def)
  qed
qed

lemma release_reset_cases:
  obtains (skip) "release_reset ops g a s = (Inr (), s)" | (tick) e where "release_reset ops g a s = (Inl e, s)"
    | (due) at now where "map_of (due (reset_table s)) (reset_id a) = Some at" "local_ticks ops (runner_state s) (reset_clock (schedule_order g ! 0) a) = Inr now" "\<not> now < at"
proof (cases "map_of (due (reset_table s)) (reset_id a)")
  case None
  then show thesis using skip by (simp add: release_reset_def)
next
  case at: (Some at)
  show thesis
  proof (cases "local_ticks ops (runner_state s) (reset_clock (schedule_order g ! 0) a)")
    case (Inl e)
    then show thesis using at tick by (simp add: release_reset_def)
  next
    case (Inr now)
    then show thesis using at skip due by (cases "now < at") (simp_all add: release_reset_def)
  qed
qed

lemma observe_entry_effect:
  assumes "observe_entry ops r epoch ob i t clock delay (tbl, cur) = (o', tbl', cur')"
  shows "fired tbl' = fired tbl \<and> (due tbl' = due tbl \<or> i \<notin> set (fired tbl) \<and> (\<exists>v. due tbl' = dict_set (due tbl) i v))"
proof -
  obtain sc eid outs where ob: "ob = (sc, eid, outs)" by (cases ob) auto
  show ?thesis
    using assms by (cases "local_ticks ops r clock") (auto simp: observe_entry_def ob Let_def split: if_splits)
qed

lemma observe_entry_table:
  assumes "observe_entry ops r epoch ob i t clock delay (tbl, cur) = (o', tbl', cur')" "table_ok ids tbl"
  shows "table_ok ids tbl'"
proof -
  have "fired tbl' = fired tbl" "fst ` set (due tbl') = fst ` set (due tbl) \<or> i \<notin> set (fired tbl) \<and> fst ` set (due tbl') = insert i (fst ` set (due tbl))"
    using observe_entry_effect [OF assms(1)] by (elim conjE disjE exE; simp add: AList.dom_update)+
  with assms(2) show ?thesis by (elim disjE) (simp_all add: table_ok_def)
qed

text \<open>A step event is missing or malformed, or the observations are processed.\<close>

definition observed_body :: "'r runner \<Rightarrow> scenario_genome \<Rightarrow> 'r scheduler \<Rightarrow> observation list \<Rightarrow> 'r scheduler stmt" where
  "observed_body ops g s obs = and_then (each (observe_event ops g (command_epoch ops (runner_state s))) obs)
     (and_then (release_due ops g) (\<lambda>s. (Inr (), s\<lparr>last_event_count := event_count ops (runner_state s)\<rparr>)))"

lemma observe_step_cases:
  obtains (refused) e where "observe_step ops g c outs s = (Inl e, s)"
    | (observed) window obs where "observe_step ops g c outs s = observed_body ops g s obs (s\<lparr>sched_steps := sched_steps s + 1\<rparr>)"
        "events_since ops (last_event_count s) (runner_state s) = Inr window" "observations c window = Inr obs"
proof (cases "events_since ops (last_event_count s) (runner_state s)")
  case (Inl e)
  then show thesis using refused by (simp add: observe_step_def)
next
  case w: (Inr window)
  show thesis
  proof (cases "\<exists>ev. filter (is_step_event c) window = [ev] \<and> outputs_equal (case event_outputs ev of None \<Rightarrow> [] | Some d \<Rightarrow> d) outs")
    case True
    then obtain ev where ev: "filter (is_step_event c) window = [ev]" "outputs_equal (case event_outputs ev of None \<Rightarrow> [] | Some d \<Rightarrow> d) outs" by blast
    then show thesis using w refused observed by (cases "observations c window") (simp_all add: observe_step_def observed_body_def)
  next
    case False
    then have "observe_step ops g c outs s = (Inl (RuntimeError ''observed output has no unique source step event''), s)"
      using w by (auto simp: observe_step_def split: list.split)
    then show thesis by (rule refused)
  qed
qed

locale recorded_runner =
  fixes ops :: "'r runner" and log :: "'r \<Rightarrow> call list"
  assumes log_inject: "log (snd (inject_source ops a r)) = log r @ [Inject (action_id a)]"
    and log_reset: "log (snd (reset_all ops p r)) = log r @ [Reset p]"
    and log_step: "log (snd (runner_step ops c r)) = log r @ [Step c]"
    and log_preload: "log (snd (preload_image ops img r)) = log r"
    and log_begin: "log (snd (begin_test ops t r)) = log r"
    and log_quiesce: "log (snd (quiesce ops n r)) = log r"
    and log_finalize: "log (snd (finalize ops r)) = log r"
begin

lemma once_release_action:
  assumes a: "a \<in> set (actions g)" and kn: "k \<le> n" "n \<le> nat (max_steps g)"
  shows "triple (once log g n k) (release_action ops a) (once log g n k) (stopped log g)"
  unfolding triple_def
proof (intro allI impI)
  fix s
  assume o: "once log g n k s"
  note st = once_stopped [OF o kn]
  show "case release_action ops a s of (Inl _, s') \<Rightarrow> stopped log g s' | (Inr _, s') \<Rightarrow> once log g n k s'"
  proof (cases ops a s rule: release_action_cases)
    case (due at now)
    obtain o' r where i: "inject_source ops a (runner_state s) = (o', r)" by force
    have l: "log r = log (runner_state s) @ [Inject (action_id a)]" using log_inject [of a "runner_state s"] i by simp
    have f: "action_id a \<notin> set (fired (source_table s))"
      using o due(1) by (auto simp: once_def table_ok_def Let_def dest!: map_of_SomeD)
    have keys: "fst ` set (dict_del (due (source_table s)) (action_id a)) \<inter> set (fired (source_table s)) = {}"
      using o by (auto simp: once_def table_ok_def Let_def dict_del_keys)
    have once': "once log g n k (s\<lparr>runner_state := r, consumed_cursors := cc, source_table := (source_table s)\<lparr>fired := List.insert (action_id a) (fired (source_table s)),
        due := dict_del (due (source_table s)) (action_id a)\<rparr>\<rparr>)" for cc
      using o a f keys by (auto simp: once_def table_ok_def Let_def l log_simps dict_del_keys)
    have stop': "stopped log g (s\<lparr>runner_state := r\<rparr>)" "stopped log g (s\<lparr>runner_state := r, source_table := (source_table s)\<lparr>fired := List.insert (action_id a) (fired (source_table s))\<rparr>\<rparr>)"
      using st o a f by (auto simp: once_def stopped_def table_ok_def Let_def l log_simps insert_Diff_if)
    show ?thesis
      using due i once' stop' by (auto simp: release_action_def and_then_def on_runner_def consume_cursor_def split: sum.splits option.splits)
  qed (use o st in auto)
qed

lemma once_release_reset:
  assumes a: "a \<in> set (reset_actions g)" and kn: "k \<le> n" "n \<le> nat (max_steps g)"
  shows "triple (once log g n k) (release_reset ops g a) (once log g n k) (stopped log g)"
  unfolding triple_def
proof (intro allI impI)
  fix s
  assume o: "once log g n k s"
  note st = once_stopped [OF o kn]
  show "case release_reset ops g a s of (Inl _, s') \<Rightarrow> stopped log g s' | (Inr _, s') \<Rightarrow> once log g n k s'"
  proof (cases ops g a s rule: release_reset_cases)
    case (due at now)
    obtain o' r where i: "reset_all ops (policy a) (runner_state s) = (o', r)" by force
    have l: "log r = log (runner_state s) @ [Reset (policy a)]" using log_reset [of "policy a" "runner_state s"] i by simp
    have f: "reset_id a \<notin> set (fired (reset_table s))"
      using o due(1) by (auto simp: once_def table_ok_def Let_def dest!: map_of_SomeD)
    have keys: "fst ` set (dict_del (due (reset_table s)) (reset_id a)) \<inter> set (fired (reset_table s)) = {}"
      using o by (auto simp: once_def table_ok_def Let_def dict_del_keys)
    have once': "once log g n k (s\<lparr>runner_state := r, consumed_cursors := cc, source_table := forget_matches (source_table s),
        reset_table := forget_matches ((reset_table s)\<lparr>fired := List.insert (reset_id a) (fired (reset_table s)), due := dict_del (due (reset_table s)) (reset_id a)\<rparr>)\<rparr>)" for cc
      using o a f keys by (auto simp: once_def table_ok_def Let_def l log_simps dict_del_keys forget_matches_def)
    have "Suc (length (fired (reset_table s))) = card (set (reset_id a # fired (reset_table s)))"
      using o f by (simp add: once_def table_ok_def Let_def distinct_card)
    also have "\<dots> \<le> card (set (map reset_id (reset_actions g)))"
      using o a by (intro card_mono) (auto simp: once_def table_ok_def Let_def)
    also have "\<dots> \<le> length (reset_actions g)" using card_length [of "map reset_id (reset_actions g)"] by simp
    finally have stop': "stopped log g (s\<lparr>runner_state := r\<rparr>)" "stopped log g (s\<lparr>runner_state := r, reset_table := (reset_table s)\<lparr>fired := List.insert (reset_id a) (fired (reset_table s))\<rparr>\<rparr>)"
      using st o a f by (auto simp: once_def stopped_def table_ok_def Let_def l log_simps)
    show ?thesis
      using due i once' stop' by (auto simp: release_reset_def and_then_def on_runner_def consume_cursor_def split: sum.splits option.splits)
  qed (use o st in auto)
qed

lemma once_release_due:
  assumes "k \<le> n" "n \<le> nat (max_steps g)"
  shows "triple (once log g n k) (release_due ops g) (once log g n k) (stopped log g)"
  unfolding release_due_def
  by (intro triple_then [of _ _ "once log g n k"] triple_each once_release_reset once_release_action assms)

lemma once_observe_action:
  assumes "k \<le> n" "n \<le> nat (max_steps g)"
  shows "triple (once log g n k) (observe_action ops epoch ob a) (once log g n k) (stopped log g)"
  unfolding triple_def
proof (intro allI impI)
  fix s
  assume o: "once log g n k s"
  obtain o' tbl cur where e: "observe_entry ops (runner_state s) epoch ob (action_id a) (trig a) (action_clock a) (delay_ticks a) (source_table s, selected_cursors s) = (o', tbl, cur)"
    by (metis prod_cases3)
  have "once log g n k (s\<lparr>source_table := tbl, selected_cursors := cur\<rparr>)"
    using o observe_entry_effect [OF e] observe_entry_table [OF e] by (simp add: once_def Let_def)
  with once_stopped [OF this assms] show "case observe_action ops epoch ob a s of (Inl _, s') \<Rightarrow> stopped log g s' | (Inr _, s') \<Rightarrow> once log g n k s'"
    by (simp add: observe_action_def e split: sum.split)
qed

lemma once_observe_reset:
  assumes "k \<le> n" "n \<le> nat (max_steps g)"
  shows "triple (once log g n k) (observe_reset ops epoch ob a) (once log g n k) (stopped log g)"
  unfolding triple_def
proof (intro allI impI)
  fix s
  assume o: "once log g n k s"
  obtain o' tbl cur where e: "observe_entry ops (runner_state s) epoch ob (reset_id a) (reset_trigger a) (reset_clock (fst ob) a) (reset_delay_ticks a) (reset_table s, selected_cursors s) = (o', tbl, cur)"
    by (metis prod_cases3)
  have "once log g n k (s\<lparr>reset_table := tbl, selected_cursors := cur\<rparr>)"
    using o observe_entry_effect [OF e] observe_entry_table [OF e] by (simp add: once_def Let_def)
  with once_stopped [OF this assms] show "case observe_reset ops epoch ob a s of (Inl _, s') \<Rightarrow> stopped log g s' | (Inr _, s') \<Rightarrow> once log g n k s'"
    by (simp add: observe_reset_def e split: sum.split)
qed

lemma once_observe_event:
  assumes "k \<le> n" "n \<le> nat (max_steps g)"
  shows "triple (once log g n k) (observe_event ops g epoch ob) (once log g n k) (stopped log g)"
  unfolding observe_event_def
  by (intro triple_then [of _ _ "once log g n k"] triple_each once_observe_reset once_observe_action assms)

lemma once_observe_step:
  assumes n: "n < nat (max_steps g)"
  shows "triple (once log g (Suc n) n) (observe_step ops g c outs) (once log g (Suc n) (Suc n)) (stopped log g)"
  unfolding triple_def
proof (intro allI impI)
  fix s
  assume o: "once log g (Suc n) n s"
  have st: "stopped log g s" by (rule once_stopped [OF o]) (use n in auto)
  have o1: "once log g (Suc n) (Suc n) (s\<lparr>sched_steps := sched_steps s + 1\<rparr>)" using o by (simp add: once_def Let_def)
  have body: "triple (once log g (Suc n) (Suc n)) (observed_body ops g s obs) (once log g (Suc n) (Suc n)) (stopped log g)" for obs
    unfolding observed_body_def using n
    by (intro triple_then [of _ _ "once log g (Suc n) (Suc n)"] triple_each once_observe_event once_release_due)
      (auto simp: triple_def once_def Let_def)
  show "case observe_step ops g c outs s of (Inl _, s') \<Rightarrow> stopped log g s' | (Inr _, s') \<Rightarrow> once log g (Suc n) (Suc n) s'"
  proof (cases ops g c outs s rule: observe_step_cases)
    case (observed window obs)
    with body [of obs] o1 show ?thesis by (simp add: triple_def)
  qed (simp add: st)
qed

lemma once_step:
  assumes n: "n < nat (max_steps g)"
  shows "triple (once log g n n) (step_and_observe ops g (scheduled g n)) (once log g (Suc n) (Suc n)) (stopped log g)"
  unfolding triple_def
proof (intro allI impI)
  fix s
  assume o: "once log g n n s"
  obtain out r where r: "runner_step ops (scheduled g n) (runner_state s) = (out, r)" by force
  have l: "log r = log (runner_state s) @ [Step (scheduled g n)]" using log_step [of "scheduled g n" "runner_state s"] r by simp
  have o1: "once log g (Suc n) n (s\<lparr>runner_state := r\<rparr>)" using o by (simp add: once_def Let_def l log_simps)
  have st: "stopped log g (s\<lparr>runner_state := r\<rparr>)" by (rule once_stopped [OF o1]) (use n in auto)
  show "case step_and_observe ops g (scheduled g n) s of (Inl _, s') \<Rightarrow> stopped log g s' | (Inr _, s') \<Rightarrow> once log g (Suc n) (Suc n) s'"
  proof (cases out)
    case (Inr outs)
    have "step_and_observe ops g (scheduled g n) s = observe_step ops g (scheduled g n) outs (s\<lparr>runner_state := r\<rparr>)"
      by (simp add: step_and_observe_def r Inr)
    then show ?thesis using once_observe_step [OF n, of "scheduled g n" outs] o1 by (simp add: triple_def)
  qed (simp add: step_and_observe_def r st)
qed

lemma once_body: "triple (once log g 0 0) (run_body ops g None) (stopped log g) (stopped log g)"
proof -
  let ?n = "nat (max_steps g)"
  have b: "triple (once log g 0 0) (on_runner (begin_test ops t)) (once log g 0 0) (stopped log g)" for t
  proof (rule triple_runner)
    fix s
    assume o: "once log g 0 0 s"
    obtain out r where r: "begin_test ops t (runner_state s) = (out, r)" by force
    then have "log r = log (runner_state s)" using log_begin [of t "runner_state s"] by simp
    then have "once log g 0 0 (s\<lparr>runner_state := r\<rparr>)" using o by (simp add: once_def Let_def)
    with once_stopped [OF this] show "case begin_test ops t (runner_state s) of (Inl _, r) \<Rightarrow> stopped log g (s\<lparr>runner_state := r\<rparr>) | (Inr _, r) \<Rightarrow> once log g 0 0 (s\<lparr>runner_state := r\<rparr>)"
      by (simp add: r split: sum.split)
  qed
  have l: "triple (once log g 0 0) (run_loop ops g None) (once log g ?n ?n) (stopped log g)"
    using triple_upt [of 0 ?n "\<lambda>n. once log g n n" "\<lambda>i. step_and_observe ops g (scheduled g i)" "stopped log g"] once_step
    by (simp add: run_loop_def triple_def)
  have q: "triple (once log g ?n ?n) (run_quiesce_steps ops g) (stopped log g) (stopped log g)"
    unfolding triple_def
  proof (intro allI impI)
    fix s
    assume o: "once log g ?n ?n s"
    obtain out r where r: "quiesce ops (quiesce_steps g) (runner_state s) = (out, r)" by force
    then have "log r = log (runner_state s)" using log_quiesce [of "quiesce_steps g" "runner_state s"] by simp
    then have "once log g ?n ?n (s\<lparr>runner_state := r, sched_quiesce := x\<rparr>)" "once log g ?n ?n (s\<lparr>runner_state := r\<rparr>)" for x
      using o by (simp_all add: once_def Let_def)
    then have "stopped log g (s\<lparr>runner_state := r, sched_quiesce := x\<rparr>)" "stopped log g (s\<lparr>runner_state := r\<rparr>)" "stopped log g s" for x
      using once_stopped o by blast+
    then show "case run_quiesce_steps ops g s of (Inl _, s') \<Rightarrow> stopped log g s' | (Inr _, s') \<Rightarrow> stopped log g s'"
      by (simp add: run_quiesce_steps_def r split: sum.split)
  qed
  show ?thesis
    unfolding run_body_def
    by (intro triple_then [OF b] triple_then [OF once_release_due] triple_then [OF _ triple_then [OF l q]]) (auto simp: triple_def once_def Let_def)
qed

lemma fresh_prepare: "triple (\<lambda>s. once log g 0 0 s \<and> fired (source_table s) = [] \<and> fired (reset_table s) = []) (prepare_run ops g)
    (\<lambda>s. once log g 0 0 s \<and> fired (source_table s) = [] \<and> fired (reset_table s) = []) (\<lambda>_. True)"
    (is "triple ?F _ ?F ?E")
proof -
  have "log (snd (each (preload_image ops) imgs r)) = log r" for imgs r
  proof (induction imgs arbitrary: r)
    case (Cons img imgs)
    obtain o' r1 where r1: "preload_image ops img r = (o', r1)" by force
    then show ?case using log_preload [of img r] Cons.IH by (simp add: and_then_def split: sum.split)
  qed simp
  note keep = this
  have p: "triple ?F (on_runner (each (preload_image ops) (initial_images g))) ?F ?E"
  proof (rule triple_runner)
    fix s
    assume f: "?F s"
    obtain out r where r: "each (preload_image ops) (initial_images g) (runner_state s) = (out, r)" by force
    then have "log r = log (runner_state s)" using keep [of "initial_images g" "runner_state s"] by simp
    then have "?F (s\<lparr>runner_state := r\<rparr>)" using f by (auto simp: once_def Let_def)
    then show "case each (preload_image ops) (initial_images g) (runner_state s) of (Inl _, r) \<Rightarrow> True | (Inr _, r) \<Rightarrow> ?F (s\<lparr>runner_state := r\<rparr>)"
      by (simp add: r split: sum.split)
  qed
  have a: "triple ?F (start_action ops a) ?F ?E" for a
    by (auto simp: triple_def start_action_def once_def table_ok_def Let_def split: sum.split)
  have r: "triple ?F (start_reset ops g a) ?F ?E" for a
    by (auto simp: triple_def start_reset_def once_def table_ok_def Let_def split: sum.split)
  show ?thesis
    unfolding prepare_run_def using p by (intro triple_then [of _ _ ?F] triple_each a r) simp
qed

lemma run_once:
  assumes g: "make_genome g = Inr g" and r: "log r = []" "run_scheduler ops g None r = (Inr res, r')"
  shows "once_only g res (log r')"
proof -
  obtain s1 where s1: "prepare_run ops g (new_scheduler g r) = (Inr (), s1)"
    using r(2) by (auto simp: run_scheduler_def split: sum.splits prod.splits)
  obtain o2 s2 where s2: "run_body ops g None s1 = (o2, s2)" by force
  obtain s3 where s3: "finish_run ops g (o2, s2) = (Inr res, s3)" "r' = runner_state s3"
    using r(2) s1 s2 by (auto simp: run_scheduler_def split: sum.splits prod.splits)
  have "once log g 0 0 (new_scheduler g r)" using r(1) by (simp add: once_def table_ok_def new_scheduler_def empty_table_def Let_def log_simps)
  then have "once log g 0 0 s1"
    using fresh_prepare [of g] s1 by (fastforce simp: triple_def new_scheduler_def empty_table_def)
  then have "stopped log g s2" using once_body [of g] s2 by (fastforce simp: triple_def split: sum.splits)
  moreover obtain r3 where f: "finalize ops (runner_state s2) = (Inr (), r3)" "s3 = s2\<lparr>runner_state := r3\<rparr>"
    using s3(1) by (auto simp: finish_run_def on_runner_def Let_def split: sum.splits prod.splits)
  ultimately have st: "stopped log g s3" using log_finalize [of "runner_state s2"] by (simp add: stopped_def Let_def)
  let ?ids = "map action_id (actions g)" and ?rids = "map reset_id (reset_actions g)"
  have res: "fired_actions res = filter (\<lambda>i. i \<in> set (fired (source_table s3))) ?ids" "fired_resets res = filter (\<lambda>i. i \<in> set (fired (reset_table s3))) ?rids"
      "run_steps res = sched_steps s3"
    using s3(1) f by (auto simp: finish_run_def on_runner_def Let_def)
  have fa: "set (fired_actions res) = set (fired (source_table s3))" using st by (auto simp: res stopped_def Let_def)
  have "distinct ?rids" using g by (auto simp: make_genome_def split: if_splits)
  then have "distinct (fired_resets res)" unfolding res(2) by (rule distinct_filter)
  then have "length (fired_resets res) = card (set (fired_resets res))" by (rule distinct_card [symmetric])
  also have "\<dots> \<le> card (set (fired (reset_table s3)))" by (intro card_mono) (auto simp: res)
  also have "\<dots> \<le> length (fired (reset_table s3))" by (rule card_length)
  finally show ?thesis using st by (auto simp: once_only_def stopped_def Let_def fa res(3) s3(2))
qed

end

text \<open>A runner that records the calls made to it.\<close>

definition logged :: "'r runner \<Rightarrow> ('r \<times> call list) runner" where
  "logged ops = \<lparr>sessions = sessions ops, runner_ownership = runner_ownership ops, local_ticks = (\<lambda>(r, l). local_ticks ops r),
     command_epoch = (\<lambda>(r, l). command_epoch ops r), event_count = (\<lambda>(r, l). event_count ops r), events_since = (\<lambda>n (r, l). events_since ops n r),
     failure_status = (\<lambda>(r, l). failure_status ops r),
     preload_image = (\<lambda>img (r, l). case preload_image ops img r of (o', r') \<Rightarrow> (o', r', l)),
     begin_test = (\<lambda>t (r, l). case begin_test ops t r of (o', r') \<Rightarrow> (o', r', l)),
     inject_source = (\<lambda>a (r, l). case inject_source ops a r of (o', r') \<Rightarrow> (o', r', l @ [Inject (action_id a)])),
     reset_all = (\<lambda>p (r, l). case reset_all ops p r of (o', r') \<Rightarrow> (o', r', l @ [Reset p])),
     runner_step = (\<lambda>c (r, l). case runner_step ops c r of (o', r') \<Rightarrow> (o', r', l @ [Step c])),
     quiesce = (\<lambda>n (r, l). case quiesce ops n r of (o', r') \<Rightarrow> (o', r', l)),
     finalize = (\<lambda>(r, l). case finalize ops r of (o', r') \<Rightarrow> (o', r', l))\<rparr>"

interpretation lr: recorded_runner "logged ops" snd for ops
  by unfold_locales (auto simp: logged_def split: prod.splits)

lemma run_checked_batches:
  assumes "make_genome g = Inr g" "run_scheduler ops g bs r = (Inr res, r')"
  shows "run_scheduler ops g None r = (Inr res, r')"
proof (cases bs)
  case (Some sizes)
  then have "sizes \<noteq> []" "\<forall>n \<in> set sizes. 0 < n" using assms(2) by (auto simp: run_scheduler_def check_run_def split: if_splits)
  from run_scheduler_batches [OF assms(1) this, of ops r] show ?thesis using assms(2) Some by simp
qed (use assms(2) in simp)

text \<open>C24: A run asks of the runner exactly what the genome says, once. For every runner and every genome, also when the run ends early because a call raised: each source
  change is requested at most once and only for an action of the genome, every action reported as fired was requested, at most one request (the one that raised) is not reported,
  there are no more resets than reset actions, and the components are stepped in the cyclic order of the genome from its start, at most \<open>max_steps\<close> times,
  with no more steps reported than made.\<close>

theorem scheduler_once:
  assumes "make_genome g = Inr g" "run_scheduler (logged ops) g batch_sizes (r, []) = (Inr res, r', l)"
  shows "distinct (injections l) \<and> set (fired_actions res) \<subseteq> set (injections l) \<and> set (injections l) \<subseteq> set (map action_id (actions g))
    \<and> card (set (injections l) - set (fired_actions res)) \<le> 1 \<and> length (fired_resets res) \<le> length (resets l) \<and> length (resets l) \<le> length (reset_actions g)
    \<and> (\<exists>n \<le> nat (max_steps g). stepped l = map (scheduled g) [0..<n] \<and> 0 \<le> run_steps res \<and> run_steps res \<le> int n)"
  using lr.run_once [OF assms(1) _ run_checked_batches [OF assms]] by (simp add: once_only_def)

section \<open>Every fired action has a cause\<close>

text \<open>A cursor names the event in which the trigger was observed; \<open>logged_event\<close> holds of the events the runner has recorded.\<close>

definition observed_from :: "(event \<Rightarrow> bool) \<Rightarrow> string \<Rightarrow> int \<Rightarrow> (string, json) dict \<Rightarrow> bool" where
  "observed_from logged_event sc eid outs \<longleftrightarrow> (\<exists>ev raw. logged_event ev \<and> event_id ev = eid \<and> event_component ev = Some sc \<and> event_outputs ev = Some raw
     \<and> (outs = raw \<or> sample_outputs raw = Inr outs))"

definition justified :: "(event \<Rightarrow> bool) \<Rightarrow> trigger \<Rightarrow> consumption_cursor \<Rightarrow> bool" where
  "justified logged_event t c \<longleftrightarrow>
     (if kind t = ''START'' then cursor_kind c = ''START'' \<and> cursor_event c = None \<and> cursor_occurrence c = 0
      else cursor_kind c = ''AFTER_OUTPUT'' \<and> cursor_component c = source_component t \<and> cursor_port c = source_port t \<and> cursor_occurrence c = occurrence t
        \<and> (\<exists>eid outs. cursor_event c = Some eid \<and> observed_from logged_event (source_component t) eid outs \<and> trigger_matches t outs))"

definition caused :: "(event \<Rightarrow> bool) \<Rightarrow> scenario_genome \<Rightarrow> string \<times> consumption_cursor \<Rightarrow> bool" where
  "caused logged_event g ic \<longleftrightarrow> (\<exists>a \<in> set (actions g). action_id a = fst ic \<and> justified logged_event (trig a) (snd ic))
     \<or> (\<exists>a \<in> set (reset_actions g). reset_id a = fst ic \<and> justified logged_event (reset_trigger a) (snd ic))"

definition accounted :: "(event \<Rightarrow> bool) \<Rightarrow> scenario_genome \<Rightarrow> 'r scheduler \<Rightarrow> bool" where
  "accounted logged_event g s \<longleftrightarrow> (\<forall>ic \<in> set (selected_cursors s). caused logged_event g ic) \<and> (\<forall>ic \<in> set (consumed_cursors s). caused logged_event g ic)
     \<and> fst ` set (due (source_table s)) \<subseteq> fst ` set (selected_cursors s) \<and> fst ` set (due (reset_table s)) \<subseteq> fst ` set (selected_cursors s)
     \<and> fst ` set (consumed_cursors s) = set (fired (source_table s)) \<union> set (fired (reset_table s))
     \<and> set (fired (source_table s)) \<subseteq> action_id ` set (actions g) \<and> set (fired (reset_table s)) \<subseteq> reset_id ` set (reset_actions g)"

lemma dict_set_member: "kv \<in> set (dict_set d k v) \<Longrightarrow> kv = (k, v) \<or> kv \<in> set d"
  by (induction d) (auto split: if_splits)

lemma dict_set_keys: "fst ` set (dict_set d k v) = insert k (fst ` set d)"
  using AList.dom_update [of k v d] by simp

lemma observations_from:
  assumes "observations c window = Inr obs" "\<forall>ev \<in> set window. logged_event ev" "(sc, eid, outs) \<in> set obs"
  shows "observed_from logged_event sc eid outs"
proof -
  obtain sampled obss where m: "map_res (observation_of c sampled) window = Inr obss" "obs = concat obss"
    using assms(1) by (auto simp: observations_def)
  then obtain xs where xs: "xs \<in> set obss" "(sc, eid, outs) \<in> set xs" using assms(3) by auto
  have "list_all2 (\<lambda>ev xs. observation_of c sampled ev = Inr xs) window obss" using m(1) by (simp add: map_res_Inr_iff)
  moreover obtain k where "k < length obss" "xs = obss ! k" using xs(1) by (auto simp: in_set_conv_nth)
  ultimately have "window ! k \<in> set window" "observation_of c sampled (window ! k) = Inr xs" by (simp_all add: list_all2_conv_all_nth)
  then obtain ev where ev: "ev \<in> set window" "observation_of c sampled ev = Inr xs" by blast
  have "event_id ev = eid \<and> event_component ev = Some sc \<and> (\<exists>raw. event_outputs ev = Some raw \<and> (outs = raw \<or> sample_outputs raw = Inr outs))"
    using ev(2) xs(2)
    by (cases "event_outputs ev"; cases "is_sample ev") (auto simp: observation_of_def sample_component_def is_step_event_def split: if_splits option.splits)
  with ev(1) assms(2) show ?thesis by (auto simp: observed_from_def)
qed

lemma observe_entry_cursors:
  assumes "observe_entry ops r epoch (sc, eid, outs) i t clock delay (tbl, cur) = (o', tbl', cur')" "observed_from logged_event sc eid outs"
  shows "fired tbl' = fired tbl \<and> (due tbl' = due tbl \<and> cur' = cur
    \<or> (\<exists>c v. justified logged_event t c \<and> cur' = dict_set cur i c \<and> due tbl' = dict_set (due tbl) i v))"
proof -
  have j: "justified logged_event t \<lparr>cursor_kind = ''AFTER_OUTPUT'', cursor_event = Some eid, cursor_epoch = epoch, cursor_occurrence = occurrence t,
      cursor_component = source_component t, cursor_port = source_port t\<rparr>" if "kind t = ''AFTER_OUTPUT''" "source_component t = sc" "trigger_matches t outs"
    using that assms(2) by (auto simp: justified_def)
  then show ?thesis
    using assms(1) by (cases "local_ticks ops r clock") (auto simp: observe_entry_def Let_def split: if_splits, blast+)
qed

text \<open>The events a runner has shown.\<close>

definition recorded :: "'r runner \<Rightarrow> event \<Rightarrow> bool" where
  "recorded ops ev \<longleftrightarrow> (\<exists>n r window. events_since ops n r = Inr window \<and> ev \<in> set window)"

lemma accounted_runner [simp]: "accounted ev g (s\<lparr>runner_state := r\<rparr>) = accounted ev g s"
  "accounted ev g (s\<lparr>sched_steps := n\<rparr>) = accounted ev g s" "accounted ev g (s\<lparr>last_event_count := m\<rparr>) = accounted ev g s"
  "accounted ev g (s\<lparr>runner_state := r, sched_quiesce := q\<rparr>) = accounted ev g s"
  by (simp_all add: accounted_def)

lemma accounted_fire_action:
  assumes acc: "accounted ev g s" and a: "a \<in> set (actions g)" and c: "map_of (selected_cursors s) (action_id a) = Some c"
  shows "accounted ev g (s\<lparr>consumed_cursors := dict_set (consumed_cursors s) (action_id a) c,
    source_table := (source_table s)\<lparr>fired := List.insert (action_id a) (fired (source_table s)), due := dict_del (due (source_table s)) (action_id a)\<rparr>\<rparr>)"
proof -
  have "caused ev g (action_id a, c)" using acc map_of_SomeD [OF c] by (auto simp: accounted_def)
  then have "\<forall>ic \<in> set (dict_set (consumed_cursors s) (action_id a) c). caused ev g ic"
    using acc dict_set_member [of _ "action_id a" c "consumed_cursors s"] by (auto simp: accounted_def)
  then show ?thesis using acc a by (simp add: accounted_def dict_set_keys dict_del_keys) blast
qed

lemma accounted_fire_reset:
  assumes acc: "accounted ev g s" and a: "a \<in> set (reset_actions g)" and c: "map_of (selected_cursors s) (reset_id a) = Some c"
  shows "accounted ev g (s\<lparr>consumed_cursors := dict_set (consumed_cursors s) (reset_id a) c, source_table := forget_matches (source_table s),
    reset_table := forget_matches ((reset_table s)\<lparr>fired := List.insert (reset_id a) (fired (reset_table s)), due := dict_del (due (reset_table s)) (reset_id a)\<rparr>)\<rparr>)"
proof -
  have "caused ev g (reset_id a, c)" using acc map_of_SomeD [OF c] by (auto simp: accounted_def)
  then have "\<forall>ic \<in> set (dict_set (consumed_cursors s) (reset_id a) c). caused ev g ic"
    using acc dict_set_member [of _ "reset_id a" c "consumed_cursors s"] by (auto simp: accounted_def)
  then show ?thesis using acc a by (simp add: accounted_def dict_set_keys dict_del_keys forget_matches_def) blast
qed

lemma due_selected:
  assumes "map_of d i = Some at" "fst ` set d \<subseteq> fst ` set cur"
  shows "\<exists>c. map_of cur i = Some c"
proof -
  have "i \<in> fst ` set d" using assms(1) by (force dest: map_of_SomeD)
  with assms(2) have "i \<in> fst ` set cur" by blast
  then show ?thesis by (metis map_of_eq_None_iff not_Some_eq)
qed

lemma accounted_release_action:
  fixes ops :: "'r runner"
  assumes "a \<in> set (actions g)"
  shows "triple (accounted ev g) (release_action ops a) (accounted ev g) (accounted ev g)"
  unfolding triple_def
proof (intro allI impI)
  fix s :: "'r scheduler"
  assume acc: "accounted ev g s"
  show "case release_action ops a s of (Inl _, s') \<Rightarrow> accounted ev g s' | (Inr _, s') \<Rightarrow> accounted ev g s'"
  proof (cases ops a s rule: release_action_cases)
    case (due at now)
    obtain o' r where i: "inject_source ops a (runner_state s) = (o', r)" by force
    have "fst ` set (due (source_table s)) \<subseteq> fst ` set (selected_cursors s)" using acc by (simp add: accounted_def)
    then obtain c where c: "map_of (selected_cursors s) (action_id a) = Some c" using due_selected [OF due(1)] by blast
    have "accounted ev g (s\<lparr>runner_state := r\<rparr>)" using acc by simp
    from accounted_fire_action [OF this assms, of c] c show ?thesis
      using due i acc by (cases o') (simp_all add: release_action_def and_then_def on_runner_def consume_cursor_def)
  qed (use acc in auto)
qed

lemma accounted_release_reset:
  fixes ops :: "'r runner"
  assumes "a \<in> set (reset_actions g)"
  shows "triple (accounted ev g) (release_reset ops g a) (accounted ev g) (accounted ev g)"
  unfolding triple_def
proof (intro allI impI)
  fix s :: "'r scheduler"
  assume acc: "accounted ev g s"
  show "case release_reset ops g a s of (Inl _, s') \<Rightarrow> accounted ev g s' | (Inr _, s') \<Rightarrow> accounted ev g s'"
  proof (cases ops g a s rule: release_reset_cases)
    case (due at now)
    obtain o' r where i: "reset_all ops (policy a) (runner_state s) = (o', r)" by force
    have "fst ` set (due (reset_table s)) \<subseteq> fst ` set (selected_cursors s)" using acc by (simp add: accounted_def)
    then obtain c where c: "map_of (selected_cursors s) (reset_id a) = Some c" using due_selected [OF due(1)] by blast
    have "accounted ev g (s\<lparr>runner_state := r\<rparr>)" using acc by simp
    from accounted_fire_reset [OF this assms, of c] c show ?thesis
      using due i acc by (cases o') (simp_all add: release_reset_def and_then_def on_runner_def consume_cursor_def)
  qed (use acc in auto)
qed

lemma accounted_release_due: "triple (accounted ev g) (release_due ops g) (accounted ev g) (accounted ev g)"
  unfolding release_due_def
  by (intro triple_then [of _ _ "accounted ev g"] triple_each accounted_release_reset accounted_release_action)

lemma accounted_select:
  assumes acc: "accounted ev g s"
    and e: "observe_entry ops (runner_state s) epoch (sc, eid, outs) i t clock delay (tbl, selected_cursors s) = (o', tbl', cur')" "observed_from ev sc eid outs"
    and i: "\<And>c. justified ev t c \<Longrightarrow> caused ev g (i, c)"
  shows "fired tbl' = fired tbl \<and> (\<forall>ic \<in> set cur'. caused ev g ic) \<and> fst ` set (selected_cursors s) \<subseteq> fst ` set cur'
    \<and> (fst ` set (due tbl) \<subseteq> fst ` set (selected_cursors s) \<longrightarrow> fst ` set (due tbl') \<subseteq> fst ` set cur')"
proof -
  from observe_entry_cursors [OF e] consider "fired tbl' = fired tbl" "due tbl' = due tbl" "cur' = selected_cursors s"
    | c v where "fired tbl' = fired tbl" "justified ev t c" "cur' = dict_set (selected_cursors s) i c" "due tbl' = dict_set (due tbl) i v" by blast
  then show ?thesis
  proof cases
    case 1
    then show ?thesis using acc by (simp add: accounted_def)
  next
    case 2
    have "\<forall>ic \<in> set (selected_cursors s). caused ev g ic" using acc by (simp add: accounted_def)
    then have "\<forall>ic \<in> set cur'. caused ev g ic"
      using dict_set_member [of _ i c "selected_cursors s"] i [OF 2(2)] unfolding 2(3) by blast
    then show ?thesis using 2(1) by (simp add: 2(3,4) dict_set_keys) blast
  qed
qed

lemma accounted_observe_event:
  fixes ops :: "'r runner"
  assumes "observed_from ev sc eid outs"
  shows "triple (accounted ev g) (observe_event ops g epoch (sc, eid, outs)) (accounted ev g) (accounted ev g)"
proof -
  have a: "triple (accounted ev g) (observe_action ops epoch (sc, eid, outs) a) (accounted ev g) (accounted ev g)" if mem: "a \<in> set (actions g)" for a
    unfolding triple_def
  proof (intro allI impI)
    fix s :: "'r scheduler"
    assume acc: "accounted ev g s"
    obtain o' tbl cur where e: "observe_entry ops (runner_state s) epoch (sc, eid, outs) (action_id a) (trig a) (action_clock a) (delay_ticks a) (source_table s, selected_cursors s) = (o', tbl, cur)"
      by (metis prod_cases3)
    have "caused ev g (action_id a, c)" if "justified ev (trig a) c" for c unfolding caused_def using that mem by simp blast
    note sel = accounted_select [OF acc e assms this]
    have "fst ` set (due (reset_table s)) \<subseteq> fst ` set cur" by (rule subset_trans [of _ "fst ` set (selected_cursors s)"]) (use acc sel in \<open>simp_all add: accounted_def\<close>)
    then have "accounted ev g (s\<lparr>source_table := tbl, selected_cursors := cur\<rparr>)" using acc sel by (simp add: accounted_def)
    then show "case observe_action ops epoch (sc, eid, outs) a s of (Inl _, s') \<Rightarrow> accounted ev g s' | (Inr _, s') \<Rightarrow> accounted ev g s'"
      by (simp add: observe_action_def e split: sum.split)
  qed
  have r: "triple (accounted ev g) (observe_reset ops epoch (sc, eid, outs) a) (accounted ev g) (accounted ev g)" if mem: "a \<in> set (reset_actions g)" for a
    unfolding triple_def
  proof (intro allI impI)
    fix s :: "'r scheduler"
    assume acc: "accounted ev g s"
    obtain o' tbl cur where e: "observe_entry ops (runner_state s) epoch (sc, eid, outs) (reset_id a) (reset_trigger a) (reset_clock sc a) (reset_delay_ticks a) (reset_table s, selected_cursors s) = (o', tbl, cur)"
      by (metis prod_cases3)
    have "caused ev g (reset_id a, c)" if "justified ev (reset_trigger a) c" for c unfolding caused_def using that mem by simp blast
    note sel = accounted_select [OF acc e assms this]
    have "fst ` set (due (source_table s)) \<subseteq> fst ` set cur" by (rule subset_trans [of _ "fst ` set (selected_cursors s)"]) (use acc sel in \<open>simp_all add: accounted_def\<close>)
    then have "accounted ev g (s\<lparr>reset_table := tbl, selected_cursors := cur\<rparr>)" using acc sel by (simp add: accounted_def)
    then show "case observe_reset ops epoch (sc, eid, outs) a s of (Inl _, s') \<Rightarrow> accounted ev g s' | (Inr _, s') \<Rightarrow> accounted ev g s'"
      by (simp add: observe_reset_def e split: sum.split)
  qed
  show ?thesis
    unfolding observe_event_def by (intro triple_then [of _ _ "accounted ev g"] triple_each a r)
qed

lemma accounted_step:
  fixes ops :: "'r runner"
  defines "acc \<equiv> accounted (recorded ops)"
  shows "triple (acc g) (step_and_observe ops g c) (acc g) (acc g)"
proof -
  have body: "triple (acc g) (observed_body ops g s obs) (acc g) (acc g)"
    if w: "events_since ops n r = Inr window" "observations c window = Inr obs" for s obs n r window
  proof -
    have "observed_from (recorded ops) sc eid outs" if "(sc, eid, outs) \<in> set obs" for sc eid outs
      by (rule observations_from [OF w(2) _ that]) (use w(1) in \<open>auto simp: recorded_def\<close>)
    then have "triple (acc g) (observe_event ops g e ob) (acc g) (acc g)" if "ob \<in> set obs" for e ob
      using accounted_observe_event that unfolding acc_def by (metis prod_cases3)
    then show ?thesis
      unfolding observed_body_def acc_def
      by (intro triple_then [of _ _ "accounted (recorded ops) g"] triple_each accounted_release_due) (auto simp: triple_def acc_def)
  qed
  have obs: "triple (acc g) (observe_step ops g c outs) (acc g) (acc g)" for outs
    unfolding triple_def
  proof (intro allI impI)
    fix s :: "'r scheduler"
    assume a: "acc g s"
    show "case observe_step ops g c outs s of (Inl _, s') \<Rightarrow> acc g s' | (Inr _, s') \<Rightarrow> acc g s'"
    proof (cases ops g c outs s rule: observe_step_cases)
      case (observed window obs)
      with body [OF observed(2,3), of s] a show ?thesis by (simp add: triple_def acc_def)
    qed (use a in simp)
  qed
  show ?thesis
    unfolding triple_def
  proof (intro allI impI)
    fix s :: "'r scheduler"
    assume a: "acc g s"
    obtain out r where r: "runner_step ops c (runner_state s) = (out, r)" by force
    have "acc g (s\<lparr>runner_state := r\<rparr>)" using a by (simp add: acc_def)
    with obs show "case step_and_observe ops g c s of (Inl _, s') \<Rightarrow> acc g s' | (Inr _, s') \<Rightarrow> acc g s'"
      by (cases out) (simp_all add: step_and_observe_def r triple_def)
  qed
qed

lemma accounted_on_runner: "triple (accounted ev g) (on_runner f) (accounted ev g) (accounted ev g)"
  by (rule triple_runner) (simp split: prod.split sum.split)

lemma accounted_body: "triple (accounted (recorded ops) g) (run_body ops g None) (accounted (recorded ops) g) (accounted (recorded ops) g)"
proof -
  have l: "triple (accounted (recorded ops) g) (run_loop ops g None) (accounted (recorded ops) g) (accounted (recorded ops) g)"
  proof -
    have "run_loop ops g None = each (\<lambda>i. step_and_observe ops g (scheduled g i)) [0..<nat (max_steps g)]" by (simp add: run_loop_def fun_eq_iff)
    then show ?thesis by (simp only:) (intro triple_each accounted_step)
  qed
  have q: "triple (accounted (recorded ops) g) (run_quiesce_steps ops g) (accounted (recorded ops) g) (accounted (recorded ops) g)"
    by (simp add: triple_def run_quiesce_steps_def split: prod.split sum.split)
  show ?thesis
    unfolding run_body_def
    by (intro triple_then [OF accounted_on_runner] triple_then [OF accounted_release_due] triple_then [OF _ triple_then [OF l q]]) (simp add: triple_def)
qed

lemma accounted_prepare:
  fixes ops :: "'r runner"
  shows "triple (accounted ev g) (prepare_run ops g) (accounted ev g) (\<lambda>_. True)"
proof -
  have a: "triple (accounted ev g) (start_action ops a) (accounted ev g) (\<lambda>_. True)" if mem: "a \<in> set (actions g)" for a
    unfolding triple_def
  proof (intro allI impI)
    fix s :: "'r scheduler"
    assume acc: "accounted ev g s"
    have "accounted ev g (s\<lparr>source_table := (source_table s)\<lparr>due := dict_set (due (source_table s)) (action_id a) v\<rparr>,
        selected_cursors := dict_set (selected_cursors s) (action_id a) (start_cursor ops (runner_state s))\<rparr>)" if "kind (trig a) = ''START''" for v
    proof -
      have "justified ev (trig a) (start_cursor ops (runner_state s))" using that by (simp add: justified_def start_cursor_def)
      then have c: "caused ev g (action_id a, start_cursor ops (runner_state s))" unfolding caused_def using mem by simp blast
      have "\<forall>ic \<in> set (selected_cursors s). caused ev g ic" using acc by (simp add: accounted_def)
      then have "\<forall>ic \<in> set (dict_set (selected_cursors s) (action_id a) (start_cursor ops (runner_state s))). caused ev g ic"
        using dict_set_member [of _ "action_id a" "start_cursor ops (runner_state s)" "selected_cursors s"] c by blast
      with acc show ?thesis by (simp add: accounted_def dict_set_keys subset_insertI2)
    qed
    with acc show "case start_action ops a s of (Inl _, s') \<Rightarrow> True | (Inr _, s') \<Rightarrow> accounted ev g s'"
      by (simp add: start_action_def split: sum.split)
  qed
  have r: "triple (accounted ev g) (start_reset ops g a) (accounted ev g) (\<lambda>_. True)" if mem: "a \<in> set (reset_actions g)" for a
    unfolding triple_def
  proof (intro allI impI)
    fix s :: "'r scheduler"
    assume acc: "accounted ev g s"
    have "accounted ev g (s\<lparr>reset_table := (reset_table s)\<lparr>due := dict_set (due (reset_table s)) (reset_id a) v\<rparr>,
        selected_cursors := dict_set (selected_cursors s) (reset_id a) (start_cursor ops (runner_state s))\<rparr>)" if "kind (reset_trigger a) = ''START''" for v
    proof -
      have "justified ev (reset_trigger a) (start_cursor ops (runner_state s))" using that by (simp add: justified_def start_cursor_def)
      then have c: "caused ev g (reset_id a, start_cursor ops (runner_state s))" unfolding caused_def using mem by simp blast
      have "\<forall>ic \<in> set (selected_cursors s). caused ev g ic" using acc by (simp add: accounted_def)
      then have "\<forall>ic \<in> set (dict_set (selected_cursors s) (reset_id a) (start_cursor ops (runner_state s))). caused ev g ic"
        using dict_set_member [of _ "reset_id a" "start_cursor ops (runner_state s)" "selected_cursors s"] c by blast
      with acc show ?thesis by (simp add: accounted_def dict_set_keys subset_insertI2)
    qed
    with acc show "case start_reset ops g a s of (Inl _, s') \<Rightarrow> True | (Inr _, s') \<Rightarrow> accounted ev g s'"
      by (simp add: start_reset_def split: sum.split)
  qed
  show ?thesis
    unfolding prepare_run_def
    by (intro triple_then [of _ _ "accounted ev g"] triple_each a r triple_conseq [OF accounted_on_runner]) auto
qed

lemma filter_cursors: "map fst (concat (map (\<lambda>i. case map_of d i of None \<Rightarrow> [] | Some c \<Rightarrow> [(i, c)]) xs)) = filter (\<lambda>i. i \<in> fst ` set d) xs"
proof (induction xs)
  case (Cons i xs)
  then show ?case using map_of_eq_None_iff [of d i] by (auto split: option.split)
qed simp

lemma make_genome_ids: "make_genome g = Inr g \<Longrightarrow> distinct (map action_id (actions g) @ map reset_id (reset_actions g))"
  by (auto simp: make_genome_def split: if_splits)

text \<open>C25: Every action that fired has a cause. For every runner and every genome, a run that returns gives each fired action and each fired reset exactly one cursor, in
  the order of the genome, and no cursor to others. The cursor of an action that starts with the testcase says so; the cursor of an action that waits
  for an output names the component, the port and the occurrence its trigger asks for, and an event that the runner has recorded for that component in which the observed
  value satisfies the trigger. This holds too when the run ended early.\<close>

theorem scheduler_cursors:
  assumes g: "make_genome g = Inr g" and run: "run_scheduler ops g batch_sizes r = (Inr res, r')"
  shows "map fst (cursor_records res) = fired_actions res @ fired_resets res
    \<and> (\<forall>a \<in> set (actions g). \<forall>c. (action_id a, c) \<in> set (cursor_records res) \<longrightarrow> justified (recorded ops) (trig a) c)
    \<and> (\<forall>a \<in> set (reset_actions g). \<forall>c. (reset_id a, c) \<in> set (cursor_records res) \<longrightarrow> justified (recorded ops) (reset_trigger a) c)"
proof -
  let ?acc = "accounted (recorded ops) g" and ?ids = "map action_id (actions g)" and ?rids = "map reset_id (reset_actions g)"
  note run' = run_checked_batches [OF g run]
  obtain s1 where s1: "prepare_run ops g (new_scheduler g r) = (Inr (), s1)"
    using run' by (auto simp: run_scheduler_def split: sum.splits prod.splits)
  obtain o2 s2 where s2: "run_body ops g None s1 = (o2, s2)" by force
  obtain s3 where s3: "finish_run ops g (o2, s2) = (Inr res, s3)"
    using run' s1 s2 by (auto simp: run_scheduler_def split: sum.splits prod.splits)
  have "?acc (new_scheduler g r)" by (simp add: accounted_def new_scheduler_def empty_table_def)
  then have "?acc s1" using accounted_prepare [of "recorded ops" g ops] s1 by (fastforce simp: triple_def)
  then have "?acc s2" using accounted_body [of ops g] s2 by (fastforce simp: triple_def split: sum.splits)
  moreover obtain r3 where f: "finalize ops (runner_state s2) = (Inr (), r3)" "s3 = s2\<lparr>runner_state := r3\<rparr>"
    using s3 by (auto simp: finish_run_def on_runner_def Let_def split: sum.splits prod.splits)
  ultimately have acc: "?acc s3" by simp
  let ?d = "consumed_cursors s3"
  have res: "fired_actions res = filter (\<lambda>i. i \<in> set (fired (source_table s3))) ?ids" "fired_resets res = filter (\<lambda>i. i \<in> set (fired (reset_table s3))) ?rids"
      "cursor_records res = concat (map (\<lambda>i. case map_of ?d i of None \<Rightarrow> [] | Some c \<Rightarrow> [(i, c)]) (?ids @ ?rids))"
    using s3 f by (auto simp: finish_run_def on_runner_def Let_def)
  note ids = make_genome_ids [OF g]
  have keys: "fst ` set ?d = set (fired (source_table s3)) \<union> set (fired (reset_table s3))"
      "set (fired (source_table s3)) \<subseteq> set ?ids" "set (fired (reset_table s3)) \<subseteq> set ?rids" using acc by (simp_all add: accounted_def)
  have "filter (\<lambda>i. i \<in> fst ` set ?d) ?ids = fired_actions res" "filter (\<lambda>i. i \<in> fst ` set ?d) ?rids = fired_resets res"
    unfolding res keys(1) by (rule filter_cong [OF refl], use ids keys(2,3) in auto)+
  then have order: "map fst (cursor_records res) = fired_actions res @ fired_resets res"
    unfolding res(3) filter_cursors filter_append by simp
  have "caused (recorded ops) g (i, c)" if "(i, c) \<in> set (cursor_records res)" for i c
  proof -
    have "map_of ?d i = Some c" using that by (auto simp: res(3) split: option.splits)
    then show ?thesis using acc map_of_SomeD by (fastforce simp: accounted_def)
  qed
  note cz = this
  have a: "justified (recorded ops) (trig a) c" if "a \<in> set (actions g)" "(action_id a, c) \<in> set (cursor_records res)" for a c
    using cz [OF that(2)] that(1) ids by (auto simp: caused_def distinct_map dest: inj_onD)
  have "justified (recorded ops) (reset_trigger a) c" if "a \<in> set (reset_actions g)" "(reset_id a, c) \<in> set (cursor_records res)" for a c
    using cz [OF that(2)] that(1) ids by (auto simp: caused_def distinct_map dest: inj_onD)
  with a order show ?thesis by blast
qed

section \<open>A held output is one occurrence\<close>

text \<open>How often a predicate is entered, from whether it held before.\<close>

fun entries :: "bool \<Rightarrow> bool list \<Rightarrow> int" where
  "entries p [] = 0"
| "entries p (m # ms) = (if m \<and> \<not> p then 1 else 0) + entries m ms"

lemma entries_nonneg: "0 \<le> entries p ms"
  by (induction p ms rule: entries.induct) auto

lemma observe_entry_due:
  "dict_has (due tbl) i \<Longrightarrow> each (\<lambda>ob. observe_entry ops r epoch ob i t clock delay) obs (tbl, cur) = (Inr (), tbl, cur)"
  by (induction obs) (auto simp: and_then_def observe_entry_def split: prod.splits)

text \<open>Over any observations of its component a waiting action is selected exactly when its predicate has been entered as often as the trigger asks for: an output that is
  held, however long, counts once, until it has left the predicate and entered it again.\<close>

theorem trigger_counts_entries:
  assumes "i \<notin> set (fired tbl)" "\<not> dict_has (due tbl) i" "kind t = ''AFTER_OUTPUT''" "\<forall>ob \<in> set obs. fst ob = source_component t"
    and "local_ticks ops r clock = Inr now" "dict_get (counts tbl) i 0 < occurrence t"
  defines "n \<equiv> dict_get (counts tbl) i 0 + entries (dict_get (previous_match tbl) i False) (map (\<lambda>(_, _, outs). trigger_matches t outs) obs)"
  shows "\<exists>tbl' cur'. each (\<lambda>ob. observe_entry ops r epoch ob i t clock delay) obs (tbl, cur) = (Inr (), tbl', cur')
    \<and> (if n < occurrence t then \<not> dict_has (due tbl') i \<and> dict_get (counts tbl') i 0 = n else map_of (due tbl') i = Some (now + delay))"
  using assms(1-4,6) unfolding n_def
proof (induction obs arbitrary: tbl cur)
  case (Cons ob obs)
  obtain sc eid outs where ob: "ob = (sc, eid, outs)" by (cases ob) auto
  let ?p = "dict_get (previous_match tbl) i False" and ?m = "trigger_matches t outs" and ?c = "dict_get (counts tbl) i 0"
  obtain o1 tbl1 cur1 where st0: "observe_entry ops r epoch ob i t clock delay (tbl, cur) = (o1, tbl1, cur1)" by (metis prod_cases3)
  have "o1 = Inr () \<and> fired tbl1 = fired tbl \<and> dict_get (previous_match tbl1) i False = ?m
      \<and> (if ?m \<and> \<not> ?p \<and> ?c + 1 = occurrence t then map_of (due tbl1) i = Some (now + delay)
         else due tbl1 = due tbl \<and> dict_get (counts tbl1) i 0 = ?c + (if ?m \<and> \<not> ?p then 1 else 0))"
    using Cons.prems assms(5) st0 by (cases "?m \<and> \<not> ?p"; cases "?c + 1 = occurrence t") (auto simp: observe_entry_def ob Let_def dict_get_set dict_simps)
  then have st: "observe_entry ops r epoch ob i t clock delay (tbl, cur) = (Inr (), tbl1, cur1)" "fired tbl1 = fired tbl" "dict_get (previous_match tbl1) i False = ?m"
      "if ?m \<and> \<not> ?p \<and> ?c + 1 = occurrence t then map_of (due tbl1) i = Some (now + delay)
       else due tbl1 = due tbl \<and> dict_get (counts tbl1) i 0 = ?c + (if ?m \<and> \<not> ?p then 1 else 0)"
    using st0 by blast+
  have e: "each (\<lambda>ob. observe_entry ops r epoch ob i t clock delay) (ob # obs) (tbl, cur)
      = each (\<lambda>ob. observe_entry ops r epoch ob i t clock delay) obs (tbl1, cur1)" by (simp add: and_then_def st(1))
  show ?case
  proof (cases "?m \<and> \<not> ?p \<and> ?c + 1 = occurrence t")
    case True
    then have d: "map_of (due tbl1) i = Some (now + delay)" using st(4) by simp
    then have "each (\<lambda>ob. observe_entry ops r epoch ob i t clock delay) obs (tbl1, cur1) = (Inr (), tbl1, cur1)"
      by (intro observe_entry_due) (simp add: dict_has_def)
    then show ?thesis
      unfolding e using True d entries_nonneg [of ?m "map (\<lambda>(_, _, outs). trigger_matches t outs) obs"] by (simp add: ob)
  next
    case False
    then have c: "due tbl1 = due tbl" "dict_get (counts tbl1) i 0 = ?c + (if ?m \<and> \<not> ?p then 1 else 0)" using st(4) by auto
    have "\<exists>tbl' cur'. each (\<lambda>ob. observe_entry ops r epoch ob i t clock delay) obs (tbl1, cur1) = (Inr (), tbl', cur')
      \<and> (if dict_get (counts tbl1) i 0 + entries (dict_get (previous_match tbl1) i False) (map (\<lambda>(_, _, outs). trigger_matches t outs) obs) < occurrence t
         then \<not> dict_has (due tbl') i \<and> dict_get (counts tbl') i 0
             = dict_get (counts tbl1) i 0 + entries (dict_get (previous_match tbl1) i False) (map (\<lambda>(_, _, outs). trigger_matches t outs) obs)
         else map_of (due tbl') i = Some (now + delay))"
      using Cons.prems False c st(2) by (intro Cons.IH) auto
    moreover have "?c + entries ?p (map (\<lambda>(_, _, outs). trigger_matches t outs) (ob # obs))
      = dict_get (counts tbl1) i 0 + entries (dict_get (previous_match tbl1) i False) (map (\<lambda>(_, _, outs). trigger_matches t outs) obs)"
      by (simp add: ob c st(3))
    ultimately show ?thesis unfolding e by (simp only:)
  qed
qed simp

section \<open>A concrete run\<close>

text \<open>One component whose \<open>irq\<close> output is high at ticks 2 and 3 and again at tick 5; every step records its outputs.\<close>

definition example_outputs :: "nat \<Rightarrow> (string, json) dict" where
  "example_outputs t = [(''irq'', JInt (if t = 2 \<or> t = 3 \<or> t = 5 then 1 else 0))]"

definition example_runner :: "(nat \<times> event list) runner" where
  "example_runner = \<lparr>sessions = [(''cpu'', True)],
     runner_ownership = (case compile_ownership [\<lparr>field_component = ''cpu'', field_port = ''s1'', field_bits = 8\<rparr>]
       [\<lparr>owner_component = ''cpu'', owner_port = ''s1'', owner_offset = 0, owner_width = 8, owner_kind = ''source'', producer_ref = ''s1''\<rparr>] of Inr m \<Rightarrow> m),
     local_ticks = (\<lambda>(t, evs) c. Inr (int t)), command_epoch = (\<lambda>_. 0), event_count = (\<lambda>(t, evs). int (length evs)),
     events_since = (\<lambda>n (t, evs). if 0 \<le> n \<and> n \<le> int (length evs) then Inr (drop (nat n) evs) else Inl (ValueError ''event index is outside the recorded prefix'')),
     failure_status = (\<lambda>_. None), preload_image = (\<lambda>_ r. (Inr (), r)), begin_test = (\<lambda>_ r. (Inr (), r)), inject_source = (\<lambda>_ r. (Inr (), r)),
     reset_all = (\<lambda>_ r. (Inr (), r)),
     runner_step = (\<lambda>c (t, evs). (Inr (example_outputs (Suc t)), Suc t,
       evs @ [\<lparr>event_component = Some c, event_kind = None, event_outputs = Some (example_outputs (Suc t)), event_id = int (length evs)\<rparr>])),
     quiesce = (\<lambda>_ r. (Inl (ValueError ''no quiesce''), r)), finalize = (\<lambda>r. (Inr (), r))\<rparr>"

text \<open>An action at the start, and one tick after the second time \<open>irq\<close> rises.\<close>

definition run_genome :: scenario_genome where
  "run_genome = \<lparr>testcase = ''case'', genome_direction = ''CPU_TO_IP'', path_id = ''path'', schedule_order = [''cpu''], max_steps = 7,
     actions = [\<lparr>action_id = ''a1'', component = ''cpu'', port = ''s1'', action_value = 5, direction = ''CPU_TO_IP'',
         trig = \<lparr>kind = ''START'', source_component = [], source_port = [], trigger_mask = 0, trigger_value = 0, occurrence = 1\<rparr>,
         delay_component = [], delay_ticks = 0, bit_offset = 0, action_width = None\<rparr>,
       \<lparr>action_id = ''a2'', component = ''cpu'', port = ''s1'', action_value = 6, direction = ''CPU_TO_IP'',
         trig = \<lparr>kind = ''AFTER_OUTPUT'', source_component = ''cpu'', source_port = ''irq'', trigger_mask = 1, trigger_value = 1, occurrence = 2\<rparr>,
         delay_component = [], delay_ticks = 1, bit_offset = 0, action_width = None\<rparr>],
     initial_images = [], encoding_version = 2, reset_actions = [], quiesce_steps = 0\<rparr>"

definition run_record :: scheduler_result where
  "run_record = \<lparr>run_status = ''complete'', run_steps = 7, fired_actions = [''a1'', ''a2''], pending_actions = [], fired_resets = [], pending_resets = [],
     run_quiesce = None, cursor_records =
       [(''a1'', \<lparr>cursor_kind = ''START'', cursor_event = None, cursor_epoch = 0, cursor_occurrence = 0, cursor_component = [], cursor_port = []\<rparr>),
        (''a2'', \<lparr>cursor_kind = ''AFTER_OUTPUT'', cursor_event = Some 4, cursor_epoch = 0, cursor_occurrence = 2, cursor_component = ''cpu'', cursor_port = ''irq''\<rparr>)]\<rparr>"

lemma run_genome_made: "make_genome run_genome = Inr run_genome"
  by code_simp

lemma example_run: "fst (run_scheduler (logged example_runner) run_genome (Some [3, 2]) ((0, []), [])) = Inr run_record"
  by code_simp

lemma example_log: "snd (snd (run_scheduler (logged example_runner) run_genome (Some [3, 2]) ((0, []), [])))
  = [Inject ''a1'', Step ''cpu'', Step ''cpu'', Step ''cpu'', Step ''cpu'', Step ''cpu'', Step ''cpu'', Inject ''a2'', Step ''cpu'']"
  by code_simp

lemma example_plain: "fst (run_scheduler example_runner run_genome None (0, [])) = Inr run_record"
  by code_simp

theorem scheduler_batches_witness:
  "run_scheduler example_runner run_genome (Some [3, 2]) (0, []) = run_scheduler example_runner run_genome None (0, [])"
  by (rule scheduler_batches [OF run_genome_made]) simp_all

theorem scheduler_once_witness:
  "distinct (injections (snd (snd (run_scheduler (logged example_runner) run_genome (Some [3, 2]) ((0, []), [])))))
   \<and> set (fired_actions run_record) \<subseteq> set (injections (snd (snd (run_scheduler (logged example_runner) run_genome (Some [3, 2]) ((0, []), [])))))
   \<and> stepped (snd (snd (run_scheduler (logged example_runner) run_genome (Some [3, 2]) ((0, []), [])))) = replicate 7 ''cpu''"
proof -
  obtain r l where "run_scheduler (logged example_runner) run_genome (Some [3, 2]) ((0, []), []) = (Inr run_record, r, l)"
    using example_run by (metis prod.collapse)
  from scheduler_once [OF run_genome_made this] this show ?thesis using example_log by (simp add: stepped_def numeral_eq_Suc)
qed

theorem scheduler_cursors_witness:
  "map fst (cursor_records run_record) = [''a1'', ''a2''] \<and> justified (recorded example_runner) (trig (actions run_genome ! 1)) (snd (cursor_records run_record ! 1))"
proof -
  obtain r where r: "run_scheduler example_runner run_genome None (0, []) = (Inr run_record, r)"
    using example_plain by (metis prod.collapse)
  have m: "actions run_genome ! 1 \<in> set (actions run_genome)" by (simp add: run_genome_def)
  have c: "(action_id (actions run_genome ! 1), snd (cursor_records run_record ! 1)) \<in> set (cursor_records run_record)" by code_simp
  have f: "fired_actions run_record @ fired_resets run_record = [''a1'', ''a2'']" by code_simp
  show ?thesis using scheduler_cursors [OF run_genome_made r] m c f by metis
qed

end
