(* ===== verification/Decoded_Runs.thy ===== *)
theory Decoded_Runs
  imports Rfuzz Scheduler
begin

text \<open>
  The record decoder and the scheduler together: what decoding keeps of a template, and which parts of a genome the checks before a run read.
  The theorem that joins them is in the root theory.
\<close>

section \<open>Decoded testcases can be scheduled\<close>

definition value_fits :: "ownership_map \<Rightarrow> action \<Rightarrow> bool" where
  "value_fits ownership a \<longleftrightarrow> (\<forall>w. selected_width ownership a = Inr w \<longrightarrow> action_value a < 2 ^ nat w)"

lemma selected_width_delay [simp]: "selected_width ownership (a\<lparr>delay_ticks := n\<rparr>) = selected_width ownership a"
  by (cases "action_width a") (simp_all add: selected_width_def)

lemma flip_action_fits:
  assumes "\<forall>a \<in> set as. make_action a = Inr a \<and> value_fits ownership a" "flip_action ownership s dir b aid as = Inr as'"
  shows "\<forall>a \<in> set as'. value_fits ownership a"
  using assms
proof (induction as arbitrary: as')
  case (Cons a as)
  let ?a = "a\<lparr>action_value := action_value a XOR 2 ^ nat (b - bit_offset a)\<rparr>"
  have "value_fits ownership ?a" if w: "selected_width ownership a = Inr w" "bit_offset a \<le> b" "b < bit_offset a + w" for w
  proof -
    have "0 \<le> action_value a" using Cons.prems(1) by (auto simp: make_action_def natural_def check_def split: if_splits)
    moreover have "action_value a < 2 ^ nat w" using Cons.prems(1) w(1) by (auto simp: value_fits_def)
    moreover have "(2::int) ^ nat (b - bit_offset a) < 2 ^ nat w" using w(2,3) by (intro power_strict_increasing) auto
    ultimately have "action_value a XOR 2 ^ nat (b - bit_offset a) < 2 ^ nat w" by (rule XOR_upper)
    with w(1) show ?thesis by (simp add: value_fits_def)
  qed
  moreover have "a' = ?a" if "make_action ?a = Inr a'" for a' using that by (auto simp: make_action_def natural_def check_def split: if_splits option.splits)
  ultimately show ?case using Cons by (auto split: if_splits)
qed simp

lemma mutate_fits:
  assumes ok: "genome_ok g" and f: "\<forall>a \<in> set (actions g). value_fits ownership a"
    and m: "mutate_genome g plan gref gr oref ownership b aid target auth = Inr g'"
  shows "\<forall>a \<in> set (actions g'). value_fits ownership a"
proof -
  obtain s aid' where
    img: "src_kind s = ''memory_image'' \<Longrightarrow> \<exists>imgs. flip_image s (src_offset s + b) (initial_images g) = Inr imgs \<and> g' = g\<lparr>initial_images := imgs\<rparr>"
    and act: "src_kind s \<noteq> ''memory_image'' \<Longrightarrow> \<exists>as. flip_action ownership s (plan_direction plan) (src_offset s + b) aid' (actions g) = Inr as \<and> g' = g\<lparr>actions := as\<rparr>"
    by (rule mutate_genome_Inr [OF m]) blast
  show ?thesis
  proof (cases "src_kind s = ''memory_image''")
    case True
    then show ?thesis using img f by auto
  next
    case False
    then obtain as where a: "flip_action ownership s (plan_direction plan) (src_offset s + b) aid' (actions g) = Inr as" "g' = g\<lparr>actions := as\<rparr>" using act by blast
    have "\<forall>a \<in> set (actions g). make_action a = Inr a \<and> value_fits ownership a" using ok f by (simp add: genome_ok_def)
    from flip_action_fits [OF this a(1)] a(2) show ?thesis by simp
  qed
qed

lemma delay_fits:
  assumes "map_res (delay_action md extra i) as = Inr as'" "\<forall>a \<in> set as. value_fits ownership a"
  shows "\<forall>a \<in> set as'. value_fits ownership a"
proof -
  have "value_fits ownership a'" if "delay_action md extra i a = Inr a'" "value_fits ownership a" for a a'
    using that by (auto simp: delay_action_def make_action_def natural_def check_def value_fits_def split: if_splits option.splits)
  with assms show ?thesis by (induction as arbitrary: as') auto
qed

lemma decode_record_Inr:
  assumes "decode_record d p g r = Inr g'"
  obtains "g' = g" | plan b aid target auth where "mutate_genome g plan 0 (dec_graph d) 0 (dec_ownership d) b aid target auth = Inr g'"
    | i as where "map_res (delay_action (max_delay_ticks d) (int (record_byte r 6)) i) (actions g) = Inr as" "make_genome (g\<lparr>actions := as\<rparr>) = Inr g'"
proof (cases "record_byte r 5 mod 3 = 0")
  case True
  then show thesis using assms that(1) by (simp add: decode_record_def)
next
  case False
  let ?f = "\<lambda>sid. case map_of (graph_sources (dec_graph d)) sid of None \<Rightarrow> Inl (KeyError (py_repr sid)) | Some s \<Rightarrow> Inr s"
  obtain sources where so: "map_res ?f (source_ids p) = Inr sources"
    using assms False by (cases "map_res ?f (source_ids p)") (simp_all add: decode_record_def Let_def)
  define s where "s = sources ! (record_byte r 2 mod length sources)"
  obtain cs where cs: "choices d g s = Inr cs" "cs \<noteq> []"
    using assms False so by (cases "choices d g s") (auto simp: decode_record_def Let_def s_def [symmetric] split: if_splits)
  obtain b ids where bi: "cs ! ((record_byte r 3 + 256 * record_byte r 7) mod length cs) = (b, ids)" by force
  show thesis
  proof (cases "record_byte r 5 mod 3 = 1")
    case True
    then show thesis
      using assms so cs bi by (intro that(2)) (simp add: decode_record_def Let_def flip: s_def)
  next
    case op: False
    have se: "sources ! (record_byte r 2 mod length sources) = s" by (simp add: s_def)
    have d: "Inr g' = (case if ids = [] then None else Some (ids ! (record_byte r 4 mod length ids)) of
                 Some i \<Rightarrow> if src_kind s = ''source''
                   then res_bind (map_res (delay_action (max_delay_ticks d) (int (record_byte r 6)) i) (actions g)) (\<lambda>as. make_genome (g\<lparr>actions := as\<rparr>))
                   else Inr g
               | None \<Rightarrow> Inr g)"
      using assms False op so cs bi by (cases "ids = []") (simp_all add: decode_record_def Let_def se)
    show thesis
    proof (cases "ids = [] \<or> src_kind s \<noteq> ''source''")
      case True
      then show thesis using d that(1) by (auto split: if_splits)
    next
      case act: False
      define i where "i = ids ! (record_byte r 4 mod length ids)"
      have "res_bind (map_res (delay_action (max_delay_ticks d) (int (record_byte r 6)) i) (actions g)) (\<lambda>as. make_genome (g\<lparr>actions := as\<rparr>)) = Inr g'"
        using act d by (simp add: i_def)
      then show thesis using that(3) [of i] by auto
    qed
  qed
qed

lemma decode_record_keeps:
  assumes g: "genome_ok g" "\<forall>a \<in> set (actions g). value_fits (dec_ownership d) a" and md: "0 \<le> max_delay_ticks d" and r: "decode_record d p g r = Inr g'"
  shows "genome_ok g' \<and> shape g' = shape g \<and> (\<forall>a \<in> set (actions g'). value_fits (dec_ownership d) a)"
proof -
  consider "g' = g" | plan b aid target auth where "mutate_genome g plan 0 (dec_graph d) 0 (dec_ownership d) b aid target auth = Inr g'"
    | i as where "map_res (delay_action (max_delay_ticks d) (int (record_byte r 6)) i) (actions g) = Inr as" "make_genome (g\<lparr>actions := as\<rparr>) = Inr g'"
    by (rule decode_record_Inr [OF r])
  then show ?thesis
  proof cases
    case 2
    then show ?thesis using mutate_genome_ok [OF g(1) 2] mutate_shape [OF g(1) 2] mutate_fits [OF g 2] by simp
  next
    case 3
    from delay_ok [OF g(1) md, of "int (record_byte r 6)" i] 3 have "genome_ok g' \<and> shape g' = shape g" by simp
    moreover have "g' = g\<lparr>actions := as\<rparr>" using 3(2) by (simp add: make_genome_Inr)
    ultimately show ?thesis using delay_fits [OF 3(1) g(2)] by simp
  qed (use g in auto)
qed

lemma decode_records_keep:
  assumes "0 \<le> max_delay_ticks d"
  shows "genome_ok g \<Longrightarrow> \<forall>a \<in> set (actions g). value_fits (dec_ownership d) a \<Longrightarrow> fold_res (decode_record d p) g rs = Inr g'
    \<Longrightarrow> genome_ok g' \<and> shape g' = shape g \<and> (\<forall>a \<in> set (actions g'). value_fits (dec_ownership d) a)"
proof (induction rs arbitrary: g)
  case (Cons r rs)
  obtain g1 where g1: "decode_record d p g r = Inr g1" "fold_res (decode_record d p) g1 rs = Inr g'" using Cons.prems(3) by auto
  from decode_record_keeps [OF Cons.prems(1,2) assms g1(1)] Cons.IH [OF _ _ g1(2)] show ?case by auto
qed auto

lemma make_decoder_limits:
  assumes "make_decoder g ownership ts mr md bs contract = Inr d"
  shows "0 \<le> max_delay_ticks d" "templates d = ts" "dec_ownership d = ownership" "ts \<noteq> []"
proof -
  have "0 \<le> max_delay_ticks d \<and> templates d = ts \<and> dec_ownership d = ownership \<and> ts \<noteq> []"
    using assms by (cases contract) (auto simp: make_decoder_def initialize_runtime_paths_def Let_def split: if_splits)
  then show "0 \<le> max_delay_ticks d" "templates d = ts" "dec_ownership d = ownership" "ts \<noteq> []" by blast+
qed

text \<open>The checks of a run depend on the shape of a genome and on the values of its actions only.\<close>

lemma shape_parts:
  assumes "shape h = shape g"
  shows "schedule_order h = schedule_order g" "reset_actions h = reset_actions g" "genome_direction h = genome_direction g"
  using arg_cong [OF assms, of "\<lambda>x. schedule_order (fst x)"] arg_cong [OF assms, of "\<lambda>x. reset_actions (fst x)"]
    arg_cong [OF assms, of "\<lambda>x. genome_direction (fst x)"] by (simp_all add: shape_def)

lemma action_shape_parts:
  assumes "action_shape a = action_shape b"
  shows "component a = component b" "port a = port b" "direction a = direction b" "bit_offset a = bit_offset b" "action_width a = action_width b"
  using arg_cong [OF assms, of component] arg_cong [OF assms, of port] arg_cong [OF assms, of direction] arg_cong [OF assms, of bit_offset]
    arg_cong [OF assms, of action_width] by (simp_all add: action_shape_def)

lemma check_source_action_fits:
  "check_source_action ops g a = Inr () \<longleftrightarrow> direction a = genome_direction g \<and> value_fits (runner_ownership ops) a
     \<and> (\<exists>w. selected_width (runner_ownership ops) a = Inr w \<and> is_ok (field_width (runner_ownership ops) (component a) (port a))
         \<and> is_ok (mutation_source (runner_ownership ops) (component a) (port a) (bit_offset a) w (direction a)))"
  by (cases "field_width (runner_ownership ops) (component a) (port a)"; cases "action_width a")
    (auto simp: check_source_action_def selected_width_def value_fits_def check_def is_ok_iff Let_def)

lemma check_run_shape:
  assumes "check_run ops g bs = Inr ()" "shape h = shape g" "\<forall>a \<in> set (actions h). value_fits (runner_ownership ops) a"
  shows "check_run ops h bs = Inr ()"
proof -
  have "check_source_action ops h a = Inr ()" if a: "a \<in> set (actions h)" for a
  proof -
    have "map action_shape (actions h) = map action_shape (actions g)" using assms(2) by (simp add: shape_def)
    then have "action_shape a \<in> action_shape ` set (actions g)" using a by (metis image_eqI list.set_map)
    then obtain b where b: "b \<in> set (actions g)" "action_shape a = action_shape b" by blast
    have "check_source_action ops g b = Inr ()" using assms(1) b(1) by (auto simp: check_run_def split: if_splits)
    moreover have "selected_width (runner_ownership ops) a = selected_width (runner_ownership ops) b"
      unfolding selected_width_def action_shape_parts [OF b(2)] ..
    ultimately show ?thesis
      using assms(3) a by (auto simp: check_source_action_fits action_shape_parts [OF b(2)] shape_parts [OF assms(2)])
  qed
  then show ?thesis using assms(1) by (auto simp: check_run_def shape_parts [OF assms(2)] split: if_splits)
qed

section \<open>A runner with the example's inputs\<close>

definition wide_runner :: "(nat \<times> event list) runner" where
  "wide_runner = example_runner\<lparr>runner_ownership := example_map\<rparr>"

lemma example_templates_run: "\<forall>t \<in> set example_templates. check_run wide_runner (template_genome t) (Some [3, 2]) = Inr ()"
  by code_simp

end
