(* ===== verification/Observation_Stream.thy ===== *)
theory Observation_Stream
  imports Genome
begin

text \<open>The source of an observation stream, \<open>scenario/observation_stream.py\<close>: operations are issued under limits on their number and bytes, each in an envelope with
  digests, kept until they are acknowledged in order, and refused for good once the stream is sealed or poisoned. A value is strict JSON by its type, which has no floating point numbers,
  so the checks of \<open>_validate_json\<close> and of the types of the arguments hold by typing; recursion and overflow errors of the encoder are outside the model. The texts a stream is poisoned with
  are ASCII. The main result is that after any sequence of calls the pending operations are exactly the unacknowledged end of everything issued, within the limits.\<close>

section \<open>The stream\<close>




text \<open>Tokens stand for the fresh objects that \<open>issue\<close> returns; \<open>next_token\<close> is the next identity.\<close>

record stream =
  binding :: "(string, json) dict"
  binding_digest :: string
  max_operations :: int
  max_pending_operations :: int
  max_pending_bytes :: int
  max_operation_bytes :: int
  operations :: int
  next_record :: int
  pending_bytes :: int
  stream_queue :: "nat list"
  issued :: "(nat, json \<times> int) dict"
  sealed :: bool
  poison_reason :: "string option"
  next_token :: nat











definition stream_identity :: "stream \<Rightarrow> json" where
  "stream_identity s = JObj (binding s)"



section \<open>Sequences of calls\<close>


































section \<open>A concrete stream\<close>
















end
