(* ===== verification/Spec2Isabelle.thy ===== *)
theory Spec2Isabelle
  imports Router Irq Uart Pulp_Spi I2c State_Dependency Decoded_Runs Observation_Stream
begin

text \<open>
  myfuzz tests CPU and peripheral RTL in separate local harnesses. A testcase is a \<^emph>\<open>genome\<close>: source actions, memory images and resets with the
  outputs that trigger them. Raw fuzzer records are decoded into genomes along a declared dependency graph; a scheduler steps the harnesses, releases source
  changes when their trigger was observed, and observed outputs are routed to the other components through ledgers that make every transfer happen at
  most once. Memory is shared state with versioned bytes, and a tracker reconstructs who wrote what. This development models that scenario core (Python,
  \<open>src/src/myfuzz/scenario\<close> and \<open>src/src/myfuzz/isa\<close>) and proves what makes each part correct.

  \<^bold>\<open>Reading the model.\<close> A dataclass is a \<open>record\<close>, its constructor checks a function \<open>make_...\<close> that returns the record or the exception. Exceptions are values
  (\<open>exc\<close>), a call that may raise returns \<open>exc + 'a\<close>; a method that changes state and may raise after having written returns its state in both cases.
  Dictionaries are association lists in insertion order, byte strings lists of 8-bit words, integers \<open>int\<close>. Guards that only test a run-time type hold by typing;
  every other guard is a branch. Names follow the source where HOL allows it.

  \<^bold>\<open>Foundations.\<close>
  \<^item> \<open>Rejection_Codes\<close>: JSON values and the enumeration of rejection codes.
  \<^item> \<open>Prelude\<close>: exceptions, dictionaries, bytes, windows, with the lemmas the components share.
  \<^item> \<open>Stdlib\<close>: what the code uses of Python's library: decimal text, \<open>repr\<close>, canonical \<open>json.dumps\<close>, SHA-256.
  \<^item> \<open>Interfaces\<close>: the contracts as locales. \<open>machine\<close> and \<open>progressing_machine\<close> (an invariant every call keeps; facts no call undoes) are interpreted on the
    ledger, the memory, the memory service and its commit stream, the observation stream, the IRQ adapter and the guarded SPI peer; \<open>simulation\<close> on the SPI peer; \<open>window_table\<close> (disjoint windows: at most one
    holds an address) on memory and router; \<open>encoding\<close> on rejection documents.

  \<^bold>\<open>Transactions and routing.\<close>
  \<^item> \<open>Ledger\<close> (\<open>ledger.py\<close>, \<open>TransactionLedger\<close>): at-most-once execution per channel in source order, frozen receipts, blocking after an uncertain effect,
    by an invariant over all sequences of calls and a log of the target operations.
  \<^item> \<open>Router\<close> (\<open>router.py\<close>, \<open>DataflowRouter\<close>): windows, byte lanes, the queue, delivery and cancellation, over one or several ledgers. Every pending transaction is queued
    once, also after calls that raise; of a ledger without uncertain effects the queue holds nothing else and never deadlocks.

  \<^bold>\<open>Memory.\<close>
  \<^item> \<open>Memory\<close> (\<open>memory.py\<close>, \<open>PersistentMemory\<close>): aliased regions, versions, images, instruction slots and resets.
  \<^item> \<open>Memory_Service\<close> (\<open>memory_service.py\<close>): idempotent reads and writes through the ledger with the store callback's self-checks and the bounded commit stream, a queue of the stores
    carried out and not yet acknowledged.
  \<^item> \<open>State_Dependency\<close> (\<open>state_dependency.py\<close>): the tracker; on every event stream the service emits, its entries are the writers in memory and no store is missed.

  \<^bold>\<open>Devices.\<close>
  \<^item> \<open>Irq\<close>, \<open>Uart\<close>, \<open>Spi\<close>, \<open>Pulp_Spi\<close>, \<open>I2c\<close> (\<open>irq.py\<close>, \<open>uart_peer.py\<close>, \<open>spi_peer.py\<close>, \<open>pulp_spi_peer.py\<close>, \<open>i2c_peer.py\<close>): pin-level peers. Exact pulse lengths, a UART
    round trip, refinement of an abstract SPI device, and I2C reads and writes under any clock stretching.

  \<^bold>\<open>Instructions.\<close>
  \<^item> \<open>Isa\<close>, \<open>Transducer\<close> (\<open>isa/constraints.py\<close>, \<open>isa/transducer.py\<close>): legality of words and their repair. Repaired words are legal, and every legal word is a fixed point of a repair.
  \<^item> \<open>Rv32i\<close> (\<open>rv32i_sources.py\<close>): decoding of fuzzer bytes to instructions, admission, MMIO accesses and mutation.
  \<^item> \<open>Rejections\<close> (\<open>rejection_codes.py\<close>): structured rejections and their documents.

  \<^bold>\<open>Testcases.\<close>
  \<^item> \<open>Genome\<close> (\<open>genome.py\<close>): the records of a testcase and their checks.
  \<^item> \<open>Ownership\<close> (\<open>ownership.py\<close>): compilation of input bits to exclusive owners.
  \<^item> \<open>Dependency\<close>, \<open>Dependency_Proofs\<close>, \<open>Viability\<close> (\<open>dependency.py\<close>): the dependency graph, the expansion of source sets, the lazy enumeration of proof graphs under a
    work budget, authentication of a path, the reachability worklist. \<open>path_identity\<close> accepts exactly the canonical proof graphs, every enumerated one is accepted, and the
    worklist computes derivability in linear work.
  \<^item> \<open>Mutation\<close> (\<open>mutation.py\<close>): plans and the flip of one bit; exactly one bit changes, and twice is the identity.
  \<^item> \<open>Rfuzz\<close> (\<open>rfuzz_decoder.py\<close>): construction of the record decoder, with or without a runtime contract, and decoding. Every record stream decodes, or a selected source has no field.
  \<^item> \<open>Scheduler\<close> (\<open>scheduler.py\<close>, with the batch loop of \<open>runner.py\<close>): a run over a runner given by its operations. The locale \<open>recorded_runner\<close> is interpreted on every runner with a
    log of the calls. Calls happen once and in order, every fired action has an observed cause, batches are a transport.
  \<^item> \<open>Observation_Stream\<close> (\<open>observation_stream.py\<close>): the bounded source of observations. What is pending is everything issued after the acknowledged part, within the limits, and nothing
    is issued after a seal or a poison.
  \<^item> \<open>Decoded_Runs\<close> and this theory: what the decoder produces the scheduler accepts.

  \<^bold>\<open>Termination and bounds.\<close> Definitions are total and executable. A depth limit of the source (\<open>max_depth\<close>) is the first argument of the recursion, as \<open>max_depth - depth\<close>.
  The worklist of \<open>edge_paths_to\<close> ends because each node spends budget; \<open>Viability\<close> shows which budget always suffices. The search of \<open>path_identity\<close> ends because each expansion
  uses up a selected node. The batch loop ends because sizes are positive. Repair and decoding recurse on lists. No result depends on a fuel the source does not have.

  \<^bold>\<open>Parameters.\<close> Target operations of a ledger, register targets and callbacks of a router, and the runner of the scheduler are arguments of the definitions; theorems hold for every choice of them.

  \<^bold>\<open>Not modelled.\<close> In modelled files: the JSON codec and chunk assembler of genomes, \<open>from_edge_document\<close> and the decoder's replay manifest, which parse documents of unchecked
  types; the registries of \<open>memory_service.py\<close> that inspect call frames and weak references; APB receipts in the router. Other parts: the scenario runner and session drivers (journals, budgets,
  subprocesses), evidence and certificate joins (they classify logs, they do not act), device sessions (processes and pipes), search heuristics, harness generation, composition, integration pipelines,
  scripts, vendored frontends and archived copies of earlier inputs.
\<close>

section \<open>From raw records to a run\<close>

text \<open>C23: What the decoder produces the scheduler accepts. When the templates of a decoder are valid genomes that pass the checks before a run, every testcase it decodes,
  from any records, with or without trusted bindings or a runtime contract, is a valid genome that passes them too: the decoder does not change what the schedule and the ownership checks read,
  and neither a flipped bit nor a longer delay makes an action value exceed the width of its source.\<close>

theorem decoded_testcase_schedulable:
  assumes d: "make_decoder g ownership ts mr md bs rtc = Inr d" and ok: "\<forall>t \<in> set ts. genome_ok (template_genome t)"
    and run: "runner_ownership ops = ownership" "\<forall>t \<in> set ts. check_run ops (template_genome t) batch_sizes = Inr ()"
    and dec: "decode d records = Inr h"
  shows "genome_ok h \<and> check_run ops h batch_sizes = Inr ()"
proof -
  note lim = make_decoder_limits [OF d]
  define t where "t = ts ! (record_byte (records ! 0) 0 mod length ts)"
  have t: "t \<in> set ts" using lim(4) by (simp add: t_def)
  obtain p g' nm tc where g': "fold_res (decode_record d p) (template_genome t) records = Inr g'" and h: "make_genome (g'\<lparr>testcase := tc, path_id := nm\<rparr>) = Inr h"
    using dec by (auto simp: decode_def Let_def lim(2) t_def [symmetric] split: if_splits)
  have fits: "\<forall>a \<in> set (actions (template_genome t)). value_fits (dec_ownership d) a"
  proof
    fix a
    assume a: "a \<in> set (actions (template_genome t))"
    have "check_run ops (template_genome t) batch_sizes = Inr ()" using run(2) t by blast
    then have "check_source_action ops (template_genome t) a = Inr ()" using a by (auto simp: check_run_def split: if_splits)
    then show "value_fits (dec_ownership d) a" by (simp add: check_source_action_fits run(1) lim(3))
  qed
  from decode_records_keep [OF lim(1) _ fits g'] ok t
  have k: "genome_ok g'" "shape g' = shape (template_genome t)" "\<forall>a \<in> set (actions g'). value_fits (dec_ownership d) a" by blast+
  have h': "h = g'\<lparr>testcase := tc, path_id := nm\<rparr>" "genome_checks h" using h by (auto simp: make_genome_Inr)
  have "genome_ok h" using k(1) h' by (simp add: genome_ok_def make_genome_Inr)
  moreover have "shape h = shape (template_genome t)" "\<forall>a \<in> set (actions h). value_fits (runner_ownership ops) a"
    using k(2,3) h' by (simp_all add: shape_def run(1) lim(3))
  ultimately show ?thesis using check_run_shape [of ops "template_genome t" batch_sizes h] run(2) t by blast
qed

theorem decoded_testcase_schedulable_witness:
  "\<exists>h. decode example_decoder example_records = Inr h \<and> genome_ok h \<and> check_run wide_runner h (Some [3, 2]) = Inr ()"
proof -
  note dl = make_decoder_legacy [OF example_decoder_made]
  have ok: "\<forall>t \<in> set example_templates. genome_ok (template_genome t)" using example_genome_ok by (simp add: example_templates_def)
  have 2: "1 \<le> length example_records" "int (length example_records) \<le> 200" "\<forall>r \<in> set example_records. length r = RECORD_BYTES"
    by (simp_all add: example_records_def RECORD_BYTES_def)
  have "default_paths example_graph ''t'' (genome_direction example_genome) = Inr [\<lparr>path_target = ''t'', source_ids = [''s1'', ''s2''], path_edges = []\<rparr>]"
    using example_paths by (simp add: default_paths_def example_genome_def)
  then obtain h where h: "decode example_decoder example_records = Inr h"
    using example_records_fold 2 dl rename_ok(1) [OF example_records_ok] by (simp add: decode_def Let_def paths_for_def path_name_def example_templates_def)
  have "runner_ownership wide_runner = example_map" by (simp add: wide_runner_def)
  from decoded_testcase_schedulable [OF example_decoder_made ok this example_templates_run h] h show ?thesis by blast
qed

end
